(* ===== verification/Prelude.thy ===== *)
theory Prelude
  imports Complex_Main "HOL-Library.Word" "HOL-Library.Multiset" "HOL-Library.AList"
begin

text \<open>
  Shared vocabulary of the development: the machine types the simulator uses, the result type
  in which every \<open>panic\<close>, every exception thrown by a bounds-checked container access and every
  undefined behaviour of the C++ code is a value, loops as folds in that result type, the two
  Hoare-style predicates the component proofs are written in (\<open>okE\<close>: whatever is returned
  satisfies P; \<open>totE\<close>: something is returned and it satisfies P), unsigned arithmetic with the
  wrap-around written out, and the facts about association lists that model
  \<open>std::unordered_map\<close>.
\<close>

unbundle bit_operations_syntax

type_synonym u8 = "8 word"
type_synonym u16 = "16 word"
type_synonym u32 = "32 word"
type_synonym u64 = "64 word"
type_synonym tick = u64

named_theorems res_simps \<open>equations of the result type and its loops\<close>
named_theorems okE_intro \<open>partial-correctness rules\<close>
named_theorems totE_intro \<open>total-correctness rules\<close>

subsection \<open>Results: panics, exceptions, undefined behaviour, divergence\<close>

datatype err =
    Panic string    \<comment> \<open>\<open>SimpleSSD::panic\<close>: the simulator aborts with a message\<close>
  | Throw string    \<comment> \<open>an exception of the standard library (\<open>std::vector::at\<close>)\<close>
  | UB string       \<comment> \<open>undefined behaviour of C++\<close>
  | Diverge         \<comment> \<open>a loop that has not ended with the steps it was given\<close>

type_synonym 'a res = "err + 'a"

definition bindE :: "'a res \<Rightarrow> ('a \<Rightarrow> 'b res) \<Rightarrow> 'b res" where
  "bindE m f = (case m of Inl e \<Rightarrow> Inl e | Inr x \<Rightarrow> f x)"

fun foldE :: "('a \<Rightarrow> 's \<Rightarrow> 's res) \<Rightarrow> 'a list \<Rightarrow> 's \<Rightarrow> 's res" where
  "foldE f [] s = Inr s"
| "foldE f (x # xs) s = bindE (f x s) (foldE f xs)"

definition guardE :: "bool \<Rightarrow> err \<Rightarrow> 'a res \<Rightarrow> 'a res" where
  "guardE c e m = (if c then m else Inl e)"

definition okE :: "('a \<Rightarrow> bool) \<Rightarrow> 'a res \<Rightarrow> bool" where
  "okE P m = (case m of Inl _ \<Rightarrow> True | Inr x \<Rightarrow> P x)"

definition totE :: "('a \<Rightarrow> bool) \<Rightarrow> 'a res \<Rightarrow> bool" where
  "totE P m = (case m of Inl _ \<Rightarrow> False | Inr x \<Rightarrow> P x)"

lemma bindE_simps [simp, res_simps]:
  "bindE (Inl e) f = Inl e"
  "bindE (Inr x) f = f x"
  by (simp_all add: bindE_def)

lemma bindE_Inr_iff: "bindE m f = Inr y \<longleftrightarrow> (\<exists>x. m = Inr x \<and> f x = Inr y)"
  by (cases m) auto

lemma bindE_InrE [elim!]:
  assumes "bindE m f = Inr y"
  obtains x where "m = Inr x" and "f x = Inr y"
  using assms by (auto simp: bindE_Inr_iff)

lemma bindE_assoc: "bindE (bindE m f) g = bindE m (\<lambda>x. bindE (f x) g)"
  by (cases m) auto

lemma guardE_simps [simp, res_simps]:
  "guardE True e m = m"
  "guardE False e m = Inl e"
  by (simp_all add: guardE_def)

lemma guardE_Inr_iff [simp]: "guardE c e m = Inr y \<longleftrightarrow> c \<and> m = Inr y"
  by (simp add: guardE_def)

lemma okE_simps [simp, res_simps]:
  "okE P (Inl e)"
  "okE P (Inr x) = P x"
  by (simp_all add: okE_def)

lemma totE_simps [simp, res_simps]:
  "\<not> totE P (Inl e)"
  "totE P (Inr x) = P x"
  by (simp_all add: totE_def)

lemma okE_iff: "okE P m \<longleftrightarrow> (\<forall>x. m = Inr x \<longrightarrow> P x)"
  by (cases m) auto

lemma totE_iff: "totE P m \<longleftrightarrow> (\<exists>x. m = Inr x \<and> P x)"
  by (cases m) auto

lemma okE_bind: "okE Q (bindE m f) \<longleftrightarrow> okE (\<lambda>x. okE Q (f x)) m"
  by (cases m) auto

lemma totE_bind: "totE Q (bindE m f) \<longleftrightarrow> totE (\<lambda>x. totE Q (f x)) m"
  by (cases m) auto

lemma okE_guard [simp]: "okE Q (guardE c e m) \<longleftrightarrow> (c \<longrightarrow> okE Q m)"
  by (simp add: guardE_def)

lemma totE_guard [simp]: "totE Q (guardE c e m) \<longleftrightarrow> c \<and> totE Q m"
  by (simp add: guardE_def)

lemma okE_bindI [okE_intro]:
  "okE P m \<Longrightarrow> (\<And>x. P x \<Longrightarrow> okE Q (f x)) \<Longrightarrow> okE Q (bindE m f)"
  by (cases m) auto

lemma totE_bindI [totE_intro]:
  "totE P m \<Longrightarrow> (\<And>x. P x \<Longrightarrow> totE Q (f x)) \<Longrightarrow> totE Q (bindE m f)"
  by (cases m) auto

lemma okE_bind_any: "(\<And>x. okE Q (f x)) \<Longrightarrow> okE Q (bindE m f)"
  by (cases m) auto

lemma okE_mono: "okE P m \<Longrightarrow> (\<And>x. P x \<Longrightarrow> Q x) \<Longrightarrow> okE Q m"
  by (cases m) auto

lemma totE_mono: "totE P m \<Longrightarrow> (\<And>x. P x \<Longrightarrow> Q x) \<Longrightarrow> totE Q m"
  by (cases m) auto

lemma totE_okE: "totE P m \<Longrightarrow> okE P m"
  by (cases m) auto

lemma okE_conj: "okE P m \<Longrightarrow> okE Q m \<Longrightarrow> okE (\<lambda>x. P x \<and> Q x) m"
  by (cases m) auto

lemma totE_conjI: "totE P m \<Longrightarrow> okE Q m \<Longrightarrow> totE (\<lambda>x. P x \<and> Q x) m"
  by (cases m) auto

text \<open>The loop rules: an invariant kept by every iteration holds after the loop.\<close>

lemma foldE_okE:
  assumes "P s" and "\<And>x s. x \<in> set xs \<Longrightarrow> P s \<Longrightarrow> okE P (f x s)"
  shows "okE P (foldE f xs s)"
  using assms
proof (induction xs arbitrary: s)
  case (Cons x xs)
  then show ?case by (auto intro!: okE_bindI [of P])
qed simp

lemma foldE_totE:
  assumes "P s" and "\<And>x s. x \<in> set xs \<Longrightarrow> P s \<Longrightarrow> totE P (f x s)"
  shows "totE P (foldE f xs s)"
  using assms
proof (induction xs arbitrary: s)
  case (Cons x xs)
  then show ?case by (auto intro!: totE_bindI [of P])
qed simp

text \<open>The indexed version, for loops whose invariant mentions how far they have come.\<close>

lemma foldE_okE_idx:
  assumes "P 0 s"
    and "\<And>i s. i < length xs \<Longrightarrow> P i s \<Longrightarrow> okE (P (Suc i)) (f (xs ! i) s)"
  shows "okE (P (length xs)) (foldE f xs s)"
  using assms
proof (induction xs arbitrary: s P)
  case (Cons x xs)
  have "okE (P (Suc 0)) (f x s)"
    using Cons.prems(2) [of 0] Cons.prems(1) by simp
  moreover have "okE (P (length (x # xs))) (foldE f xs t)" if "P (Suc 0) t" for t
    using Cons.IH [of "\<lambda>i. P (Suc i)" t] that Cons.prems(2) [of "Suc _"] by auto
  ultimately show ?case by (auto intro: okE_bindI)
qed simp

lemma foldE_totE_idx:
  assumes "P 0 s"
    and "\<And>i s. i < length xs \<Longrightarrow> P i s \<Longrightarrow> totE (P (Suc i)) (f (xs ! i) s)"
  shows "totE (P (length xs)) (foldE f xs s)"
  using assms
proof (induction xs arbitrary: s P)
  case (Cons x xs)
  have "totE (P (Suc 0)) (f x s)"
    using Cons.prems(2) [of 0] Cons.prems(1) by simp
  moreover have "totE (P (length (x # xs))) (foldE f xs t)" if "P (Suc 0) t" for t
    using Cons.IH [of "\<lambda>i. P (Suc i)" t] that Cons.prems(2) [of "Suc _"] by auto
  ultimately show ?case by (auto intro: totE_bindI)
qed simp

lemma foldE_append [res_simps]: "foldE f (xs @ ys) s = bindE (foldE f xs s) (foldE f ys)"
proof (induction xs arbitrary: s)
  case (Cons x xs)
  then have "foldE f (xs @ ys) = (\<lambda>t. bindE (foldE f xs t) (foldE f ys))" by blast
  then show ?case by (simp add: bindE_assoc)
qed simp

lemma foldE_map: "foldE (\<lambda>x. f (g x)) xs s = foldE f (map g xs) s"
proof (induction xs arbitrary: s)
  case (Cons x xs)
  then have "foldE (\<lambda>x. f (g x)) xs = foldE f (map g xs)" by blast
  then show ?case by simp
qed simp

subsection \<open>Interface: a stateful service and its specification\<close>

text \<open>
  A component that executes commands refines a specification on abstract values when every
  command takes related states to related states. What is proved here once is that the relation
  then holds along any sequence of commands.
\<close>

locale service =
  fixes exec :: "'c \<Rightarrow> 's \<Rightarrow> 's res" and rel :: "'a \<Rightarrow> 's \<Rightarrow> bool" and spec :: "'c \<Rightarrow> 'a \<Rightarrow> 'a"
  assumes exec_refines: "rel a s \<Longrightarrow> okE (rel (spec c a)) (exec c s)"
begin

lemma run_refines: "rel a s \<Longrightarrow> okE (rel (fold spec cs a)) (foldE exec cs s)"
proof (induction cs arbitrary: a s)
  case (Cons c cs)
  then show ?case by (auto intro: okE_bindI [OF exec_refines [OF Cons.prems]])
qed simp

lemma run_result: "rel a s \<Longrightarrow> foldE exec cs s = Inr s' \<Longrightarrow> rel (fold spec cs a) s'"
  using run_refines [of a s cs] by (simp add: okE_iff)

end

subsection \<open>Unsigned arithmetic on naturals\<close>

text \<open>
  Values of type \<open>uint32_t\<close> that index containers are naturals; where the code's arithmetic on
  them can wrap, the wrap-around is written with these operations.
\<close>

definition wrap32 :: "nat \<Rightarrow> nat" where
  "wrap32 n = n mod 2 ^ 32"

definition wrap64 :: "nat \<Rightarrow> nat" where
  "wrap64 n = n mod 2 ^ 64"

definition sub32 :: "nat \<Rightarrow> nat \<Rightarrow> nat" where
  "sub32 a b = (a + 2 ^ 32 - b) mod 2 ^ 32"

definition sub64 :: "nat \<Rightarrow> nat \<Rightarrow> nat" where
  "sub64 a b = (a + 2 ^ 64 - b) mod 2 ^ 64"

lemma wrap32_id [simp]: "n < 2 ^ 32 \<Longrightarrow> wrap32 n = n"
  by (simp add: wrap32_def)

lemma wrap32_bound [simp]: "wrap32 n < 2 ^ 32"
  by (simp add: wrap32_def)

lemma sub32_ge: "b \<le> a \<Longrightarrow> a < 2 ^ 32 \<Longrightarrow> sub32 a b = a - b"
  by (simp add: sub32_def mod_if)

lemma sub32_less: "a < b \<Longrightarrow> b < 2 ^ 32 \<Longrightarrow> sub32 a b = 2 ^ 32 - (b - a)"
  by (simp add: sub32_def)

text \<open>
  \<open>DIVCEIL(x, y)\<close> of \<open>util/algorithm.hh\<close>. For \<open>x = 0\<close> the macro computes \<open>(0 - 1) / y + 1\<close> with
  unsigned wrap-around; the model is the macro for \<open>0 < x\<close> only, as its lemmas say.
\<close>

definition DIVCEIL :: "nat \<Rightarrow> nat \<Rightarrow> nat" where
  "DIVCEIL x y = (x - 1) div y + 1"

lemma DIVCEIL_bounds:
  assumes "0 < x" and "0 < y"
  shows "x \<le> DIVCEIL x y * y" and "(DIVCEIL x y - 1) * y < x"
proof -
  have "(x - 1) mod y < y" using assms by simp
  moreover have "x - 1 = (x - 1) div y * y + (x - 1) mod y" by simp
  ultimately have "x - 1 < (x - 1) div y * y + y" by linarith
  then show "x \<le> DIVCEIL x y * y" by (simp add: DIVCEIL_def)
  have "(x - 1) div y * y \<le> x - 1" by simp
  then have "(x - 1) div y * y < x" using assms(1) by linarith
  then show "(DIVCEIL x y - 1) * y < x" by (simp add: DIVCEIL_def)
qed

subsection \<open>Lists and association lists\<close>

lemma nth_list_update_if: "i < length xs \<Longrightarrow> xs[i := v] ! j = (if i = j then v else xs ! j)"
  by simp

lemma map_of_distinct_mset:
  assumes "mset xs = mset ys" and "distinct (map fst xs)"
  shows "map_of xs = map_of ys"
proof -
  have s: "set xs = set ys" using assms(1) by (rule mset_eq_setD)
  have "mset (map fst xs) = mset (map fst ys)" using assms(1) by simp
  then have "distinct (map fst ys)" using assms(2) by (metis mset_eq_imp_distinct_iff)
  then show ?thesis
    using s assms(2) by (metis map_of_inject_set)
qed

lemma distinct_fst_mset:
  "mset xs = mset ys \<Longrightarrow> distinct (map fst xs) \<longleftrightarrow> distinct (map fst ys)"
  by (metis mset_eq_imp_distinct_iff mset_map)

lemma map_of_Some_in: "map_of xs k = Some v \<Longrightarrow> k \<in> set (map fst xs)"
  by (metis map_of_eq_None_iff option.distinct(1) set_map)

end
