(* ===== verification/Bitset.thy ===== *)
theory Bitset
  imports Prelude
begin

text \<open>
  \<open>src/simplessd/util/bitset.cc\<close> at the level of its bytes: a \<open>Bitset\<close> is an array of
  \<open>allocSize\<close> bytes of which the first \<open>dataSize\<close> bits are in use. The invariant
  \<open>bs_wf\<close> says that the array has the right size and that the padding bits of the last
  byte are zero, which is what makes \<open>none\<close>, \<open>any\<close> and \<open>count\<close> right although they look at
  whole bytes. The refinement is to lists of booleans (\<open>bs_list\<close>).
\<close>

record Bitset =
  bs_data :: "u8 list"
  bs_size :: nat
  bs_alloc :: nat

definition Bitset_new :: "nat \<Rightarrow> Bitset" where
  "Bitset_new n =
     (if n > 0
      then \<lparr>bs_data = replicate (DIVCEIL n 8) 0, bs_size = n, bs_alloc = DIVCEIL n 8\<rparr>
      else \<lparr>bs_data = [], bs_size = 0, bs_alloc = 0\<rparr>)"

text \<open>
  The byte-wise population count (\<open>popcount<uint8_t>\<close> of \<open>util/algorithm.hh\<close>): the masks
  \<open>(T)~(T)0 / 3\<close>, \<open>/ 15 * 3\<close> and \<open>/ 255 * 15\<close> are 85, 51 and 15, the last multiplication is by
  1 and the last shift by 0.
\<close>

definition popcount :: "u8 \<Rightarrow> u8" where
  "popcount v0 =
     (let v1 = v0 - (drop_bit 1 v0 AND 85);
          v2 = (v1 AND 51) + (drop_bit 2 v1 AND 51);
          v3 = (v2 + drop_bit 4 v2) AND 15
      in v3 * 1)"

definition bs_test :: "Bitset \<Rightarrow> nat \<Rightarrow> bool" where
  "bs_test b idx \<longleftrightarrow> bs_data b ! (idx div 8) AND push_bit (idx mod 8) 1 \<noteq> 0"

definition bs_all :: "Bitset \<Rightarrow> bool" where
  "bs_all b =
     (let mask = push_bit (bs_size b + 8 - bs_alloc b * 8) 255;
          ret = fold (\<lambda>d r. r AND d) (take (bs_alloc b - 1) (bs_data b)) 255
      in ret AND (bs_data b ! (bs_alloc b - 1) OR mask) = (255 :: u8))"

definition bs_none :: "Bitset \<Rightarrow> bool" where
  "bs_none b \<longleftrightarrow> fold (\<lambda>d r. r OR d) (bs_data b) 0 = 0"

definition bs_any :: "Bitset \<Rightarrow> bool" where
  "bs_any b \<longleftrightarrow> \<not> bs_none b"

definition bs_count :: "Bitset \<Rightarrow> nat" where
  "bs_count b = fold (\<lambda>d n. n + unat (popcount d)) (bs_data b) 0"

definition bs_set_all :: "Bitset \<Rightarrow> Bitset" where
  "bs_set_all b =
     (let mask = drop_bit (bs_alloc b * 8 - bs_size b) 255
      in b\<lparr>bs_data := (replicate (bs_alloc b - 1) 255) @ [mask]\<rparr>)"

definition bs_reset :: "Bitset \<Rightarrow> nat \<Rightarrow> Bitset" where
  "bs_reset b idx =
     b\<lparr>bs_data := (bs_data b)[idx div 8 :=
          bs_data b ! (idx div 8) AND NOT (push_bit (idx mod 8) 1)]\<rparr>"

definition bs_set :: "Bitset \<Rightarrow> nat \<Rightarrow> bool \<Rightarrow> Bitset" where
  "bs_set b idx value =
     (let b' = b\<lparr>bs_data := (bs_data b)[idx div 8 :=
                  bs_data b ! (idx div 8) AND NOT (push_bit (idx mod 8) 1)]\<rparr>
      in if value
         then b'\<lparr>bs_data := (bs_data b')[idx div 8 :=
                  bs_data b' ! (idx div 8) OR push_bit (idx mod 8) 1]\<rparr>
         else b')"

definition bs_reset_all :: "Bitset \<Rightarrow> Bitset" where
  "bs_reset_all b = b\<lparr>bs_data := map (\<lambda>_. 0) (bs_data b)\<rparr>"

definition bs_flip_all :: "Bitset \<Rightarrow> Bitset" where
  "bs_flip_all b =
     (let mask = drop_bit (bs_alloc b * 8 - bs_size b) 255;
          d = map NOT (bs_data b)
      in b\<lparr>bs_data := d[bs_alloc b - 1 := d ! (bs_alloc b - 1) AND mask]\<rparr>)"

definition bs_flip :: "Bitset \<Rightarrow> nat \<Rightarrow> Bitset" where
  "bs_flip b idx =
     (let d = bs_data b ! (idx div 8); m = push_bit (idx mod 8) 1
      in b\<lparr>bs_data := (bs_data b)[idx div 8 := (NOT d AND m) OR (d AND NOT m)]\<rparr>)"

definition bs_zip :: "(u8 \<Rightarrow> u8 \<Rightarrow> u8) \<Rightarrow> Bitset \<Rightarrow> Bitset \<Rightarrow> Bitset res" where
  "bs_zip f a b =
     guardE (bs_size a = bs_size b) (Panic ''Size does not match'')
       (Inr (a\<lparr>bs_data := map2 f (bs_data a) (bs_data b)\<rparr>))"

definition bs_and :: "Bitset \<Rightarrow> Bitset \<Rightarrow> Bitset res" where
  "bs_and = bs_zip (\<lambda>x y. x AND y)"

definition bs_or :: "Bitset \<Rightarrow> Bitset \<Rightarrow> Bitset res" where
  "bs_or = bs_zip (\<lambda>x y. x OR y)"

definition bs_xor :: "Bitset \<Rightarrow> Bitset \<Rightarrow> Bitset res" where
  "bs_xor = bs_zip (\<lambda>x y. x XOR y)"

definition bs_not :: "Bitset \<Rightarrow> Bitset" where
  "bs_not b = bs_flip_all b"

definition bs_eq :: "Bitset \<Rightarrow> Bitset \<Rightarrow> bool res" where
  "bs_eq a b =
     guardE (bs_size a = bs_size b) (Panic ''Size does not match'') (Inr (bs_data a = bs_data b))"

subsection \<open>Invariant and abstraction\<close>

definition bs_wf :: "Bitset \<Rightarrow> bool" where
  "bs_wf b \<longleftrightarrow> 0 < bs_size b \<and> bs_alloc b = DIVCEIL (bs_size b) 8 \<and>
     length (bs_data b) = bs_alloc b \<and>
     (\<forall>i. bs_size b \<le> i \<longrightarrow> i < 8 * bs_alloc b \<longrightarrow> \<not> bs_test b i)"

definition bs_list :: "Bitset \<Rightarrow> bool list" where
  "bs_list b = map (bs_test b) [0..<bs_size b]"

lemma bs_test_bit: "bs_test b i = bit (bs_data b ! (i div 8)) (i mod 8)"
  by (simp add: bs_test_def bit_iff_and_push_bit_not_eq_0)

lemma bs_wf_alloc:
  assumes "bs_wf b"
  shows "bs_size b \<le> 8 * bs_alloc b" and "8 * bs_alloc b < bs_size b + 8" and "0 < bs_alloc b"
  using assms DIVCEIL_bounds [of "bs_size b" 8]
  by (auto simp: bs_wf_def DIVCEIL_def)

lemma bs_wf_div: "bs_wf b \<Longrightarrow> i < bs_size b \<Longrightarrow> i div 8 < length (bs_data b)"
  using bs_wf_alloc [of b] by (auto simp: bs_wf_def)

lemma u8_eqI: "(\<And>k. k < 8 \<Longrightarrow> bit (v :: u8) k = bit w k) \<Longrightarrow> v = w"
  by (rule bit_word_eqI) simp

lemma div_mod_8_eq: "j div 8 = i div 8 \<and> j mod 8 = i mod 8 \<longleftrightarrow> j = (i :: nat)"
  by (metis div_mult_mod_eq)

lemma u8_mod_less [simp]: "(i :: nat) mod 8 < 8"
  by simp

subsection \<open>Reading back what the single-bit operations wrote\<close>

lemma bs_set_fields [simp]:
  "bs_size (bs_set b i v) = bs_size b" "bs_alloc (bs_set b i v) = bs_alloc b"
  "length (bs_data (bs_set b i v)) = length (bs_data b)"
  "bs_size (bs_reset b i) = bs_size b" "bs_alloc (bs_reset b i) = bs_alloc b"
  "length (bs_data (bs_reset b i)) = length (bs_data b)"
  "bs_size (bs_flip b i) = bs_size b" "bs_alloc (bs_flip b i) = bs_alloc b"
  "length (bs_data (bs_flip b i)) = length (bs_data b)"
  by (simp_all add: bs_set_def bs_reset_def bs_flip_def Let_def)

lemma bs_all_fields [simp]:
  "bs_size (bs_set_all b) = bs_size b" "bs_alloc (bs_set_all b) = bs_alloc b"
  "bs_size (bs_reset_all b) = bs_size b" "bs_alloc (bs_reset_all b) = bs_alloc b"
  "length (bs_data (bs_reset_all b)) = length (bs_data b)"
  "bs_size (bs_flip_all b) = bs_size b" "bs_alloc (bs_flip_all b) = bs_alloc b"
  "length (bs_data (bs_flip_all b)) = length (bs_data b)"
  by (simp_all add: bs_set_all_def bs_reset_all_def bs_flip_all_def Let_def)

lemma bs_set_all_length: "0 < bs_alloc b \<Longrightarrow> length (bs_data (bs_set_all b)) = bs_alloc b"
  by (simp add: bs_set_all_def Let_def)

lemma bit_1_u8 [simp]: "bit (1 :: u8) n \<longleftrightarrow> n = 0"
  by (simp add: bit_1_iff)

lemma bit_single_u8 [simp]: "k < 8 \<Longrightarrow> bit (2 ^ i :: u8) k \<longleftrightarrow> i = k"
  by (auto simp: bit_exp_iff possible_bit_word)

lemma bs_test_update_byte:
  assumes "i div 8 < length (bs_data b)"
    and "\<And>k. k < 8 \<Longrightarrow> bit w k = (if k = i mod 8 then v else bit (bs_data b ! (i div 8)) k)"
  shows "bs_test (b\<lparr>bs_data := (bs_data b)[i div 8 := w]\<rparr>) j = (if j = i then v else bs_test b j)"
  using assms div_mod_8_eq [of j i]
  by (auto simp: bs_test_bit nth_list_update_if)

lemma bs_test_reset:
  "i div 8 < length (bs_data b) \<Longrightarrow> bs_test (bs_reset b i) j = (j \<noteq> i \<and> bs_test b j)"
  unfolding bs_reset_def
  by (subst bs_test_update_byte [where v = False])
    (auto simp: bit_and_iff bit_not_iff)

lemma bs_set_byte:
  "i div 8 < length (bs_data b) \<Longrightarrow>
   bs_set b i v = b\<lparr>bs_data := (bs_data b)[i div 8 :=
     (let w = bs_data b ! (i div 8) AND NOT (push_bit (i mod 8) 1)
      in if v then w OR push_bit (i mod 8) 1 else w)]\<rparr>"
  by (simp add: bs_set_def Let_def)

lemma bs_test_set:
  "i div 8 < length (bs_data b) \<Longrightarrow> bs_test (bs_set b i v) j = (if j = i then v else bs_test b j)"
  by (subst bs_set_byte, assumption, subst bs_test_update_byte [where v = v])
    (auto simp: bit_and_iff bit_not_iff bit_or_iff Let_def)

lemma bs_test_flip:
  "i div 8 < length (bs_data b) \<Longrightarrow>
   bs_test (bs_flip b i) j = (if j = i then \<not> bs_test b j else bs_test b j)"
  unfolding bs_flip_def Let_def
  by (subst bs_test_update_byte [where v = "\<not> bs_test b i"])
    (auto simp: bit_and_iff bit_not_iff bit_or_iff bs_test_bit)

lemma bs_reset_as_set: "bs_reset b i = bs_set b i False"
  by (simp add: bs_set_def bs_reset_def)

lemma bs_wf_set:
  assumes "bs_wf b" and "i < bs_size b"
  shows "bs_wf (bs_set b i v)"
  using assms bs_wf_div [OF assms] by (auto simp: bs_wf_def bs_test_set)

lemma bs_wf_reset: "bs_wf b \<Longrightarrow> i < bs_size b \<Longrightarrow> bs_wf (bs_reset b i)"
  by (simp add: bs_reset_as_set bs_wf_set)

lemma bs_wf_flip:
  assumes "bs_wf b" and "i < bs_size b"
  shows "bs_wf (bs_flip b i)"
  using assms bs_wf_div [OF assms] by (auto simp: bs_wf_def bs_test_flip)

subsection \<open>Whole-set operations\<close>

lemma bs_test_new [simp]: "i < n \<Longrightarrow> \<not> bs_test (Bitset_new n) i"
proof -
  assume "i < n"
  then have "i div 8 < DIVCEIL n 8"
    by (auto simp: DIVCEIL_def less_Suc_eq_le intro!: div_le_mono)
  then show ?thesis using \<open>i < n\<close> by (auto simp: Bitset_new_def bs_test_bit)
qed

lemma bs_test_reset_all: "i div 8 < length (bs_data b) \<Longrightarrow> \<not> bs_test (bs_reset_all b) i"
  by (simp add: bs_reset_all_def bs_test_bit)

lemma bs_wf_new: "0 < n \<Longrightarrow> bs_wf (Bitset_new n)"
  by (auto simp: bs_wf_def Bitset_new_def bs_test_bit)

lemma bs_wf_reset_all: "bs_wf b \<Longrightarrow> bs_wf (bs_reset_all b)"
  by (auto simp: bs_wf_def bs_test_reset_all)

lemma last_byte_bit:
  assumes "bs_wf b" and "i < 8 * bs_alloc b" and "i div 8 = bs_alloc b - 1"
  shows "i < bs_size b \<longleftrightarrow> i mod 8 < 8 - (8 * bs_alloc b - bs_size b)"
proof -
  have "i = 8 * (i div 8) + i mod 8" by simp
  then show ?thesis using assms bs_wf_alloc [OF assms(1)] by linarith
qed

lemma bit_mask_u8: "k < 8 \<Longrightarrow> n \<le> 8 \<Longrightarrow> bit (drop_bit n (255 :: u8)) k \<longleftrightarrow> k < 8 - n"
proof -
  assume k: "k < 8" and n: "n \<le> 8"
  have "(255 :: u8) = mask 8" by (simp add: mask_eq_exp_minus_1)
  then have "bit (drop_bit n (255 :: u8)) k \<longleftrightarrow> n + k < 8"
    by (simp only: bit_drop_bit_eq bit_mask_iff comp_def possible_bit_word) simp
  then show ?thesis using k n by linarith
qed

lemma not_last_byte:
  assumes "bs_wf b" and "i < 8 * bs_alloc b" and "i div 8 \<noteq> bs_alloc b - 1"
  shows "i < bs_size b" and "i div 8 < bs_alloc b - 1"
proof -
  have d: "i = 8 * (i div 8) + i mod 8" and m: "i mod 8 < 8" by simp_all
  show lt: "i div 8 < bs_alloc b - 1" using assms d by linarith
  show "i < bs_size b" using lt d m bs_wf_alloc [OF assms(1)] by linarith
qed

lemma bs_test_set_all:
  assumes wf: "bs_wf b" and i: "i < 8 * bs_alloc b"
  shows "bs_test (bs_set_all b) i = (i < bs_size b)"
proof (cases "i div 8 = bs_alloc b - 1")
  case True
  have n: "8 * bs_alloc b - bs_size b \<le> 8" using bs_wf_alloc [OF wf] by linarith
  have "bs_test (bs_set_all b) i = bit (drop_bit (8 * bs_alloc b - bs_size b) (255 :: u8)) (i mod 8)"
    using True by (simp add: bs_test_bit bs_set_all_def nth_append mult.commute)
  then show ?thesis
    using last_byte_bit [OF wf i True] bit_mask_u8 [OF u8_mod_less n] by simp
next
  case False
  then show ?thesis
    using not_last_byte [OF wf i] bit_mask_u8 [of "i mod 8" 0]
    by (simp add: bs_test_bit bs_set_all_def nth_append)
qed

lemma bs_wf_set_all: "bs_wf b \<Longrightarrow> bs_wf (bs_set_all b)"
  using bs_wf_alloc [of b] bs_test_set_all [of b] bs_set_all_length [of b]
  by (auto simp: bs_wf_def)

lemma bs_test_flip_all:
  assumes wf: "bs_wf b" and i: "i < 8 * bs_alloc b"
  shows "bs_test (bs_flip_all b) i = (i < bs_size b \<and> \<not> bs_test b i)"
proof (cases "i div 8 = bs_alloc b - 1")
  case True
  have n: "8 * bs_alloc b - bs_size b \<le> 8" using bs_wf_alloc [OF wf] by linarith
  have l: "bs_alloc b - 1 < length (bs_data b)" using wf bs_wf_alloc [OF wf] by (simp add: bs_wf_def)
  have "bs_test (bs_flip_all b) i \<longleftrightarrow>
      \<not> bs_test b i \<and> bit (drop_bit (8 * bs_alloc b - bs_size b) (255 :: u8)) (i mod 8)"
    using True l by (auto simp: bs_test_bit bs_flip_all_def bit_and_iff bit_not_iff mult.commute)
  then show ?thesis
    using last_byte_bit [OF wf i True] bit_mask_u8 [OF u8_mod_less n] by auto
next
  case False
  moreover have "i div 8 < length (bs_data b)" using wf i by (auto simp: bs_wf_def)
  ultimately show ?thesis
    using not_last_byte [OF wf i] by (auto simp: bs_test_bit bs_flip_all_def bit_not_iff Let_def)
qed

lemma bs_wf_flip_all: "bs_wf b \<Longrightarrow> bs_wf (bs_flip_all b)"
  using bs_wf_alloc [of b] bs_test_flip_all [of b] by (auto simp: bs_wf_def)

subsection \<open>Whole-set observations\<close>

definition bits_of :: "u8 list \<Rightarrow> bool list" where
  "bits_of ds = concat (map (\<lambda>d. map (bit d) [0..<8]) ds)"

lemma bits_of_simps [simp]:
  "bits_of [] = []"
  "bits_of (d # ds) = map (bit d) [0..<8] @ bits_of ds"
  by (simp_all add: bits_of_def)

lemma length_bits_of [simp]: "length (bits_of ds) = 8 * length ds"
  by (induction ds) auto

lemma nth_bits_of: "i < 8 * length ds \<Longrightarrow> bits_of ds ! i = bit (ds ! (i div 8)) (i mod 8)"
proof (induction ds arbitrary: i)
  case (Cons d ds)
  show ?case
  proof (cases "i < 8")
    case True
    then show ?thesis by (simp add: nth_append)
  next
    case False
    then obtain j where j: "i = j + 8" by (metis add.commute le_Suc_ex not_less)
    then show ?thesis using Cons by (simp add: nth_append)
  qed
qed simp

lemma bs_list_bits: "bs_wf b \<Longrightarrow> bs_list b = take (bs_size b) (bits_of (bs_data b))"
  using bs_wf_alloc [of b]
  by (intro nth_equalityI) (auto simp: bs_list_def bs_wf_def nth_bits_of bs_test_bit)

lemma bits_beyond:
  assumes "bs_wf b" and "x \<in> set (drop (bs_size b) (bits_of (bs_data b)))"
  shows "\<not> x"
proof -
  obtain j where j: "j < length (drop (bs_size b) (bits_of (bs_data b)))"
    and x: "x = drop (bs_size b) (bits_of (bs_data b)) ! j"
    using assms(2) by (metis in_set_conv_nth)
  have b: "bs_size b + j < 8 * bs_alloc b"
    using j assms(1) by (auto simp: bs_wf_def)
  then have "x = bs_test b (bs_size b + j)"
    using x j assms(1) by (simp add: nth_bits_of bs_test_bit bs_wf_def)
  then show ?thesis using b assms(1) by (simp add: bs_wf_def)
qed

lemma bits_split: "bs_wf b \<Longrightarrow> bits_of (bs_data b) = bs_list b @ drop (bs_size b) (bits_of (bs_data b))"
  by (simp add: bs_list_bits)

lemma fold_or_zero: "fold (\<lambda>d r. r OR d) ds (r :: u8) = 0 \<longleftrightarrow> r = 0 \<and> (\<forall>d\<in>set ds. d = 0)"
  by (induction ds arbitrary: r) (auto simp: or_eq_0_iff)

lemma byte_zero_bits: "(d :: u8) = 0 \<longleftrightarrow> True \<notin> set (map (bit d) [0..<8])"
proof
  assume "True \<notin> set (map (bit d) [0..<8])"
  then show "d = 0" by (intro u8_eqI) auto
qed simp

lemma zero_bytes_bits: "(\<forall>d\<in>set ds. d = 0) \<longleftrightarrow> True \<notin> set (bits_of ds)"
  by (induction ds) (simp_all add: byte_zero_bits del: upt_Suc)

lemma bs_none_list: "bs_wf b \<Longrightarrow> bs_none b \<longleftrightarrow> True \<notin> set (bs_list b)"
  unfolding bs_none_def fold_or_zero zero_bytes_bits
  by (subst bits_split, assumption) (auto dest: bits_beyond)

lemma bs_any_list: "bs_wf b \<Longrightarrow> bs_any b \<longleftrightarrow> True \<in> set (bs_list b)"
  by (simp add: bs_any_def bs_none_list)

lemma bs_any_ex: "bs_wf b \<Longrightarrow> bs_any b \<longleftrightarrow> (\<exists>i<bs_size b. bs_test b i)"
  by (auto simp: bs_any_list bs_list_def image_iff)

lemma popcount_table:
  "\<forall>n\<in>set [0..<256]. unat (popcount (word_of_nat n)) = length (filter (bit (word_of_nat n :: u8)) [0..<8])"
  by code_simp

lemma popcount_bits: "unat (popcount d) = length (filter id (map (bit d) [0..<8]))"
proof -
  have "unat d < 2 ^ LENGTH(8)" by (rule unsigned_less)
  then have "unat d \<in> set [0..<256]" by (simp del: upt_Suc)
  from popcount_table [THEN bspec, OF this]
  have "unat (popcount (word_of_nat (unat d))) = length (filter (bit (word_of_nat (unat d) :: u8)) [0..<8])" .
  then show ?thesis by (simp add: filter_map comp_def del: upt_Suc)
qed

lemma fold_popcount:
  "fold (\<lambda>d n. n + unat (popcount d)) ds n = n + length (filter id (bits_of ds))"
  by (induction ds arbitrary: n) (simp_all add: popcount_bits del: upt_Suc)

lemma filter_id_False: "(\<And>x. x \<in> set xs \<Longrightarrow> \<not> x) \<Longrightarrow> filter id xs = []"
  by (induction xs) auto

lemma bs_count_list: "bs_wf b \<Longrightarrow> bs_count b = length (filter id (bs_list b))"
  unfolding bs_count_def fold_popcount
  by (subst bits_split, assumption)
    (simp add: filter_id_False [OF bits_beyond])

lemma bs_count_zero: "bs_wf b \<Longrightarrow> bs_count b = 0 \<longleftrightarrow> \<not> bs_any b"
  by (auto simp: bs_count_list bs_any_list filter_empty_conv)

lemma bs_count_le: "bs_wf b \<Longrightarrow> bs_count b \<le> bs_size b"
  using length_filter_le [of id "bs_list b"] by (simp add: bs_count_list bs_list_def)

lemma u8_full: "(d :: u8) = 255 \<longleftrightarrow> (\<forall>k<8. bit d k)"
proof
  assume "d = 255"
  then show "\<forall>k<8. bit d k" using bit_mask_u8 [of _ 0] by simp
next
  assume "\<forall>k<8. bit d k"
  then show "d = 255" using bit_mask_u8 [of _ 0] by (intro u8_eqI) simp
qed

lemma fold_and_full: "fold (\<lambda>d r. r AND d) ds (r :: u8) = 255 \<longleftrightarrow> r = 255 \<and> (\<forall>d\<in>set ds. d = 255)"
  by (induction ds arbitrary: r) (auto simp: u8_full bit_and_iff)

lemma and_full: "(v :: u8) AND w = 255 \<longleftrightarrow> v = 255 \<and> w = 255"
  by (auto simp: u8_full bit_and_iff)

lemma all_test_split:
  assumes wf: "bs_wf b"
  shows "(\<forall>i<bs_size b. bs_test b i) \<longleftrightarrow>
     (\<forall>q<bs_alloc b - 1. \<forall>k<8. bit (bs_data b ! q) k) \<and>
     (\<forall>k<8. k < 8 - (8 * bs_alloc b - bs_size b) \<longrightarrow> bit (bs_data b ! (bs_alloc b - 1)) k)"
    (is "?L \<longleftrightarrow> ?A \<and> ?B")
proof
  note al = bs_wf_alloc [OF wf]
  assume L: ?L
  have ?A
  proof (intro allI impI)
    fix q k :: nat assume "q < bs_alloc b - 1" "k < 8"
    then have "8 * q + k < bs_size b" using al by linarith
    with L have "bs_test b (8 * q + k)" by blast
    then show "bit (bs_data b ! q) k" using \<open>k < 8\<close> by (simp add: bs_test_bit)
  qed
  moreover have ?B
  proof (intro allI impI)
    fix k :: nat assume k: "k < 8" "k < 8 - (8 * bs_alloc b - bs_size b)"
    then have "8 * (bs_alloc b - 1) + k < bs_size b" using al by linarith
    with L have "bs_test b (8 * (bs_alloc b - 1) + k)" by blast
    then show "bit (bs_data b ! (bs_alloc b - 1)) k" using k by (simp add: bs_test_bit)
  qed
  ultimately show "?A \<and> ?B" ..
next
  assume R: "?A \<and> ?B"
  show ?L
  proof (intro allI impI)
    fix i assume i: "i < bs_size b"
    then have i8: "i < 8 * bs_alloc b" using bs_wf_alloc [OF wf] by linarith
    show "bs_test b i"
      using R i last_byte_bit [OF wf i8] not_last_byte [OF wf i8]
      by (cases "i div 8 = bs_alloc b - 1") (auto simp: bs_test_bit)
  qed
qed

lemma bs_all_iff:
  assumes wf: "bs_wf b"
  shows "bs_all b \<longleftrightarrow> (\<forall>i<bs_size b. bs_test b i)"
proof -
  note al = bs_wf_alloc [OF wf]
  have len: "length (bs_data b) = bs_alloc b" using wf by (simp add: bs_wf_def)
  have m: "bit (push_bit (bs_size b + 8 - bs_alloc b * 8) (255 :: u8)) k \<longleftrightarrow>
      \<not> k < 8 - (8 * bs_alloc b - bs_size b)" if "k < 8" for k
    using that al bit_mask_u8 [of "k - (bs_size b + 8 - bs_alloc b * 8)" 0]
    by (auto simp: bit_push_bit_iff)
  have "(\<forall>d\<in>set (take (bs_alloc b - 1) (bs_data b)). d = 255) \<longleftrightarrow>
      (\<forall>q<bs_alloc b - 1. \<forall>k<8. bit (bs_data b ! q) k)"
    using len by (auto simp: set_conv_nth u8_full)
  moreover have "(bs_data b ! (bs_alloc b - 1) OR push_bit (bs_size b + 8 - bs_alloc b * 8) 255) = 255 \<longleftrightarrow>
      (\<forall>k<8. k < 8 - (8 * bs_alloc b - bs_size b) \<longrightarrow> bit (bs_data b ! (bs_alloc b - 1)) k)"
    using m by (auto simp: u8_full bit_or_iff)
  ultimately show ?thesis
    unfolding all_test_split [OF wf] bs_all_def Let_def and_full fold_and_full by blast
qed

subsection \<open>Combining two sets\<close>

lemma bs_zip_ok:
  assumes "bs_wf a" and "bs_wf b" and "bs_size a = bs_size b"
    and bitf: "\<And>v w k. k < 8 \<Longrightarrow> bit (f v w) k = g (bit v k) (bit w k)" and "\<not> g False False"
  obtains c where "bs_zip f a b = Inr c" and "bs_wf c" and "bs_size c = bs_size a"
    and "\<And>i. i < bs_size a \<Longrightarrow> bs_test c i = g (bs_test a i) (bs_test b i)"
proof -
  define c where "c = a\<lparr>bs_data := map2 f (bs_data a) (bs_data b)\<rparr>"
  have al: "bs_alloc a = bs_alloc b" using assms by (simp add: bs_wf_def)
  have t: "bs_test c i = g (bs_test a i) (bs_test b i)" if "i < 8 * bs_alloc a" for i
    using that assms(1,2) al bitf [of "i mod 8"] by (auto simp: c_def bs_test_bit bs_wf_def)
  have "bs_wf c"
    using assms(1,2,3,5) t al by (auto simp: bs_wf_def c_def)
  moreover have "bs_test c i = g (bs_test a i) (bs_test b i)" if "i < bs_size a" for i
    using that t bs_wf_alloc [OF assms(1)] by simp
  moreover have "bs_zip f a b = Inr c" and "bs_size c = bs_size a"
    using assms(3) by (simp_all add: bs_zip_def c_def)
  ultimately show ?thesis using that by blast
qed

lemma bs_and_ok:
  assumes "bs_wf a" and "bs_wf b" and "bs_size a = bs_size b"
  obtains c where "bs_and a b = Inr c" and "bs_wf c" and "bs_size c = bs_size a"
    and "\<And>i. i < bs_size a \<Longrightarrow> bs_test c i = (bs_test a i \<and> bs_test b i)"
  using bs_zip_ok [OF assms, where f = "\<lambda>x y. x AND y" and g = "(\<and>)"]
  by (auto simp: bs_and_def bit_and_iff)

lemma bs_or_ok:
  assumes "bs_wf a" and "bs_wf b" and "bs_size a = bs_size b"
  obtains c where "bs_or a b = Inr c" and "bs_wf c" and "bs_size c = bs_size a"
    and "\<And>i. i < bs_size a \<Longrightarrow> bs_test c i = (bs_test a i \<or> bs_test b i)"
  using bs_zip_ok [OF assms, where f = "\<lambda>x y. x OR y" and g = "(\<or>)"]
  by (auto simp: bs_or_def bit_or_iff)

lemma bs_wf_ext:
  assumes "bs_wf a" and "bs_wf b" and "bs_size a = bs_size b"
    and "\<And>i. i < bs_size a \<Longrightarrow> bs_test a i = bs_test b i"
  shows "a = b"
proof -
  have al: "bs_alloc a = bs_alloc b" using assms(1-3) by (simp add: bs_wf_def)
  have t: "bs_test a i = bs_test b i" if "i < 8 * bs_alloc a" for i
    using assms that al by (cases "i < bs_size a") (auto simp: bs_wf_def)
  have "bs_data a = bs_data b"
  proof (rule nth_equalityI)
    show "length (bs_data a) = length (bs_data b)" using assms(1,2) al by (simp add: bs_wf_def)
  next
    fix q assume "q < length (bs_data a)"
    then have q: "8 * q + k < 8 * bs_alloc a" if "k < 8" for k
      using that assms(1) by (simp add: bs_wf_def)
    show "bs_data a ! q = bs_data b ! q"
    proof (rule u8_eqI)
      fix k :: nat assume "k < 8"
      then show "bit (bs_data a ! q) k = bit (bs_data b ! q) k"
        using t [OF q] by (simp add: bs_test_bit)
    qed
  qed
  then show ?thesis using al assms(3) by (cases a, cases b) simp
qed

subsection \<open>The interface the clients use\<close>

text \<open>
  What \<open>Block\<close> and the mapping layer rely on: a fixed number of bits that can be read back.
  Everything they need about whole-set operations follows from these laws.
\<close>

locale bit_container =
  fixes wf :: "'b \<Rightarrow> bool" and len :: "'b \<Rightarrow> nat" and get :: "'b \<Rightarrow> nat \<Rightarrow> bool"
    and put :: "'b \<Rightarrow> nat \<Rightarrow> bool \<Rightarrow> 'b" and fill :: "'b \<Rightarrow> 'b" and clear :: "'b \<Rightarrow> 'b"
    and some :: "'b \<Rightarrow> bool" and number :: "'b \<Rightarrow> nat"
  assumes get_put: "wf b \<Longrightarrow> i < len b \<Longrightarrow> get (put b i v) j = (if j = i then v else get b j)"
    and get_fill: "wf b \<Longrightarrow> i < len b \<Longrightarrow> get (fill b) i"
    and get_clear: "wf b \<Longrightarrow> i < len b \<Longrightarrow> \<not> get (clear b) i"
    and some_iff: "wf b \<Longrightarrow> some b \<longleftrightarrow> (\<exists>i<len b. get b i)"
    and number_eq: "wf b \<Longrightarrow> number b = card {i. i < len b \<and> get b i}"
    and len_ops: "len (put b i v) = len b" "len (fill b) = len b" "len (clear b) = len b"
    and wf_put: "wf b \<Longrightarrow> i < len b \<Longrightarrow> wf (put b i v)"
    and wf_fill: "wf b \<Longrightarrow> wf (fill b)"
    and wf_clear: "wf b \<Longrightarrow> wf (clear b)"
begin

lemma number_zero: "wf b \<Longrightarrow> number b = 0 \<longleftrightarrow> \<not> some b"
  by (auto simp: number_eq some_iff)

lemma number_clear: "wf b \<Longrightarrow> number (clear b) = 0"
  using wf_clear [of b] by (simp add: number_eq get_clear len_ops)

lemma number_fill: "wf b \<Longrightarrow> number (fill b) = len b"
proof -
  assume b: "wf b"
  then have "{i. i < len (fill b) \<and> get (fill b) i} = {..<len b}"
    by (auto simp: len_ops get_fill)
  then show ?thesis using wf_fill [OF b] by (simp add: number_eq)
qed

lemma number_put:
  assumes b: "wf b" and i: "i < len b"
  shows "number (put b i True) = (if get b i then number b else Suc (number b))"
    and "number (put b i False) = (if get b i then number b - 1 else number b)"
proof -
  let ?S = "{j. j < len b \<and> get b j}"
  have "number (put b i True) = card (insert i ?S)"
    using b i wf_put [OF b i] by (auto simp: number_eq len_ops get_put intro!: arg_cong [of _ _ card])
  then show "number (put b i True) = (if get b i then number b else Suc (number b))"
    using i b by (auto simp: number_eq card_insert_if)
  have "number (put b i False) = card (?S - {i})"
    using b i wf_put [OF b i] by (auto simp: number_eq len_ops get_put intro!: arg_cong [of _ _ card])
  then show "number (put b i False) = (if get b i then number b - 1 else number b)"
    using i b by (auto simp: number_eq card_Diff_singleton_if)
qed

end

lemma bs_count_card: "bs_wf b \<Longrightarrow> bs_count b = card {i. i < bs_size b \<and> bs_test b i}"
proof -
  assume "bs_wf b"
  then have "bs_count b = length (filter (bs_test b) [0..<bs_size b])"
    by (simp add: bs_count_list bs_list_def filter_map comp_def)
  also have "\<dots> = card (set (filter (bs_test b) [0..<bs_size b]))"
    by (rule distinct_card [symmetric]) simp
  finally show ?thesis by simp
qed

lemma bs_inrange: "bs_wf b \<Longrightarrow> i < bs_size b \<Longrightarrow> i < 8 * bs_alloc b"
  using bs_wf_alloc [of b] by linarith

interpretation bits: bit_container bs_wf bs_size bs_test bs_set bs_set_all bs_reset_all bs_any bs_count
proof (unfold_locales, goal_cases)
  case (1 b i v j) then show ?case by (simp add: bs_test_set bs_wf_div)
next
  case (2 b i) then show ?case by (simp add: bs_test_set_all bs_inrange)
next
  case (3 b i) then show ?case by (simp add: bs_test_reset_all bs_wf_div)
next
  case (4 b) then show ?case by (rule bs_any_ex)
next
  case (5 b) then show ?case by (rule bs_count_card)
next
  case (9 b i v) then show ?case by (rule bs_wf_set)
next
  case (10 b) then show ?case by (rule bs_wf_set_all)
next
  case (11 b) then show ?case by (rule bs_wf_reset_all)
qed simp_all

lemmas bs_laws = bits.get_put bits.get_fill bits.get_clear bits.len_ops bits.wf_put bits.wf_fill
  bits.wf_clear

end
