(* ===== verification/Block.thy ===== *)
theory Block
  imports Bitset
begin

text \<open>
  \<open>src/simplessd/ftl/common/block.cc\<close>: one erase block of the flash, with a valid bit, an erased
  bit and the stored logical page number per page and I/O unit, and one write pointer per I/O
  unit. As in the source there are two representations: with one I/O unit per page a single
  bitset over the pages (\<open>pValidBits\<close>, \<open>pErasedBits\<close>, \<open>pLPNs\<close>), otherwise one bitset over the units
  per page (\<open>validBits\<close>, \<open>erasedBits\<close>, \<open>ppLPNs\<close>). The views \<open>blk_valid\<close>, \<open>blk_erased\<close> and
  \<open>blk_lpn\<close> hide the difference; the laws of the operations are stated over them.
\<close>

datatype blockPoolType = HOT | COLD | COOL

record Block =
  blk_idx :: nat
  blk_pageCount :: nat
  blk_ioUnitInPage :: nat
  pNextWritePageIndex :: "nat list"
  pValidBits :: Bitset
  pErasedBits :: Bitset
  pLPNs :: "u64 list"
  validBits :: "Bitset list"
  erasedBits :: "Bitset list"
  ppLPNs :: "u64 list list"
  blk_lastAccessed :: tick
  blk_eraseCount :: u32
  blk_lastWritten :: tick
  blk_maxErrorCount :: u64
  blk_refreshedPageCount :: u32
  blk_blockType :: blockPoolType

definition Block_erase :: "Block \<Rightarrow> Block" where
  "Block_erase B =
     (let B1 = (if blk_ioUnitInPage B = 1
                then B\<lparr>pValidBits := bs_reset_all (pValidBits B),
                       pErasedBits := bs_set_all (pErasedBits B)\<rparr>
                else B\<lparr>validBits := map bs_reset_all (validBits B),
                       erasedBits := map bs_set_all (erasedBits B)\<rparr>)
      in B1\<lparr>pNextWritePageIndex := replicate (blk_ioUnitInPage B) 0,
            blk_eraseCount := blk_eraseCount B + 1\<rparr>)"

text \<open>
  The three constructors share their body; the pointers of the representation that is not used
  are null, here empty. An I/O unit count of zero is refused.
\<close>

definition Block_alloc :: "nat \<Rightarrow> nat \<Rightarrow> nat \<Rightarrow> blockPoolType \<Rightarrow> Block" where
  "Block_alloc blockIdx n ioUnit ty =
     \<lparr>blk_idx = blockIdx, blk_pageCount = n, blk_ioUnitInPage = ioUnit,
      pNextWritePageIndex = replicate ioUnit 0,
      pValidBits = Bitset_new (if ioUnit = 1 then n else 0),
      pErasedBits = Bitset_new (if ioUnit = 1 then n else 0),
      pLPNs = replicate (if ioUnit = 1 then n else 0) 0,
      validBits = replicate (if ioUnit > 1 then n else 0) (Bitset_new ioUnit),
      erasedBits = replicate (if ioUnit > 1 then n else 0) (Bitset_new ioUnit),
      ppLPNs = replicate (if ioUnit > 1 then n else 0) (replicate ioUnit 0),
      blk_lastAccessed = 0, blk_eraseCount = 0, blk_lastWritten = 0, blk_maxErrorCount = 0,
      blk_refreshedPageCount = 0, blk_blockType = ty\<rparr>"

definition Block_new :: "nat \<Rightarrow> nat \<Rightarrow> nat \<Rightarrow> Block res" where
  "Block_new blockIdx n ioUnit =
     guardE (ioUnit \<ge> 1) (Panic ''Invalid I/O unit in page'')
       (Inr ((Block_erase (Block_alloc blockIdx n ioUnit COLD))\<lparr>blk_eraseCount := 0\<rparr>))"

definition Block_new_PE :: "nat \<Rightarrow> nat \<Rightarrow> nat \<Rightarrow> u32 \<Rightarrow> Block res" where
  "Block_new_PE blockIdx n ioUnit initPE =
     guardE (ioUnit \<ge> 1) (Panic ''Invalid I/O unit in page'')
       (Inr ((Block_erase (Block_alloc blockIdx n ioUnit COLD))\<lparr>blk_eraseCount := initPE\<rparr>))"

definition Block_new_typed :: "nat \<Rightarrow> nat \<Rightarrow> nat \<Rightarrow> u32 \<Rightarrow> blockPoolType \<Rightarrow> Block res" where
  "Block_new_typed blockIdx n ioUnit initPE ty =
     guardE (ioUnit \<ge> 1) (Panic ''Invalid I/O unit in page'')
       (Inr ((Block_erase (Block_alloc blockIdx n ioUnit ty))\<lparr>blk_eraseCount := initPE\<rparr>))"

text \<open>
  The copy constructor starts from a fresh block (\<open>lastAccessed\<close> is 0 there) and copies every
  other field of the old one.
\<close>

definition Block_copy :: "Block \<Rightarrow> Block res" where
  "Block_copy old =
     bindE (Block_new (blk_idx old) (blk_pageCount old) (blk_ioUnitInPage old)) (\<lambda>B.
       let B1 = (if blk_ioUnitInPage B = 1
                 then B\<lparr>pValidBits := pValidBits old, pErasedBits := pErasedBits old,
                        pLPNs := pLPNs old\<rparr>
                 else B\<lparr>validBits := validBits old, erasedBits := erasedBits old,
                        ppLPNs := ppLPNs old\<rparr>)
       in Inr (B1\<lparr>pNextWritePageIndex := pNextWritePageIndex old,
                  blk_eraseCount := blk_eraseCount old, blk_lastWritten := blk_lastWritten old,
                  blk_maxErrorCount := blk_maxErrorCount old,
                  blk_refreshedPageCount := blk_refreshedPageCount old,
                  blk_blockType := blk_blockType old\<rparr>))"

subsection \<open>Counting and write pointers\<close>

definition getValidPageCount :: "Block \<Rightarrow> nat" where
  "getValidPageCount B =
     (if blk_ioUnitInPage B = 1 then bs_count (pValidBits B)
      else length (filter bs_any (validBits B)))"

definition getValidPageCountRaw :: "Block \<Rightarrow> nat" where
  "getValidPageCountRaw B =
     (if blk_ioUnitInPage B = 1 then bs_count (pValidBits B)
      else fold (\<lambda>v ret. ret + bs_count v) (validBits B) 0)"

definition getDirtyPageCount :: "Block \<Rightarrow> nat res" where
  "getDirtyPageCount B =
     (if blk_ioUnitInPage B = 1
      then bindE (bs_or (pValidBits B) (pErasedBits B)) (\<lambda>b. Inr (bs_count (bs_not b)))
      else foldE (\<lambda>i ret.
             guardE (i < length (validBits B) \<and> i < length (erasedBits B))
               (Throw ''vector::at'')
               (bindE (bs_or (validBits B ! i) (erasedBits B ! i)) (\<lambda>b.
                  Inr (if bs_any (bs_not b) then ret + 1 else ret))))
             [0..<blk_pageCount B] 0)"

definition getNextWritePageIndex :: "Block \<Rightarrow> nat" where
  "getNextWritePageIndex B =
     fold (\<lambda>i idx. if idx < pNextWritePageIndex B ! i then pNextWritePageIndex B ! i else idx)
       [0..<blk_ioUnitInPage B] 0"

definition getNextWritePageIndexAt :: "Block \<Rightarrow> nat \<Rightarrow> nat res" where
  "getNextWritePageIndexAt B idx =
     guardE (idx < length (pNextWritePageIndex B)) (UB ''pNextWritePageIndex out of bounds'')
       (Inr (pNextWritePageIndex B ! idx))"

text \<open>
  Unchecked accesses through \<open>Bitset::test/set/reset\<close> outside the allocated bytes, and through
  the C arrays, are undefined; \<open>std::vector::at\<close> throws.
\<close>

definition bs_inbounds :: "Bitset \<Rightarrow> nat \<Rightarrow> bool" where
  "bs_inbounds b idx \<longleftrightarrow> idx div 8 < length (bs_data b)"

definition getPageInfo :: "Block \<Rightarrow> nat \<Rightarrow> Bitset \<Rightarrow> (bool \<times> u64 list \<times> Bitset) res" where
  "getPageInfo B pageIndex m =
     (if blk_ioUnitInPage B = 1 \<and> bs_size m = 1
      then guardE (bs_inbounds (pValidBits B) pageIndex \<and> pageIndex < length (pLPNs B))
             (UB ''page out of bounds'')
             (let m0 = bs_reset_all m;
                  m1 = (if bs_test (pValidBits B) pageIndex then bs_set_all m0 else m0)
              in Inr (bs_any m1, [pLPNs B ! pageIndex], m1))
      else if bs_size m = blk_ioUnitInPage B
      then guardE (pageIndex < length (validBits B)) (Throw ''vector::at'')
             (guardE (pageIndex < length (ppLPNs B)) (UB ''page out of bounds'')
               (let m1 = validBits B ! pageIndex
                in Inr (bs_any m1, take (blk_ioUnitInPage B) (ppLPNs B ! pageIndex), m1)))
      else Inl (Panic ''I/O map size mismatch''))"

definition Block_read :: "Block \<Rightarrow> nat \<Rightarrow> nat \<Rightarrow> tick \<Rightarrow> (bool \<times> Block) res" where
  "Block_read B pageIndex idx t =
     bindE
       (if blk_ioUnitInPage B = 1 \<and> idx = 0
        then guardE (bs_inbounds (pValidBits B) pageIndex) (UB ''page out of bounds'')
               (Inr (bs_test (pValidBits B) pageIndex))
        else if idx < blk_ioUnitInPage B
        then guardE (pageIndex < length (validBits B)) (Throw ''vector::at'')
               (guardE (bs_inbounds (validBits B ! pageIndex) idx) (UB ''unit out of bounds'')
                 (Inr (bs_test (validBits B ! pageIndex) idx)))
        else Inl (Panic ''I/O map size mismatch''))
       (\<lambda>read. Inr (read, if read then B\<lparr>blk_lastAccessed := t\<rparr> else B))"

definition Block_write :: "Block \<Rightarrow> nat \<Rightarrow> u64 \<Rightarrow> nat \<Rightarrow> tick \<Rightarrow> Block res" where
  "Block_write B pageIndex lpn idx t =
     bindE
       (if blk_ioUnitInPage B = 1 \<and> idx = 0
        then guardE (bs_inbounds (pErasedBits B) pageIndex) (UB ''page out of bounds'')
               (Inr (bs_test (pErasedBits B) pageIndex))
        else if idx < blk_ioUnitInPage B
        then guardE (pageIndex < length (erasedBits B)) (Throw ''vector::at'')
               (guardE (bs_inbounds (erasedBits B ! pageIndex) idx) (UB ''unit out of bounds'')
                 (Inr (bs_test (erasedBits B ! pageIndex) idx)))
        else Inl (Panic ''I/O map size mismatch''))
       (\<lambda>write.
          if write
          then if pageIndex < pNextWritePageIndex B ! idx
               then Inl (Panic ''Write to block should sequential'')
               else bindE
                 (let B1 = B\<lparr>blk_lastAccessed := t\<rparr>
                  in if blk_ioUnitInPage B = 1
                     then guardE (bs_inbounds (pValidBits B) pageIndex \<and> pageIndex < length (pLPNs B))
                            (UB ''page out of bounds'')
                            (Inr (B1\<lparr>pErasedBits := bs_reset (pErasedBits B) pageIndex,
                                     pValidBits := bs_set (pValidBits B) pageIndex True,
                                     pLPNs := (pLPNs B)[pageIndex := lpn]\<rparr>))
                     else guardE (pageIndex < length (validBits B)) (Throw ''vector::at'')
                            (guardE (bs_inbounds (validBits B ! pageIndex) idx \<and>
                                     pageIndex < length (ppLPNs B) \<and>
                                     idx < length (ppLPNs B ! pageIndex)) (UB ''unit out of bounds'')
                              (Inr (B1\<lparr>erasedBits := (erasedBits B)[pageIndex :=
                                         bs_reset (erasedBits B ! pageIndex) idx],
                                       validBits := (validBits B)[pageIndex :=
                                         bs_set (validBits B ! pageIndex) idx True],
                                       ppLPNs := (ppLPNs B)[pageIndex :=
                                         (ppLPNs B ! pageIndex)[idx := lpn]]\<rparr>))))
                 (\<lambda>B2. Inr (B2\<lparr>pNextWritePageIndex :=
                               (pNextWritePageIndex B)[idx := pageIndex + 1]\<rparr>))
          else Inl (Panic ''Write to non erased page''))"

definition Block_invalidate :: "Block \<Rightarrow> nat \<Rightarrow> nat \<Rightarrow> Block res" where
  "Block_invalidate B pageIndex idx =
     (if blk_ioUnitInPage B = 1
      then guardE (bs_inbounds (pValidBits B) pageIndex) (UB ''page out of bounds'')
             (Inr (B\<lparr>pValidBits := bs_reset (pValidBits B) pageIndex\<rparr>))
      else guardE (pageIndex < length (validBits B)) (Throw ''vector::at'')
             (guardE (bs_inbounds (validBits B ! pageIndex) idx) (UB ''unit out of bounds'')
               (Inr (B\<lparr>validBits := (validBits B)[pageIndex :=
                        bs_reset (validBits B ! pageIndex) idx]\<rparr>))))"

text \<open>The accessors and setters of the class are the fields of the record.\<close>

definition Block_setLastWrittenTime :: "u64 \<Rightarrow> Block \<Rightarrow> Block" where
  "Block_setLastWrittenTime t B = B\<lparr>blk_lastWritten := t\<rparr>"

definition Block_setRefreshedPageCount :: "u32 \<Rightarrow> Block \<Rightarrow> Block" where
  "Block_setRefreshedPageCount n B = B\<lparr>blk_refreshedPageCount := n\<rparr>"

definition Block_setBlockType :: "blockPoolType \<Rightarrow> Block \<Rightarrow> Block" where
  "Block_setBlockType ty B = B\<lparr>blk_blockType := ty\<rparr>"

subsection \<open>Views and the block invariant\<close>

definition blk_valid :: "Block \<Rightarrow> nat \<Rightarrow> nat \<Rightarrow> bool" where
  "blk_valid B p i =
     (if blk_ioUnitInPage B = 1 then bs_test (pValidBits B) p else bs_test (validBits B ! p) i)"

definition blk_erased :: "Block \<Rightarrow> nat \<Rightarrow> nat \<Rightarrow> bool" where
  "blk_erased B p i =
     (if blk_ioUnitInPage B = 1 then bs_test (pErasedBits B) p else bs_test (erasedBits B ! p) i)"

definition blk_lpn :: "Block \<Rightarrow> nat \<Rightarrow> nat \<Rightarrow> u64" where
  "blk_lpn B p i = (if blk_ioUnitInPage B = 1 then pLPNs B ! p else ppLPNs B ! p ! i)"

definition bs_sized :: "nat \<Rightarrow> Bitset \<Rightarrow> bool" where
  "bs_sized n b \<longleftrightarrow> bs_wf b \<and> bs_size b = n"

definition blk_shape :: "Block \<Rightarrow> bool" where
  "blk_shape B \<longleftrightarrow>
     0 < blk_ioUnitInPage B \<and> 0 < blk_pageCount B \<and>
     length (pNextWritePageIndex B) = blk_ioUnitInPage B \<and>
     (if blk_ioUnitInPage B = 1
      then bs_sized (blk_pageCount B) (pValidBits B) \<and> bs_sized (blk_pageCount B) (pErasedBits B) \<and>
           length (pLPNs B) = blk_pageCount B
      else length (validBits B) = blk_pageCount B \<and> length (erasedBits B) = blk_pageCount B \<and>
           length (ppLPNs B) = blk_pageCount B \<and>
           list_all (bs_sized (blk_ioUnitInPage B)) (validBits B) \<and>
           list_all (bs_sized (blk_ioUnitInPage B)) (erasedBits B) \<and>
           list_all (\<lambda>l. length l = blk_ioUnitInPage B) (ppLPNs B))"

definition blk_seq :: "Block \<Rightarrow> bool" where
  "blk_seq B \<longleftrightarrow>
     (\<forall>i<blk_ioUnitInPage B. pNextWritePageIndex B ! i \<le> blk_pageCount B \<and>
        (\<forall>p<blk_pageCount B. (blk_erased B p i \<longleftrightarrow> pNextWritePageIndex B ! i \<le> p) \<and>
           (blk_valid B p i \<longrightarrow> p < pNextWritePageIndex B ! i)))"

definition blk_wf :: "Block \<Rightarrow> bool" where
  "blk_wf B \<longleftrightarrow> blk_shape B \<and> blk_seq B"

definition blk_geom :: "Block \<Rightarrow> nat \<times> nat \<times> nat" where
  "blk_geom B = (blk_idx B, blk_pageCount B, blk_ioUnitInPage B)"

definition blk_empty :: "Block \<Rightarrow> bool" where
  "blk_empty B \<longleftrightarrow> (\<forall>p<blk_pageCount B. \<forall>i<blk_ioUnitInPage B. \<not> blk_valid B p i)"

lemmas blk_defs = blk_valid_def blk_erased_def blk_lpn_def blk_shape_def bs_sized_def

lemma blk_setters [simp]:
  "blk_geom (Block_setLastWrittenTime t B) = blk_geom B"
  "blk_geom (Block_setRefreshedPageCount n B) = blk_geom B"
  "blk_geom (Block_setBlockType ty B) = blk_geom B"
  "blk_wf (Block_setLastWrittenTime t B) = blk_wf B"
  "blk_wf (Block_setRefreshedPageCount n B) = blk_wf B"
  "blk_wf (Block_setBlockType ty B) = blk_wf B"
  "blk_valid (Block_setLastWrittenTime t B) = blk_valid B"
  "blk_valid (Block_setRefreshedPageCount n B) = blk_valid B"
  "blk_valid (Block_setBlockType ty B) = blk_valid B"
  "blk_lpn (Block_setLastWrittenTime t B) = blk_lpn B"
  "blk_lpn (Block_setRefreshedPageCount n B) = blk_lpn B"
  "blk_lpn (Block_setBlockType ty B) = blk_lpn B"
  "pNextWritePageIndex (Block_setLastWrittenTime t B) = pNextWritePageIndex B"
  "pNextWritePageIndex (Block_setRefreshedPageCount n B) = pNextWritePageIndex B"
  "pNextWritePageIndex (Block_setBlockType ty B) = pNextWritePageIndex B"
  by (auto simp: Block_setLastWrittenTime_def Block_setRefreshedPageCount_def
      Block_setBlockType_def blk_geom_def blk_wf_def blk_seq_def blk_defs fun_eq_iff)

lemma bs_sized_inb: "bs_sized n b \<Longrightarrow> i < n \<Longrightarrow> bs_inbounds b i"
  by (auto simp: bs_sized_def bs_inbounds_def bs_wf_div)

lemma bs_sized_ops:
  "bs_sized n b \<Longrightarrow> i < n \<Longrightarrow> bs_sized n (bs_set b i v)"
  "bs_sized n b \<Longrightarrow> i < n \<Longrightarrow> bs_sized n (bs_reset b i)"
  "bs_sized n b \<Longrightarrow> bs_sized n (bs_set_all b)"
  "bs_sized n b \<Longrightarrow> bs_sized n (bs_reset_all b)"
  by (auto simp: bs_sized_def bs_reset_as_set bs_laws)

lemma bs_sized_test:
  "bs_sized n b \<Longrightarrow> i < n \<Longrightarrow> bs_test (bs_set b i v) j = (if j = i then v else bs_test b j)"
  "bs_sized n b \<Longrightarrow> i < n \<Longrightarrow> bs_test (bs_reset b i) j = (j \<noteq> i \<and> bs_test b j)"
  "bs_sized n b \<Longrightarrow> i < n \<Longrightarrow> bs_test (bs_set_all b) i"
  "bs_sized n b \<Longrightarrow> i < n \<Longrightarrow> \<not> bs_test (bs_reset_all b) i"
  by (auto simp: bs_sized_def bs_reset_as_set bs_laws)

lemma bs_sized_new: "0 < n \<Longrightarrow> bs_sized n (Bitset_new n)"
  by (simp add: bs_sized_def bs_wf_new) (simp add: Bitset_new_def)

lemma list_all_updateI: "list_all P xs \<Longrightarrow> P v \<Longrightarrow> list_all P (xs[k := v])"
  by (auto simp: list_all_iff dest!: set_update_subset_insert [THEN subsetD])

lemma blk_shape_bits:
  assumes "blk_shape B" and "p < blk_pageCount B"
  shows "blk_ioUnitInPage B = 1 \<Longrightarrow> bs_sized (blk_pageCount B) (pValidBits B)"
    and "blk_ioUnitInPage B = 1 \<Longrightarrow> bs_sized (blk_pageCount B) (pErasedBits B)"
    and "blk_ioUnitInPage B \<noteq> 1 \<Longrightarrow> bs_sized (blk_ioUnitInPage B) (validBits B ! p)"
    and "blk_ioUnitInPage B \<noteq> 1 \<Longrightarrow> bs_sized (blk_ioUnitInPage B) (erasedBits B ! p)"
    and "blk_ioUnitInPage B \<noteq> 1 \<Longrightarrow> length (ppLPNs B ! p) = blk_ioUnitInPage B"
  using assms by (auto simp: blk_shape_def list_all_length)

subsection \<open>Writing\<close>

text \<open>
  What a write of logical page \<open>lpn\<close> to page p, unit i leaves behind: exactly that unit becomes
  valid, stops being erased and stores \<open>lpn\<close>; the unit's write pointer moves past the page.
\<close>

definition blk_written :: "Block \<Rightarrow> nat \<Rightarrow> nat \<Rightarrow> u64 \<Rightarrow> Block \<Rightarrow> bool" where
  "blk_written B p i lpn B' \<longleftrightarrow>
     blk_shape B' \<and> blk_geom B' = blk_geom B \<and>
     pNextWritePageIndex B' = (pNextWritePageIndex B)[i := Suc p] \<and>
     (\<forall>q<blk_pageCount B. \<forall>j<blk_ioUnitInPage B.
        blk_valid B' q j = (q = p \<and> j = i \<or> blk_valid B q j) \<and>
        blk_erased B' q j = (\<not> (q = p \<and> j = i) \<and> blk_erased B q j) \<and>
        blk_lpn B' q j = (if q = p \<and> j = i then lpn else blk_lpn B q j)) \<and>
     blk_eraseCount B' = blk_eraseCount B \<and> blk_blockType B' = blk_blockType B"

lemma Block_write_one:
  assumes sh: "blk_shape B" and p: "p < blk_pageCount B" and one: "blk_ioUnitInPage B = 1"
    and er: "blk_erased B p 0" and nx: "pNextWritePageIndex B ! 0 \<le> p"
  shows "totE (blk_written B p 0 lpn) (Block_write B p lpn 0 t)"
proof -
  note bits = blk_shape_bits(1,2) [OF sh p one]
  let ?B = "B\<lparr>blk_lastAccessed := t, pErasedBits := bs_reset (pErasedBits B) p,
      pValidBits := bs_set (pValidBits B) p True, pLPNs := (pLPNs B)[p := lpn],
      pNextWritePageIndex := (pNextWritePageIndex B)[0 := Suc p]\<rparr>"
  have "Block_write B p lpn 0 t = Inr ?B"
    using one er nx p sh bits
    by (auto simp: Block_write_def blk_erased_def bs_sized_inb blk_shape_def)
  moreover have "blk_shape ?B"
    using sh one p bits by (auto simp: blk_shape_def bs_sized_ops)
  ultimately show ?thesis
    using one bits p sh
    by (auto simp: blk_written_def blk_geom_def blk_valid_def blk_erased_def blk_lpn_def
        bs_sized_test blk_shape_def nth_list_update)
qed

lemma Block_write_many:
  assumes sh: "blk_shape B" and p: "p < blk_pageCount B" and i: "i < blk_ioUnitInPage B"
    and many: "blk_ioUnitInPage B \<noteq> 1"
    and er: "blk_erased B p i" and nx: "pNextWritePageIndex B ! i \<le> p"
  shows "totE (blk_written B p i lpn) (Block_write B p lpn i t)"
proof -
  note bits = blk_shape_bits(3,4,5) [OF sh p many]
  let ?B = "B\<lparr>blk_lastAccessed := t,
      erasedBits := (erasedBits B)[p := bs_reset (erasedBits B ! p) i],
      validBits := (validBits B)[p := bs_set (validBits B ! p) i True],
      ppLPNs := (ppLPNs B)[p := (ppLPNs B ! p)[i := lpn]],
      pNextWritePageIndex := (pNextWritePageIndex B)[i := Suc p]\<rparr>"
  have len: "length (erasedBits B) = blk_pageCount B" "length (validBits B) = blk_pageCount B"
    "length (ppLPNs B) = blk_pageCount B" using sh many by (auto simp: blk_shape_def)
  have "Block_write B p lpn i t = Inr ?B"
    using many i er nx p len bits by (auto simp: Block_write_def blk_erased_def bs_sized_inb)
  moreover have "blk_shape ?B"
    using sh many i bits len
    by (auto simp: blk_shape_def bs_sized_ops intro!: list_all_updateI)
  ultimately show ?thesis
    using many bits p i len
    by (auto simp: blk_written_def blk_geom_def blk_valid_def blk_erased_def blk_lpn_def
        bs_sized_test nth_list_update)
qed

lemma Block_write_at:
  assumes "blk_shape B" and "p < blk_pageCount B" and "i < blk_ioUnitInPage B"
    and "blk_erased B p i" and "pNextWritePageIndex B ! i \<le> p"
  shows "totE (blk_written B p i lpn) (Block_write B p lpn i t)"
  using assms Block_write_one [of B p lpn t] Block_write_many [of B p i lpn t]
  by (cases "blk_ioUnitInPage B = 1") auto

lemma blk_written_seq:
  assumes "blk_wf B" and "i < blk_ioUnitInPage B" and "pNextWritePageIndex B ! i < blk_pageCount B"
    and "blk_written B (pNextWritePageIndex B ! i) i lpn B'"
  shows "blk_wf B'"
proof -
  have len: "length (pNextWritePageIndex B) = blk_ioUnitInPage B"
    using assms(1) by (simp add: blk_wf_def blk_shape_def)
  have g: "blk_pageCount B' = blk_pageCount B" "blk_ioUnitInPage B' = blk_ioUnitInPage B"
    using assms(4) by (auto simp: blk_written_def blk_geom_def)
  show ?thesis
    using assms len g
    by (auto simp: blk_wf_def blk_seq_def blk_written_def nth_list_update less_Suc_eq_le
        intro: less_imp_le)
qed

text \<open>
  The write the mapping layer performs, at the unit's own write pointer: it succeeds exactly when
  the pointer is inside the block.
\<close>

lemma Block_write_next:
  assumes "blk_wf B" and "i < blk_ioUnitInPage B" and "pNextWritePageIndex B ! i < blk_pageCount B"
  shows "totE (\<lambda>B'. blk_wf B' \<and> blk_written B (pNextWritePageIndex B ! i) i lpn B')
           (Block_write B (pNextWritePageIndex B ! i) lpn i t)"
proof (rule totE_mono)
  show "totE (blk_written B (pNextWritePageIndex B ! i) i lpn)
      (Block_write B (pNextWritePageIndex B ! i) lpn i t)"
    using assms by (intro Block_write_at) (auto simp: blk_wf_def blk_seq_def)
qed (use assms blk_written_seq in blast)

lemma bs_test_beyond: "bs_sized n b \<Longrightarrow> n \<le> i \<Longrightarrow> bs_inbounds b i \<Longrightarrow> \<not> bs_test b i"
proof -
  assume s: "bs_sized n b" and i: "n \<le> i" and b: "bs_inbounds b i"
  have "i < 8 * bs_alloc b" using b s by (auto simp: bs_inbounds_def bs_sized_def bs_wf_def)
  then show ?thesis using s i by (auto simp: bs_sized_def bs_wf_def)
qed

lemma Block_write_inside:
  assumes "blk_shape B" and "Block_write B p lpn i t = Inr B'"
  shows "i < blk_ioUnitInPage B" and "p < blk_pageCount B"
proof -
  show "i < blk_ioUnitInPage B"
    using assms by (auto simp: Block_write_def blk_shape_def split: if_splits)
  show "p < blk_pageCount B"
    using assms bs_test_beyond [of "blk_pageCount B" "pErasedBits B" p]
    by (auto simp: Block_write_def blk_shape_def not_less split: if_splits)
qed

text \<open>The converse: a write at the pointer that returned was inside, so it had this effect.\<close>

lemma Block_write_okE:
  assumes "blk_wf B"
  shows "okE (\<lambda>B'. i < blk_ioUnitInPage B \<and> pNextWritePageIndex B ! i < blk_pageCount B \<and> blk_wf B' \<and>
            blk_written B (pNextWritePageIndex B ! i) i lpn B')
           (Block_write B (pNextWritePageIndex B ! i) lpn i t)"
  using Block_write_inside [of B "pNextWritePageIndex B ! i" lpn i t]
    Block_write_next [OF assms, of i lpn t] assms
  by (cases "Block_write B (pNextWritePageIndex B ! i) lpn i t") (auto simp: blk_wf_def)

subsection \<open>Invalidating, erasing, constructing\<close>

lemma Block_invalidate_ok:
  assumes wf: "blk_wf B" and p: "p < blk_pageCount B" and i: "i < blk_ioUnitInPage B"
  shows "totE (\<lambda>B'. blk_wf B' \<and> blk_geom B' = blk_geom B \<and>
      pNextWritePageIndex B' = pNextWritePageIndex B \<and> blk_lpn B' = blk_lpn B \<and>
      (\<forall>q<blk_pageCount B. \<forall>j<blk_ioUnitInPage B.
         blk_valid B' q j = (\<not> (q = p \<and> j = i) \<and> blk_valid B q j)))
     (Block_invalidate B p i)"
proof (cases "blk_ioUnitInPage B = 1")
  case True
  have sh: "blk_shape B" and i0: "i = 0" using wf i True by (auto simp: blk_wf_def)
  note bits = blk_shape_bits(1) [OF sh p True]
  let ?B = "B\<lparr>pValidBits := bs_reset (pValidBits B) p\<rparr>"
  have v: "blk_valid ?B q j = (q \<noteq> p \<and> blk_valid B q j)" for q j
    using True bits p by (auto simp: blk_valid_def bs_sized_test)
  have e: "blk_erased ?B = blk_erased B" "blk_lpn ?B = blk_lpn B"
    by (auto simp: blk_erased_def blk_lpn_def fun_eq_iff)
  have "blk_wf ?B"
    using wf True bits p by (auto simp: blk_wf_def blk_seq_def v e) (auto simp: blk_shape_def bs_sized_ops)
  then show ?thesis
    using True bits p i0 v e by (auto simp: Block_invalidate_def bs_sized_inb blk_geom_def)
next
  case False
  have sh: "blk_shape B" using wf by (auto simp: blk_wf_def)
  note bits = blk_shape_bits(3) [OF sh p False]
  have len: "length (validBits B) = blk_pageCount B" using sh False by (auto simp: blk_shape_def)
  let ?B = "B\<lparr>validBits := (validBits B)[p := bs_reset (validBits B ! p) i]\<rparr>"
  have v: "blk_valid ?B q j = (\<not> (q = p \<and> j = i) \<and> blk_valid B q j)" if "q < blk_pageCount B" for q j
    using that False bits p i len by (auto simp: blk_valid_def bs_sized_test nth_list_update)
  have e: "blk_erased ?B = blk_erased B" "blk_lpn ?B = blk_lpn B"
    by (auto simp: blk_erased_def blk_lpn_def fun_eq_iff)
  have "blk_wf ?B"
    using wf False bits i by (auto simp: blk_wf_def blk_seq_def v e)
      (auto simp: blk_shape_def bs_sized_ops intro!: list_all_updateI)
  then show ?thesis
    using False bits p i len v e by (auto simp: Block_invalidate_def bs_sized_inb blk_geom_def)
qed

lemma Block_erase_fields [simp]:
  "blk_geom (Block_erase B) = blk_geom B"
  "blk_eraseCount (Block_erase B) = blk_eraseCount B + 1"
  "pNextWritePageIndex (Block_erase B) = replicate (blk_ioUnitInPage B) 0"
  "blk_blockType (Block_erase B) = blk_blockType B"
  by (auto simp: Block_erase_def Let_def blk_geom_def)

lemma Block_erase_valid:
  assumes sh: "blk_shape B" and p: "p < blk_pageCount B" and i: "i < blk_ioUnitInPage B"
  shows "\<not> blk_valid (Block_erase B) p i" and "blk_erased (Block_erase B) p i"
proof -
  note bits = blk_shape_bits [OF sh p]
  show "\<not> blk_valid (Block_erase B) p i"
    using bits(1,3) bs_sized_test(4) p i sh
    by (cases "blk_ioUnitInPage B = 1") (auto simp: blk_valid_def Block_erase_def blk_shape_def)
  show "blk_erased (Block_erase B) p i"
    using bits(2,4) bs_sized_test(3) p i sh
    by (cases "blk_ioUnitInPage B = 1") (auto simp: blk_erased_def Block_erase_def blk_shape_def)
qed

lemma blk_geomD:
  assumes "blk_geom B' = blk_geom B"
  shows "blk_idx B' = blk_idx B" "blk_pageCount B' = blk_pageCount B"
    "blk_ioUnitInPage B' = blk_ioUnitInPage B"
  using assms by (simp_all add: blk_geom_def)

lemma Block_erase_shape: "blk_shape B \<Longrightarrow> blk_shape (Block_erase B)"
  by (auto simp: Block_erase_def Let_def blk_shape_def bs_sized_ops list_all_length)

lemma Block_erase_wf:
  assumes "blk_shape B"
  shows "blk_wf (Block_erase B)" and "blk_empty (Block_erase B)"
  using assms Block_erase_shape [OF assms] Block_erase_valid [OF assms]
    blk_geomD [OF Block_erase_fields(1) [of B]]
  by (auto simp: blk_wf_def blk_seq_def blk_empty_def)

lemma Block_alloc_shape: "0 < n \<Longrightarrow> 0 < io \<Longrightarrow> blk_shape (Block_alloc b n io ty)"
  by (auto simp: blk_shape_def Block_alloc_def bs_sized_new list_all_length)

lemma blk_eraseCount_update [simp]:
  "blk_wf (B\<lparr>blk_eraseCount := c\<rparr>) = blk_wf B"
  "blk_empty (B\<lparr>blk_eraseCount := c\<rparr>) = blk_empty B"
  "blk_geom (B\<lparr>blk_eraseCount := c\<rparr>) = blk_geom B"
  by (auto simp: blk_wf_def blk_seq_def blk_empty_def blk_geom_def blk_defs)

lemma Block_new_typed_ok:
  assumes "0 < n" and "0 < io"
  shows "totE (\<lambda>B. blk_wf B \<and> blk_empty B \<and> blk_geom B = (b, n, io) \<and>
            pNextWritePageIndex B = replicate io 0 \<and> blk_eraseCount B = pe \<and> blk_blockType B = ty)
          (Block_new_typed b n io pe ty)"
  using assms Block_erase_wf [OF Block_alloc_shape [OF assms, of b ty]]
  by (simp add: Block_new_typed_def Suc_le_eq) (simp add: Block_alloc_def blk_geom_def)

lemma Block_new_PE_typed: "Block_new_PE b n io pe = Block_new_typed b n io pe COLD"
  by (simp add: Block_new_PE_def Block_new_typed_def)

subsection \<open>Reading the block's bookkeeping\<close>

lemma getPageInfo_ok:
  assumes wf: "blk_wf B" and p: "p < blk_pageCount B" and m: "bs_sized (blk_ioUnitInPage B) m"
  shows "totE (\<lambda>(v, lpns, m'). v = (\<exists>i<blk_ioUnitInPage B. blk_valid B p i) \<and>
      length lpns = blk_ioUnitInPage B \<and> bs_sized (blk_ioUnitInPage B) m' \<and>
      (\<forall>i<blk_ioUnitInPage B. bs_test m' i = blk_valid B p i \<and> lpns ! i = blk_lpn B p i))
     (getPageInfo B p m)"
proof (cases "blk_ioUnitInPage B = 1")
  case True
  have sh: "blk_shape B" using wf by (simp add: blk_wf_def)
  note bits = blk_shape_bits(1) [OF sh p True]
  have l: "p < length (pLPNs B)" using sh True p by (simp add: blk_shape_def)
  have m1: "bs_sized 1 m" using m True by simp
  note ops = bs_sized_ops(3) [OF bs_sized_ops(4) [OF m1]] bs_sized_ops(4) [OF m1]
    bs_sized_test(3) [OF bs_sized_ops(4) [OF m1], of 0] bs_sized_test(4) [OF m1, of 0]
  have any: "bs_any (bs_set_all (bs_reset_all m))" "\<not> bs_any (bs_reset_all m)"
    using ops by (auto simp: bs_sized_def bits.some_iff)
  show ?thesis
    using True l bits p m1 ops any
    by (auto simp: getPageInfo_def bs_sized_inb blk_valid_def blk_lpn_def bs_sized_def Let_def)
next
  case False
  have sh: "blk_shape B" using wf by (simp add: blk_wf_def)
  note bits = blk_shape_bits(3,5) [OF sh p False]
  have l: "p < length (ppLPNs B)" "p < length (validBits B)" using sh False p by (auto simp: blk_shape_def)
  show ?thesis
    using False l bits m
    by (auto simp: getPageInfo_def blk_valid_def blk_lpn_def bs_sized_def bits.some_iff Let_def)
qed

lemma getValidPageCount_zero:
  assumes "blk_shape B"
  shows "getValidPageCount B = 0 \<longleftrightarrow> blk_empty B"
proof (cases "blk_ioUnitInPage B = 1")
  case True
  then have "bs_wf (pValidBits B)" "bs_size (pValidBits B) = blk_pageCount B"
    using assms by (auto simp: blk_shape_def bs_sized_def)
  then show ?thesis
    using True by (auto simp: getValidPageCount_def blk_empty_def blk_valid_def bits.number_zero bits.some_iff)
next
  case False
  then have "\<And>p. p < blk_pageCount B \<Longrightarrow> bs_any (validBits B ! p) \<longleftrightarrow> (\<exists>i<blk_ioUnitInPage B. blk_valid B p i)"
    using blk_shape_bits(3) [OF assms] by (auto simp: bs_sized_def bits.some_iff blk_valid_def)
  moreover have "length (validBits B) = blk_pageCount B" using assms False by (simp add: blk_shape_def)
  ultimately show ?thesis
    using False by (auto simp: getValidPageCount_def blk_empty_def filter_empty_conv all_set_conv_all_nth)
qed

lemma Block_read_ok:
  assumes wf: "blk_wf B" and p: "p < blk_pageCount B" and i: "i < blk_ioUnitInPage B"
  shows "Block_read B p i t = Inr (blk_valid B p i, if blk_valid B p i then B\<lparr>blk_lastAccessed := t\<rparr> else B)"
proof -
  have sh: "blk_shape B" using wf by (simp add: blk_wf_def)
  show ?thesis
    using blk_shape_bits [OF sh p] i p sh
    by (cases "blk_ioUnitInPage B = 1")
      (auto simp: Block_read_def blk_valid_def bs_sized_inb blk_shape_def)
qed

lemma fold_max_ge:
  "(\<forall>i\<in>set is. f i \<le> fold (\<lambda>i m. if m < f i then f i else m) is (m :: nat)) \<and>
   m \<le> fold (\<lambda>i m. if m < f i then f i else m) is m"
proof (induction "is" arbitrary: m)
  case (Cons a "is")
  show ?case using Cons [of "if m < f a then f a else m"] by auto
qed simp

lemma fold_max_in:
  "fold (\<lambda>i m. if m < f i then f i else m) is (m :: nat) \<in> insert m (f ` set is)"
proof (induction "is" arbitrary: m)
  case (Cons a "is")
  show ?case using Cons [of "if m < f a then f a else m"] by (auto split: if_splits)
qed simp

lemma getNextWritePageIndex_ge:
  "i < blk_ioUnitInPage B \<Longrightarrow> pNextWritePageIndex B ! i \<le> getNextWritePageIndex B"
  using fold_max_ge [of "[0..<blk_ioUnitInPage B]" "\<lambda>i. pNextWritePageIndex B ! i" 0]
  by (simp add: getNextWritePageIndex_def)

lemma getNextWritePageIndex_le:
  assumes "blk_wf B"
  shows "getNextWritePageIndex B \<le> blk_pageCount B"
  using fold_max_in [of "\<lambda>i. pNextWritePageIndex B ! i" "[0..<blk_ioUnitInPage B]" 0] assms
  by (auto simp: getNextWritePageIndex_def blk_wf_def blk_seq_def)

end
