(* ===== verification/Float32.thy ===== *)
theory Float32
  imports Prelude
begin

text \<open>
  The part of C++ \<open>float\<close> (IEEE 754 binary32, round to nearest even) the sources use: conversion
  from integers, the four operations, comparison, and conversion back to unsigned integers,
  which is undefined outside the target's range. A finite value is the rational it denotes; the
  two signed zeros are not told apart, which only matters for the sign of a division by zero,
  and the sources divide by zero only with a positive divisor.
\<close>

datatype f32 = F32 rat | F32Inf bool | F32NaN

fun ilog2 :: "nat \<Rightarrow> nat" where
  "ilog2 n = (if n < 2 then 0 else Suc (ilog2 (n div 2)))"

declare ilog2.simps [simp del]

definition pow2 :: "int \<Rightarrow> rat" where
  "pow2 e = (if 0 \<le> e then 2 ^ nat e else 1 / 2 ^ nat (- e))"

definition rexp :: "rat \<Rightarrow> int" where
  "rexp q =
     (let (n, d) = quotient_of q; e = int (ilog2 (nat n)) - int (ilog2 (nat d))
      in if q < pow2 e then e - 1 else e)"

definition round_even :: "rat \<Rightarrow> int" where
  "round_even x =
     (let f = \<lfloor>x\<rfloor>; r = x - of_int f
      in if r < 1 / 2 then f else if 1 / 2 < r then f + 1 else if even f then f else f + 1)"

definition f32_round :: "rat \<Rightarrow> f32" where
  "f32_round q =
     (if q = 0 then F32 0
      else let a = \<bar>q\<bar>; e = max (rexp a) (- 126); u = pow2 (e - 23);
               v = of_int (round_even (a / u)) * u
           in if pow2 128 \<le> v then F32Inf (q < 0) else F32 (if q < 0 then - v else v))"

definition f32_of_nat :: "nat \<Rightarrow> f32" where
  "f32_of_nat n = f32_round (of_nat n)"

fun f32_neg :: "f32 \<Rightarrow> f32" where
  "f32_neg (F32 x) = F32 (- x)"
| "f32_neg (F32Inf s) = F32Inf (\<not> s)"
| "f32_neg F32NaN = F32NaN"

fun f32_add :: "f32 \<Rightarrow> f32 \<Rightarrow> f32" where
  "f32_add (F32 x) (F32 y) = f32_round (x + y)"
| "f32_add F32NaN _ = F32NaN"
| "f32_add _ F32NaN = F32NaN"
| "f32_add (F32Inf s) (F32Inf t) = (if s = t then F32Inf s else F32NaN)"
| "f32_add (F32Inf s) _ = F32Inf s"
| "f32_add _ (F32Inf t) = F32Inf t"

definition f32_sub :: "f32 \<Rightarrow> f32 \<Rightarrow> f32" where
  "f32_sub x y = f32_add x (f32_neg y)"

fun f32_mul :: "f32 \<Rightarrow> f32 \<Rightarrow> f32" where
  "f32_mul (F32 x) (F32 y) = f32_round (x * y)"
| "f32_mul F32NaN _ = F32NaN"
| "f32_mul _ F32NaN = F32NaN"
| "f32_mul (F32Inf s) (F32Inf t) = F32Inf (s \<noteq> t)"
| "f32_mul (F32Inf s) (F32 y) = (if y = 0 then F32NaN else F32Inf (s \<noteq> (y < 0)))"
| "f32_mul (F32 x) (F32Inf t) = (if x = 0 then F32NaN else F32Inf (t \<noteq> (x < 0)))"

fun f32_div :: "f32 \<Rightarrow> f32 \<Rightarrow> f32" where
  "f32_div (F32 x) (F32 y) =
     (if y = 0 then (if x = 0 then F32NaN else F32Inf (x < 0)) else f32_round (x / y))"
| "f32_div F32NaN _ = F32NaN"
| "f32_div _ F32NaN = F32NaN"
| "f32_div (F32Inf s) (F32Inf t) = F32NaN"
| "f32_div (F32Inf s) (F32 y) = F32Inf (s \<noteq> (y < 0))"
| "f32_div (F32 x) (F32Inf t) = F32 0"

fun f32_less :: "f32 \<Rightarrow> f32 \<Rightarrow> bool" where
  "f32_less (F32 x) (F32 y) = (x < y)"
| "f32_less F32NaN _ = False"
| "f32_less _ F32NaN = False"
| "f32_less (F32Inf s) (F32Inf t) = (s \<and> \<not> t)"
| "f32_less (F32Inf s) (F32 y) = s"
| "f32_less (F32 x) (F32Inf t) = (\<not> t)"

definition f32_to_uint :: "nat \<Rightarrow> f32 \<Rightarrow> nat res" where
  "f32_to_uint w x =
     (case x of
        F32 q \<Rightarrow> (if - 1 < q \<and> q < 2 ^ w then Inr (nat \<lfloor>q\<rfloor>)
                 else Inl (UB ''float to integer conversion out of range''))
      | _ \<Rightarrow> Inl (UB ''float to integer conversion out of range''))"

subsection \<open>The comparison is a strict weak order away from NaN\<close>

lemma f32_less_irrefl [simp]: "\<not> f32_less x x"
  by (cases x) auto

lemma f32_less_trans: "f32_less x y \<Longrightarrow> f32_less y z \<Longrightarrow> f32_less x z"
  by (cases x; cases y; cases z) auto

lemma f32_less_negtrans:
  "x \<noteq> F32NaN \<Longrightarrow> y \<noteq> F32NaN \<Longrightarrow> z \<noteq> F32NaN \<Longrightarrow> f32_less x z \<Longrightarrow> f32_less x y \<or> f32_less y z"
  by (cases x; cases y; cases z) auto

lemma f32_less_not_NaN: "f32_less x y \<Longrightarrow> x \<noteq> F32NaN \<and> y \<noteq> F32NaN"
  by (cases x; cases y) auto

subsection \<open>Small integers are represented exactly\<close>

lemma ilog2_bounds: "0 < n \<Longrightarrow> 2 ^ ilog2 n \<le> n \<and> n < 2 ^ Suc (ilog2 n)"
proof (induction n rule: ilog2.induct)
  case (1 n)
  show ?case
  proof (cases "n < 2")
    case True
    then show ?thesis using 1 by (simp add: ilog2.simps [of n])
  next
    case False
    then have IH: "2 ^ ilog2 (n div 2) \<le> n div 2" "n div 2 < 2 ^ Suc (ilog2 (n div 2))"
      using 1 by auto
    have "2 ^ Suc (ilog2 (n div 2)) \<le> n"
      using IH(1) by simp
    moreover have "n < 2 * 2 ^ Suc (ilog2 (n div 2))"
      using IH(2) by (simp del: power_Suc)
    ultimately show ?thesis using False by (simp add: ilog2.simps [of n])
  qed
qed

lemma ilog2_less: "n < 2 ^ k \<Longrightarrow> 0 < n \<Longrightarrow> ilog2 n < k"
  by (metis ilog2_bounds leD le_less_trans not_less power_increasing_iff one_less_numeral_iff
      semiring_norm(76))

lemma round_even_int [simp]: "round_even (of_int k) = k"
  by (simp add: round_even_def)

lemma pow2_pos [simp]: "0 < pow2 e"
  by (simp add: pow2_def)

lemma pow2_inverse: "1 / pow2 (- int k) = 2 ^ k"
  by (simp add: pow2_def)

lemma f32_of_nat_exact: "n \<le> 2 ^ 24 \<Longrightarrow> f32_of_nat n = F32 (of_nat n)"
proof (cases "n = 0")
  case True
  then show ?thesis by (simp add: f32_of_nat_def f32_round_def)
next
  case False
  assume le: "n \<le> 2 ^ 24"
  define e where "e = int (ilog2 n)"
  have q: "quotient_of (of_nat n) = (int n, 1)"
    using quotient_of_int [of "int n"] by (simp add: Rat.of_int_def)
  have b: "2 ^ ilog2 n \<le> n" "n < 2 ^ Suc (ilog2 n)" using ilog2_bounds [of n] False by auto
  have "(2 :: rat) ^ ilog2 n \<le> of_nat n" using b(1) by (metis of_nat_le_iff of_nat_numeral of_nat_power)
  then have re: "rexp (of_nat n) = e"
    by (simp add: rexp_def q e_def pow2_def ilog2.simps [of "Suc 0"] not_less)
  have e: "e \<le> 24" using ilog2_less [of n 25] le False by (simp add: e_def)
  have "\<exists>k :: int. of_nat n / pow2 (e - 23) = of_int k"
  proof (cases "e \<le> 23")
    case True
    then have "of_nat n / pow2 (e - 23) = of_nat n * 2 ^ nat (23 - e)"
      by (cases "e = 23") (simp_all add: pow2_def)
    then show ?thesis by (metis of_int_mult of_int_numeral of_int_of_nat_eq of_int_power)
  next
    case False
    then have "e = 24" using e by simp
    then have "n = 2 ^ 24" using b(1) le by (simp add: e_def nat_eq_iff)
    then have "of_nat n / pow2 (e - 23) = of_int (2 ^ 23)" using \<open>e = 24\<close> by (simp add: pow2_def)
    then show ?thesis by blast
  qed
  then obtain k :: int where k: "of_nat n / pow2 (e - 23) = of_int k" by blast
  have u: "pow2 (e - 23) \<noteq> 0" by (rule less_imp_neq [OF pow2_pos, symmetric])
  have v: "of_int (round_even (of_nat n / pow2 (e - 23))) * pow2 (e - 23) = of_nat n"
    using u by (simp add: k) (metis k nonzero_divide_eq_eq)
  have m: "max e (- 126) = e" by (simp add: e_def)
  have "(of_nat n :: rat) \<le> 2 ^ 24" using le by (metis of_nat_le_iff of_nat_numeral of_nat_power)
  also have "\<dots> < pow2 128" by (simp add: pow2_def)
  finally have lt: "(of_nat n :: rat) < pow2 128" .
  show ?thesis
    using False v lt by (simp add: f32_of_nat_def f32_round_def re m Let_def)
qed

lemma f32_to_uint_nat: "n < 2 ^ w \<Longrightarrow> f32_to_uint w (F32 (of_nat n)) = Inr n"
proof -
  assume "n < 2 ^ w"
  then have "(of_nat n :: rat) < 2 ^ w" by (metis of_nat_less_iff of_nat_numeral of_nat_power)
  moreover have "- 1 < (of_nat n :: rat)" by (rule order.strict_trans2 [of _ 0]) simp_all
  ultimately show ?thesis by (simp add: f32_to_uint_def)
qed

end
