(* ===== verification/FtlState.thy ===== *)
theory FtlState
  imports Block Float32
begin

text \<open>
  The state of \<open>PageMapping\<close> (\<open>src/simplessd/ftl/page_mapping.hh\<close>), its configuration
  (\<open>ftl/config.hh\<close>, \<open>ftl/ftl.hh\<close>) and its surroundings.

  The layers the mapping layer calls (the flash timing model PAL, the DRAM model, the CPU
  latency model and the error model) answer each call with a time or a bit error rate. They are
  parameters of the model: an arbitrary function of the whole history of such calls, which the
  state records in \<open>trace\<close>. So nothing below depends on what they answer, and any stateful
  implementation of them is an instance.

  \<open>std::unordered_map\<close> is an association list in iteration order; an insertion may reorder it
  arbitrarily (\<open>shuffleBlocks\<close>, \<open>shuffleTable\<close>). \<open>std::sort\<close> is a parameter too, since it may
  order equal elements either way. \<open>env_ok\<close> collects what the language guarantees of them.
\<close>

subsection \<open>Configuration\<close>

datatype GC_MODE = GC_MODE_0 | GC_MODE_1 | GC_MODE_OTHER

datatype FILLING_MODE = FILLING_MODE_0 | FILLING_MODE_1 | FILLING_MODE_2

datatype EVICT_POLICY =
  POLICY_GREEDY | POLICY_COST_BENEFIT | POLICY_RANDOM | POLICY_DCHOICE | POLICY_RECO | POLICY_OTHER

record Parameter =
  totalPhysicalBlocks :: nat
  totalLogicalBlocks :: nat
  pagesInBlock :: nat
  pageSize :: nat
  ioUnitInPage :: nat
  pageCountToMaxPerf :: nat

record FtlConfig =
  overProvision :: f32
  gcThreshold :: f32
  badBlockThreshold :: nat
  fillingMode :: FILLING_MODE
  fillingRatio :: f32
  invalidRatio :: f32
  reclaimBlock :: nat
  reclaimThreshold :: f32
  gcMode :: GC_MODE
  evictPolicy :: EVICT_POLICY
  dChoiceParam :: nat
  randomIOTweak :: bool
  refreshFilterNum :: nat
  refreshMode :: nat
  refreshMaxLayerNum :: nat
  refreshMaxRBER :: f32
  recoGCParam :: f32
  refreshGroupingSize :: nat
  initEraseCount :: u32
  hotColdSeperation :: nat
  hotBlocksRatio :: f32
  coolDownWindowSize :: nat

subsection \<open>Requests and the calls to the layers below\<close>

record FtlRequest =
  freq_reqID :: u64
  freq_reqSubID :: u64
  freq_lpn :: u64
  freq_ioFlag :: Bitset

record PalRequest =
  preq_reqID :: u64
  preq_reqSubID :: u64
  preq_blockIndex :: nat
  preq_pageIndex :: nat
  preq_ioFlag :: Bitset

record LPNRange =
  slpn :: u64
  nlp :: u64

definition FtlRequest_new :: "nat \<Rightarrow> FtlRequest" where
  "FtlRequest_new iocount =
     \<lparr>freq_reqID = 0, freq_reqSubID = 0, freq_lpn = 0, freq_ioFlag = Bitset_new iocount\<rparr>"

definition PalRequest_new :: "nat \<Rightarrow> PalRequest" where
  "PalRequest_new iocount =
     \<lparr>preq_reqID = 0, preq_reqSubID = 0, preq_blockIndex = 0, preq_pageIndex = 0,
      preq_ioFlag = Bitset_new iocount\<rparr>"

definition PalRequest_of :: "FtlRequest \<Rightarrow> PalRequest" where
  "PalRequest_of r =
     \<lparr>preq_reqID = freq_reqID r, preq_reqSubID = freq_reqSubID r, preq_blockIndex = 0,
      preq_pageIndex = 0, preq_ioFlag = freq_ioFlag r\<rparr>"

datatype CpuFunction =
  CpuREAD | CpuWRITE | CpuTRIM | CpuFORMAT | CpuREAD_INTERNAL | CpuWRITE_INTERNAL
| CpuTRIM_INTERNAL | CpuERASE_INTERNAL | CpuSELECT_VICTIM_BLOCK | CpuDO_GARBAGE_COLLECTION
| CpuFTL_READ | CpuFTL_WRITE | CpuFTL_TRIM | CpuFTL_FORMAT
| CpuCACHE_READ | CpuCACHE_WRITE | CpuCACHE_FLUSH | CpuCACHE_TRIM | CpuCACHE_FORMAT
| CpuICL_READ | CpuICL_WRITE | CpuICL_FLUSH | CpuICL_TRIM | CpuICL_FORMAT

datatype ext_call =
    PalRead PalRequest tick
  | PalWrite PalRequest tick
  | PalErase PalRequest tick
  | DramRead nat tick
  | DramWrite nat tick
  | DramSetScheduling bool
  | CpuLatency CpuFunction
  | GetRBER u64 u32 nat

type_synonym mapping_entry = "nat \<times> nat"
type_synonym table_t = "(u64 \<times> mapping_entry list) list"
type_synonym blocks_t = "(nat \<times> Block) list"
type_synonym weights_t = "(nat \<times> f32) list"

record env =
  param :: Parameter
  conf :: FtlConfig
  extTick :: "ext_call list \<Rightarrow> ext_call \<Rightarrow> tick"
  extRBER :: "ext_call list \<Rightarrow> ext_call \<Rightarrow> f32"
  shuffleBlocks :: "blocks_t \<Rightarrow> blocks_t"
  shuffleTable :: "table_t \<Rightarrow> table_t"
  sortWeights :: "weights_t \<Rightarrow> weights_t"
  randomDraws :: "ext_call list \<Rightarrow> nat \<Rightarrow> nat list"
  fillDraws :: "nat \<Rightarrow> nat \<Rightarrow> u64"
  uninitTick :: tick

definition bRandomTweak :: "env \<Rightarrow> bool" where
  "bRandomTweak e = randomIOTweak (conf e)"

definition bitsetSize :: "env \<Rightarrow> nat" where
  "bitsetSize e = (if bRandomTweak e then ioUnitInPage (param e) else 1)"

definition weights_sorted :: "weights_t \<Rightarrow> bool" where
  "weights_sorted ws \<longleftrightarrow> sorted_wrt (\<lambda>a b. \<not> f32_less (snd b) (snd a)) ws"

definition env_ok :: "env \<Rightarrow> bool" where
  "env_ok e \<longleftrightarrow>
     (\<forall>xs. mset (shuffleBlocks e xs) = mset xs) \<and>
     (\<forall>xs. mset (shuffleTable e xs) = mset xs) \<and>
     (\<forall>ws. mset (sortWeights e ws) = mset ws) \<and>
     (\<forall>ws. F32NaN \<notin> snd ` set ws \<longrightarrow> weights_sorted (sortWeights e ws)) \<and>
     (\<forall>h n. 0 < n \<longrightarrow> (\<forall>d\<in>set (randomDraws e h n). d < n))"

subsection \<open>State\<close>

record FtlStat =
  gcCount :: u64
  reclaimedBlocks :: u64
  validSuperPageCopies :: u64
  validPageCopies :: u64
  refreshGcPageCopies :: u64
  refreshCount :: u64
  refreshedBlocks :: u64
  refreshSuperPageCopies :: u64
  refreshPageCopies :: u64
  refreshCallCount :: u64
  layerCheckCount :: u64
  doubleInsertionCount :: u64
  hotGcCount :: u64
  reclaimedHotBlocks :: u64
  hotValidSuperPageCopies :: u64
  hotValidPageCopies :: u64
  coldGcCount :: u64
  reclaimedColdBlocks :: u64
  coldValidSuperPageCopies :: u64
  coldValidPageCopies :: u64

definition zero_stat :: FtlStat where
  "zero_stat = \<lparr>gcCount = 0, reclaimedBlocks = 0, validSuperPageCopies = 0, validPageCopies = 0,
     refreshGcPageCopies = 0, refreshCount = 0, refreshedBlocks = 0, refreshSuperPageCopies = 0,
     refreshPageCopies = 0, refreshCallCount = 0, layerCheckCount = 0, doubleInsertionCount = 0,
     hotGcCount = 0, reclaimedHotBlocks = 0, hotValidSuperPageCopies = 0, hotValidPageCopies = 0,
     coldGcCount = 0, reclaimedColdBlocks = 0, coldValidSuperPageCopies = 0,
     coldValidPageCopies = 0\<rparr>"

record PageMapping =
  ftl_table :: table_t
  ftl_blocks :: blocks_t
  freeBlocks :: "Block list"
  nFreeBlocks :: nat
  lastFreeBlock :: "nat list"
  lastFreeBlockIOMap :: Bitset
  lastFreeBlockIndex :: nat
  layerQueueNum :: "nat list"
  bReclaimMore :: bool
  ftl_stat :: FtlStat
  insertedLayerCheck :: Bitset
  refreshQueues :: "nat list list"
  checkedQueues :: "nat list list"
  hotFreeBlocks :: "Block list"
  coldFreeBlocks :: "Block list"
  nHotFreeBlocks :: nat
  nColdFreeBlocks :: nat
  nCooldownBlocks :: nat
  hotBlocksLimit :: nat
  coldBlocksLimit :: nat
  hotWindow :: "nat list"
  coolDownWindow :: "nat list"
  lastHotFreeBlock :: "nat list"
  lastColdFreeBlock :: "nat list"
  lastCoolFreeBlock :: "nat list"
  lastHotFreeBlockIOMap :: Bitset
  lastColdFreeBlockIOMap :: Bitset
  lastCoolFreeBlockIOMap :: Bitset
  lastHotFreeBlockIndex :: nat
  lastColdFreeBlockIndex :: nat
  lastCoolFreeBlockIndex :: nat
  simTick :: tick
  trace :: "ext_call list"

definition refresh_period :: u64 where
  "refresh_period = 3600000000000000 * 2"

definition background_ratio :: nat where
  "background_ratio = 1"

subsection \<open>Calls to the layers below\<close>

definition palRead :: "env \<Rightarrow> PalRequest \<Rightarrow> tick \<Rightarrow> PageMapping \<Rightarrow> tick \<times> PageMapping" where
  "palRead e r t s = (extTick e (trace s) (PalRead r t), s\<lparr>trace := PalRead r t # trace s\<rparr>)"

definition palWrite :: "env \<Rightarrow> PalRequest \<Rightarrow> tick \<Rightarrow> PageMapping \<Rightarrow> tick \<times> PageMapping" where
  "palWrite e r t s = (extTick e (trace s) (PalWrite r t), s\<lparr>trace := PalWrite r t # trace s\<rparr>)"

definition palErase :: "env \<Rightarrow> PalRequest \<Rightarrow> tick \<Rightarrow> PageMapping \<Rightarrow> tick \<times> PageMapping" where
  "palErase e r t s = (extTick e (trace s) (PalErase r t), s\<lparr>trace := PalErase r t # trace s\<rparr>)"

definition dramRead :: "env \<Rightarrow> nat \<Rightarrow> tick \<Rightarrow> PageMapping \<Rightarrow> tick \<times> PageMapping" where
  "dramRead e n t s = (extTick e (trace s) (DramRead n t), s\<lparr>trace := DramRead n t # trace s\<rparr>)"

definition dramWrite :: "env \<Rightarrow> nat \<Rightarrow> tick \<Rightarrow> PageMapping \<Rightarrow> tick \<times> PageMapping" where
  "dramWrite e n t s = (extTick e (trace s) (DramWrite n t), s\<lparr>trace := DramWrite n t # trace s\<rparr>)"

definition dramSetScheduling :: "bool \<Rightarrow> PageMapping \<Rightarrow> PageMapping" where
  "dramSetScheduling b s = s\<lparr>trace := DramSetScheduling b # trace s\<rparr>"

text \<open>\<open>tick += applyLatency(...)\<close>.\<close>

definition addLatency :: "env \<Rightarrow> CpuFunction \<Rightarrow> tick \<Rightarrow> PageMapping \<Rightarrow> tick \<times> PageMapping" where
  "addLatency e f t s =
     (t + extTick e (trace s) (CpuLatency f), s\<lparr>trace := CpuLatency f # trace s\<rparr>)"

definition getRBER :: "env \<Rightarrow> u64 \<Rightarrow> u32 \<Rightarrow> nat \<Rightarrow> PageMapping \<Rightarrow> f32 \<times> PageMapping" where
  "getRBER e t pe layer s =
     (extRBER e (trace s) (GetRBER t pe layer), s\<lparr>trace := GetRBER t pe layer # trace s\<rparr>)"

text \<open>A loop of flash operations that all start at one time; the result is the latest end.\<close>

fun palLoop :: "(PalRequest \<Rightarrow> tick \<Rightarrow> PageMapping \<Rightarrow> tick \<times> PageMapping) \<Rightarrow>
    PalRequest list \<Rightarrow> tick \<Rightarrow> tick \<Rightarrow> PageMapping \<Rightarrow> tick \<times> PageMapping" where
  "palLoop f [] begin fin s = (fin, s)"
| "palLoop f (r # rs) begin fin s =
     (let (t, s') = f r begin s in palLoop f rs begin (max fin t) s')"

subsection \<open>The unordered maps\<close>

definition emplaceBlock :: "env \<Rightarrow> nat \<Rightarrow> Block \<Rightarrow> PageMapping \<Rightarrow> PageMapping" where
  "emplaceBlock e b B s = s\<lparr>ftl_blocks := shuffleBlocks e (ftl_blocks s @ [(b, B)])\<rparr>"

definition setBlock :: "nat \<Rightarrow> Block \<Rightarrow> PageMapping \<Rightarrow> PageMapping" where
  "setBlock b B s = s\<lparr>ftl_blocks := AList.update b B (ftl_blocks s)\<rparr>"

definition findBlock :: "PageMapping \<Rightarrow> nat \<Rightarrow> Block option" where
  "findBlock s b = map_of (ftl_blocks s) b"

definition findMapping :: "PageMapping \<Rightarrow> u64 \<Rightarrow> mapping_entry list option" where
  "findMapping s lpn = map_of (ftl_table s) lpn"

definition setMapping :: "u64 \<Rightarrow> nat \<Rightarrow> mapping_entry \<Rightarrow> PageMapping \<Rightarrow> PageMapping" where
  "setMapping lpn idx m s =
     (case map_of (ftl_table s) lpn of
        None \<Rightarrow> s
      | Some ml \<Rightarrow> s\<lparr>ftl_table := AList.update lpn (ml[idx := m]) (ftl_table s)\<rparr>)"

definition emplaceMapping :: "env \<Rightarrow> u64 \<Rightarrow> mapping_entry list \<Rightarrow> PageMapping \<Rightarrow> PageMapping" where
  "emplaceMapping e lpn ml s = s\<lparr>ftl_table := shuffleTable e (ftl_table s @ [(lpn, ml)])\<rparr>"

definition eraseMapping :: "u64 \<Rightarrow> PageMapping \<Rightarrow> PageMapping" where
  "eraseMapping lpn s = s\<lparr>ftl_table := AList.delete lpn (ftl_table s)\<rparr>"

text \<open>An entry that points at no page holds the first index beyond the blocks and the pages.\<close>

definition isMapped :: "env \<Rightarrow> mapping_entry \<Rightarrow> bool" where
  "isMapped e m \<longleftrightarrow> fst m < totalPhysicalBlocks (param e) \<and> snd m < pagesInBlock (param e)"

definition bumpStat :: "(FtlStat \<Rightarrow> FtlStat) \<Rightarrow> PageMapping \<Rightarrow> PageMapping" where
  "bumpStat f s = s\<lparr>ftl_stat := f (ftl_stat s)\<rparr>"

definition isFull :: "env \<Rightarrow> Block \<Rightarrow> bool" where
  "isFull e B \<longleftrightarrow> getNextWritePageIndex B = pagesInBlock (param e)"

end
