(* ===== verification/FtlInv.thy ===== *)
theory FtlInv
  imports FtlState
begin

text \<open>
  The invariant of the mapping layer. A logical unit is a logical page number with the index of
  an I/O unit in the page. The invariant says that the mapping table and the valid bits of the
  blocks agree: a unit on flash is valid exactly when the table entry of the logical unit stored
  in it points back at it. So every mapped logical unit has one valid copy and no flash unit is
  valid without being mapped. It is stated relative to a set X of logical units whose old copy
  is already invalid and whose new copy is not yet written, which is empty between operations.
  The rest of the theory shows what each primitive change of the state does to the invariant.
\<close>

subsection \<open>Definitions\<close>

definition param_ok :: "env \<Rightarrow> bool" where
  "param_ok e \<longleftrightarrow> 0 < ioUnitInPage (param e) \<and> 0 < pagesInBlock (param e)"

definition blk_ok :: "env \<Rightarrow> nat \<Rightarrow> Block \<Rightarrow> bool" where
  "blk_ok e b B \<longleftrightarrow> blk_wf B \<and> blk_geom B = (b, pagesInBlock (param e), ioUnitInPage (param e)) \<and>
     b < totalPhysicalBlocks (param e)"

definition free_ok :: "env \<Rightarrow> Block \<Rightarrow> bool" where
  "free_ok e B \<longleftrightarrow> blk_ok e (blk_idx B) B \<and> blk_empty B \<and>
     pNextWritePageIndex B = replicate (ioUnitInPage (param e)) 0"

definition poolBlocks :: "PageMapping \<Rightarrow> Block list" where
  "poolBlocks s = freeBlocks s @ hotFreeBlocks s @ coldFreeBlocks s"

definition blocks_inv :: "env \<Rightarrow> PageMapping \<Rightarrow> bool" where
  "blocks_inv e s \<longleftrightarrow> distinct (map fst (ftl_blocks s)) \<and> (\<forall>(b, B)\<in>set (ftl_blocks s). blk_ok e b B)"

definition pools_inv :: "env \<Rightarrow> PageMapping \<Rightarrow> bool" where
  "pools_inv e s \<longleftrightarrow> distinct (map blk_idx (poolBlocks s)) \<and>
     (\<forall>B\<in>set (poolBlocks s). free_ok e B \<and> findBlock s (blk_idx B) = None)"

definition valid_at :: "PageMapping \<Rightarrow> nat \<Rightarrow> nat \<Rightarrow> nat \<Rightarrow> u64 \<Rightarrow> bool" where
  "valid_at s b p i lpn =
     (case findBlock s b of
        None \<Rightarrow> False
      | Some B \<Rightarrow> p < blk_pageCount B \<and> i < blk_ioUnitInPage B \<and> blk_valid B p i \<and> blk_lpn B p i = lpn)"

definition maps :: "PageMapping \<Rightarrow> u64 \<Rightarrow> nat \<Rightarrow> mapping_entry option" where
  "maps s lpn i =
     (case findMapping s lpn of None \<Rightarrow> None | Some ml \<Rightarrow> if i < length ml then Some (ml ! i) else None)"

definition noPage :: "env \<Rightarrow> mapping_entry" where
  "noPage e = (totalPhysicalBlocks (param e), pagesInBlock (param e))"

definition map_inv :: "env \<Rightarrow> (u64 \<times> nat) set \<Rightarrow> PageMapping \<Rightarrow> bool" where
  "map_inv e X s \<longleftrightarrow>
     distinct (map fst (ftl_table s)) \<and>
     (\<forall>(b, B)\<in>set (ftl_blocks s). \<forall>p<blk_pageCount B. \<forall>i<blk_ioUnitInPage B. blk_valid B p i \<longrightarrow>
        i < bitsetSize e \<and> maps s (blk_lpn B p i) i = Some (b, p) \<and> (blk_lpn B p i, i) \<notin> X) \<and>
     (\<forall>(lpn, ml)\<in>set (ftl_table s). length ml = bitsetSize e \<and>
        (\<forall>i<bitsetSize e.
           if isMapped e (ml ! i) then (lpn, i) \<in> X \<or> valid_at s (fst (ml ! i)) (snd (ml ! i)) i lpn
           else ml ! i = noPage e))"

definition ftl_inv :: "env \<Rightarrow> (u64 \<times> nat) set \<Rightarrow> PageMapping \<Rightarrow> bool" where
  "ftl_inv e X s \<longleftrightarrow> blocks_inv e s \<and> pools_inv e s \<and> map_inv e X s"

text \<open>The logical units that are mapped: what the host sees of the state.\<close>

definition live :: "env \<Rightarrow> PageMapping \<Rightarrow> (u64 \<times> nat) set" where
  "live e s = {(lpn, i). \<exists>m. maps s lpn i = Some m \<and> isMapped e m}"

text \<open>A block that can replace another: a well-formed one with the same valid units and page numbers.\<close>

definition same_units :: "Block \<Rightarrow> Block \<Rightarrow> bool" where
  "same_units B B' \<longleftrightarrow> blk_wf B' \<and> blk_geom B' = blk_geom B \<and>
     (\<forall>p<blk_pageCount B. \<forall>i<blk_ioUnitInPage B. blk_valid B' p i = blk_valid B p i \<and> blk_lpn B' p i = blk_lpn B p i)"

text \<open>
  What a step that only reorganises the state promises: the invariant still holds and no logical
  unit has moved; and (\<open>grows\<close>) blocks in use stay in use with their units, pointers and counts.
\<close>

definition keeps :: "env \<Rightarrow> (u64 \<times> nat) set \<Rightarrow> PageMapping \<Rightarrow> PageMapping \<Rightarrow> bool" where
  "keeps e X s s' \<longleftrightarrow> ftl_inv e X s' \<and> valid_at s' = valid_at s \<and> maps s' = maps s"

definition same_block :: "Block \<Rightarrow> Block \<Rightarrow> bool" where
  "same_block B B' \<longleftrightarrow> same_units B B' \<and> pNextWritePageIndex B' = pNextWritePageIndex B \<and>
     blk_eraseCount B' = blk_eraseCount B"

definition grows :: "PageMapping \<Rightarrow> PageMapping \<Rightarrow> bool" where
  "grows s s' \<longleftrightarrow> (\<forall>b B. findBlock s b = Some B \<longrightarrow> (\<exists>B'. findBlock s' b = Some B' \<and> same_block B B'))"

text \<open>The fields the invariant depends on.\<close>

definition core :: "PageMapping \<Rightarrow> table_t \<times> blocks_t \<times> Block list \<times> Block list \<times> Block list" where
  "core s = (ftl_table s, ftl_blocks s, freeBlocks s, hotFreeBlocks s, coldFreeBlocks s)"

subsection \<open>Frame\<close>

lemma core_cong:
  assumes "core s' = core s"
  shows "findBlock s' = findBlock s" and "findMapping s' = findMapping s"
    and "poolBlocks s' = poolBlocks s" and "valid_at s' = valid_at s" and "maps s' = maps s"
    and "ftl_inv e X s' = ftl_inv e X s" and "live e s' = live e s"
proof -
  have eqs: "ftl_table s' = ftl_table s" "ftl_blocks s' = ftl_blocks s" "poolBlocks s' = poolBlocks s"
    using assms by (auto simp: core_def poolBlocks_def)
  show fb: "findBlock s' = findBlock s" by (simp add: fun_eq_iff findBlock_def eqs)
  show fm: "findMapping s' = findMapping s" by (simp add: fun_eq_iff findMapping_def eqs)
  show "poolBlocks s' = poolBlocks s" by (rule eqs(3))
  show va: "valid_at s' = valid_at s" by (simp add: fun_eq_iff valid_at_def fb)
  show mp: "maps s' = maps s" by (simp add: fun_eq_iff maps_def fm)
  show "ftl_inv e X s' = ftl_inv e X s"
    by (simp add: ftl_inv_def blocks_inv_def pools_inv_def map_inv_def eqs fb va mp)
  show "live e s' = live e s" by (simp add: live_def mp)
qed

lemma core_ext [simp]:
  "core (snd (palRead e r t s)) = core s"
  "core (snd (palWrite e r t s)) = core s"
  "core (snd (palErase e r t s)) = core s"
  "core (snd (dramRead e n t s)) = core s"
  "core (snd (dramWrite e n t s)) = core s"
  "core (snd (addLatency e f t s)) = core s"
  "core (snd (getRBER e c pe l s)) = core s"
  "core (bumpStat g s) = core s"
  by (simp_all add: core_def palRead_def palWrite_def palErase_def dramRead_def dramWrite_def
      addLatency_def getRBER_def bumpStat_def)

lemma core_palLoop [simp]:
  "core (snd (palLoop (palRead e) rs bt ft s)) = core s"
  "core (snd (palLoop (palWrite e) rs bt ft s)) = core s"
proof (induction rs arbitrary: ft s)
  case (Cons r rs)
  case 1
  show ?case using Cons(1) by (simp add: case_prod_unfold Let_def)
  case 2
  show ?case using Cons(2) by (simp add: case_prod_unfold Let_def)
qed simp_all

subsection \<open>The invariant in terms of lookups\<close>

lemma findBlock_in: "findBlock s b = Some B \<Longrightarrow> (b, B) \<in> set (ftl_blocks s)"
  by (simp add: findBlock_def map_of_SomeD)

lemma findBlock_iff:
  "distinct (map fst (ftl_blocks s)) \<Longrightarrow> findBlock s b = Some B \<longleftrightarrow> (b, B) \<in> set (ftl_blocks s)"
  by (simp add: findBlock_def)

lemma findMapping_iff:
  "distinct (map fst (ftl_table s)) \<Longrightarrow> findMapping s l = Some ml \<longleftrightarrow> (l, ml) \<in> set (ftl_table s)"
  by (simp add: findMapping_def)

lemma all_blocks:
  "distinct (map fst (ftl_blocks s)) \<Longrightarrow>
   (\<forall>(b, B)\<in>set (ftl_blocks s). P b B) \<longleftrightarrow> (\<forall>b B. findBlock s b = Some B \<longrightarrow> P b B)"
  by (auto simp: findBlock_iff)

lemma all_entries:
  "distinct (map fst (ftl_table s)) \<Longrightarrow>
   (\<forall>(l, ml)\<in>set (ftl_table s). P l ml) \<longleftrightarrow> (\<forall>l ml. findMapping s l = Some ml \<longrightarrow> P l ml)"
  by (auto simp: findMapping_iff)

lemma blocks_inv_iff:
  "blocks_inv e s \<longleftrightarrow> distinct (map fst (ftl_blocks s)) \<and> (\<forall>b B. findBlock s b = Some B \<longrightarrow> blk_ok e b B)"
  using findBlock_iff [of s] by (auto simp: blocks_inv_def)

lemma valid_at_Some:
  "findBlock s b = Some B \<Longrightarrow> blk_ok e b B \<Longrightarrow>
   valid_at s b p i l \<longleftrightarrow> p < pagesInBlock (param e) \<and> i < ioUnitInPage (param e) \<and> blk_valid B p i \<and> blk_lpn B p i = l"
  by (simp add: valid_at_def blk_ok_def blk_geom_def)

lemma maps_Some: "maps s l i = Some m \<longleftrightarrow> (\<exists>ml. findMapping s l = Some ml \<and> i < length ml \<and> m = ml ! i)"
  by (auto simp: maps_def split: option.splits)

lemma map_inv_iff:
  assumes "blocks_inv e s"
  shows "map_inv e X s \<longleftrightarrow>
     distinct (map fst (ftl_table s)) \<and>
     (\<forall>b p i l. valid_at s b p i l \<longrightarrow> i < bitsetSize e \<and> maps s l i = Some (b, p) \<and> (l, i) \<notin> X) \<and>
     (\<forall>l ml. findMapping s l = Some ml \<longrightarrow> length ml = bitsetSize e) \<and>
     (\<forall>l i b p. maps s l i = Some (b, p) \<longrightarrow>
        (if isMapped e (b, p) then (l, i) \<in> X \<or> valid_at s b p i l else (b, p) = noPage e))"
    (is "_ \<longleftrightarrow> ?d \<and> ?v \<and> ?l \<and> ?m")
proof -
  have d: "distinct (map fst (ftl_blocks s))" using assms by (simp add: blocks_inv_def)
  have v: "?v \<longleftrightarrow> (\<forall>(b, B)\<in>set (ftl_blocks s). \<forall>p<blk_pageCount B. \<forall>i<blk_ioUnitInPage B. blk_valid B p i \<longrightarrow>
        i < bitsetSize e \<and> maps s (blk_lpn B p i) i = Some (b, p) \<and> (blk_lpn B p i, i) \<notin> X)"
    unfolding valid_at_def all_blocks [OF d] by (force split: option.splits)
  let ?Q = "\<lambda>l ml i. if isMapped e (ml ! i) then (l, i) \<in> X \<or> valid_at s (fst (ml ! i)) (snd (ml ! i)) i l
           else ml ! i = noPage e"
  have m: "?l \<and> ?m \<longleftrightarrow> (\<forall>l ml. findMapping s l = Some ml \<longrightarrow> length ml = bitsetSize e \<and> (\<forall>i<bitsetSize e. ?Q l ml i))"
    (is "_ \<longleftrightarrow> ?R")
  proof
    assume lm: "?l \<and> ?m"
    have "?Q l ml i" if "findMapping s l = Some ml" "i < bitsetSize e" for l ml i
    proof -
      have "maps s l i = Some (fst (ml ! i), snd (ml ! i))" using lm that by (simp add: maps_Some)
      then show ?thesis using lm by (metis prod.collapse)
    qed
    then show ?R using lm by simp
  next
    assume R: "?R"
    then have "?l" by simp
    moreover have "?m"
    proof (intro allI impI)
      fix l i b p
      assume "maps s l i = Some (b, p)"
      then obtain ml where "findMapping s l = Some ml" "i < length ml" "ml ! i = (b, p)"
        by (auto simp: maps_Some)
      then show "if isMapped e (b, p) then (l, i) \<in> X \<or> valid_at s b p i l else (b, p) = noPage e"
        using R [rule_format, of l ml] by (metis fst_conv snd_conv)
    qed
    ultimately show "?l \<and> ?m" ..
  qed
  have t: "?d \<Longrightarrow> (\<forall>(l, ml)\<in>set (ftl_table s). length ml = bitsetSize e \<and> (\<forall>i<bitsetSize e. ?Q l ml i)) \<longleftrightarrow> ?R"
    by (rule all_entries)
  show ?thesis unfolding map_inv_def v [symmetric] m using t by blast
qed

lemma ftl_invI:
  assumes "blocks_inv e s" and "pools_inv e s" and "distinct (map fst (ftl_table s))"
    and "\<And>b p i l. valid_at s b p i l \<Longrightarrow> i < bitsetSize e \<and> maps s l i = Some (b, p) \<and> (l, i) \<notin> X"
    and "\<And>l ml. findMapping s l = Some ml \<Longrightarrow> length ml = bitsetSize e"
    and "\<And>l i b p. maps s l i = Some (b, p) \<Longrightarrow>
        (if isMapped e (b, p) then (l, i) \<in> X \<or> valid_at s b p i l else (b, p) = noPage e)"
  shows "ftl_inv e X s"
  unfolding ftl_inv_def map_inv_iff [OF assms(1)] using assms by blast

lemma ftl_invD:
  assumes "ftl_inv e X s"
  shows "blocks_inv e s" and "pools_inv e s" and "distinct (map fst (ftl_table s))"
    and "\<And>b p i l. valid_at s b p i l \<Longrightarrow> i < bitsetSize e \<and> maps s l i = Some (b, p) \<and> (l, i) \<notin> X"
    and "\<And>l ml. findMapping s l = Some ml \<Longrightarrow> length ml = bitsetSize e"
    and "\<And>l i b p. maps s l i = Some (b, p) \<Longrightarrow>
        (if isMapped e (b, p) then (l, i) \<in> X \<or> valid_at s b p i l else (b, p) = noPage e)"
    and "\<And>b B. findBlock s b = Some B \<Longrightarrow> blk_ok e b B"
    and "distinct (map fst (ftl_blocks s))"
proof -
  show b: "blocks_inv e s" and "pools_inv e s"
    using assms by (auto simp: ftl_inv_def)
  have m: "map_inv e X s" using assms by (simp add: ftl_inv_def)
  note * = m [unfolded map_inv_iff [OF b]]
  show "distinct (map fst (ftl_table s))"
    and "\<And>b p i l. valid_at s b p i l \<Longrightarrow> i < bitsetSize e \<and> maps s l i = Some (b, p) \<and> (l, i) \<notin> X"
    and "\<And>l ml. findMapping s l = Some ml \<Longrightarrow> length ml = bitsetSize e"
    and "\<And>l i b p. maps s l i = Some (b, p) \<Longrightarrow>
        (if isMapped e (b, p) then (l, i) \<in> X \<or> valid_at s b p i l else (b, p) = noPage e)"
    using * by blast+
  show "\<And>b B. findBlock s b = Some B \<Longrightarrow> blk_ok e b B" and "distinct (map fst (ftl_blocks s))"
    using b by (simp_all add: blocks_inv_iff)
qed

lemma blk_okD:
  assumes "blk_ok e b B"
  shows "blk_wf B" "blk_shape B" "blk_idx B = b" "blk_pageCount B = pagesInBlock (param e)"
    "blk_ioUnitInPage B = ioUnitInPage (param e)" "b < totalPhysicalBlocks (param e)"
  using assms by (simp_all add: blk_ok_def blk_geom_def blk_wf_def)

lemma valid_at_isMapped:
  assumes "blocks_inv e s" and "valid_at s b p i l"
  shows "isMapped e (b, p)"
  using assms blk_okD by (fastforce simp: valid_at_def blocks_inv_iff isMapped_def split: option.splits)

lemma noPage_not_mapped [simp]: "\<not> isMapped e (noPage e)"
  by (simp add: isMapped_def noPage_def)

lemma noPage_eq_mapped: "noPage e = m \<Longrightarrow> \<not> isMapped e m"
  by auto

lemma noPage_no_block:
  assumes "blocks_inv e s"
  shows "findBlock s (fst (noPage e)) = None"
  using assms blk_okD(6) [of e "totalPhysicalBlocks (param e)"]
  by (cases "findBlock s (totalPhysicalBlocks (param e))") (auto simp: noPage_def blocks_inv_iff)

subsection \<open>Lookups after a change\<close>

lemma lookup_setBlock [simp]:
  "findBlock (setBlock b B s) c = (if c = b then Some B else findBlock s c)"
  "findMapping (setBlock b B s) = findMapping s"
  "maps (setBlock b B s) = maps s"
  "live e (setBlock b B s) = live e s"
  "poolBlocks (setBlock b B s) = poolBlocks s"
  "ftl_table (setBlock b B s) = ftl_table s"
  by (auto simp: findBlock_def findMapping_def setBlock_def update_conv' poolBlocks_def
      maps_def live_def fun_eq_iff)

lemma lookup_setMapping [simp]:
  "findBlock (setMapping l i m s) = findBlock s"
  "valid_at (setMapping l i m s) = valid_at s"
  "poolBlocks (setMapping l i m s) = poolBlocks s"
  "ftl_blocks (setMapping l i m s) = ftl_blocks s"
  by (auto simp: findBlock_def valid_at_def setMapping_def poolBlocks_def fun_eq_iff split: option.splits)

lemma findMapping_setMapping:
  "findMapping s l = Some ml \<Longrightarrow>
   findMapping (setMapping l i m s) k = (if k = l then Some (ml[i := m]) else findMapping s k)"
  by (simp add: findMapping_def setMapping_def update_conv')

lemma maps_setMapping:
  "findMapping s l = Some ml \<Longrightarrow> i < length ml \<Longrightarrow>
   maps (setMapping l i m s) k j = (if k = l \<and> j = i then Some m else maps s k j)"
  by (simp add: maps_def findMapping_setMapping)

lemma distinct_setMapping:
  "distinct (map fst (ftl_table s)) \<Longrightarrow> distinct (map fst (ftl_table (setMapping l i m s)))"
  by (auto simp: setMapping_def distinct_update split: option.splits)

lemma blocks_inv_setBlock: "blocks_inv e s \<Longrightarrow> blk_ok e b B \<Longrightarrow> blocks_inv e (setBlock b B s)"
  by (simp add: blocks_inv_iff) (simp add: setBlock_def distinct_update)

lemma pools_inv_setBlock:
  "pools_inv e s \<Longrightarrow> findBlock s b \<noteq> None \<Longrightarrow> pools_inv e (setBlock b B s)"
  by (auto simp: pools_inv_def)

lemma valid_at_setBlock:
  "blk_ok e b B \<Longrightarrow> valid_at (setBlock b B s) c p i l \<longleftrightarrow>
   (if c = b then p < pagesInBlock (param e) \<and> i < ioUnitInPage (param e) \<and> blk_valid B p i \<and> blk_lpn B p i = l
    else valid_at s c p i l)"
  by (simp add: valid_at_def blk_okD)

subsection \<open>The primitive changes\<close>

lemma same_units_ok: "same_units B B' \<Longrightarrow> blk_ok e b B \<Longrightarrow> blk_ok e b B'"
  by (simp add: same_units_def blk_ok_def)

lemma ftl_inv_same_units:
  assumes inv: "ftl_inv e X s" and B: "findBlock s b = Some B" and su: "same_units B B'"
  shows "ftl_inv e X (setBlock b B' s)" and "valid_at (setBlock b B' s) = valid_at s"
proof -
  note D = ftl_invD [OF inv]
  have ok: "blk_ok e b B" by (rule D(7) [OF B])
  have ok': "blk_ok e b B'" by (rule same_units_ok [OF su ok])
  show va: "valid_at (setBlock b B' s) = valid_at s"
    using su by (auto simp: fun_eq_iff valid_at_setBlock [OF ok'] valid_at_Some [OF B ok]
        same_units_def blk_okD [OF ok])
  show "ftl_inv e X (setBlock b B' s)"
    using D blocks_inv_setBlock [OF D(1) ok'] pools_inv_setBlock [OF D(2), of b B'] B
    by (intro ftl_invI) (simp_all add: va)
qed

text \<open>The copy of a mapped unit is invalidated: the unit is now in transit.\<close>

lemma ftl_inv_invalidate:
  assumes inv: "ftl_inv e X s" and B: "findBlock s b = Some B"
    and m: "maps s l i = Some (b, p)" and im: "isMapped e (b, p)" and X: "(l, i) \<notin> X"
  shows "totE (\<lambda>B'. ftl_inv e (insert (l, i) X) (setBlock b B' s) \<and>
           (\<forall>c q j k. valid_at (setBlock b B' s) c q j k \<longleftrightarrow> valid_at s c q j k \<and> \<not> (c = b \<and> q = p \<and> j = i)) \<and>
           blk_ok e b B' \<and> pNextWritePageIndex B' = pNextWritePageIndex B)
         (Block_invalidate B p i)"
proof -
  note D = ftl_invD [OF inv]
  have ok: "blk_ok e b B" by (rule D(7) [OF B])
  have v: "valid_at s b p i l" using D(6) [OF m] im X by simp
  have p: "p < blk_pageCount B" and i: "i < blk_ioUnitInPage B"
    using v B by (auto simp: valid_at_def)
  show ?thesis
  proof (rule totE_mono [OF Block_invalidate_ok [OF blk_okD(1) [OF ok] p i]], elim conjE)
    fix B'
    assume wf: "blk_wf B'" and g: "blk_geom B' = blk_geom B"
      and n: "pNextWritePageIndex B' = pNextWritePageIndex B" and lp: "blk_lpn B' = blk_lpn B"
      and va: "\<forall>q<blk_pageCount B. \<forall>j<blk_ioUnitInPage B. blk_valid B' q j = (\<not> (q = p \<and> j = i) \<and> blk_valid B q j)"
    have ok': "blk_ok e b B'" using ok wf g by (simp add: blk_ok_def)
    have va': "valid_at (setBlock b B' s) c q j k \<longleftrightarrow> valid_at s c q j k \<and> \<not> (c = b \<and> q = p \<and> j = i)"
      for c q j k
      using va blk_okD(4,5) [OF ok] lp valid_at_Some [OF B ok] by (auto simp: valid_at_setBlock [OF ok'])
    have only: "c = b \<and> q = p" if "valid_at s c q j k" "(k, j) = (l, i)" for c q j k
      using D(4) [OF that(1)] that(2) m by simp
    have "ftl_inv e (insert (l, i) X) (setBlock b B' s)"
    proof (rule ftl_invI)
      fix c q j k
      assume "valid_at (setBlock b B' s) c q j k"
      then show "j < bitsetSize e \<and> maps (setBlock b B' s) k j = Some (c, q) \<and> (k, j) \<notin> insert (l, i) X"
        using D(4) [of c q j k] only [of c q j k] by (auto simp: va')
    next
      fix k j c q
      assume a: "maps (setBlock b B' s) k j = Some (c, q)"
      have "j = i \<Longrightarrow> c = b \<Longrightarrow> q = p \<Longrightarrow> valid_at s c q j k \<Longrightarrow> k = l"
        using v by (auto simp: valid_at_def split: option.splits)
      then show "if isMapped e (c, q) then (k, j) \<in> insert (l, i) X \<or> valid_at (setBlock b B' s) c q j k
          else (c, q) = noPage e"
        using D(6) [of k j c q] a by (auto simp: va' split: if_splits)
    qed (use D blocks_inv_setBlock [OF D(1) ok'] pools_inv_setBlock [OF D(2)] B in auto)
    then show "ftl_inv e (insert (l, i) X) (setBlock b B' s) \<and>
      (\<forall>c q j k. valid_at (setBlock b B' s) c q j k \<longleftrightarrow> valid_at s c q j k \<and> \<not> (c = b \<and> q = p \<and> j = i)) \<and>
      blk_ok e b B' \<and> pNextWritePageIndex B' = pNextWritePageIndex B"
      using va' ok' n by blast
  qed
qed

text \<open>Units that are mapped nowhere can be counted as in transit too.\<close>

lemma ftl_inv_unmapped:
  assumes inv: "ftl_inv e X s"
    and m: "\<And>l i c q. (l, i) \<in> Y \<Longrightarrow> maps s l i = Some (c, q) \<Longrightarrow> \<not> isMapped e (c, q)"
  shows "ftl_inv e (Y \<union> X) s"
proof -
  note D = ftl_invD [OF inv]
  show ?thesis
  proof (rule ftl_invI)
    fix b p j k
    assume v: "valid_at s b p j k"
    then show "j < bitsetSize e \<and> maps s k j = Some (b, p) \<and> (k, j) \<notin> Y \<union> X"
      using D(4) [OF v] m [of k j b p] valid_at_isMapped [OF D(1) v] by auto
  next
    fix k j b p
    assume "maps s k j = Some (b, p)"
    then show "if isMapped e (b, p) then (k, j) \<in> Y \<union> X \<or> valid_at s b p j k else (b, p) = noPage e"
      using D(6) [of k j b p] by (auto split: if_splits)
  qed (use D in auto)
qed

text \<open>
  A unit in transit is written at the write pointer of a block in use and the table redirected:
  the unit is no longer in transit.
\<close>

lemma ftl_inv_write:
  assumes inv: "ftl_inv e X s" and N: "findBlock s b = Some N"
    and ml: "findMapping s l = Some ml" and i: "i < bitsetSize e" and X: "(l, i) \<in> X"
    and w: "Block_write N (pNextWritePageIndex N ! i) l i t = Inr N'"
    and p: "p = pNextWritePageIndex N ! i"
  shows "ftl_inv e (X - {(l, i)}) (setMapping l i (b, p) (setBlock b N' s))"
    and "valid_at (setBlock b N' s) c q j k \<longleftrightarrow> (c = b \<and> q = p \<and> j = i \<and> k = l) \<or> valid_at s c q j k"
    and "live e (setMapping l i (b, p) (setBlock b N' s)) = insert (l, i) (live e s)"
    and "blk_written N p i l N'" and "blk_ok e b N'" and "p < pagesInBlock (param e)"
proof -
  note D = ftl_invD [OF inv]
  have ok: "blk_ok e b N" by (rule D(7) [OF N])
  have wr: "i < blk_ioUnitInPage N" "p < blk_pageCount N" "blk_wf N'" "blk_written N p i l N'"
    using Block_write_okE [OF blk_okD(1) [OF ok], of i l t] w p by auto
  show "blk_written N p i l N'" by (rule wr(4))
  show ok': "blk_ok e b N'" using ok wr(3,4) by (simp add: blk_ok_def blk_written_def)
  note geo = blk_okD(4,5) [OF ok]
  show pp: "p < pagesInBlock (param e)" using wr(2) geo by simp
  have bits: "blk_valid N' q j = (q = p \<and> j = i \<or> blk_valid N q j)"
    "blk_lpn N' q j = (if q = p \<and> j = i then l else blk_lpn N q j)"
    if "q < pagesInBlock (param e)" "j < ioUnitInPage (param e)" for q j
    using wr(4) that geo by (auto simp: blk_written_def)
  have fresh: "\<not> blk_valid N p i"
    using blk_okD(1) [OF ok] wr(1,2) p by (auto simp: blk_wf_def blk_seq_def)
  show va: "valid_at (setBlock b N' s) c q j k \<longleftrightarrow> (c = b \<and> q = p \<and> j = i \<and> k = l) \<or> valid_at s c q j k"
    for c q j k
    using bits [of q j] wr(1,2) geo fresh valid_at_Some [OF N ok]
    by (auto simp: valid_at_setBlock [OF ok'] split: if_splits)
  have im: "isMapped e (b, p)" using pp blk_okD(6) [OF ok] by (simp add: isMapped_def)
  have len: "length ml = bitsetSize e" by (rule D(5) [OF ml])
  have mp: "maps (setMapping l i m (setBlock b N' s)) k j = (if k = l \<and> j = i then Some m else maps s k j)"
    for m k j
    using maps_setMapping [of "setBlock b N' s" l ml i m k j] ml len i by simp
  show "live e (setMapping l i (b, p) (setBlock b N' s)) = insert (l, i) (live e s)"
    using im by (auto simp: live_def mp split: if_splits)
  show "ftl_inv e (X - {(l, i)}) (setMapping l i (b, p) (setBlock b N' s))"
  proof (rule ftl_invI)
    fix c q j k
    assume "valid_at (setMapping l i (b, p) (setBlock b N' s)) c q j k"
    then show "j < bitsetSize e \<and> maps (setMapping l i (b, p) (setBlock b N' s)) k j = Some (c, q) \<and>
        (k, j) \<notin> X - {(l, i)}"
      using D(4) [of c q j k] X i by (auto simp: va mp)
  next
    fix k j c q
    assume "maps (setMapping l i (b, p) (setBlock b N' s)) k j = Some (c, q)"
    then show "if isMapped e (c, q) then (k, j) \<in> X - {(l, i)} \<or>
        valid_at (setMapping l i (b, p) (setBlock b N' s)) c q j k else (c, q) = noPage e"
      using D(6) [of k j c q] im by (auto simp: va mp split: if_splits)
  next
    fix k ml'
    assume "findMapping (setMapping l i (b, p) (setBlock b N' s)) k = Some ml'"
    then show "length ml' = bitsetSize e"
      using D(5) ml len by (auto simp: findMapping_setMapping split: if_splits)
  next
    show "blocks_inv e (setMapping l i (b, p) (setBlock b N' s))"
      using blocks_inv_setBlock [OF D(1) ok'] by (simp add: blocks_inv_def)
    show "pools_inv e (setMapping l i (b, p) (setBlock b N' s))"
      using pools_inv_setBlock [OF D(2), of b N'] N by (simp add: pools_inv_def)
    show "distinct (map fst (ftl_table (setMapping l i (b, p) (setBlock b N' s))))"
      using D(3) by (simp add: distinct_setMapping)
  qed
qed

text \<open>A new table entry that points nowhere.\<close>

lemma ftl_inv_emplaceMapping:
  assumes inv: "ftl_inv e X s" and env: "env_ok e" and l: "findMapping s l = None"
  shows "ftl_inv e X (emplaceMapping e l (replicate (bitsetSize e) (noPage e)) s)" (is "ftl_inv e X ?s")
    and "findMapping (emplaceMapping e l (replicate (bitsetSize e) (noPage e)) s) k =
           (if k = l then Some (replicate (bitsetSize e) (noPage e)) else findMapping s k)"
    and "valid_at (emplaceMapping e l (replicate (bitsetSize e) (noPage e)) s) = valid_at s"
    and "live e (emplaceMapping e l (replicate (bitsetSize e) (noPage e)) s) = live e s"
proof -
  note D = ftl_invD [OF inv]
  let ?ml = "replicate (bitsetSize e) (noPage e)"
  let ?t = "ftl_table s @ [(l, ?ml)]"
  have ms: "mset (ftl_table ?s) = mset ?t" using env by (simp add: env_ok_def emplaceMapping_def)
  have nl: "l \<notin> fst ` set (ftl_table s)" using l by (simp add: findMapping_def map_of_eq_None_iff)
  have dt: "distinct (map fst ?t)" using D(3) nl by simp
  have d: "distinct (map fst (ftl_table ?s))" using distinct_fst_mset [OF ms] dt by simp
  have lk: "findMapping ?s k = (if k = l then Some ?ml else findMapping s k)" for k
    using map_of_distinct_mset [OF ms d] l
    by (auto simp: findMapping_def map_add_def split: option.splits)
  have rest: "findBlock ?s = findBlock s" "poolBlocks ?s = poolBlocks s" "ftl_blocks ?s = ftl_blocks s"
    by (auto simp: emplaceMapping_def findBlock_def poolBlocks_def fun_eq_iff)
  have va: "valid_at ?s = valid_at s" by (simp add: valid_at_def rest fun_eq_iff)
  have mp: "maps ?s k j = (if k = l then (if j < bitsetSize e then Some (noPage e) else None) else maps s k j)" for k j
    by (simp add: maps_def lk)
  have nm: "maps s l j = None" for j by (simp add: maps_def l)
  show "findMapping ?s k = (if k = l then Some ?ml else findMapping s k)" by (rule lk)
  show "valid_at ?s = valid_at s" by (rule va)
  show "live e ?s = live e s" by (auto simp: live_def mp nm split: if_splits) (metis noPage_not_mapped)
  show "ftl_inv e X ?s"
  proof (rule ftl_invI)
    fix b p i k
    assume "valid_at ?s b p i k"
    then show "i < bitsetSize e \<and> maps ?s k i = Some (b, p) \<and> (k, i) \<notin> X"
      using D(4) [of b p i k] nm by (auto simp: va mp)
  next
    fix k i b p
    assume "maps ?s k i = Some (b, p)"
    then show "if isMapped e (b, p) then (k, i) \<in> X \<or> valid_at ?s b p i k else (b, p) = noPage e"
      using D(6) [of k i b p] noPage_eq_mapped [of e "(b, p)"] by (auto simp: va mp split: if_splits)
  next
    fix k ml'
    assume "findMapping ?s k = Some ml'"
    then show "length ml' = bitsetSize e" using D(5) by (auto simp: lk split: if_splits)
  qed (use D d rest in \<open>auto simp: blocks_inv_def pools_inv_def\<close>)
qed

text \<open>The entry of a page all of whose units are in transit is removed.\<close>

lemma lookup_eraseMapping [simp]:
  "findBlock (eraseMapping l s) = findBlock s"
  "findMapping (eraseMapping l s) k = (if k = l then None else findMapping s k)"
  "valid_at (eraseMapping l s) = valid_at s"
  "maps (eraseMapping l s) k i = (if k = l then None else maps s k i)"
  "live e (eraseMapping l s) = {(k, i) \<in> live e s. k \<noteq> l}"
  by (auto simp: eraseMapping_def findBlock_def findMapping_def valid_at_def maps_def live_def
      fun_eq_iff delete_conv' split: if_splits)

lemma ftl_inv_eraseMapping:
  assumes inv: "ftl_inv e X s" and X: "\<And>i. i < bitsetSize e \<Longrightarrow> (l, i) \<in> X"
  shows "ftl_inv e {(k, i) \<in> X. k \<noteq> l} (eraseMapping l s)"
proof -
  note D = ftl_invD [OF inv]
  show ?thesis
  proof (rule ftl_invI)
    fix b p i k
    assume "valid_at (eraseMapping l s) b p i k"
    then show "i < bitsetSize e \<and> maps (eraseMapping l s) k i = Some (b, p) \<and> (k, i) \<notin> {(k, i) \<in> X. k \<noteq> l}"
      using D(4) [of b p i k] X by auto
  next
    fix k i b p
    assume "maps (eraseMapping l s) k i = Some (b, p)"
    then show "if isMapped e (b, p) then (k, i) \<in> {(k, i) \<in> X. k \<noteq> l} \<or> valid_at (eraseMapping l s) b p i k
        else (b, p) = noPage e"
      using D(6) [of k i b p] by (auto split: if_splits)
  next
    show "blocks_inv e (eraseMapping l s)" "pools_inv e (eraseMapping l s)"
      using D(1,2) by (auto simp: blocks_inv_def pools_inv_def eraseMapping_def poolBlocks_def findBlock_def)
    show "distinct (map fst (ftl_table (eraseMapping l s)))"
      using D(3) by (simp add: eraseMapping_def distinct_delete)
  qed (use D in \<open>auto split: if_splits\<close>)
qed

text \<open>A block leaves a free list and is put into use.\<close>

lemma free_okD:
  assumes "free_ok e B"
  shows "blk_ok e (blk_idx B) B" "\<And>p i. p < pagesInBlock (param e) \<Longrightarrow> i < ioUnitInPage (param e) \<Longrightarrow> \<not> blk_valid B p i"
    "pNextWritePageIndex B = replicate (ioUnitInPage (param e)) 0"
  using assms blk_okD(4,5) by (auto simp: free_ok_def blk_empty_def)

lemma ftl_inv_alloc:
  assumes inv: "ftl_inv e X s" and env: "env_ok e" and su: "same_units B B1"
    and bl: "ftl_blocks s' = shuffleBlocks e (ftl_blocks s @ [(blk_idx B, B1)])"
    and tb: "ftl_table s' = ftl_table s" and pl: "mset (poolBlocks s) = mset (B # poolBlocks s')"
  shows "ftl_inv e X s'" and "valid_at s' = valid_at s" and "maps s' = maps s" and "live e s' = live e s"
    and "findBlock s (blk_idx B) = None" and "free_ok e B"
    and "findBlock s' c = (if c = blk_idx B then Some B1 else findBlock s c)"
proof -
  note D = ftl_invD [OF inv]
  have "B \<in> set (poolBlocks s)" using mset_eq_setD [OF pl] by simp
  then show none: "findBlock s (blk_idx B) = None" and fr: "free_ok e B"
    using D(2) by (auto simp: pools_inv_def)
  have ok1: "blk_ok e (blk_idx B) B1" by (rule same_units_ok [OF su free_okD(1) [OF fr]])
  have ms: "mset (ftl_blocks s') = mset (ftl_blocks s @ [(blk_idx B, B1)])"
    using env bl by (simp add: env_ok_def)
  have nb: "blk_idx B \<notin> fst ` set (ftl_blocks s)"
    using none by (simp add: findBlock_def map_of_eq_None_iff)
  have d: "distinct (map fst (ftl_blocks s'))" using distinct_fst_mset [OF ms] D(8) nb by simp
  show lk: "findBlock s' c = (if c = blk_idx B then Some B1 else findBlock s c)" for c
    using map_of_distinct_mset [OF ms d] none
    by (auto simp: findBlock_def map_add_def split: option.splits)
  have "\<not> valid_at s (blk_idx B) p i l" for p i l by (simp add: valid_at_def none)
  moreover have "\<not> valid_at s' (blk_idx B) p i l" for p i l
    using su free_okD(2) [OF fr] blk_okD(4,5) [OF free_okD(1) [OF fr]] blk_okD(4,5) [OF ok1]
    by (auto simp: valid_at_def lk same_units_def)
  moreover have "c \<noteq> blk_idx B \<Longrightarrow> valid_at s' c p i l = valid_at s c p i l" for c p i l
    by (simp add: valid_at_def lk)
  ultimately show va: "valid_at s' = valid_at s" unfolding fun_eq_iff by metis
  have fm: "findMapping s' = findMapping s" by (simp add: findMapping_def tb fun_eq_iff)
  show mp: "maps s' = maps s" by (simp add: maps_def fm fun_eq_iff)
  show "live e s' = live e s" by (simp add: live_def mp)
  have dp: "distinct (blk_idx B # map blk_idx (poolBlocks s'))"
    using D(2) pl mset_eq_imp_distinct_iff [of "map blk_idx (poolBlocks s)" "blk_idx B # map blk_idx (poolBlocks s')"]
    by (simp add: pools_inv_def)
  have "pools_inv e s'"
    unfolding pools_inv_def
  proof (intro conjI ballI)
    show "distinct (map blk_idx (poolBlocks s'))" using dp by simp
    fix C
    assume C: "C \<in> set (poolBlocks s')"
    then have "blk_idx C \<noteq> blk_idx B" using dp C by (auto simp: image_iff)
    then show "findBlock s' (blk_idx C) = None" "free_ok e C"
      using D(2) C mset_eq_setD [OF pl] by (auto simp: pools_inv_def lk)
  qed
  moreover have "blocks_inv e s'" using D(1) d ok1 by (auto simp: blocks_inv_iff lk)
  ultimately show "ftl_inv e X s'"
    using D by (intro ftl_invI) (simp_all add: va mp fm tb)
qed

text \<open>A block without valid units is erased: it goes to a free list, or nowhere if it is worn out.\<close>

lemma ftl_inv_free:
  assumes inv: "ftl_inv e X s" and B: "findBlock s b = Some B" and em: "blk_empty B"
    and bl: "ftl_blocks s' = AList.delete b (ftl_blocks s)" and tb: "ftl_table s' = ftl_table s"
    and pl: "poolBlocks s' = poolBlocks s \<or>
      (\<exists>B1. mset (poolBlocks s') = mset (B1 # poolBlocks s) \<and> free_ok e B1 \<and> blk_idx B1 = b)"
  shows "ftl_inv e X s'" and "valid_at s' = valid_at s" and "maps s' = maps s" and "live e s' = live e s"
    and "findBlock s' c = (if c = b then None else findBlock s c)"
proof -
  note D = ftl_invD [OF inv]
  have d: "distinct (map fst (ftl_blocks s'))" using D(8) bl by (simp add: distinct_delete)
  show lk: "findBlock s' c = (if c = b then None else findBlock s c)" for c
    by (simp add: findBlock_def bl delete_conv')
  show va: "valid_at s' = valid_at s"
    using em B by (auto simp: valid_at_def lk fun_eq_iff blk_empty_def)
  have fm: "findMapping s' = findMapping s" by (simp add: findMapping_def tb fun_eq_iff)
  show mp: "maps s' = maps s" by (simp add: maps_def fm fun_eq_iff)
  show "live e s' = live e s" by (simp add: live_def mp)
  have bp: "b \<notin> blk_idx ` set (poolBlocks s)" using D(2) B by (auto simp: pools_inv_def)
  have "pools_inv e s'"
  proof (cases "poolBlocks s' = poolBlocks s")
    case True
    then show ?thesis using D(2) by (auto simp: pools_inv_def lk)
  next
    case False
    then obtain B1 where p: "mset (poolBlocks s') = mset (B1 # poolBlocks s)" and f: "free_ok e B1" "blk_idx B1 = b"
      using pl by blast
    have "distinct (map blk_idx (poolBlocks s'))"
      using D(2) bp f(2) p mset_eq_imp_distinct_iff [of "map blk_idx (poolBlocks s')" "b # map blk_idx (poolBlocks s)"]
      by (simp add: pools_inv_def)
    then show ?thesis using D(2) f mset_eq_setD [OF p] by (auto simp: pools_inv_def lk)
  qed
  moreover have "blocks_inv e s'" using D(1) d by (auto simp: blocks_inv_iff lk)
  ultimately show "ftl_inv e X s'"
    using D by (intro ftl_invI) (simp_all add: va mp fm tb)
qed

lemma same_units_setters:
  assumes "blk_wf B"
  shows "same_units B (Block_setLastWrittenTime t B)" "same_units B (Block_setRefreshedPageCount n B)"
    "same_units B (Block_setBlockType ty B)" "same_units B (B\<lparr>blk_lastAccessed := t\<rparr>)" "same_units B B"
proof -
  have "blk_wf (B\<lparr>blk_lastAccessed := t\<rparr>) = blk_wf B" "blk_geom (B\<lparr>blk_lastAccessed := t\<rparr>) = blk_geom B"
    "blk_valid (B\<lparr>blk_lastAccessed := t\<rparr>) = blk_valid B" "blk_lpn (B\<lparr>blk_lastAccessed := t\<rparr>) = blk_lpn B"
    by (simp_all add: blk_wf_def blk_seq_def blk_defs blk_geom_def fun_eq_iff)
  then show "same_units B (B\<lparr>blk_lastAccessed := t\<rparr>)" using assms by (simp add: same_units_def)
qed (use assms in \<open>simp_all add: same_units_def\<close>)

lemma same_units_trans: "same_units A B \<Longrightarrow> same_units B C \<Longrightarrow> same_units A C"
  by (simp add: same_units_def blk_geom_def)

lemma same_units_erase:
  assumes "blk_wf B" and "blk_empty B"
  shows "same_units B (Block_erase B)"
proof -
  have "blk_lpn (Block_erase B) p i = blk_lpn B p i" for p i
    by (auto simp: Block_erase_def Let_def blk_lpn_def)
  then show ?thesis
    using assms Block_erase_wf [of B] Block_erase_valid(1) [of B]
    by (auto simp: same_units_def blk_wf_def blk_empty_def)
qed

lemma free_ok_erase:
  assumes "blk_ok e b B"
  shows "free_ok e (Block_erase B)" and "blk_idx (Block_erase B) = b"
  using assms Block_erase_wf [of B] blk_okD [OF assms] blk_geomD [OF Block_erase_fields(1) [of B]]
  by (auto simp: free_ok_def blk_ok_def)

subsection \<open>Steps that keep every logical unit in place\<close>

lemma keeps_live: "keeps e X s s' \<Longrightarrow> live e s' = live e s"
  by (simp add: keeps_def live_def)

lemma keeps_inv: "keeps e X s s' \<Longrightarrow> ftl_inv e X s'"
  by (simp add: keeps_def)

lemma keeps_trans: "keeps e X s s' \<Longrightarrow> keeps e X s' s'' \<Longrightarrow> keeps e X s s''"
  by (simp add: keeps_def)

lemma keeps_core: "ftl_inv e X s \<Longrightarrow> core s' = core s \<Longrightarrow> keeps e X s s'"
  using core_cong(4-6) [of s' s] by (simp add: keeps_def)

lemma keeps_same_units:
  "ftl_inv e X s \<Longrightarrow> findBlock s b = Some B \<Longrightarrow> same_units B B' \<Longrightarrow> keeps e X s (setBlock b B' s)"
  by (simp add: keeps_def ftl_inv_same_units)

lemma same_block_refl: "blk_wf B \<Longrightarrow> same_block B B"
  by (simp add: same_block_def same_units_setters)

lemma same_block_setters:
  assumes "blk_wf B"
  shows "same_block B (Block_setLastWrittenTime t B)" "same_block B (Block_setRefreshedPageCount n B)"
    "same_block B (Block_setBlockType ty B)"
proof -
  have "blk_eraseCount (Block_setLastWrittenTime t B) = blk_eraseCount B"
    "blk_eraseCount (Block_setRefreshedPageCount n B) = blk_eraseCount B"
    "blk_eraseCount (Block_setBlockType ty B) = blk_eraseCount B"
    by (simp_all add: Block_setLastWrittenTime_def Block_setRefreshedPageCount_def Block_setBlockType_def)
  then show "same_block B (Block_setLastWrittenTime t B)" "same_block B (Block_setRefreshedPageCount n B)"
    "same_block B (Block_setBlockType ty B)"
    using same_units_setters [OF assms] by (simp_all add: same_block_def)
qed

lemma same_block_trans: "same_block A B \<Longrightarrow> same_block B C \<Longrightarrow> same_block A C"
  by (auto simp: same_block_def intro: same_units_trans)

lemma inv_wf: "ftl_inv e X s \<Longrightarrow> findBlock s b = Some B \<Longrightarrow> blk_wf B"
  using ftl_invD(7) blk_okD(1) by blast

lemma grows_refl: "ftl_inv e X s \<Longrightarrow> core s' = core s \<Longrightarrow> grows s s'"
  using core_cong(1) [of s' s] by (auto simp: grows_def intro!: same_block_refl inv_wf)

lemma grows_trans: "grows s s' \<Longrightarrow> grows s' s'' \<Longrightarrow> grows s s''"
  unfolding grows_def by (meson same_block_trans)

lemma grows_setBlock:
  assumes inv: "ftl_inv e X s" and B: "findBlock s b = Some B" and sb: "same_block B B'"
  shows "grows s (setBlock b B' s)"
  using B sb by (auto simp: grows_def intro!: same_block_refl inv_wf [OF inv])

lemma grows_alloc:
  assumes inv: "ftl_inv e X s" and nb: "findBlock s b = None"
    and lk: "\<And>c. findBlock s' c = (if c = b then Some B else findBlock s c)"
  shows "grows s s'"
  using nb by (auto simp: grows_def lk intro!: same_block_refl inv_wf [OF inv])

lemma isFull_same:
  "pNextWritePageIndex B' = pNextWritePageIndex B \<Longrightarrow> blk_geom B' = blk_geom B \<Longrightarrow> isFull e B' = isFull e B"
  by (simp add: isFull_def getNextWritePageIndex_def blk_geom_def cong: if_cong)

lemma isFull_same_block: "same_block B B' \<Longrightarrow> isFull e B' = isFull e B"
  by (rule isFull_same) (simp_all add: same_block_def same_units_def)

lemma free_next: "free_ok e B \<Longrightarrow> getNextWritePageIndex B = 0"
  using free_okD(3) [of e B] blk_okD(5) [OF free_okD(1), of e B]
    fold_max_in [of "\<lambda>i. pNextWritePageIndex B ! i" "[0..<blk_ioUnitInPage B]" 0]
  by (auto simp: getNextWritePageIndex_def)

lemma free_not_full:
  assumes "free_ok e B" and "same_block B B'"
  shows "\<not> isFull e B'"
proof -
  have "0 < pagesInBlock (param e)"
    using blk_okD(2,4) [OF free_okD(1) [OF assms(1)]] by (simp add: blk_shape_def)
  then show ?thesis using isFull_same_block [OF assms(2)] free_next [OF assms(1)] by (simp add: isFull_def)
qed

end
