(* ===== verification/FtlAlloc.thy ===== *)
theory FtlAlloc
  imports FtlInv
begin

text \<open>
  Allocation of erase blocks: the free lists and the blocks currently open for writing
  (\<open>getFreeBlock\<close>, \<open>getLastFreeBlock\<close> and their hot, cold and cool variants), and the ratios that
  trigger garbage collection.
\<close>

subsection \<open>Definitions\<close>

definition freeBlockRatio :: "env \<Rightarrow> PageMapping \<Rightarrow> f32" where
  "freeBlockRatio e s = f32_div (f32_of_nat (nFreeBlocks s)) (f32_of_nat (totalPhysicalBlocks (param e)))"

definition hotFreeBlockRatio :: "env \<Rightarrow> PageMapping \<Rightarrow> f32" where
  "hotFreeBlockRatio e s = f32_div (f32_of_nat (nHotFreeBlocks s)) (f32_of_nat (hotBlocksLimit s))"

definition coldFreeBlockRatio :: "env \<Rightarrow> PageMapping \<Rightarrow> f32" where
  "coldFreeBlockRatio e s =
     f32_div (f32_of_nat (nColdFreeBlocks s))
       (f32_of_nat (sub64 (totalPhysicalBlocks (param e)) (hotBlocksLimit s)))"

definition convertBlockIdx :: "env \<Rightarrow> nat \<Rightarrow> nat" where
  "convertBlockIdx e blockIdx = blockIdx mod pageCountToMaxPerf (param e)"

text \<open>The search loop of the three allocators: first match, else the first block of the list.\<close>

fun takeFirst :: "('a \<Rightarrow> bool) \<Rightarrow> 'a list \<Rightarrow> ('a \<times> 'a list) option" where
  "takeFirst P [] = None"
| "takeFirst P (x # xs) =
     (if P x then Some (x, xs) else map_option (\<lambda>(y, ys). (y, x # ys)) (takeFirst P xs))"

definition pickFree :: "nat \<Rightarrow> nat \<Rightarrow> Block list \<Rightarrow> (Block \<times> Block list) option" where
  "pickFree n idx bs =
     (case takeFirst (\<lambda>B. blk_idx B mod n = idx) bs of
        Some r \<Rightarrow> Some r
      | None \<Rightarrow> (case bs of [] \<Rightarrow> None | B # rest \<Rightarrow> Some (B, rest)))"

definition getFreeBlock :: "env \<Rightarrow> nat \<Rightarrow> PageMapping \<Rightarrow> (nat \<times> PageMapping) res" where
  "getFreeBlock e idx s =
     guardE (idx < pageCountToMaxPerf (param e)) (Panic ''Index out of range'')
       (if nFreeBlocks s > 0
        then case pickFree (pageCountToMaxPerf (param e)) idx (freeBlocks s) of
               None \<Rightarrow> Inl (UB ''freeBlocks.begin() of an empty list'')
             | Some (B, rest) \<Rightarrow>
                 guardE (findBlock s (blk_idx B) = None) (Panic ''Corrupted'')
                   (let B1 = Block_setRefreshedPageCount 0 (Block_setLastWrittenTime (simTick s) B)
                    in Inr (blk_idx B,
                         (emplaceBlock e (blk_idx B) B1 s)
                           \<lparr>freeBlocks := rest, nFreeBlocks := nFreeBlocks s - 1\<rparr>))
        else Inl (Panic ''No free block left''))"

definition getHotFreeBlock :: "env \<Rightarrow> nat \<Rightarrow> PageMapping \<Rightarrow> (nat \<times> PageMapping) res" where
  "getHotFreeBlock e idx s =
     guardE (idx < pageCountToMaxPerf (param e)) (Panic ''Index out of range'')
       (if nHotFreeBlocks s > 0
        then case pickFree (pageCountToMaxPerf (param e)) idx (hotFreeBlocks s) of
               None \<Rightarrow> Inl (UB ''hotFreeBlocks.begin() of an empty list'')
             | Some (B, rest) \<Rightarrow>
                 guardE (findBlock s (blk_idx B) = None)
                   (Panic ''Get hot free block - already in block list'')
                   (let B1 = Block_setBlockType HOT (Block_setLastWrittenTime (simTick s) B)
                    in Inr (blk_idx B,
                         (emplaceBlock e (blk_idx B) B1 s)
                           \<lparr>hotFreeBlocks := rest, nHotFreeBlocks := nHotFreeBlocks s - 1,
                            hotWindow := hotWindow s @ [blk_idx B]\<rparr>))
        else Inl (Panic ''No free block left''))"

text \<open>
  \<open>coolDownWindow.front()\<close> of an empty deque (possible only when the window size is 0) is
  undefined.
\<close>

definition pushCoolDown :: "env \<Rightarrow> nat \<Rightarrow> PageMapping \<Rightarrow> PageMapping res" where
  "pushCoolDown e b s =
     bindE
       (if length (coolDownWindow s) \<ge> nCooldownBlocks s
        then case coolDownWindow s of
               [] \<Rightarrow> Inl (UB ''front of an empty deque'')
             | f # rest \<Rightarrow>
                 (case findBlock s f of
                    None \<Rightarrow> Inl (Panic ''Corrupted. cool block lost'')
                  | Some F \<Rightarrow> Inr ((setBlock f (Block_setBlockType COLD F) s)\<lparr>coolDownWindow := rest\<rparr>))
        else Inr s)
       (\<lambda>s1. case findBlock s1 b of
               None \<Rightarrow> Inl (UB ''dereference of blocks.end()'')
             | Some B \<Rightarrow> Inr ((setBlock b (Block_setBlockType COOL B) s1)
                              \<lparr>coolDownWindow := coolDownWindow s1 @ [b]\<rparr>))"

definition getColdFreeBlock :: "env \<Rightarrow> nat \<Rightarrow> bool \<Rightarrow> PageMapping \<Rightarrow> (nat \<times> PageMapping) res" where
  "getColdFreeBlock e idx queueInsert s =
     guardE (idx < pageCountToMaxPerf (param e)) (Panic ''Index out of range'')
       (if nColdFreeBlocks s > 0
        then case pickFree (pageCountToMaxPerf (param e)) idx (coldFreeBlocks s) of
               None \<Rightarrow> Inl (UB ''coldFreeBlocks.begin() of an empty list'')
             | Some (B, rest) \<Rightarrow>
                 guardE (findBlock s (blk_idx B) = None)
                   (Panic ''Get cold free block - already in block list'')
                   (let b = blk_idx B;
                        B1 = Block_setLastWrittenTime (simTick s) B;
                        s1 = (emplaceBlock e b B1 s)
                               \<lparr>coldFreeBlocks := rest, nColdFreeBlocks := nColdFreeBlocks s - 1\<rparr>
                    in if queueInsert
                       then bindE (pushCoolDown e b s1) (\<lambda>s2. Inr (b, s2))
                       else Inr (b, setBlock b (Block_setBlockType COLD B1) s1))
        else Inl (Panic ''No free cold block left''))"

text \<open>
  The four \<open>getLast...FreeBlock\<close> functions. A request whose I/O units overlap those already
  written in this round moves on to the next open block; \<open>nextOpenIndex\<close> is that step.
\<close>

definition nextOpenIndex :: "env \<Rightarrow> Bitset \<Rightarrow> Bitset \<Rightarrow> nat \<Rightarrow> (Bitset \<times> nat) res" where
  "nextOpenIndex e lastMap iomap i =
     bindE (if \<not> bRandomTweak e then Inr True
            else bindE (bs_and lastMap iomap) (\<lambda>m. Inr (bs_any m)))
       (\<lambda>overlap.
          if overlap
          then Inr (iomap, if i + 1 = pageCountToMaxPerf (param e) then 0 else i + 1)
          else bindE (bs_or lastMap iomap) (\<lambda>m. Inr (m, i)))"

definition getLastFreeBlock :: "env \<Rightarrow> Bitset \<Rightarrow> PageMapping \<Rightarrow> (nat \<times> PageMapping) res" where
  "getLastFreeBlock e iomap s =
     bindE (nextOpenIndex e (lastFreeBlockIOMap s) iomap (lastFreeBlockIndex s)) (\<lambda>(m, i).
       let s1 = s\<lparr>lastFreeBlockIOMap := m, lastFreeBlockIndex := i\<rparr>
       in guardE (i < length (lastFreeBlock s1)) (Throw ''vector::at'')
            (case findBlock s1 (lastFreeBlock s1 ! i) of
               None \<Rightarrow> Inl (Panic ''Corrupted'')
             | Some B \<Rightarrow>
                 if getNextWritePageIndex B = pagesInBlock (param e)
                 then bindE (getFreeBlock e i s1) (\<lambda>(b, s2).
                        Inr (b, s2\<lparr>lastFreeBlock := (lastFreeBlock s2)[i := b], bReclaimMore := True\<rparr>))
                 else Inr (lastFreeBlock s1 ! i, s1)))"

definition getLastHotFreeBlock :: "env \<Rightarrow> Bitset \<Rightarrow> PageMapping \<Rightarrow> (nat \<times> PageMapping) res" where
  "getLastHotFreeBlock e iomap s =
     bindE (nextOpenIndex e (lastHotFreeBlockIOMap s) iomap (lastHotFreeBlockIndex s)) (\<lambda>(m, i).
       let s1 = s\<lparr>lastHotFreeBlockIOMap := m, lastHotFreeBlockIndex := i\<rparr>
       in guardE (i < length (lastHotFreeBlock s1)) (Throw ''vector::at'')
            (case findBlock s1 (lastHotFreeBlock s1 ! i) of
               None \<Rightarrow> Inl (Panic ''Corrupted'')
             | Some B \<Rightarrow>
                 if getNextWritePageIndex B = pagesInBlock (param e)
                 then bindE (getHotFreeBlock e i s1) (\<lambda>(b, s2).
                        Inr (b, s2\<lparr>lastHotFreeBlock := (lastHotFreeBlock s2)[i := b],
                                   bReclaimMore := True\<rparr>))
                 else Inr (lastHotFreeBlock s1 ! i, s1)))"

definition getLastColdFreeBlock :: "env \<Rightarrow> Bitset \<Rightarrow> PageMapping \<Rightarrow> (nat \<times> PageMapping) res" where
  "getLastColdFreeBlock e iomap s =
     bindE (nextOpenIndex e (lastColdFreeBlockIOMap s) iomap (lastColdFreeBlockIndex s)) (\<lambda>(m, i).
       let s1 = s\<lparr>lastColdFreeBlockIOMap := m, lastColdFreeBlockIndex := i\<rparr>
       in guardE (i < length (lastColdFreeBlock s1)) (Throw ''vector::at'')
            (case findBlock s1 (lastColdFreeBlock s1 ! i) of
               None \<Rightarrow> Inl (Panic ''Corrupted'')
             | Some B \<Rightarrow>
                 if getNextWritePageIndex B = pagesInBlock (param e)
                 then bindE (getColdFreeBlock e i False s1) (\<lambda>(b, s2).
                        Inr (b, s2\<lparr>lastColdFreeBlock := (lastColdFreeBlock s2)[i := b],
                                   bReclaimMore := True\<rparr>))
                 else Inr (lastColdFreeBlock s1 ! i, s1)))"

definition getLastCoolFreeBlock :: "env \<Rightarrow> Bitset \<Rightarrow> PageMapping \<Rightarrow> (nat \<times> PageMapping) res" where
  "getLastCoolFreeBlock e iomap s =
     bindE (nextOpenIndex e (lastCoolFreeBlockIOMap s) iomap (lastCoolFreeBlockIndex s)) (\<lambda>(m, i).
       let s1 = s\<lparr>lastCoolFreeBlockIOMap := m, lastCoolFreeBlockIndex := i\<rparr>
       in guardE (i < length (lastCoolFreeBlock s1)) (Throw ''vector::at'')
            (case findBlock s1 (lastCoolFreeBlock s1 ! i) of
               None \<Rightarrow> Inl (Panic ''Corrupted'')
             | Some B \<Rightarrow>
                 if getNextWritePageIndex B = pagesInBlock (param e)
                 then bindE (getColdFreeBlock e i True s1) (\<lambda>(b, s2).
                        Inr (b, s2\<lparr>lastCoolFreeBlock := (lastCoolFreeBlock s2)[i := b],
                                   bReclaimMore := True\<rparr>))
                 else Inr (lastCoolFreeBlock s1 ! i, s1)))"

subsection \<open>The search of the free list\<close>

lemma takeFirst_Some:
  "takeFirst P xs = Some (x, ys) \<Longrightarrow> mset xs = mset (x # ys) \<and> P x"
proof (induction xs arbitrary: ys)
  case (Cons a xs)
  then show ?case by (cases "P a") (auto simp: add_mset_commute)
qed simp

lemma takeFirst_first:
  "takeFirst P xs = Some (x, ys) \<Longrightarrow>
   \<exists>us vs. xs = us @ x # vs \<and> ys = us @ vs \<and> P x \<and> (\<forall>u\<in>set us. \<not> P u)"
proof (induction xs arbitrary: ys)
  case (Cons a xs)
  show ?case
  proof (cases "P a")
    case True
    then show ?thesis using Cons.prems by (auto intro: exI [where x = "[]"])
  next
    case False
    then obtain zs where zs: "takeFirst P xs = Some (x, zs)" "ys = a # zs" using Cons.prems by auto
    obtain us vs where "xs = us @ x # vs" "zs = us @ vs" "P x" "\<forall>u\<in>set us. \<not> P u"
      using Cons.IH [OF zs(1)] by blast
    then show ?thesis using zs(2) False by (intro exI [of _ "a # us"] exI [of _ vs]) simp
  qed
qed simp

lemma takeFirst_None: "takeFirst P xs = None \<longleftrightarrow> (\<forall>x\<in>set xs. \<not> P x)"
  by (induction xs) auto

lemma pickFree_Some: "pickFree n idx bs = Some (B, rest) \<Longrightarrow> mset bs = mset (B # rest)"
  by (auto simp: pickFree_def split: option.splits list.splits dest: takeFirst_Some)

lemma pickFree_exists: "bs \<noteq> [] \<Longrightarrow> \<exists>B rest. pickFree n idx bs = Some (B, rest)"
  by (auto simp: pickFree_def split: option.splits list.splits)

subsection \<open>Interface: a source of empty blocks\<close>

text \<open>
  What the code that opens blocks relies on: an allocation that returns puts one more block into
  use, one that is not full, and leaves the logical state alone.
\<close>

definition alloc_post :: "env \<Rightarrow> (u64 \<times> nat) set \<Rightarrow> PageMapping \<Rightarrow> nat \<times> PageMapping \<Rightarrow> bool" where
  "alloc_post e X s = (\<lambda>(b, s'). keeps e X s s' \<and> grows s s' \<and>
     (\<exists>N. findBlock s' b = Some N \<and> \<not> isFull e N))"

locale block_allocator =
  fixes alloc :: "env \<Rightarrow> nat \<Rightarrow> PageMapping \<Rightarrow> (nat \<times> PageMapping) res"
  assumes alloc_ok: "env_ok e \<Longrightarrow> ftl_inv e X s \<Longrightarrow> okE (alloc_post e X s) (alloc e i s)"
begin

text \<open>
  The common shape of the functions that return the block open for writing: the current one, or
  a new one when it is full.
\<close>

lemma open_via:
  assumes env: "env_ok e" and inv: "ftl_inv e X s" and c1: "core s1 = core s"
    and upd: "\<And>b s2. core (upd b s2) = core s2"
  shows "okE (alloc_post e X s)
     (guardE g err (case findBlock s1 c of
        None \<Rightarrow> Inl err2
      | Some B \<Rightarrow> if isFull e B then bindE (alloc e i s1) (\<lambda>(b, s2). Inr (b, upd b s2)) else Inr (c, s1)))"
proof -
  have inv1: "ftl_inv e X s1" using inv core_cong(6) [OF c1] by simp
  have k1: "keeps e X s s1" "grows s s1" using keeps_core [OF inv c1] grows_refl [OF inv c1] by auto
  have "okE (alloc_post e X s) (bindE (alloc e i s1) (\<lambda>(b, s2). Inr (b, upd b s2)))"
  proof (rule okE_bindI [OF alloc_ok [OF env inv1]])
    fix r
    assume "alloc_post e X s1 r"
    then obtain b s2 where r: "r = (b, s2)" and k2: "keeps e X s1 s2" "grows s1 s2"
        "\<exists>N. findBlock s2 b = Some N \<and> \<not> isFull e N"
      by (auto simp: alloc_post_def)
    have "keeps e X s2 (upd b s2)" "grows s2 (upd b s2)" "findBlock (upd b s2) = findBlock s2"
      using keeps_core [OF keeps_inv [OF k2(1)] upd] grows_refl [OF keeps_inv [OF k2(1)] upd]
        core_cong(1) [OF upd] by auto
    then show "okE (alloc_post e X s) (case r of (b, s2) \<Rightarrow> Inr (b, upd b s2))"
      using k1 k2 by (auto simp: r alloc_post_def intro: keeps_trans grows_trans)
  qed
  then show ?thesis using k1 by (auto simp: alloc_post_def split: option.split)
qed

end

lemma emplace_post:
  assumes inv: "ftl_inv e X s" and env: "env_ok e" and sb: "same_block B B1"
    and bl: "ftl_blocks s' = shuffleBlocks e (ftl_blocks s @ [(blk_idx B, B1)])"
    and tb: "ftl_table s' = ftl_table s" and pl: "mset (poolBlocks s) = mset (B # poolBlocks s')"
  shows "alloc_post e X s (blk_idx B, s')"
proof -
  have su: "same_units B B1" using sb by (simp add: same_block_def)
  note A = ftl_inv_alloc [OF inv env su bl tb pl]
  show ?thesis
    using A(1-4,7) grows_alloc [OF inv A(5) A(7)] free_not_full [OF A(6) sb]
    by (simp add: alloc_post_def keeps_def)
qed

lemma pool_wf: "ftl_inv e X s \<Longrightarrow> B \<in> set (poolBlocks s) \<Longrightarrow> blk_wf B"
  using ftl_invD(2) free_okD(1) blk_okD(1) by (fastforce simp: pools_inv_def)

interpretation free_alloc: block_allocator getFreeBlock
proof
  fix e X s i
  assume env: "env_ok e" and inv: "ftl_inv e X s"
  have "alloc_post e X s (blk_idx B, (emplaceBlock e (blk_idx B)
      (Block_setRefreshedPageCount 0 (Block_setLastWrittenTime (simTick s) B)) s)
        \<lparr>freeBlocks := rest, nFreeBlocks := nFreeBlocks s - 1\<rparr>)"
    if pf: "pickFree (pageCountToMaxPerf (param e)) i (freeBlocks s) = Some (B, rest)" for B rest
  proof (rule emplace_post [OF inv env])
    note ms = pickFree_Some [OF pf]
    have "blk_wf B" using pool_wf [OF inv, of B] mset_eq_setD [OF ms] by (simp add: poolBlocks_def)
    then show "same_block B (Block_setRefreshedPageCount 0 (Block_setLastWrittenTime (simTick s) B))"
      using same_block_setters same_block_trans by (metis blk_setters(4))
  qed (use pickFree_Some [OF pf] in \<open>simp_all add: emplaceBlock_def poolBlocks_def\<close>)
  then show "okE (alloc_post e X s) (getFreeBlock e i s)"
    by (auto simp: getFreeBlock_def Let_def split: option.split)
qed

interpretation hot_alloc: block_allocator getHotFreeBlock
proof
  fix e X s i
  assume env: "env_ok e" and inv: "ftl_inv e X s"
  have "alloc_post e X s (blk_idx B, (emplaceBlock e (blk_idx B)
      (Block_setBlockType HOT (Block_setLastWrittenTime (simTick s) B)) s)
        \<lparr>hotFreeBlocks := rest, nHotFreeBlocks := nHotFreeBlocks s - 1, hotWindow := hotWindow s @ [blk_idx B]\<rparr>)"
    if pf: "pickFree (pageCountToMaxPerf (param e)) i (hotFreeBlocks s) = Some (B, rest)" for B rest
  proof (rule emplace_post [OF inv env])
    note ms = pickFree_Some [OF pf]
    have "blk_wf B" using pool_wf [OF inv, of B] mset_eq_setD [OF ms] by (simp add: poolBlocks_def)
    then show "same_block B (Block_setBlockType HOT (Block_setLastWrittenTime (simTick s) B))"
      using same_block_setters same_block_trans by (metis blk_setters(4))
  qed (use pickFree_Some [OF pf] in \<open>simp_all add: emplaceBlock_def poolBlocks_def\<close>)
  then show "okE (alloc_post e X s) (getHotFreeBlock e i s)"
    by (auto simp: getHotFreeBlock_def Let_def split: option.split)
qed

text \<open>The cool-down window: the oldest block of a full window turns cold, the new one is cool.\<close>

definition retype_post :: "env \<Rightarrow> (u64 \<times> nat) set \<Rightarrow> PageMapping \<Rightarrow> PageMapping \<Rightarrow> bool" where
  "retype_post e X s s' \<longleftrightarrow> keeps e X s s' \<and> grows s s'"

lemma retype_trans: "retype_post e X s s' \<Longrightarrow> retype_post e X s' s'' \<Longrightarrow> retype_post e X s s''"
  by (auto simp: retype_post_def intro: keeps_trans grows_trans)

lemma retype_core: "ftl_inv e X s \<Longrightarrow> core s' = core s \<Longrightarrow> retype_post e X s s'"
  by (simp add: retype_post_def keeps_core grows_refl)

lemma retype_block:
  assumes inv: "ftl_inv e X s" and B: "findBlock s b = Some B" and c: "core s' = core (setBlock b (Block_setBlockType ty B) s)"
  shows "retype_post e X s s'"
proof -
  note wf = inv_wf [OF inv B]
  let ?s = "setBlock b (Block_setBlockType ty B) s"
  have k: "keeps e X s ?s" by (rule keeps_same_units [OF inv B same_units_setters(3) [OF wf]])
  have "retype_post e X s ?s"
    using k grows_setBlock [OF inv B same_block_setters(3) [OF wf]] by (simp add: retype_post_def)
  then show ?thesis using retype_core [OF keeps_inv [OF k] c] retype_trans by blast
qed

lemma pushCoolDown_ok: "ftl_inv e X s \<Longrightarrow> okE (retype_post e X s) (pushCoolDown e b s)"
  unfolding pushCoolDown_def
proof (rule okE_bindI [where P = "retype_post e X s"])
  assume inv: "ftl_inv e X s"
  show "okE (retype_post e X s)
     (if length (coolDownWindow s) \<ge> nCooldownBlocks s
        then case coolDownWindow s of
               [] \<Rightarrow> Inl (UB ''front of an empty deque'')
             | f # rest \<Rightarrow>
                 (case findBlock s f of
                    None \<Rightarrow> Inl (Panic ''Corrupted. cool block lost'')
                  | Some F \<Rightarrow> Inr ((setBlock f (Block_setBlockType COLD F) s)\<lparr>coolDownWindow := rest\<rparr>))
        else Inr s)"
    using retype_core [OF inv, of s]
    by (auto split: list.split option.split intro: retype_block [OF inv] simp: core_def)
next
  fix s1
  assume "ftl_inv e X s" and r: "retype_post e X s s1"
  then have inv: "ftl_inv e X s1" by (auto simp: retype_post_def dest: keeps_inv)
  show "okE (retype_post e X s) (case findBlock s1 b of
               None \<Rightarrow> Inl (UB ''dereference of blocks.end()'')
             | Some B \<Rightarrow> Inr ((setBlock b (Block_setBlockType COOL B) s1)
                              \<lparr>coolDownWindow := coolDownWindow s1 @ [b]\<rparr>))"
    by (auto split: option.split intro!: retype_trans [OF r] retype_block [OF inv] simp: core_def)
qed

lemma alloc_retype:
  assumes "alloc_post e X s (b, s1)" and "retype_post e X s1 s2"
  shows "alloc_post e X s (b, s2)"
proof -
  obtain B where B: "findBlock s1 b = Some B" "\<not> isFull e B" using assms(1) by (auto simp: alloc_post_def)
  then obtain B' where "findBlock s2 b = Some B'" "same_block B B'"
    using assms(2) by (auto simp: retype_post_def grows_def)
  then have "\<exists>N. findBlock s2 b = Some N \<and> \<not> isFull e N" using B(2) isFull_same_block by blast
  then show ?thesis
    using assms by (auto simp: alloc_post_def retype_post_def intro: keeps_trans grows_trans)
qed

lemma getColdFreeBlock_ok:
  assumes env: "env_ok e" and inv: "ftl_inv e X s"
  shows "okE (alloc_post e X s) (getColdFreeBlock e i q s)"
proof -
  have "alloc_post e X s (blk_idx B, s1)" (is "?A B s1")
    and "findBlock s1 (blk_idx B) = Some (Block_setLastWrittenTime (simTick s) B)"
    if pf: "pickFree (pageCountToMaxPerf (param e)) i (coldFreeBlocks s) = Some (B, rest)"
    and s1: "s1 = (emplaceBlock e (blk_idx B) (Block_setLastWrittenTime (simTick s) B) s)
        \<lparr>coldFreeBlocks := rest, nColdFreeBlocks := nColdFreeBlocks s - 1\<rparr>" for B rest s1
  proof -
    note ms = pickFree_Some [OF pf]
    have wf: "blk_wf B" using pool_wf [OF inv, of B] mset_eq_setD [OF ms] by (simp add: poolBlocks_def)
    have pl: "mset (poolBlocks s) = mset (B # poolBlocks s1)"
      using ms by (simp add: s1 emplaceBlock_def poolBlocks_def)
    have bl: "ftl_blocks s1 = shuffleBlocks e (ftl_blocks s @ [(blk_idx B, Block_setLastWrittenTime (simTick s) B)])"
      and tb: "ftl_table s1 = ftl_table s"
      by (simp_all add: s1 emplaceBlock_def)
    show "?A B s1" by (rule emplace_post [OF inv env same_block_setters(1) [OF wf] bl tb pl])
    show "findBlock s1 (blk_idx B) = Some (Block_setLastWrittenTime (simTick s) B)"
      using ftl_inv_alloc(7) [OF inv env same_units_setters(1) [OF wf] bl tb pl] by simp
  qed note A = this
  show ?thesis
  proof (clarsimp simp: getColdFreeBlock_def Let_def split: option.split, intro conjI impI allI)
    fix B rest
    assume pf: "pickFree (pageCountToMaxPerf (param e)) i (coldFreeBlocks s) = Some (B, rest)"
    let ?s1 = "(emplaceBlock e (blk_idx B) (Block_setLastWrittenTime (simTick s) B) s)
        \<lparr>coldFreeBlocks := rest, nColdFreeBlocks := nColdFreeBlocks s - Suc 0\<rparr>"
    note A1 = A(1) [OF pf, of ?s1, simplified] and A2 = A(2) [OF pf, of ?s1, simplified]
    have inv1: "ftl_inv e X ?s1" using A1 by (auto simp: alloc_post_def dest: keeps_inv)
    show "okE (alloc_post e X s) (bindE (pushCoolDown e (blk_idx B) ?s1) (\<lambda>s2. Inr (blk_idx B, s2)))"
      by (rule okE_bindI [OF pushCoolDown_ok [OF inv1]]) (simp add: alloc_retype [OF A1])
    show "alloc_post e X s (blk_idx B,
        setBlock (blk_idx B) (Block_setBlockType COLD (Block_setLastWrittenTime (simTick s) B)) ?s1)"
      by (rule alloc_retype [OF A1 retype_block [OF inv1 A2 refl]])
  qed
qed

interpretation cold_alloc: block_allocator "\<lambda>e i. getColdFreeBlock e i False"
  by unfold_locales (rule getColdFreeBlock_ok)

interpretation cool_alloc: block_allocator "\<lambda>e i. getColdFreeBlock e i True"
  by unfold_locales (rule getColdFreeBlock_ok)

subsection \<open>Interface: a source of blocks open for writing\<close>

locale open_block_source =
  fixes opener :: "env \<Rightarrow> Bitset \<Rightarrow> PageMapping \<Rightarrow> (nat \<times> PageMapping) res"
  assumes open_ok: "env_ok e \<Longrightarrow> ftl_inv e X s \<Longrightarrow> okE (alloc_post e X s) (opener e m s)"

interpretation free_open: open_block_source getLastFreeBlock
proof
  fix e X s m
  assume env: "env_ok e" and inv: "ftl_inv e X s"
  show "okE (alloc_post e X s) (getLastFreeBlock e m s)"
    unfolding getLastFreeBlock_def Let_def isFull_def [symmetric]
    by (rule okE_bind_any, clarify, rule free_alloc.open_via [OF env inv]) (simp_all add: core_def)
qed

interpretation hot_open: open_block_source getLastHotFreeBlock
proof
  fix e X s m
  assume env: "env_ok e" and inv: "ftl_inv e X s"
  show "okE (alloc_post e X s) (getLastHotFreeBlock e m s)"
    unfolding getLastHotFreeBlock_def Let_def isFull_def [symmetric]
    by (rule okE_bind_any, clarify, rule hot_alloc.open_via [OF env inv]) (simp_all add: core_def)
qed

interpretation cold_open: open_block_source getLastColdFreeBlock
proof
  fix e X s m
  assume env: "env_ok e" and inv: "ftl_inv e X s"
  show "okE (alloc_post e X s) (getLastColdFreeBlock e m s)"
    unfolding getLastColdFreeBlock_def Let_def isFull_def [symmetric]
    by (rule okE_bind_any, clarify, rule cold_alloc.open_via [OF env inv]) (simp_all add: core_def)
qed

interpretation cool_open: open_block_source getLastCoolFreeBlock
proof
  fix e X s m
  assume env: "env_ok e" and inv: "ftl_inv e X s"
  show "okE (alloc_post e X s) (getLastCoolFreeBlock e m s)"
    unfolding getLastCoolFreeBlock_def Let_def isFull_def [symmetric]
    by (rule okE_bind_any, clarify, rule cool_alloc.open_via [OF env inv]) (simp_all add: core_def)
qed

subsection \<open>Wear levelling: the least worn suitable block is taken\<close>

text \<open>The free lists are kept in the order of the erase counts.\<close>

definition wear_sorted :: "Block list \<Rightarrow> bool" where
  "wear_sorted bs \<longleftrightarrow> sorted_wrt (\<lambda>a b. blk_eraseCount a \<le> blk_eraseCount b) bs"

lemma pickFree_least_worn:
  assumes so: "wear_sorted bs" and pf: "pickFree n idx bs = Some (B, rest)"
  shows "wear_sorted rest"
    and "C \<in> set bs \<Longrightarrow> blk_idx C mod n = idx \<or> blk_idx B mod n \<noteq> idx \<Longrightarrow> blk_eraseCount B \<le> blk_eraseCount C"
proof -
  obtain us vs where bs: "bs = us @ B # vs" "rest = us @ vs"
    and us: "blk_idx B mod n = idx \<Longrightarrow> \<forall>u\<in>set us. blk_idx u mod n \<noteq> idx" "blk_idx B mod n \<noteq> idx \<Longrightarrow> us = []"
  proof (cases "takeFirst (\<lambda>B. blk_idx B mod n = idx) bs")
    case None
    then obtain vs where "bs = B # vs" "rest = vs" using pf by (auto simp: pickFree_def split: list.splits)
    then show ?thesis using None that [of "[]" vs] by (auto simp: takeFirst_None)
  next
    case (Some r)
    then have "takeFirst (\<lambda>B. blk_idx B mod n = idx) bs = Some (B, rest)" using pf by (simp add: pickFree_def)
    from takeFirst_first [OF this] show ?thesis using that by blast
  qed
  show "wear_sorted rest" using so by (auto simp: wear_sorted_def bs sorted_wrt_append)
  have vs: "\<forall>v\<in>set vs. blk_eraseCount B \<le> blk_eraseCount v"
    using so by (simp add: wear_sorted_def bs sorted_wrt_append)
  show "blk_eraseCount B \<le> blk_eraseCount C"
    if "C \<in> set bs" "blk_idx C mod n = idx \<or> blk_idx B mod n \<noteq> idx"
    using that us vs by (cases "blk_idx B mod n = idx") (auto simp: bs)
qed

end
