(* ===== verification/FtlVictim.thy ===== *)
theory FtlVictim
  imports FtlAlloc
begin

text \<open>
  Victim selection for garbage collection: the weight of every full block under the configured
  policy, and the choice of the blocks with the lowest weights. The random policies draw from
  a list of numbers; a list that ends before enough distinct blocks were drawn is \<open>Diverge\<close>, so
  that a loop which can never end is one that gives \<open>Diverge\<close> for every list.
\<close>

subsection \<open>Definitions\<close>

definition weight_greedy :: "Block \<Rightarrow> f32" where
  "weight_greedy B = f32_of_nat (getValidPageCountRaw B)"

definition weight_cost_benefit :: "env \<Rightarrow> tick \<Rightarrow> Block \<Rightarrow> f32" where
  "weight_cost_benefit e t B =
     (let temp = f32_div (f32_of_nat (getValidPageCountRaw B)) (f32_of_nat (pagesInBlock (param e)))
      in f32_div temp (f32_mul (f32_sub (F32 1) temp) (f32_of_nat (unat (t - blk_lastAccessed B)))))"

definition weight_reco :: "env \<Rightarrow> Block \<Rightarrow> f32" where
  "weight_reco e B =
     f32_sub (f32_of_nat (getValidPageCountRaw B))
       (f32_mul (recoGCParam (conf e)) (f32_of_nat (unat (blk_refreshedPageCount B))))"

definition calculateVictimWeight :: "env \<Rightarrow> EVICT_POLICY \<Rightarrow> tick \<Rightarrow> PageMapping \<Rightarrow> weights_t res" where
  "calculateVictimWeight e policy t s =
     (let full = filter (\<lambda>(b, B). isFull e B) (ftl_blocks s)
      in case policy of
           POLICY_GREEDY \<Rightarrow> Inr (map (\<lambda>(b, B). (b, weight_greedy B)) full)
         | POLICY_RANDOM \<Rightarrow> Inr (map (\<lambda>(b, B). (b, weight_greedy B)) full)
         | POLICY_DCHOICE \<Rightarrow> Inr (map (\<lambda>(b, B). (b, weight_greedy B)) full)
         | POLICY_COST_BENEFIT \<Rightarrow> Inr (map (\<lambda>(b, B). (b, weight_cost_benefit e t B)) full)
         | POLICY_RECO \<Rightarrow> Inr (map (\<lambda>(b, B). (b, weight_reco e B)) full)
         | POLICY_OTHER \<Rightarrow> Inl (Panic ''Invalid evict policy''))"

definition u32max :: nat where
  "u32max = 2 ^ 32 - 1"

fun selectRandom :: "nat list \<Rightarrow> nat list \<Rightarrow> nat \<Rightarrow> weights_t \<Rightarrow> weights_t \<Rightarrow> weights_t res" where
  "selectRandom [] exceptList randomRange weight selected =
     (if length selected < randomRange then Inl Diverge else Inr selected)"
| "selectRandom (idx # draws) exceptList randomRange weight selected =
     (if length selected < randomRange
      then guardE (idx < length weight) (Throw ''vector::at'')
        (if fst (weight ! idx) < u32max \<and> fst (weight ! idx) \<notin> set exceptList
         then selectRandom draws exceptList randomRange
                (weight[idx := (u32max, snd (weight ! idx))]) (selected @ [weight ! idx])
         else selectRandom draws exceptList randomRange weight selected)
      else Inr selected)"

text \<open>The number of blocks to reclaim (\<open>limit\<close> and \<open>nFree\<close> differ between the pools).\<close>

definition reclaimCount :: "env \<Rightarrow> nat \<Rightarrow> nat \<Rightarrow> nat \<Rightarrow> PageMapping \<Rightarrow> nat res" where
  "reclaimCount e limit nFree extra s =
     bindE (case gcMode (conf e) of
              GC_MODE_0 \<Rightarrow> Inr (reclaimBlock (conf e))
            | GC_MODE_1 \<Rightarrow> f32_to_uint 64 (f32_sub
                (f32_mul (f32_of_nat limit) (reclaimThreshold (conf e))) (f32_of_nat nFree))
            | GC_MODE_OTHER \<Rightarrow> Inl (Panic ''Invalid GC mode''))
       (\<lambda>n. Inr (if bReclaimMore s then wrap64 (n + extra) else n))"

definition selectVictimBlock :: "env \<Rightarrow> tick \<Rightarrow> nat list \<Rightarrow> PageMapping \<Rightarrow> (nat list \<times> tick \<times> PageMapping) res" where
  "selectVictimBlock e t exceptList s =
     bindE (reclaimCount e (totalPhysicalBlocks (param e)) (nFreeBlocks s)
              (pageCountToMaxPerf (param e)) s) (\<lambda>nBlocks.
     let s1 = s\<lparr>bReclaimMore := False\<rparr>; policy = evictPolicy (conf e)
     in bindE (calculateVictimWeight e policy t s1) (\<lambda>weight0.
        bindE (if policy = POLICY_RANDOM \<or> policy = POLICY_DCHOICE
               then selectRandom (randomDraws e (trace s1) (length weight0)) exceptList
                      (if policy = POLICY_RANDOM then nBlocks
                       else wrap64 (wrap32 (dChoiceParam (conf e)) * nBlocks))
                      weight0 []
               else Inr weight0) (\<lambda>weight1.
        let weight = sortWeights e weight1;
            list = map fst (take (min nBlocks (length weight)) weight);
            (t', s2) = addLatency e CpuSELECT_VICTIM_BLOCK t s1
        in Inr (list, t', s2))))"

definition selectHotVictimBlock :: "env \<Rightarrow> tick \<Rightarrow> PageMapping \<Rightarrow> (nat list \<times> tick \<times> PageMapping) res" where
  "selectHotVictimBlock e t s =
     bindE (reclaimCount e (hotBlocksLimit s) (nHotFreeBlocks s) 1 s) (\<lambda>n.
     let s1 = s\<lparr>bReclaimMore := False\<rparr>;
         nBlocks = min n (length (hotWindow s1));
         list = take nBlocks (hotWindow s1);
         s2 = s1\<lparr>hotWindow := drop nBlocks (hotWindow s1)\<rparr>;
         (t', s3) = addLatency e CpuSELECT_VICTIM_BLOCK t s2
     in Inr (list, t', s3))"

definition calculateColdVictimWeight :: "env \<Rightarrow> EVICT_POLICY \<Rightarrow> PageMapping \<Rightarrow> weights_t res" where
  "calculateColdVictimWeight e policy s =
     (let full = filter (\<lambda>(b, B). blk_blockType B \<noteq> HOT \<and> isFull e B) (ftl_blocks s)
      in case policy of
           POLICY_GREEDY \<Rightarrow> Inr (map (\<lambda>(b, B). (b, weight_greedy B)) full)
         | POLICY_RECO \<Rightarrow> Inr (map (\<lambda>(b, B). (b, weight_reco e B)) full)
         | _ \<Rightarrow> Inl (Panic ''Invalid cold victim evict policy''))"

definition selectColdVictimBlock :: "env \<Rightarrow> tick \<Rightarrow> PageMapping \<Rightarrow> (nat list \<times> tick \<times> PageMapping) res" where
  "selectColdVictimBlock e t s =
     bindE (reclaimCount e (coldBlocksLimit s) (nColdFreeBlocks s) 1 s) (\<lambda>n.
     let s1 = s\<lparr>bReclaimMore := False\<rparr>
     in bindE (calculateColdVictimWeight e (evictPolicy (conf e)) s1) (\<lambda>weight0.
        let weight = sortWeights e weight0;
            nBlocks = min n (length weight);
            list = map fst (take nBlocks weight);
            s2 = s1\<lparr>coolDownWindow := fold remove1 list (coolDownWindow s1)\<rparr>;
            (t', s3) = addLatency e CpuSELECT_VICTIM_BLOCK t s2
        in Inr (list, t', s3)))"

subsection \<open>Selecting changes no block and no mapping\<close>

lemma select_frame:
  "okE (\<lambda>(l, t', s'). core s' = core s) (selectVictimBlock e t ex s)"
  "okE (\<lambda>(l, t', s'). core s' = core s) (selectHotVictimBlock e t s)"
  "okE (\<lambda>(l, t', s'). core s' = core s) (selectColdVictimBlock e t s)"
  unfolding selectVictimBlock_def selectHotVictimBlock_def selectColdVictimBlock_def Let_def
  by (auto intro!: okE_bind_any simp: case_prod_unfold) (simp_all add: addLatency_def core_def)

subsection \<open>The greedy policy takes the blocks with the fewest valid units\<close>

lemma fullBlocks_weights:
  "calculateVictimWeight e POLICY_GREEDY t s =
     Inr (map (\<lambda>(b, B). (b, weight_greedy B)) (filter (\<lambda>(b, B). isFull e B) (ftl_blocks s)))"
  by (simp add: calculateVictimWeight_def Let_def)

lemma weight_greedy_exact:
  "getValidPageCountRaw B \<le> 2 ^ 24 \<Longrightarrow> weight_greedy B = F32 (of_nat (getValidPageCountRaw B))"
  by (simp add: weight_greedy_def f32_of_nat_exact)

lemma sorted_take_le:
  assumes "sorted_wrt R ws" and "x \<in> set (take n ws)" and "y \<in> set (drop n ws)"
  shows "R x y"
  using assms sorted_wrt_append [of R "take n ws" "drop n ws"] by simp

lemma selectVictimBlock_greedy:
  assumes env: "env_ok e" and d: "distinct (map fst (ftl_blocks s))"
    and pol: "evictPolicy (conf e) = POLICY_GREEDY"
    and small: "\<forall>(b, B)\<in>set (ftl_blocks s). getValidPageCountRaw B \<le> 2 ^ 24"
    and r: "selectVictimBlock e t ex s = Inr (list, t', s')"
  shows "distinct list"
    and "\<forall>b\<in>set list. \<exists>B. findBlock s b = Some B \<and> isFull e B"
    and "\<forall>b\<in>set list. \<forall>B. findBlock s b = Some B \<longrightarrow> (\<forall>c C. findBlock s c = Some C \<and> isFull e C \<and> c \<notin> set list \<longrightarrow>
           getValidPageCountRaw B \<le> getValidPageCountRaw C)"
proof -
  let ?full = "filter (\<lambda>(b, B). isFull e B) (ftl_blocks s)"
  let ?raw = "map (\<lambda>(b, B). (b, weight_greedy B)) ?full"
  let ?w = "sortWeights e ?raw"
  have bl: "ftl_blocks (s\<lparr>bReclaimMore := False\<rparr>) = ftl_blocks s" by simp
  obtain n where n: "list = map fst (take n ?w)"
    using r pol by (auto simp: selectVictimBlock_def Let_def fullBlocks_weights split: prod.splits)
  have ms: "mset ?w = mset ?raw" using env by (simp add: env_ok_def)
  have set_w: "set ?w = set ?raw" by (rule mset_eq_setD [OF ms])
  have "map fst ?raw = map fst ?full" by (simp add: case_prod_unfold)
  moreover have "distinct (map fst ?full)" using d by (rule distinct_map_filter)
  ultimately have dw: "distinct (map fst ?w)" using distinct_fst_mset [OF ms] by metis
  show "distinct list" using dw unfolding n by (metis distinct_take take_map)
  have mem: "(b, f) \<in> set ?w \<longleftrightarrow> (\<exists>B. findBlock s b = Some B \<and> isFull e B \<and> f = weight_greedy B)" for b f
    unfolding set_w by (auto simp: findBlock_def d)
  show "\<forall>b\<in>set list. \<exists>B. findBlock s b = Some B \<and> isFull e B"
    unfolding n using mem by (auto dest!: in_set_takeD)
  have "F32NaN \<notin> snd ` set ?raw"
    using small by (auto simp: weight_greedy_exact)
  then have so: "weights_sorted ?w" using env by (simp add: env_ok_def)
  show "\<forall>b\<in>set list. \<forall>B. findBlock s b = Some B \<longrightarrow> (\<forall>c C. findBlock s c = Some C \<and> isFull e C \<and> c \<notin> set list \<longrightarrow>
           getValidPageCountRaw B \<le> getValidPageCountRaw C)"
  proof (intro ballI allI impI, elim conjE)
    fix b B c C
    assume b: "b \<in> set list" and B: "findBlock s b = Some B" and C: "findBlock s c = Some C" "isFull e C" and c: "c \<notin> set list"
    obtain f where f: "(b, f) \<in> set (take n ?w)" using b unfolding n by auto
    have fB: "f = weight_greedy B" using mem [of b f] in_set_takeD [OF f] B by auto
    have "(c, weight_greedy C) \<in> set ?w" using mem C by blast
    then have "(c, weight_greedy C) \<in> set (take n ?w) \<union> set (drop n ?w)" by (metis append_take_drop_id set_append)
    moreover have "(c, weight_greedy C) \<notin> set (take n ?w)" using c unfolding n by force
    ultimately have "(c, weight_greedy C) \<in> set (drop n ?w)" by blast
    from sorted_take_le [OF so [unfolded weights_sorted_def] f this]
    have "\<not> f32_less (weight_greedy C) (weight_greedy B)" by (simp add: fB)
    moreover have "getValidPageCountRaw B \<le> 2 ^ 24" "getValidPageCountRaw C \<le> 2 ^ 24"
      using small findBlock_in [OF B] findBlock_in [OF C(1)] by auto
    ultimately show "getValidPageCountRaw B \<le> getValidPageCountRaw C" by (simp add: weight_greedy_exact)
  qed
qed

subsection \<open>The random policies\<close>

definition usable :: "weights_t \<Rightarrow> nat" where
  "usable ws = length (filter (\<lambda>(b, f). b < u32max) ws)"

lemma usable_taken:
  "i < length ws \<Longrightarrow> fst (ws ! i) < u32max \<Longrightarrow> Suc (usable (ws[i := (u32max, f)])) = usable ws"
proof (induction ws arbitrary: i)
  case (Cons w ws)
  then show ?case by (cases i) (auto simp: usable_def case_prod_unfold)
qed simp

lemma selectRandom_bounds:
  "selectRandom draws ex r ws sel = Inr sel' \<Longrightarrow> r \<le> length sel' \<and> length sel' \<le> length sel + usable ws"
proof (induction draws arbitrary: ws sel)
  case Nil
  then show ?case by (auto split: if_splits)
next
  case (Cons d draws)
  show ?case
  proof (cases "length sel < r \<and> d < length ws \<and> fst (ws ! d) < u32max \<and> fst (ws ! d) \<notin> set ex")
    case True
    then have "selectRandom draws ex r (ws[d := (u32max, snd (ws ! d))]) (sel @ [ws ! d]) = Inr sel'"
      using Cons.prems by simp
    from Cons.IH [OF this] show ?thesis using usable_taken [of d ws "snd (ws ! d)"] True by simp
  next
    case False
    then show ?thesis using Cons.prems Cons.IH [of ws sel] by (auto split: if_splits)
  qed
qed

lemma usable_le: "usable ws \<le> length ws"
  by (simp add: usable_def)

lemma selectRandom_stuck:
  "length ws < r \<Longrightarrow> selectRandom draws ex r ws [] \<noteq> Inr sel"
  using selectRandom_bounds [of draws ex r ws "[]" sel] usable_le [of ws] by auto

end
