(* ===== verification/FtlRefreshQueue.thy ===== *)
theory FtlRefreshQueue
  imports FtlInv
begin

text \<open>
  The refresh queues: every write puts the layer it went to into the queue of the refresh round
  at which its predicted error rate first exceeds the limit (\<open>setRefreshPeriod\<close>,
  \<open>insertToQueue\<close>, \<open>removeFromQueue\<close>). Arithmetic is that of \<open>uint32_t\<close>; the unchecked accesses to
  \<open>insertedLayerCheck\<close>, \<open>layerQueueNum\<close> and \<open>refreshQueues\<close> are undefined outside their bounds,
  and so is the remainder by a queue count of 0.
\<close>

subsection \<open>Definitions\<close>

definition num_queue :: "env \<Rightarrow> nat" where
  "num_queue e = wrap32 (refreshFilterNum (conf e))"

definition refreshcallCount :: "PageMapping \<Rightarrow> nat" where
  "refreshcallCount s = unat (refreshCallCount (ftl_stat s)) div background_ratio"

definition cur_queue :: "env \<Rightarrow> PageMapping \<Rightarrow> nat" where
  "cur_queue e s = refreshcallCount s mod num_queue e"

definition removeFromQueue :: "nat \<Rightarrow> PageMapping \<Rightarrow> PageMapping res" where
  "removeFromQueue layerID s =
     guardE (layerID < length (layerQueueNum s)) (UB ''layerQueueNum out of bounds'')
       (let q = layerQueueNum s ! layerID
        in guardE (q < length (refreshQueues s)) (UB ''refreshQueues out of bounds'')
             (Inr (s\<lparr>refreshQueues := (refreshQueues s)[q := remove1 layerID (refreshQueues s ! q)]\<rparr>)))"

definition pushQueue :: "nat \<Rightarrow> nat \<Rightarrow> PageMapping \<Rightarrow> PageMapping res" where
  "pushQueue q layerID s =
     guardE (q < length (refreshQueues s)) (UB ''refreshQueues out of bounds'')
       (Inr (s\<lparr>refreshQueues := (refreshQueues s)[q := refreshQueues s ! q @ [layerID]]\<rparr>))"

definition setLayerQueue :: "nat \<Rightarrow> nat \<Rightarrow> PageMapping \<Rightarrow> PageMapping res" where
  "setLayerQueue layerID q s =
     guardE (layerID < length (layerQueueNum s)) (UB ''layerQueueNum out of bounds'')
       (Inr (s\<lparr>layerQueueNum := (layerQueueNum s)[layerID := q]\<rparr>))"

definition testLayer :: "nat \<Rightarrow> PageMapping \<Rightarrow> bool res" where
  "testLayer layerID s =
     guardE (bs_inbounds (insertedLayerCheck s) layerID) (UB ''insertedLayerCheck out of bounds'')
       (Inr (bs_test (insertedLayerCheck s) layerID))"

definition setLayer :: "nat \<Rightarrow> bool \<Rightarrow> PageMapping \<Rightarrow> PageMapping res" where
  "setLayer layerID v s =
     guardE (bs_inbounds (insertedLayerCheck s) layerID) (UB ''insertedLayerCheck out of bounds'')
       (Inr (s\<lparr>insertedLayerCheck := bs_set (insertedLayerCheck s) layerID v\<rparr>))"

definition insertToQueue :: "env \<Rightarrow> nat \<Rightarrow> nat \<Rightarrow> PageMapping \<Rightarrow> PageMapping res" where
  "insertToQueue e queueNum layerID s =
     guardE (num_queue e \<noteq> 0) (UB ''remainder by zero'')
       (bindE (testLayer layerID s) (\<lambda>inserted.
          let cur = cur_queue e s; q = queueNum mod num_queue e
          in if \<not> inserted
             then bindE (pushQueue q layerID s) (\<lambda>s1.
                  bindE (setLayerQueue layerID q s1) (setLayer layerID True))
             else guardE (layerID < length (layerQueueNum s)) (UB ''layerQueueNum out of bounds'')
               (let newQueue = (if q \<le> cur then wrap32 (q + num_queue e) else q);
                    old = layerQueueNum s ! layerID;
                    oldQueue = (if old \<le> cur then wrap32 (old + num_queue e) else old)
                in if sub32 newQueue oldQueue > 24
                   then bindE (removeFromQueue layerID s) (\<lambda>s1.
                        bindE (pushQueue q layerID s1) (setLayerQueue layerID q))
                   else Inr s)))"

text \<open>
  The four grouping modes share the search for the first round i whose predicted error rate is
  above the limit; the last round is taken without asking. \<open>findRound\<close> is that loop: it returns
  the offset of the queue to insert into (0 for the last round).
\<close>

function findRound :: "env \<Rightarrow> u32 \<Rightarrow> nat \<Rightarrow> f32 \<Rightarrow> nat \<Rightarrow> PageMapping \<Rightarrow> nat option \<times> PageMapping" where
  "findRound e eraseCount layer limit i s =
     (if i > num_queue e then (None, s)
      else if i = num_queue e then (Some 0, s)
      else let (rber, s1) = getRBER e (refresh_period * of_nat i) eraseCount layer s
           in if f32_less limit rber then (Some i, s1)
              else findRound e eraseCount layer limit (Suc i) s1)"
  by pat_completeness auto
termination
  by (relation "measure (\<lambda>(e, c, l, f, i, s). num_queue e - i)") auto

declare findRound.simps [simp del]

definition insertFresh :: "nat \<Rightarrow> nat \<Rightarrow> PageMapping \<Rightarrow> PageMapping res" where
  "insertFresh q layerIndex s =
     bindE (testLayer layerIndex s) (\<lambda>inserted.
       if inserted then Inr s
       else bindE (pushQueue q layerIndex s) (setLayer layerIndex True))"

text \<open>
  Modes 2 and 3 compare with the literal \<open>0.00032\<close>, a double; the float on the other side of the
  comparison is converted to double exactly, so the literal's own value is what counts.
\<close>

definition limit_fixed :: f32 where
  "limit_fixed = F32 (5902958103587057 / 2 ^ 64)"

definition setRefreshPeriod_mode0 :: "env \<Rightarrow> u32 \<Rightarrow> nat \<Rightarrow> nat \<Rightarrow> PageMapping \<Rightarrow> PageMapping res" where
  "setRefreshPeriod_mode0 e eraseCount blockNum layerNum s =
     (let layerID = wrap32 (blockNum * 64 + layerNum)
      in case findRound e eraseCount (layerID mod 64) (refreshMaxRBER (conf e)) 1 s of
           (None, s1) \<Rightarrow> Inr s1
         | (Some i, s1) \<Rightarrow> insertToQueue e (wrap32 (cur_queue e s + i)) layerID s1)"

definition setRefreshPeriod_mode1 :: "env \<Rightarrow> u32 \<Rightarrow> nat \<Rightarrow> nat \<Rightarrow> PageMapping \<Rightarrow> PageMapping res" where
  "setRefreshPeriod_mode1 e eraseCount blockNum layerNum s =
     (let groupingSize = wrap32 (refreshGroupingSize (conf e))
      in guardE (groupingSize \<noteq> 0) (UB ''division by zero'')
        (let groupFirst = layerNum div groupingSize * groupingSize;
             last0 = wrap32 (groupFirst + groupingSize - 1);
             groupLast = (if last0 \<ge> 64 then 63 else last0)
         in if layerNum = groupFirst
            then case findRound e eraseCount groupLast (refreshMaxRBER (conf e)) 1 s of
                   (None, s1) \<Rightarrow> Inr s1
                 | (Some i, s1) \<Rightarrow>
                     foldE (\<lambda>k. insertToQueue e
                              (if i = 0 then cur_queue e s else wrap32 (cur_queue e s + i) mod num_queue e)
                              (wrap32 (blockNum * 64 + groupFirst + k)))
                       (takeWhile (\<lambda>k. groupFirst + k < 64) [0..<groupingSize]) s1
            else Inr s))"

definition group2 :: "nat \<Rightarrow> nat list" where
  "group2 groupFirst = map (\<lambda>k. groupFirst + k * 21) (takeWhile (\<lambda>k. groupFirst + k * 21 < 64) [0..<3])"

definition setRefreshPeriod_mode2 :: "env \<Rightarrow> u32 \<Rightarrow> nat \<Rightarrow> nat \<Rightarrow> PageMapping \<Rightarrow> PageMapping res" where
  "setRefreshPeriod_mode2 e eraseCount blockNum layerNum s =
     bindE (testLayer (wrap32 (blockNum * 64 + layerNum)) s) (\<lambda>inserted.
       if inserted then Inr s
       else let groupFirst = (if layerNum = 63 then 63 else layerNum mod 21)
            in case findRound e eraseCount groupFirst limit_fixed 1 s of
                 (None, s1) \<Rightarrow> Inr s1
               | (Some i, s1) \<Rightarrow>
                   foldE (\<lambda>l. insertFresh
                            (if i = 0 then cur_queue e s else wrap32 (cur_queue e s + i) mod num_queue e)
                            (wrap32 (blockNum * 64 + l)))
                     (group2 groupFirst) s1)"

definition group3 :: "nat \<Rightarrow> nat list" where
  "group3 groupFirst =
     concat (map (\<lambda>k. map (\<lambda>l. groupFirst + k * 21 + l)
       (takeWhile (\<lambda>l. groupFirst + k * 21 + l < 64) [0..<3])) [0..<3])"

definition setRefreshPeriod_mode3 :: "env \<Rightarrow> u32 \<Rightarrow> nat \<Rightarrow> nat \<Rightarrow> PageMapping \<Rightarrow> PageMapping res" where
  "setRefreshPeriod_mode3 e eraseCount blockNum layerNum s =
     bindE (testLayer (wrap32 (blockNum * 64 + layerNum)) s) (\<lambda>inserted.
       if inserted then Inr s
       else let groupFirst = (if layerNum = 63 then 63 else layerNum mod 21 div 3 * 3);
                groupLast = (if groupFirst + 2 \<ge> 64 then 63 else groupFirst + 2)
            in case findRound e eraseCount groupLast limit_fixed 1 s of
                 (None, s1) \<Rightarrow> Inr s1
               | (Some i, s1) \<Rightarrow>
                   foldE (\<lambda>l. insertFresh
                            (if i = 0 then cur_queue e s else wrap32 (cur_queue e s + i) mod num_queue e)
                            (wrap32 (blockNum * 64 + l)))
                     (group3 groupFirst) s1)"

definition setRefreshPeriod :: "env \<Rightarrow> u32 \<Rightarrow> nat \<Rightarrow> nat \<Rightarrow> PageMapping \<Rightarrow> PageMapping res" where
  "setRefreshPeriod e eraseCount blockNum layerNum s =
     guardE (num_queue e \<noteq> 0) (UB ''remainder by zero'')
       (let groupingMode = wrap32 (refreshMode (conf e))
        in if groupingMode = 0 then setRefreshPeriod_mode0 e eraseCount blockNum layerNum s
           else if groupingMode = 1 then setRefreshPeriod_mode1 e eraseCount blockNum layerNum s
           else if groupingMode = 2 then setRefreshPeriod_mode2 e eraseCount blockNum layerNum s
           else if groupingMode = 3 then setRefreshPeriod_mode3 e eraseCount blockNum layerNum s
           else Inr s)"

definition only_queues :: "PageMapping \<Rightarrow> PageMapping \<Rightarrow> bool" where
  "only_queues s s' \<longleftrightarrow> (\<exists>rq lq lc tr. s' = s\<lparr>refreshQueues := rq, layerQueueNum := lq,
      insertedLayerCheck := lc, trace := tr\<rparr>)"

text \<open>The shape of the queues, and the invariant that a layer marked as inserted is in one queue, once.\<close>

definition queues_ok :: "env \<Rightarrow> PageMapping \<Rightarrow> bool" where
  "queues_ok e s \<longleftrightarrow> 0 < num_queue e \<and> length (refreshQueues s) = num_queue e \<and>
     (\<forall>q\<in>set (layerQueueNum s). q < num_queue e) \<and>
     bs_sized (length (layerQueueNum s)) (insertedLayerCheck s)"

definition layers_once :: "PageMapping \<Rightarrow> bool" where
  "layers_once s \<longleftrightarrow> (\<forall>l<length (layerQueueNum s).
     if bs_test (insertedLayerCheck s) l
     then count_list (concat (refreshQueues s)) l = 1 \<and> l \<in> set (refreshQueues s ! (layerQueueNum s ! l))
     else count_list (concat (refreshQueues s)) l = 0)"

definition queue_step :: "env \<Rightarrow> PageMapping \<Rightarrow> PageMapping \<Rightarrow> bool" where
  "queue_step e s s' \<longleftrightarrow> only_queues s s' \<and> queues_ok e s' \<and>
     length (layerQueueNum s') = length (layerQueueNum s)"

subsection \<open>Frame: the queues are all that changes\<close>

lemma only_queues_refl [simp]: "only_queues s s"
  unfolding only_queues_def
  by (rule exI [of _ "refreshQueues s"], rule exI [of _ "layerQueueNum s"],
      rule exI [of _ "insertedLayerCheck s"], rule exI [of _ "trace s"]) simp

lemma only_queues_trans: "only_queues s s' \<Longrightarrow> only_queues s' s'' \<Longrightarrow> only_queues s s''"
  unfolding only_queues_def by (elim exE, intro exI) simp

lemma only_queues_core: "only_queues s s' \<Longrightarrow> core s' = core s"
  by (auto simp: only_queues_def core_def)

lemma only_queues_stat: "only_queues s s' \<Longrightarrow> ftl_stat s' = ftl_stat s"
  by (auto simp: only_queues_def)

lemma only_queues_updates:
  "only_queues s (s\<lparr>refreshQueues := rq\<rparr>)" "only_queues s (s\<lparr>layerQueueNum := lq\<rparr>)"
  "only_queues s (s\<lparr>insertedLayerCheck := lc\<rparr>)" "only_queues s (s\<lparr>trace := tr\<rparr>)"
  unfolding only_queues_def
  by (rule exI [of _ rq], rule exI [of _ "layerQueueNum s"],
      rule exI [of _ "insertedLayerCheck s"], rule exI [of _ "trace s"], simp)
    (rule exI [of _ "refreshQueues s"], rule exI [of _ lq],
      rule exI [of _ "insertedLayerCheck s"], rule exI [of _ "trace s"], simp,
     rule exI [of _ "refreshQueues s"], rule exI [of _ "layerQueueNum s"],
      rule exI [of _ lc], rule exI [of _ "trace s"], simp,
     rule exI [of _ "refreshQueues s"], rule exI [of _ "layerQueueNum s"],
      rule exI [of _ "insertedLayerCheck s"], rule exI [of _ tr], simp)

lemma queue_prims_frame:
  "okE (only_queues s) (removeFromQueue l s)" "okE (only_queues s) (pushQueue q l s)"
  "okE (only_queues s) (setLayerQueue l q s)" "okE (only_queues s) (setLayer l v s)"
  by (simp_all add: removeFromQueue_def pushQueue_def setLayerQueue_def setLayer_def Let_def
      only_queues_updates)

lemma only_queues_then:
  assumes "okE (only_queues s) m" and "\<And>s1. okE (only_queues s1) (f s1)"
  shows "okE (only_queues s) (bindE m f)"
  by (rule okE_bindI [OF assms(1)]) (metis assms(2) okE_mono only_queues_trans)

lemma insertToQueue_frame: "okE (only_queues s) (insertToQueue e q l s)"
  unfolding insertToQueue_def Let_def okE_guard
proof (rule impI, rule okE_bind_any)
  fix inserted
  show "num_queue e \<noteq> 0 \<Longrightarrow> okE (only_queues s)
    (if \<not> inserted
     then bindE (pushQueue (q mod num_queue e) l s)
           (\<lambda>s1. bindE (setLayerQueue l (q mod num_queue e) s1) (setLayer l True))
     else guardE (l < length (layerQueueNum s)) (UB ''layerQueueNum out of bounds'')
           (if 24 < sub32 (if q mod num_queue e \<le> cur_queue e s then wrap32 (q mod num_queue e + num_queue e)
                            else q mod num_queue e)
                     (if layerQueueNum s ! l \<le> cur_queue e s then wrap32 (layerQueueNum s ! l + num_queue e)
                      else layerQueueNum s ! l)
            then bindE (removeFromQueue l s)
                  (\<lambda>s1. bindE (pushQueue (q mod num_queue e) l s1) (setLayerQueue l (q mod num_queue e)))
            else Inr s))"
    by (auto intro!: only_queues_then queue_prims_frame)
qed

lemma foldE_frame:
  assumes "\<And>x s. okE (only_queues s) (f x s)"
  shows "okE (only_queues s) (foldE f xs s)"
proof (induction xs arbitrary: s)
  case (Cons x xs)
  show ?case by (simp add: only_queues_then [OF assms Cons])
qed simp

lemma findRound_frame: "only_queues s (snd (findRound e c l lm i s))"
proof (induction e c l lm i s rule: findRound.induct)
  case (1 e c l lm i s)
  obtain r s1 where r: "getRBER e (refresh_period * of_nat i) c l s = (r, s1)" by (meson surj_pair)
  then have g: "only_queues s s1" by (auto simp: getRBER_def only_queues_updates)
  show ?case
    using "1.IH" [of "(r, s1)" r s1] g r by (subst findRound.simps) (auto intro: only_queues_trans)
qed

lemma findRound_then:
  assumes "\<And>i s1. okE (only_queues s1) (f i s1)"
  shows "okE (only_queues s) (case findRound e c l lm k s of (None, s1) \<Rightarrow> Inr s1 | (Some i, s1) \<Rightarrow> f i s1)"
proof -
  obtain r s1 where r: "findRound e c l lm k s = (r, s1)" by (meson surj_pair)
  have "only_queues s s1" using findRound_frame [of s e c l lm k] r by simp
  then show ?thesis using assms r by (cases r) (auto intro: okE_mono only_queues_trans)
qed

lemma insertFresh_frame: "okE (only_queues s) (insertFresh q l s)"
  unfolding insertFresh_def
  by (rule okE_bind_any) (auto intro!: only_queues_then queue_prims_frame)

lemma setRefreshPeriod_frame: "okE (only_queues s) (setRefreshPeriod e c b l s)"
  unfolding setRefreshPeriod_def setRefreshPeriod_mode0_def setRefreshPeriod_mode1_def
    setRefreshPeriod_mode2_def setRefreshPeriod_mode3_def Let_def
  by (auto intro!: findRound_then foldE_frame insertToQueue_frame insertFresh_frame okE_bind_any)

subsection \<open>The queue operations succeed and keep the queues in shape\<close>

lemma queue_stepI:
  "only_queues s s' \<Longrightarrow> queues_ok e s' \<Longrightarrow> length (layerQueueNum s') = length (layerQueueNum s) \<Longrightarrow> queue_step e s s'"
  by (simp add: queue_step_def)

lemma queue_step_trans: "queue_step e s s' \<Longrightarrow> queue_step e s' s'' \<Longrightarrow> queue_step e s s''"
  by (auto simp: queue_step_def intro: only_queues_trans)

lemma queue_step_refl: "queues_ok e s \<Longrightarrow> queue_step e s s"
  by (simp add: queue_step_def)

lemma queue_prims_total:
  assumes ok: "queues_ok e s" and l: "l < length (layerQueueNum s)"
  shows "totE (queue_step e s) (removeFromQueue l s)"
    and "q < num_queue e \<Longrightarrow> totE (queue_step e s) (pushQueue q l s)"
    and "q < num_queue e \<Longrightarrow> totE (queue_step e s) (setLayerQueue l q s)"
    and "totE (queue_step e s) (setLayer l v s)"
    and "testLayer l s = Inr (bs_test (insertedLayerCheck s) l)"
proof -
  have q: "layerQueueNum s ! l < num_queue e" and n: "0 < num_queue e" using ok l by (simp_all add: queues_ok_def)
  have sz: "bs_sized (length (layerQueueNum s)) (insertedLayerCheck s)" using ok by (simp add: queues_ok_def)
  show "totE (queue_step e s) (removeFromQueue l s)"
    using ok l q n unfolding removeFromQueue_def Let_def
    by (simp add: queues_ok_def) (rule queue_stepI [OF only_queues_updates(1)], simp_all add: queues_ok_def)
  show "q < num_queue e \<Longrightarrow> totE (queue_step e s) (pushQueue q l s)"
    using ok by (auto simp: pushQueue_def queues_ok_def intro!: queue_stepI only_queues_updates)
  show "q < num_queue e \<Longrightarrow> totE (queue_step e s) (setLayerQueue l q s)"
    using ok l by (auto simp: setLayerQueue_def queues_ok_def intro!: queue_stepI only_queues_updates
        dest!: set_update_subset_insert [THEN subsetD])
  show "totE (queue_step e s) (setLayer l v s)"
    using ok l bs_sized_inb [OF sz l] bs_sized_ops(1) [OF sz l]
    by (auto simp: setLayer_def queues_ok_def intro!: queue_stepI only_queues_updates)
  show "testLayer l s = Inr (bs_test (insertedLayerCheck s) l)"
    using bs_sized_inb [OF sz l] by (simp add: testLayer_def)
qed

lemma queue_stepD:
  "queue_step e s s' \<Longrightarrow> queues_ok e s'" "queue_step e s s' \<Longrightarrow> length (layerQueueNum s') = length (layerQueueNum s)"
  by (simp_all add: queue_step_def)

lemma queue_then:
  assumes "totE (queue_step e s) m"
    and "\<And>s1. queues_ok e s1 \<Longrightarrow> length (layerQueueNum s1) = length (layerQueueNum s) \<Longrightarrow> totE (queue_step e s1) (f s1)"
  shows "totE (queue_step e s) (bindE m f)"
  by (rule totE_bindI [OF assms(1)]) (metis assms(2) totE_mono queue_step_trans queue_stepD)

lemma insertToQueue_total:
  assumes ok: "queues_ok e s" and l: "l < length (layerQueueNum s)"
  shows "totE (queue_step e s) (insertToQueue e q l s)"
proof -
  have n: "0 < num_queue e" using ok by (simp add: queues_ok_def)
  then have q: "q mod num_queue e < num_queue e" by simp
  note P = queue_prims_total [OF ok l]
  show ?thesis
    unfolding insertToQueue_def Let_def P(5)
    using ok n q l P(5) queue_step_refl [OF ok]
    by (auto intro!: queue_then queue_prims_total)
qed

lemma insertFresh_total:
  assumes ok: "queues_ok e s" and l: "l < length (layerQueueNum s)" and q: "q < num_queue e"
  shows "totE (queue_step e s) (insertFresh q l s)"
  using ok queue_prims_total(5) [OF ok l] q l queue_step_refl [OF ok]
  by (auto simp: insertFresh_def intro!: queue_then queue_prims_total)

lemma queue_fold_total:
  assumes step: "\<And>x s. x \<in> set xs \<Longrightarrow> queues_ok e s \<Longrightarrow> n = length (layerQueueNum s) \<Longrightarrow> totE (queue_step e s) (f x s)"
    and "queues_ok e s" and "n = length (layerQueueNum s)"
  shows "totE (queue_step e s) (foldE f xs s)"
  using assms
proof (induction xs arbitrary: s)
  case Nil
  then show ?case by (simp add: queue_step_refl)
next
  case (Cons x xs)
  show ?case
    unfolding foldE.simps
  proof (rule queue_then)
    show "totE (queue_step e s) (f x s)" using Cons.prems by simp
    fix s1
    assume "queues_ok e s1" "length (layerQueueNum s1) = length (layerQueueNum s)"
    then show "totE (queue_step e s1) (foldE f xs s1)"
      using Cons.prems by (intro Cons.IH) auto
  qed
qed

text \<open>The search for the round ends with a round below the number of queues.\<close>

lemma findRound_range:
  assumes "1 \<le> i" and "i \<le> num_queue e"
  shows "\<exists>k. fst (findRound e c l lm i s) = Some k \<and> k < num_queue e"
  using assms
proof (induction e c l lm i s rule: findRound.induct)
  case (1 e c l lm i s)
  obtain r s1 where r: "getRBER e (refresh_period * of_nat i) c l s = (r, s1)" by (meson surj_pair)
  show ?case
    using "1.IH" [of "(r, s1)" r s1] r "1.prems" by (subst findRound.simps) auto
qed

lemma findRound_total:
  assumes ok: "queues_ok e s"
    and f: "\<And>k s1. k < num_queue e \<Longrightarrow> queues_ok e s1 \<Longrightarrow> length (layerQueueNum s1) = length (layerQueueNum s) \<Longrightarrow>
              totE (queue_step e s1) (f k s1)"
  shows "totE (queue_step e s) (case findRound e c l lm 1 s of (None, s1) \<Rightarrow> Inr s1 | (Some i, s1) \<Rightarrow> f i s1)"
proof -
  have n: "1 \<le> num_queue e" using ok by (simp add: queues_ok_def)
  obtain k s1 where r: "findRound e c l lm 1 s = (Some k, s1)" and k: "k < num_queue e"
    using findRound_range [OF order_refl n, of c l lm s] by (metis prod.collapse)
  have oq: "only_queues s s1" using findRound_frame [of s e c l lm 1] r by simp
  have same: "refreshQueues s1 = refreshQueues s \<and> layerQueueNum s1 = layerQueueNum s \<and>
      insertedLayerCheck s1 = insertedLayerCheck s"
  proof -
    have "refreshQueues (snd (findRound e c l lm i s)) = refreshQueues s \<and>
        layerQueueNum (snd (findRound e c l lm i s)) = layerQueueNum s \<and>
        insertedLayerCheck (snd (findRound e c l lm i s)) = insertedLayerCheck s" for i
    proof (induction e c l lm i s rule: findRound.induct)
      case (1 e c l lm i s)
      obtain r s1 where r: "getRBER e (refresh_period * of_nat i) c l s = (r, s1)" by (meson surj_pair)
      then have "refreshQueues s1 = refreshQueues s" "layerQueueNum s1 = layerQueueNum s"
        "insertedLayerCheck s1 = insertedLayerCheck s" by (auto simp: getRBER_def)
      then show ?case using "1.IH" [of "(r, s1)" r s1] r by (subst (1 2 3) findRound.simps) auto
    qed
    then show ?thesis using r by (metis snd_conv)
  qed
  have st: "queue_step e s s1" using oq ok same by (simp add: queue_step_def queues_ok_def)
  have "totE (queue_step e s) (f k s1)"
    by (rule totE_mono [OF f [OF k queue_stepD(1) [OF st] queue_stepD(2) [OF st]] queue_step_trans [OF st]])
  then show ?thesis unfolding r by simp
qed

text \<open>
  All 64 layers of the block have an entry in the tables: the condition under which none of the
  unchecked accesses is out of bounds.
\<close>

definition layers_fit :: "nat \<Rightarrow> PageMapping \<Rightarrow> bool" where
  "layers_fit b s \<longleftrightarrow> b * 64 + 64 \<le> length (layerQueueNum s) \<and> b * 64 + 64 \<le> 2 ^ 32"

lemma group2_bound: "l \<in> set (group2 g) \<Longrightarrow> l < 64"
  by (auto simp: group2_def dest: set_takeWhileD)

lemma group3_bound: "l \<in> set (group3 g) \<Longrightarrow> l < 64"
  by (auto simp: group3_def dest: set_takeWhileD)

lemma setRefreshPeriod_total:
  assumes ok: "queues_ok e s" and fit: "layers_fit b s" and l: "l < 64"
    and gs: "wrap32 (refreshMode (conf e)) = 1 \<Longrightarrow> wrap32 (refreshGroupingSize (conf e)) \<noteq> 0"
  shows "totE (queue_step e s) (setRefreshPeriod e c b l s)"
proof -
  have n: "0 < num_queue e" using ok by (simp add: queues_ok_def)
  have w: "wrap32 (b * 64 + k) = b * 64 + k" "b * 64 + k < length (layerQueueNum s)" if "k < 64" for k
    using fit that by (auto simp: layers_fit_def)
  have qb: "(if i = 0 then cur_queue e s else wrap32 (cur_queue e s + i) mod num_queue e) < num_queue e" for i
    using n by (simp add: cur_queue_def)
  have m0: "totE (queue_step e s) (setRefreshPeriod_mode0 e c b l s)"
    unfolding setRefreshPeriod_mode0_def Let_def
    by (rule findRound_total [OF ok]) (auto intro!: insertToQueue_total simp: w l)
  have m1: "totE (queue_step e s) (setRefreshPeriod_mode1 e c b l s)" if "wrap32 (refreshGroupingSize (conf e)) \<noteq> 0"
    unfolding setRefreshPeriod_mode1_def Let_def using that
    by (auto intro!: findRound_total [OF ok, unfolded One_nat_def] queue_step_refl [OF ok] queue_fold_total insertToQueue_total
        simp: w add.assoc dest!: set_takeWhileD)
  have t: "testLayer (wrap32 (b * 64 + l)) s = Inr (bs_test (insertedLayerCheck s) (b * 64 + l))"
    using queue_prims_total(5) [OF ok w(2) [OF l]] by (simp add: w l)
  have m2: "totE (queue_step e s) (setRefreshPeriod_mode2 e c b l s)"
    unfolding setRefreshPeriod_mode2_def Let_def t
    by (auto intro!: findRound_total [OF ok, unfolded One_nat_def] queue_step_refl [OF ok] queue_fold_total insertFresh_total qb
        simp: w dest!: group2_bound)
  have m3: "totE (queue_step e s) (setRefreshPeriod_mode3 e c b l s)"
    unfolding setRefreshPeriod_mode3_def Let_def t
    by (auto intro!: findRound_total [OF ok, unfolded One_nat_def] queue_step_refl [OF ok] queue_fold_total insertFresh_total qb
        simp: w dest!: group3_bound)
  show ?thesis
    unfolding setRefreshPeriod_def Let_def using n m0 m1 m2 m3 gs queue_step_refl [OF ok] by simp
qed

subsection \<open>A layer marked as inserted is in exactly one queue\<close>

lemma count_concat_update:
  "q < length qs \<Longrightarrow>
   count_list (concat (qs[q := ys])) x + count_list (qs ! q) x = count_list (concat qs) x + count_list ys x"
proof (induction qs arbitrary: q)
  case (Cons a qs)
  then show ?case by (cases q) (auto simp: add.assoc)
qed simp

lemma count_remove1: "count_list (remove1 a xs) x = count_list xs x - (if x = a then 1 else 0)"
proof (induction xs)
  case (Cons b xs)
  have "x = a \<Longrightarrow> x = b \<Longrightarrow> True" by simp
  then show ?case using Cons by (auto simp: Suc_diff_le count_list_0_iff)
qed simp

lemma count_pos: "x \<in> set xs \<Longrightarrow> 0 < count_list xs x"
  by (metis bot_nat_0.not_eq_extremum count_list_0_iff)

lemma nth_update_mem:
  "q < length qs \<Longrightarrow> k < length qs \<Longrightarrow> x \<in> set (qs ! k) \<Longrightarrow> (k = q \<Longrightarrow> x \<in> set ys) \<Longrightarrow> x \<in> set (qs[q := ys] ! k)"
  by (cases "k = q") auto

lemma push_once:
  assumes once: "layers_once s" and ok: "queues_ok e s" and l: "l < length (layerQueueNum s)"
    and q: "q < num_queue e" and f: "\<not> bs_test (insertedLayerCheck s) l"
  shows "layers_once (s\<lparr>refreshQueues := (refreshQueues s)[q := refreshQueues s ! q @ [l]],
            layerQueueNum := (layerQueueNum s)[l := q], insertedLayerCheck := bs_set (insertedLayerCheck s) l True\<rparr>)"
proof -
  have len: "q < length (refreshQueues s)" "\<And>k. k < length (layerQueueNum s) \<Longrightarrow> layerQueueNum s ! k < length (refreshQueues s)"
    and sz: "bs_sized (length (layerQueueNum s)) (insertedLayerCheck s)" using ok q by (auto simp: queues_ok_def)
  have c: "count_list (concat ((refreshQueues s)[q := refreshQueues s ! q @ [l]])) x =
      count_list (concat (refreshQueues s)) x + (if x = l then 1 else 0)" for x
    using count_concat_update [OF len(1), of "refreshQueues s ! q @ [l]" x] by auto
  have "x \<in> set ((refreshQueues s)[q := refreshQueues s ! q @ [l]] ! ((layerQueueNum s)[l := q] ! x))"
    if "x < length (layerQueueNum s)" "x \<noteq> l" "x \<in> set (refreshQueues s ! (layerQueueNum s ! x))" for x
    using that len by (auto intro: nth_update_mem)
  then show ?thesis
    using once f l len(1) by (auto simp: layers_once_def c bs_sized_test(1) [OF sz l])
qed

lemma move_once:
  assumes once: "layers_once s" and ok: "queues_ok e s" and l: "l < length (layerQueueNum s)"
    and q: "q < num_queue e" and t: "bs_test (insertedLayerCheck s) l"
  defines "qs \<equiv> (refreshQueues s)[layerQueueNum s ! l := remove1 l (refreshQueues s ! (layerQueueNum s ! l))]"
  shows "layers_once (s\<lparr>refreshQueues := qs[q := qs ! q @ [l]], layerQueueNum := (layerQueueNum s)[l := q]\<rparr>)"
proof -
  let ?old = "layerQueueNum s ! l"
  have len: "q < length (refreshQueues s)" "\<And>k. k < length (layerQueueNum s) \<Longrightarrow> layerQueueNum s ! k < length (refreshQueues s)"
    using ok q by (auto simp: queues_ok_def)
  have lo: "?old < length (refreshQueues s)" by (rule len(2) [OF l])
  have ql: "q < length qs" using len(1) by (simp add: qs_def)
  have one: "count_list (concat (refreshQueues s)) l = 1" "l \<in> set (refreshQueues s ! ?old)"
    using once t l by (auto simp: layers_once_def)
  have c1: "count_list (concat qs) x = count_list (concat (refreshQueues s)) x - (if x = l then 1 else 0)" for x
    using count_concat_update [OF lo, of "remove1 l (refreshQueues s ! ?old)" x] count_pos [OF one(2)] one(1)
    by (auto simp: qs_def count_remove1)
  have c: "count_list (concat (qs[q := qs ! q @ [l]])) x = count_list (concat (refreshQueues s)) x" for x
    using count_concat_update [OF ql, of "qs ! q @ [l]" x] c1 [of x] one(1) by (cases "x = l") auto
  have m1: "x \<in> set (qs ! (layerQueueNum s ! x))"
    if "x < length (layerQueueNum s)" "x \<noteq> l" "x \<in> set (refreshQueues s ! (layerQueueNum s ! x))" for x
    unfolding qs_def using that len(2) [of x] lo by (auto intro!: nth_update_mem)
  have m2: "x \<in> set (qs[q := qs ! q @ [l]] ! ((layerQueueNum s)[l := q] ! x))"
    if "x < length (layerQueueNum s)" "x \<noteq> l" "x \<in> set (refreshQueues s ! (layerQueueNum s ! x))" for x
    using m1 [OF that] that ql len(2) [of x] by (auto intro!: nth_update_mem simp: qs_def)
  have "if bs_test (insertedLayerCheck s) x
     then count_list (concat (qs[q := qs ! q @ [l]])) x = 1 \<and> x \<in> set (qs[q := qs ! q @ [l]] ! ((layerQueueNum s)[l := q] ! x))
     else count_list (concat (qs[q := qs ! q @ [l]])) x = 0" if "x < length (layerQueueNum s)" for x
    using once that m2 [of x] t l ql one by (cases "x = l") (auto simp: layers_once_def c)
  then show ?thesis by (simp add: layers_once_def)
qed

lemma insertToQueue_once:
  assumes once: "layers_once s" and ok: "queues_ok e s" and l: "l < length (layerQueueNum s)"
  shows "okE layers_once (insertToQueue e q l s)"
proof -
  have n: "0 < num_queue e" using ok by (simp add: queues_ok_def)
  then have q: "q mod num_queue e < num_queue e" by simp
  show ?thesis
    unfolding insertToQueue_def Let_def queue_prims_total(5) [OF ok l] bindE_simps
    using push_once [OF once ok l q] move_once [OF once ok l q] once n
    by (simp add: removeFromQueue_def pushQueue_def setLayerQueue_def setLayer_def Let_def okE_bind)
qed

text \<open>
  The distance between the old and the new queue is an unsigned difference: a new queue that comes
  before the old one has a huge distance, so the layer is moved to it.
\<close>

lemma insertToQueue_earlier:
  assumes ok: "queues_ok e s" and l: "l < length (layerQueueNum s)" and t: "bs_test (insertedLayerCheck s) l"
    and n: "num_queue e < 2 ^ 30"
    and new: "new = (if q mod num_queue e \<le> cur_queue e s then q mod num_queue e + num_queue e else q mod num_queue e)"
    and old: "old = (if layerQueueNum s ! l \<le> cur_queue e s then layerQueueNum s ! l + num_queue e else layerQueueNum s ! l)"
    and less: "new < old"
  shows "totE (\<lambda>s'. layerQueueNum s' ! l = q mod num_queue e) (insertToQueue e q l s)"
proof -
  have n0: "0 < num_queue e" and len: "length (refreshQueues s) = num_queue e"
    and lq: "layerQueueNum s ! l < num_queue e" using ok l by (auto simp: queues_ok_def)
  have q: "q mod num_queue e < num_queue e" using n0 by simp
  have old32: "old < 2 ^ 32" using lq n by (auto simp: old)
  have w: "wrap32 (q mod num_queue e + num_queue e) = q mod num_queue e + num_queue e"
    "wrap32 (layerQueueNum s ! l + num_queue e) = layerQueueNum s ! l + num_queue e"
  proof -
    have "q mod num_queue e + num_queue e < 4 * 2 ^ 30" using q n by linarith
    then show "wrap32 (q mod num_queue e + num_queue e) = q mod num_queue e + num_queue e" by simp
    have "layerQueueNum s ! l + num_queue e < 4 * 2 ^ 30" using lq n by linarith
    then show "wrap32 (layerQueueNum s ! l + num_queue e) = layerQueueNum s ! l + num_queue e" by simp
  qed
  have "old < 2 * num_queue e" using lq by (auto simp: old)
  then have "24 < sub32 new old" using sub32_less [OF less old32] n less by simp
  then show ?thesis
    unfolding insertToQueue_def Let_def queue_prims_total(5) [OF ok l] w new [symmetric] old [symmetric]
    using t l n0 len lq q
    by (simp add: removeFromQueue_def pushQueue_def setLayerQueue_def Let_def)
qed

end
