(* ===== verification/FtlGc.thy ===== *)
theory FtlGc
  imports FtlVictim FtlRefreshQueue
begin

text \<open>
  Erasing and garbage collection (\<open>eraseInternal\<close>, \<open>doGarbageCollection\<close>, \<open>sepEraseInternal\<close>,
  \<open>sepDoGarbageCollection\<close>). The common core of the three copy loops of the source (garbage
  collection with and without hot/cold separation, and refresh) is \<open>remapUnit\<close>: invalidate the
  old copy, redirect the mapping, write the new copy, note the refresh period.
\<close>

subsection \<open>Erasing\<close>

text \<open>
  The reverse search of the free list: behind the last block whose erase count is not larger.
  On an empty list the source decrements \<open>begin()\<close>, which is undefined.
\<close>

fun insertBack :: "Block \<Rightarrow> Block list \<Rightarrow> Block list" where
  "insertBack B [] = [B]"
| "insertBack B (x # xs) =
     (if blk_eraseCount x \<le> blk_eraseCount B then B # x # xs else x # insertBack B xs)"

definition insertFree :: "Block \<Rightarrow> Block list \<Rightarrow> Block list" where
  "insertFree B bs = rev (insertBack B (rev bs))"

definition eraseInternal :: "env \<Rightarrow> PalRequest \<Rightarrow> tick \<Rightarrow> PageMapping \<Rightarrow> (tick \<times> PageMapping) res" where
  "eraseInternal e req t s =
     (case findBlock s (preq_blockIndex req) of
        None \<Rightarrow> Inl (Panic ''No such block'')
      | Some B \<Rightarrow>
          guardE (getValidPageCount B = 0) (Panic ''There are valid pages in victim block'')
            (let B1 = Block_erase B;
                 (t1, s1) = palErase e req t (setBlock (preq_blockIndex req) B1 s)
             in bindE
                  (if unat (blk_eraseCount B1) < badBlockThreshold (conf e)
                   then guardE (freeBlocks s1 \<noteq> []) (UB ''decrement of freeBlocks.begin()'')
                          (Inr (s1\<lparr>freeBlocks := insertFree B1 (freeBlocks s1),
                                   nFreeBlocks := nFreeBlocks s1 + 1\<rparr>))
                   else Inr s1)
                  (\<lambda>s2. Inr (addLatency e CpuERASE_INTERNAL t1
                          (s2\<lparr>ftl_blocks := AList.delete (preq_blockIndex req) (ftl_blocks s2)\<rparr>)))))"

text \<open>
  With hot/cold separation the position in the cold list is found first and a replacement for an
  open block is taken from the same list afterwards; if the replacement is the block the position
  points at, the iterator is dangling. \<open>searchBack\<close> gives the block the iterator points at
  (\<open>None\<close> for \<open>end()\<close>).
\<close>

fun searchBack :: "u32 \<Rightarrow> Block list \<Rightarrow> nat option \<Rightarrow> nat option" where
  "searchBack c [] pos = pos"
| "searchBack c (x # xs) pos =
     (if blk_eraseCount x \<le> c then pos else searchBack c xs (Some (blk_idx x)))"

fun insertBefore :: "nat \<Rightarrow> Block \<Rightarrow> Block list \<Rightarrow> Block list res" where
  "insertBefore b B [] = Inl (UB ''insertion at a dangling list iterator'')"
| "insertBefore b B (x # xs) =
     (if blk_idx x = b then Inr (B # x # xs)
      else bindE (insertBefore b B xs) (\<lambda>ys. Inr (x # ys)))"

definition insertAt :: "nat option \<Rightarrow> Block \<Rightarrow> Block list \<Rightarrow> Block list res" where
  "insertAt pos B bs = (case pos of None \<Rightarrow> Inr (bs @ [B]) | Some b \<Rightarrow> insertBefore b B bs)"

fun findIndex :: "nat \<Rightarrow> nat list \<Rightarrow> nat option" where
  "findIndex b [] = None"
| "findIndex b (x # xs) = (if x = b then Some 0 else map_option Suc (findIndex b xs))"

definition replaceOpenBlock :: "env \<Rightarrow> blockPoolType \<Rightarrow> nat \<Rightarrow> PageMapping \<Rightarrow> PageMapping res" where
  "replaceOpenBlock e ty b s =
     (case ty of
        COOL \<Rightarrow>
          (case findIndex b (lastCoolFreeBlock s) of
             None \<Rightarrow> Inr s
           | Some i \<Rightarrow> bindE (getColdFreeBlock e i True s) (\<lambda>(nb, s1).
               Inr (s1\<lparr>lastCoolFreeBlock := (lastCoolFreeBlock s1)[i := nb], bReclaimMore := True\<rparr>)))
      | COLD \<Rightarrow>
          (case findIndex b (lastColdFreeBlock s) of
             None \<Rightarrow> Inr s
           | Some i \<Rightarrow> bindE (getColdFreeBlock e i True s) (\<lambda>(nb, s1).
               Inr (s1\<lparr>lastColdFreeBlock := (lastColdFreeBlock s1)[i := nb], bReclaimMore := True\<rparr>)))
      | HOT \<Rightarrow> Inr s)"

definition sepFreeErased :: "env \<Rightarrow> nat \<Rightarrow> PageMapping \<Rightarrow> PageMapping res" where
  "sepFreeErased e b s =
     (case findBlock s b of
        None \<Rightarrow> Inl (UB ''dereference of blocks.end()'')
      | Some B \<Rightarrow>
          if blk_blockType B = HOT
          then guardE (hotFreeBlocks s \<noteq> []) (UB ''decrement of hotFreeBlocks.begin()'')
                 (Inr (s\<lparr>hotFreeBlocks := insertFree B (hotFreeBlocks s),
                         nHotFreeBlocks := nHotFreeBlocks s + 1\<rparr>))
          else guardE (coldFreeBlocks s \<noteq> []) (UB ''decrement of coldFreeBlocks.begin()'')
                 (let pos = searchBack (blk_eraseCount B) (rev (coldFreeBlocks s)) None
                  in bindE (replaceOpenBlock e (blk_blockType B) b s) (\<lambda>s1.
                     case findBlock s1 b of
                       None \<Rightarrow> Inl (UB ''dereference of blocks.end()'')
                     | Some B1 \<Rightarrow>
                         bindE (insertAt pos B1 (coldFreeBlocks s1)) (\<lambda>bs.
                           Inr (s1\<lparr>coldFreeBlocks := bs, nColdFreeBlocks := nColdFreeBlocks s1 + 1\<rparr>)))))"

definition sepEraseInternal :: "env \<Rightarrow> PalRequest \<Rightarrow> tick \<Rightarrow> PageMapping \<Rightarrow> (tick \<times> PageMapping) res" where
  "sepEraseInternal e req t s =
     (case findBlock s (preq_blockIndex req) of
        None \<Rightarrow> Inl (UB ''dereference of blocks.end()'')
      | Some B \<Rightarrow>
          guardE (getValidPageCount B = 0) (Panic ''There are valid pages in victim block'')
            (let B1 = Block_erase B;
                 (t1, s1) = palErase e req t (setBlock (preq_blockIndex req) B1 s)
             in bindE
                  (if unat (blk_eraseCount B1) < badBlockThreshold (conf e)
                   then sepFreeErased e (preq_blockIndex req) s1
                   else Inr s1)
                  (\<lambda>s2. Inr (addLatency e CpuERASE_INTERNAL t1
                          (s2\<lparr>ftl_blocks := AList.delete (preq_blockIndex req) (ftl_blocks s2)\<rparr>)))))"

subsection \<open>Copying one unit\<close>

definition fullFlag :: "env \<Rightarrow> Bitset" where
  "fullFlag e = bs_set_all (Bitset_new (ioUnitInPage (param e)))"

definition unitFlag :: "env \<Rightarrow> nat \<Rightarrow> Bitset" where
  "unitFlag e idx =
     (if bRandomTweak e then bs_set (bs_reset_all (Bitset_new (ioUnitInPage (param e)))) idx True
      else fullFlag e)"

definition palReq :: "nat \<Rightarrow> nat \<Rightarrow> Bitset \<Rightarrow> PalRequest" where
  "palReq b p flag =
     \<lparr>preq_reqID = 0, preq_reqSubID = 0, preq_blockIndex = b, preq_pageIndex = p, preq_ioFlag = flag\<rparr>"

text \<open>The state of a copy loop: the mapping layer, the requests collected so far, the time.\<close>

record copy_state =
  cp_ftl :: PageMapping
  cp_reads :: "PalRequest list"
  cp_writes :: "PalRequest list"
  cp_tick :: tick

text \<open>
  One iteration of the inner loop: block b, page p, unit \<open>idx\<close> moves to the open block \<open>newB\<close>.
  \<open>refreshed\<close> is whether the source block's refreshed-page counter is bumped (refresh only);
  \<open>begin\<close> is the time handed to \<open>Block::write\<close>.
\<close>

definition remapUnit :: "env \<Rightarrow> string \<Rightarrow> bool \<Rightarrow> tick \<Rightarrow> nat \<Rightarrow> nat \<Rightarrow> u64 list \<Rightarrow> nat \<Rightarrow> nat \<Rightarrow>
    copy_state \<Rightarrow> copy_state res" where
  "remapUnit e msg refreshed begin b p lpns newB idx c =
     (let s0 = cp_ftl c
      in case findBlock s0 b of
           None \<Rightarrow> Inl (UB ''dereference of blocks.end()'')
         | Some B \<Rightarrow>
     bindE (Block_invalidate B p idx) (\<lambda>B1.
     let s1 = setBlock b (if refreshed
                          then Block_setRefreshedPageCount (blk_refreshedPageCount B1 + 1) B1
                          else B1) s0
     in guardE (idx < length lpns) (Throw ''vector::at'')
     (case findMapping s1 (lpns ! idx) of
        None \<Rightarrow> Inl (Panic msg)
      | Some ml \<Rightarrow>
     (let (t1, s2) = dramRead e (8 * ioUnitInPage (param e)) (cp_tick c) s1
      in guardE (idx < length ml) (Throw ''vector::at'')
     (case findBlock s2 newB of
        None \<Rightarrow> Inl (UB ''dereference of blocks.end()'')
      | Some N \<Rightarrow>
     bindE (getNextWritePageIndexAt N idx) (\<lambda>newPageIdx.
     let s3 = setMapping (lpns ! idx) idx (newB, newPageIdx) s2
     in bindE (Block_write N newPageIdx (lpns ! idx) idx begin) (\<lambda>N1.
     let s4 = setBlock newB N1 s3
     in bindE (setRefreshPeriod e (blk_eraseCount N1) newB (newPageIdx mod 64) s4) (\<lambda>s5.
        Inr (c\<lparr>cp_ftl := s5, cp_writes := cp_writes c @ [palReq newB newPageIdx (unitFlag e idx)],
               cp_tick := t1\<rparr>)))))))))"

definition gcUnit :: "env \<Rightarrow> bool \<Rightarrow> nat \<Rightarrow> nat \<Rightarrow> u64 list \<Rightarrow> Bitset \<Rightarrow> nat \<Rightarrow> nat \<Rightarrow> copy_state \<Rightarrow> copy_state res" where
  "gcUnit e isRefresh b p lpns bitm newB idx c =
     (if bs_test bitm idx
      then bindE (remapUnit e ''Invalid mapping table entry'' False (uninitTick e) b p lpns newB idx c)
             (\<lambda>c1. Inr (c1\<lparr>cp_ftl :=
                bumpStat (\<lambda>st. st\<lparr>refreshGcPageCopies := refreshGcPageCopies st + (if isRefresh then 1 else 0),
                                  validPageCopies := validPageCopies st + 1\<rparr>) (cp_ftl c1)\<rparr>))
      else Inr c)"

text \<open>One page of a victim: if a unit is valid, an open block is taken and the units copied.\<close>

definition gcPage :: "env \<Rightarrow> bool \<Rightarrow> nat \<Rightarrow> nat \<Rightarrow> copy_state \<Rightarrow> copy_state res" where
  "gcPage e isRefresh b p c =
     (case findBlock (cp_ftl c) b of
        None \<Rightarrow> Inl (UB ''dereference of blocks.end()'')
      | Some B \<Rightarrow>
     bindE (getPageInfo B p (Bitset_new (ioUnitInPage (param e)))) (\<lambda>(valid, lpns, bit0).
     if valid
     then let bitm = (if bRandomTweak e then bit0 else bs_set_all bit0)
          in bindE (getLastFreeBlock e bitm (cp_ftl c)) (\<lambda>(newB, s1).
             bindE (foldE (gcUnit e isRefresh b p lpns bitm newB) [0..<bitsetSize e]
                      (c\<lparr>cp_ftl := s1, cp_reads := cp_reads c @ [palReq b p bitm]\<rparr>)) (\<lambda>c1.
             Inr (c1\<lparr>cp_ftl := bumpStat (\<lambda>st. st\<lparr>validSuperPageCopies := validSuperPageCopies st + 1\<rparr>)
                                 (cp_ftl c1)\<rparr>)))
     else Inr c))"

definition gcBlock :: "env \<Rightarrow> bool \<Rightarrow> nat \<Rightarrow> copy_state \<Rightarrow> copy_state res" where
  "gcBlock e isRefresh b c =
     guardE (findBlock (cp_ftl c) b \<noteq> None) (Panic ''Invalid block'')
       (foldE (gcPage e isRefresh b) [0..<pagesInBlock (param e)] c)"

text \<open>The erase loop: every victim is erased starting at the end of the reads.\<close>

fun eraseLoop :: "(PalRequest \<Rightarrow> tick \<Rightarrow> PageMapping \<Rightarrow> (tick \<times> PageMapping) res) \<Rightarrow>
    PalRequest list \<Rightarrow> tick \<Rightarrow> tick \<Rightarrow> PageMapping \<Rightarrow> (tick \<times> PageMapping) res" where
  "eraseLoop f [] begin fin s = Inr (fin, s)"
| "eraseLoop f (r # rs) begin fin s =
     bindE (f r begin s) (\<lambda>(t, s1). eraseLoop f rs begin (max fin t) s1)"

definition doGarbageCollection :: "env \<Rightarrow> nat list \<Rightarrow> tick \<Rightarrow> bool \<Rightarrow> PageMapping \<Rightarrow> (tick \<times> PageMapping) res" where
  "doGarbageCollection e blocksToReclaim t0 isRefresh s0 =
     (if blocksToReclaim = [] then Inr (t0, s0)
      else bindE (foldE (gcBlock e isRefresh) blocksToReclaim
                    \<lparr>cp_ftl = s0, cp_reads = [], cp_writes = [], cp_tick = t0\<rparr>) (\<lambda>c.
        let t = cp_tick c;
            (readFinishedAt, s1) = palLoop (palRead e) (cp_reads c) t t0 (cp_ftl c);
            (writeFinishedAt, s2) = palLoop (palWrite e) (cp_writes c) readFinishedAt t0 s1;
            eraseRequests = map (\<lambda>b. palReq b 0 (fullFlag e)) blocksToReclaim
        in bindE (eraseLoop (eraseInternal e) eraseRequests readFinishedAt t0 s2)
             (\<lambda>(eraseFinishedAt, s3).
                Inr (addLatency e CpuDO_GARBAGE_COLLECTION (max writeFinishedAt eraseFinishedAt) s3))))"

subsection \<open>Garbage collection with hot/cold separation\<close>

definition sepGcUnit :: "env \<Rightarrow> bool \<Rightarrow> blockPoolType \<Rightarrow> nat \<Rightarrow> nat \<Rightarrow> u64 list \<Rightarrow> Bitset \<Rightarrow> nat \<Rightarrow> nat \<Rightarrow>
    copy_state \<Rightarrow> copy_state res" where
  "sepGcUnit e isRefresh gcType b p lpns bitm newB idx c =
     (if bs_test bitm idx
      then bindE (remapUnit e ''Invalid mapping table entry'' False (uninitTick e) b p lpns newB idx c)
             (\<lambda>c1. Inr (c1\<lparr>cp_ftl :=
                bumpStat (\<lambda>st.
                   let st1 = st\<lparr>refreshGcPageCopies := refreshGcPageCopies st + (if isRefresh then 1 else 0)\<rparr>
                   in if gcType = HOT then st1\<lparr>hotValidPageCopies := hotValidPageCopies st1 + 1\<rparr>
                      else st1\<lparr>coldValidPageCopies := coldValidPageCopies st1 + 1\<rparr>) (cp_ftl c1)\<rparr>))
      else Inr c)"

definition sepGcPage :: "env \<Rightarrow> bool \<Rightarrow> blockPoolType \<Rightarrow> nat \<Rightarrow> nat \<Rightarrow> copy_state \<Rightarrow> copy_state res" where
  "sepGcPage e isRefresh gcType b p c =
     (case findBlock (cp_ftl c) b of
        None \<Rightarrow> Inl (UB ''dereference of blocks.end()'')
      | Some B \<Rightarrow>
     bindE (getPageInfo B p (Bitset_new (ioUnitInPage (param e)))) (\<lambda>(valid, lpns, bit0).
     if valid
     then let bitm = (if bRandomTweak e then bit0 else bs_set_all bit0)
          in bindE (getLastCoolFreeBlock e bitm (cp_ftl c)) (\<lambda>(newB, s1).
             bindE (foldE (sepGcUnit e isRefresh gcType b p lpns bitm newB) [0..<bitsetSize e]
                      (c\<lparr>cp_ftl := s1, cp_reads := cp_reads c @ [palReq b p bitm]\<rparr>)) (\<lambda>c1.
             Inr (c1\<lparr>cp_ftl := bumpStat (\<lambda>st.
                if gcType = HOT then st\<lparr>hotValidSuperPageCopies := hotValidSuperPageCopies st + 1\<rparr>
                else st\<lparr>coldValidSuperPageCopies := coldValidSuperPageCopies st + 1\<rparr>) (cp_ftl c1)\<rparr>)))
     else Inr c))"

definition sepGcBlock :: "env \<Rightarrow> bool \<Rightarrow> blockPoolType \<Rightarrow> nat \<Rightarrow> copy_state \<Rightarrow> copy_state res" where
  "sepGcBlock e isRefresh gcType b c =
     guardE (findBlock (cp_ftl c) b \<noteq> None) (Panic ''Invalid block occured in GC'')
       (foldE (sepGcPage e isRefresh gcType b) [0..<pagesInBlock (param e)] c)"

definition sepDoGarbageCollection :: "env \<Rightarrow> nat list \<Rightarrow> tick \<Rightarrow> bool \<Rightarrow> blockPoolType \<Rightarrow> PageMapping \<Rightarrow>
    (tick \<times> PageMapping) res" where
  "sepDoGarbageCollection e blocksToReclaim t0 isRefresh gcType s0 =
     (if blocksToReclaim = [] then Inr (t0, s0)
      else bindE (foldE (sepGcBlock e isRefresh gcType) blocksToReclaim
                    \<lparr>cp_ftl = s0, cp_reads = [], cp_writes = [], cp_tick = t0\<rparr>) (\<lambda>c.
        let t = cp_tick c;
            (readFinishedAt, s1) = palLoop (palRead e) (cp_reads c) t t0 (cp_ftl c);
            (writeFinishedAt, s2) = palLoop (palWrite e) (cp_writes c) readFinishedAt t0 s1;
            eraseRequests = map (\<lambda>b. palReq b 0 (fullFlag e)) blocksToReclaim
        in bindE (eraseLoop (sepEraseInternal e) eraseRequests readFinishedAt t0 s2)
             (\<lambda>(eraseFinishedAt, s3).
                Inr (addLatency e CpuDO_GARBAGE_COLLECTION (max writeFinishedAt eraseFinishedAt) s3))))"

subsection \<open>Copying one unit\<close>

lemma update_twice: "AList.update k v (AList.update k w al) = AList.update k v al"
  by (induction al) auto

lemma setBlock_twice [simp]: "setBlock b B (setBlock b C s) = setBlock b B s"
  by (simp add: setBlock_def update_twice)

lemma setBlock_setMapping: "setBlock b B (setMapping l i m s) = setMapping l i m (setBlock b B s)"
  by (simp add: setBlock_def setMapping_def split: option.split)

definition fullBlock :: "env \<Rightarrow> PageMapping \<Rightarrow> nat \<Rightarrow> bool" where
  "fullBlock e s b = (case findBlock s b of None \<Rightarrow> False | Some B \<Rightarrow> isFull e B)"

text \<open>What moving unit i of page p of block b to the open block \<open>newB\<close> does.\<close>

definition moved :: "env \<Rightarrow> (u64 \<times> nat) set \<Rightarrow> nat \<Rightarrow> nat \<Rightarrow> nat \<Rightarrow> u64 \<Rightarrow> nat \<Rightarrow> PageMapping \<Rightarrow> PageMapping \<Rightarrow> bool" where
  "moved e X b p i l newB s s' \<longleftrightarrow>
     ftl_inv e X s' \<and> live e s' = live e s \<and> (\<forall>x. findBlock s' x = None \<longleftrightarrow> findBlock s x = None) \<and>
     (\<forall>x. x \<noteq> newB \<longrightarrow> fullBlock e s x \<longrightarrow> fullBlock e s' x) \<and>
     (\<exists>p'. p' < pagesInBlock (param e) \<and> (newB = b \<longrightarrow> p' \<noteq> p) \<and>
        (\<forall>x q j k. valid_at s' x q j k \<longleftrightarrow>
           (valid_at s x q j k \<and> \<not> (x = b \<and> q = p \<and> j = i)) \<or> (x = newB \<and> q = p' \<and> j = i \<and> k = l)))"

lemma remapUnit_ok:
  assumes inv: "ftl_inv e X (cp_ftl c)" and v: "valid_at (cp_ftl c) b p i (lpns ! i)"
  shows "okE (\<lambda>c'. moved e X b p i (lpns ! i) newB (cp_ftl c) (cp_ftl c'))
           (remapUnit e msg refreshed bt b p lpns newB i c)"
proof -
  let ?l = "lpns ! i" and ?s0 = "cp_ftl c"
  let ?r = "\<lambda>B1. if refreshed then Block_setRefreshedPageCount (blk_refreshedPageCount B1 + 1) B1 else B1"
  note D = ftl_invD [OF inv]
  have iX: "i < bitsetSize e" "maps ?s0 ?l i = Some (b, p)" "(?l, i) \<notin> X" using D(4) [OF v] by auto
  have im: "isMapped e (b, p)" by (rule valid_at_isMapped [OF D(1) v])
  obtain B where B: "findBlock ?s0 b = Some B" using v by (auto simp: valid_at_def split: option.splits)
  obtain B1 where B1: "Block_invalidate B p i = Inr B1"
    and I1: "ftl_inv e (insert (?l, i) X) (setBlock b B1 ?s0)"
    and V1: "\<And>x q j k. valid_at (setBlock b B1 ?s0) x q j k \<longleftrightarrow> valid_at ?s0 x q j k \<and> \<not> (x = b \<and> q = p \<and> j = i)"
    and ok1: "blk_ok e b B1" and nx1: "pNextWritePageIndex B1 = pNextWritePageIndex B"
    using ftl_inv_invalidate [OF inv B iX(2) im iX(3)] by (auto simp: totE_iff)
  define s1 where "s1 = setBlock b (?r B1) ?s0"
  have s1: "ftl_inv e (insert (?l, i) X) s1" "valid_at s1 = valid_at (setBlock b B1 ?s0)"
    using ftl_inv_same_units [OF I1, of b B1 "?r B1"] same_units_setters [OF blk_okD(1) [OF ok1]]
    by (auto simp: s1_def)
  have pw: "p < pNextWritePageIndex (?r B1) ! i"
    using v B inv_wf [OF inv B] nx1 by (auto simp: valid_at_def blk_wf_def blk_seq_def)
  have full1: "isFull e (?r B1) = isFull e B"
    using nx1 ok1 D(7) [OF B] by (intro isFull_same) (simp_all add: blk_ok_def)
  show ?thesis
    unfolding okE_iff
  proof (intro allI impI)
    fix c'
    assume r: "remapUnit e msg refreshed bt b p lpns newB i c = Inr c'"
    obtain t1 s2 where d: "dramRead e (8 * ioUnitInPage (param e)) (cp_tick c) s1 = (t1, s2)" by fastforce
    have c2: "core s2 = core s1" using core_ext(4) [of e "8 * ioUnitInPage (param e)" "cp_tick c" s1] d by simp
    note e2 = core_cong [OF c2]
    have fm: "findMapping s1 = findMapping ?s0" by (simp add: s1_def)
    from r obtain ml N N1 s5 where ml: "findMapping s2 ?l = Some ml" and N: "findBlock s2 newB = Some N"
      and w: "Block_write N (pNextWritePageIndex N ! i) ?l i bt = Inr N1"
      and rp: "setRefreshPeriod e (blk_eraseCount N1) newB (pNextWritePageIndex N ! i mod 64)
          (setBlock newB N1 (setMapping ?l i (newB, pNextWritePageIndex N ! i) s2)) = Inr s5"
      and c': "cp_ftl c' = s5"
      by (auto simp: remapUnit_def Let_def B B1 s1_def [symmetric] d getNextWritePageIndexAt_def e2(2) fm
          split: option.splits prod.splits)
    have I2: "ftl_inv e (insert (?l, i) X) s2" using s1(1) e2(6) by simp
    note W = ftl_inv_write [OF I2 N ml iX(1) _ w refl]
    have c5: "core s5 = core (setMapping ?l i (newB, pNextWritePageIndex N ! i) (setBlock newB N1 s2))"
      using setRefreshPeriod_frame [of _ e _ newB "pNextWritePageIndex N ! i mod 64"] rp
      by (fastforce simp: okE_iff setBlock_setMapping dest: only_queues_core)
    note e5 = core_cong [OF c5]
    have "newB = b \<longrightarrow> N = ?r B1" using N e2(1) by (auto simp: s1_def)
    then have "newB = b \<longrightarrow> pNextWritePageIndex N ! i \<noteq> p" using pw by auto
    moreover have "ftl_inv e X s5" using W(1) iX(3) e5(6) by simp
    moreover have "live e s5 = live e ?s0"
      using W(3) e5(7) e2(7) iX(2) im by (auto simp: s1_def live_def)
    moreover have "findBlock s5 x = None \<longleftrightarrow> findBlock ?s0 x = None" for x
      using N B by (auto simp: e5(1) e2(1) s1_def split: if_splits)
    moreover have "fullBlock e s5 x" if "x \<noteq> newB" "fullBlock e ?s0 x" for x
      using that full1 B by (auto simp: fullBlock_def e5(1) e2(1) s1_def split: option.splits if_splits)
    moreover have "valid_at s5 x q j k \<longleftrightarrow> (valid_at ?s0 x q j k \<and> \<not> (x = b \<and> q = p \<and> j = i)) \<or>
        (x = newB \<and> q = pNextWritePageIndex N ! i \<and> j = i \<and> k = ?l)" for x q j k
      using W(2) [of x q j k] V1 [of x q j k] by (auto simp: e5(4) e2(4) s1(2))
    ultimately show "moved e X b p i ?l newB ?s0 (cp_ftl c')"
      using W(6) unfolding moved_def c' by blast
  qed
qed

subsection \<open>Copying one page, whatever block it goes to\<close>

text \<open>
  The three copy loops of the source differ in the function that gives the open block, the
  message, the time handed to the block and the counters: \<open>copyPage\<close> is what they share.
\<close>

definition copyUnit :: "env \<Rightarrow> string \<Rightarrow> bool \<Rightarrow> tick \<Rightarrow> (FtlStat \<Rightarrow> FtlStat) \<Rightarrow> nat \<Rightarrow> nat \<Rightarrow> u64 list \<Rightarrow>
    Bitset \<Rightarrow> nat \<Rightarrow> nat \<Rightarrow> copy_state \<Rightarrow> copy_state res" where
  "copyUnit e msg refreshed bt g b p lpns bitm newB idx c =
     (if bs_test bitm idx
      then bindE (remapUnit e msg refreshed bt b p lpns newB idx c)
             (\<lambda>c1. Inr (c1\<lparr>cp_ftl := bumpStat g (cp_ftl c1)\<rparr>))
      else Inr c)"

definition copyPage :: "env \<Rightarrow> (env \<Rightarrow> Bitset \<Rightarrow> PageMapping \<Rightarrow> (nat \<times> PageMapping) res) \<Rightarrow> string \<Rightarrow> bool \<Rightarrow>
    tick \<Rightarrow> (FtlStat \<Rightarrow> FtlStat) \<Rightarrow> (FtlStat \<Rightarrow> FtlStat) \<Rightarrow> nat \<Rightarrow> nat \<Rightarrow> copy_state \<Rightarrow> copy_state res" where
  "copyPage e opener msg refreshed bt g h b p c =
     (case findBlock (cp_ftl c) b of
        None \<Rightarrow> Inl (UB ''dereference of blocks.end()'')
      | Some B \<Rightarrow>
     bindE (getPageInfo B p (Bitset_new (ioUnitInPage (param e)))) (\<lambda>(valid, lpns, bit0).
     if valid
     then let bitm = (if bRandomTweak e then bit0 else bs_set_all bit0)
          in bindE (opener e bitm (cp_ftl c)) (\<lambda>(newB, s1).
             bindE (foldE (copyUnit e msg refreshed bt g b p lpns bitm newB) [0..<bitsetSize e]
                      (c\<lparr>cp_ftl := s1, cp_reads := cp_reads c @ [palReq b p bitm]\<rparr>)) (\<lambda>c1.
             Inr (c1\<lparr>cp_ftl := bumpStat h (cp_ftl c1)\<rparr>)))
     else Inr c))"

text \<open>
  What copying page p of block b out promises: the same logical units, no block lost, nothing
  becomes valid in a full block, and nothing of page p stays valid when b is full.
\<close>

definition copied :: "env \<Rightarrow> (u64 \<times> nat) set \<Rightarrow> PageMapping \<Rightarrow> PageMapping \<Rightarrow> bool" where
  "copied e X s s' \<longleftrightarrow> ftl_inv e X s' \<and> live e s' = live e s \<and>
     (\<forall>x. findBlock s x \<noteq> None \<longrightarrow> findBlock s' x \<noteq> None) \<and>
     (\<forall>x. fullBlock e s x \<longrightarrow> fullBlock e s' x \<and> (\<forall>q j k. valid_at s' x q j k \<longrightarrow> valid_at s x q j k))"

lemma copied_trans: "copied e X s s' \<Longrightarrow> copied e X s' s'' \<Longrightarrow> copied e X s s''"
  unfolding copied_def by metis

lemma copied_core: "ftl_inv e X s \<Longrightarrow> core s' = core s \<Longrightarrow> copied e X s s'"
  using core_cong [of s' s] by (simp add: copied_def fullBlock_def)

lemma copied_inv: "copied e X s s' \<Longrightarrow> ftl_inv e X s'"
  by (simp add: copied_def)

lemma alloc_copied:
  assumes "alloc_post e X s (b, s')"
  shows "copied e X s s'" and "valid_at s' = valid_at s"
    and "\<not> fullBlock e s' b" and "fullBlock e s x \<Longrightarrow> fullBlock e s' x"
proof -
  have k: "keeps e X s s'" "grows s s'" "\<exists>N. findBlock s' b = Some N \<and> \<not> isFull e N"
    using assms by (auto simp: alloc_post_def)
  show full: "fullBlock e s x \<Longrightarrow> fullBlock e s' x" for x
    using k(2) isFull_same_block by (fastforce simp: fullBlock_def grows_def split: option.splits)
  show va: "valid_at s' = valid_at s" using k(1) by (simp add: keeps_def)
  show "\<not> fullBlock e s' b" using k(3) by (auto simp: fullBlock_def)
  show "copied e X s s'"
    using k full va keeps_live [OF k(1)] by (auto simp: copied_def keeps_def grows_def) blast
qed

lemma copied_moved:
  assumes "copied e X s s1" and "\<not> fullBlock e s newB" and "moved e X b p i l newB s1 s2"
  shows "copied e X s s2"
  using assms unfolding moved_def copied_def by metis

definition unit_loop :: "env \<Rightarrow> (u64 \<times> nat) set \<Rightarrow> nat \<Rightarrow> nat \<Rightarrow> u64 list \<Rightarrow> Bitset \<Rightarrow> PageMapping \<Rightarrow> nat \<Rightarrow> PageMapping \<Rightarrow> bool" where
  "unit_loop e X b p lpns bitm s k s' \<longleftrightarrow> copied e X s s' \<and>
     (\<forall>j. k \<le> j \<and> j < bitsetSize e \<and> bs_test bitm j \<longrightarrow> valid_at s' b p j (lpns ! j)) \<and>
     (fullBlock e s b \<longrightarrow> (\<forall>j<k. \<forall>l. \<not> valid_at s' b p j l))"

lemma copyUnit_ok:
  assumes L: "unit_loop e X b p lpns bitm s i (cp_ftl c)" and nf: "\<not> fullBlock e s newB" and i: "i < bitsetSize e"
    and bitm: "\<And>l. \<not> bs_test bitm i \<Longrightarrow> \<not> valid_at s b p i l"
  shows "okE (\<lambda>c'. unit_loop e X b p lpns bitm s (Suc i) (cp_ftl c'))
           (copyUnit e msg refreshed bt g b p lpns bitm newB i c)"
proof (cases "bs_test bitm i")
  case False
  then have "\<not> valid_at (cp_ftl c) b p i l" if "fullBlock e s b" for l
    using L bitm that unfolding unit_loop_def copied_def by blast
  then show ?thesis using L False by (auto simp: copyUnit_def unit_loop_def less_Suc_eq)
next
  case True
  have inv: "ftl_inv e X (cp_ftl c)" and v: "valid_at (cp_ftl c) b p i (lpns ! i)"
    using L True i by (auto simp: unit_loop_def copied_def)
  show ?thesis
    unfolding copyUnit_def if_P [OF True]
  proof (rule okE_bindI [OF remapUnit_ok [OF inv v]])
    fix c1
    assume m: "moved e X b p i (lpns ! i) newB (cp_ftl c) (cp_ftl c1)"
    let ?s1 = "cp_ftl c1"
    have cp: "copied e X s ?s1" using L copied_moved [OF _ nf m] by (simp add: unit_loop_def)
    obtain p' where va: "\<And>x q j k. valid_at ?s1 x q j k \<longleftrightarrow>
         (valid_at (cp_ftl c) x q j k \<and> \<not> (x = b \<and> q = p \<and> j = i)) \<or> (x = newB \<and> q = p' \<and> j = i \<and> k = lpns ! i)"
      using m unfolding moved_def by blast
    have "fullBlock e s b \<Longrightarrow> newB \<noteq> b" using nf by blast
    then have "unit_loop e X b p lpns bitm s (Suc i) ?s1"
      using cp L va unfolding unit_loop_def by (auto simp: less_Suc_eq)
    then have "unit_loop e X b p lpns bitm s (Suc i) (bumpStat g ?s1)"
      unfolding unit_loop_def using core_cong(4) [OF core_ext(8)]
        copied_trans [OF cp copied_core [OF copied_inv [OF cp] core_ext(8)]] by auto
    then show "okE (\<lambda>c'. unit_loop e X b p lpns bitm s (Suc i) (cp_ftl c'))
        (Inr (c1\<lparr>cp_ftl := bumpStat g ?s1\<rparr>))"
      by simp
  qed
qed

text \<open>The bits of a page that is valid at all, as the loop tests them.\<close>

lemma page_bits:
  assumes inv: "ftl_inv e X s" and B: "findBlock s b = Some B" and pp: "p < pagesInBlock (param e)"
    and g: "getPageInfo B p (Bitset_new (ioUnitInPage (param e))) = Inr (valid, lpns, bit0)"
  shows "valid \<longleftrightarrow> (\<exists>j l. valid_at s b p j l)"
    and "valid \<Longrightarrow> j < bitsetSize e \<Longrightarrow> bs_test (if bRandomTweak e then bit0 else bs_set_all bit0) j \<longleftrightarrow> (\<exists>l. valid_at s b p j l)"
    and "valid_at s b p j l \<Longrightarrow> l = lpns ! j"
proof -
  note D = ftl_invD [OF inv]
  have ok: "blk_ok e b B" by (rule D(7) [OF B])
  note geo = blk_okD [OF ok]
  have io: "0 < ioUnitInPage (param e)" using geo(2,5) by (simp add: blk_shape_def)
  have G: "valid = (\<exists>i<blk_ioUnitInPage B. blk_valid B p i)" "bs_sized (blk_ioUnitInPage B) bit0"
    "\<And>i. i < blk_ioUnitInPage B \<Longrightarrow> bs_test bit0 i = blk_valid B p i \<and> lpns ! i = blk_lpn B p i"
    using getPageInfo_ok [OF geo(1), of p "Bitset_new (ioUnitInPage (param e))"] pp g io geo
      bs_sized_new [OF io] by auto
  have va: "valid_at s b p j l \<longleftrightarrow> j < ioUnitInPage (param e) \<and> blk_valid B p j \<and> blk_lpn B p j = l" for j l
    using valid_at_Some [OF B ok] pp by simp
  show v: "valid \<longleftrightarrow> (\<exists>j l. valid_at s b p j l)" using G(1) geo(5) va by auto
  show "valid_at s b p j l \<Longrightarrow> l = lpns ! j" using va G(3) geo(5) by auto
  show "bs_test (if bRandomTweak e then bit0 else bs_set_all bit0) j \<longleftrightarrow> (\<exists>l. valid_at s b p j l)"
    if vd: "valid" and jb: "j < bitsetSize e" for j
  proof (cases "bRandomTweak e")
    case True
    then show ?thesis using jb G(3) va geo(5) by (auto simp: bitsetSize_def)
  next
    case False
    then have j: "j = 0" using jb by (simp add: bitsetSize_def)
    obtain j' l where "valid_at s b p j' l" using vd v by blast
    moreover have "j' = 0" using D(4) [OF calculation] False by (simp add: bitsetSize_def)
    ultimately show ?thesis using False j bs_sized_test(3) [OF G(2), of 0] io geo(5) by auto
  qed
qed

context open_block_source
begin

lemma copyPage_ok:
  assumes env: "env_ok e" and inv: "ftl_inv e X (cp_ftl c)" and pp: "p < pagesInBlock (param e)"
  shows "okE (\<lambda>c'. copied e X (cp_ftl c) (cp_ftl c') \<and>
            (fullBlock e (cp_ftl c) b \<longrightarrow> (\<forall>j l. \<not> valid_at (cp_ftl c') b p j l)))
          (copyPage e opener msg refreshed bt g h b p c)"
proof (cases "findBlock (cp_ftl c) b")
  case None
  then show ?thesis by (simp add: copyPage_def)
next
  case (Some B)
  let ?s = "cp_ftl c"
  show ?thesis
    unfolding okE_iff
  proof (intro allI impI)
    fix c'
    assume r: "copyPage e opener msg refreshed bt g h b p c = Inr c'"
    then obtain valid lpns bit0 where gi: "getPageInfo B p (Bitset_new (ioUnitInPage (param e))) = Inr (valid, lpns, bit0)"
      by (auto simp: copyPage_def Some)
    note P = page_bits [OF inv Some pp gi]
    let ?bitm = "if bRandomTweak e then bit0 else bs_set_all bit0"
    show "copied e X ?s (cp_ftl c') \<and> (fullBlock e ?s b \<longrightarrow> (\<forall>j l. \<not> valid_at (cp_ftl c') b p j l))"
    proof (cases valid)
      case False
      then have "c' = c" using r gi by (simp add: copyPage_def Some)
      then show ?thesis using P(1) False copied_core [OF inv refl] by simp
    next
      case True
      let ?loop = "\<lambda>newB. foldE (copyUnit e msg refreshed bt g b p lpns ?bitm newB) [0..<bitsetSize e]"
      obtain newB s1 c1 where o: "opener e ?bitm ?s = Inr (newB, s1)"
        and f: "?loop newB (c\<lparr>cp_ftl := s1, cp_reads := cp_reads c @ [palReq b p ?bitm]\<rparr>) = Inr c1"
        and c': "c' = c1\<lparr>cp_ftl := bumpStat h (cp_ftl c1)\<rparr>"
        using r gi True by (auto simp: copyPage_def Some Let_def split: prod.splits)
      have ap: "alloc_post e X ?s (newB, s1)" using open_ok [OF env inv] o by (simp add: okE_iff)
      note A = alloc_copied [OF ap]
      have L: "unit_loop e X b p lpns ?bitm s1 (bitsetSize e) (cp_ftl c1)"
      proof -
        have "okE (\<lambda>c2. unit_loop e X b p lpns ?bitm s1 (length [0..<bitsetSize e]) (cp_ftl c2))
            (?loop newB (c\<lparr>cp_ftl := s1, cp_reads := cp_reads c @ [palReq b p ?bitm]\<rparr>))"
        proof (rule foldE_okE_idx)
          show "unit_loop e X b p lpns ?bitm s1 0 (cp_ftl (c\<lparr>cp_ftl := s1, cp_reads := cp_reads c @ [palReq b p ?bitm]\<rparr>))"
            using P(2) [OF True] P(3) copied_core [OF copied_inv [OF A(1)] refl]
            by (fastforce simp: unit_loop_def A(2))
        next
          fix i and c2 :: copy_state
          assume "i < length [0..<bitsetSize e]" and "unit_loop e X b p lpns ?bitm s1 i (cp_ftl c2)"
          then show "okE (\<lambda>c2. unit_loop e X b p lpns ?bitm s1 (Suc i) (cp_ftl c2))
              (copyUnit e msg refreshed bt g b p lpns ?bitm newB ([0..<bitsetSize e] ! i) c2)"
            using copyUnit_ok [OF _ A(3), of X b p lpns ?bitm i c2 msg refreshed bt g] P(2) [OF True, of i]
            by (simp add: A(2))
        qed
        then show ?thesis using f by (simp add: okE_iff)
      qed
      have cp1: "copied e X ?s (cp_ftl c1)" using L copied_trans [OF A(1)] by (simp add: unit_loop_def)
      have "\<not> valid_at (cp_ftl c1) b p j l" if fb: "fullBlock e ?s b" for j l
      proof
        assume v: "valid_at (cp_ftl c1) b p j l"
        have "j < bitsetSize e" using ftl_invD(4) [OF copied_inv [OF cp1] v] by simp
        then show False using L A(4) [OF fb] v by (auto simp: unit_loop_def)
      qed
      then show ?thesis
        using copied_trans [OF cp1 copied_core [OF copied_inv [OF cp1] core_ext(8)]]
          core_cong(4) [OF core_ext(8)] by (auto simp: c')
    qed
  qed
qed

end

subsection \<open>Copying whole blocks\<close>

definition emptied :: "env \<Rightarrow> nat set \<Rightarrow> PageMapping \<Rightarrow> PageMapping \<Rightarrow> bool" where
  "emptied e bs s s' \<longleftrightarrow> (\<forall>b\<in>bs. fullBlock e s b \<longrightarrow> (\<forall>p j l. \<not> valid_at s' b p j l))"

context open_block_source
begin

lemma copyPages_ok:
  assumes env: "env_ok e" and "ftl_inv e X (cp_ftl c)" and "\<forall>p\<in>set ps. p < pagesInBlock (param e)"
  shows "okE (\<lambda>c'. copied e X (cp_ftl c) (cp_ftl c') \<and>
            (fullBlock e (cp_ftl c) b \<longrightarrow> (\<forall>p\<in>set ps. \<forall>j l. \<not> valid_at (cp_ftl c') b p j l)))
          (foldE (copyPage e opener msg refreshed bt g h b) ps c)"
  using assms(2,3)
proof (induction ps arbitrary: c)
  case Nil
  then show ?case using copied_core [OF Nil(1) refl] by simp
next
  case (Cons p ps)
  have pp: "p < pagesInBlock (param e)" using Cons.prems(2) by simp
  show ?case
    unfolding foldE.simps
  proof (rule okE_bindI [OF copyPage_ok [OF env Cons.prems(1) pp]])
    fix c1 :: copy_state
    assume c1: "copied e X (cp_ftl c) (cp_ftl c1) \<and>
      (fullBlock e (cp_ftl c) b \<longrightarrow> (\<forall>j l. \<not> valid_at (cp_ftl c1) b p j l))"
    have inv1: "ftl_inv e X (cp_ftl c1)" using c1 by (auto dest: copied_inv)
    show "okE (\<lambda>c'. copied e X (cp_ftl c) (cp_ftl c') \<and>
            (fullBlock e (cp_ftl c) b \<longrightarrow> (\<forall>q\<in>set (p # ps). \<forall>j l. \<not> valid_at (cp_ftl c') b q j l)))
          (foldE (copyPage e opener msg refreshed bt g h b) ps c1)"
    proof (rule okE_mono [OF Cons.IH [OF inv1]])
      show "\<forall>p\<in>set ps. p < pagesInBlock (param e)" using Cons.prems(2) by simp
      fix c2 :: copy_state
      assume c2: "copied e X (cp_ftl c1) (cp_ftl c2) \<and>
         (fullBlock e (cp_ftl c1) b \<longrightarrow> (\<forall>p\<in>set ps. \<forall>j l. \<not> valid_at (cp_ftl c2) b p j l))"
      have "fullBlock e (cp_ftl c) b \<Longrightarrow> fullBlock e (cp_ftl c1) b"
        and "fullBlock e (cp_ftl c) b \<Longrightarrow> \<not> valid_at (cp_ftl c2) b p j l" for j l
        using c1 c2 unfolding copied_def by blast+
      then show "copied e X (cp_ftl c) (cp_ftl c2) \<and>
            (fullBlock e (cp_ftl c) b \<longrightarrow> (\<forall>q\<in>set (p # ps). \<forall>j l. \<not> valid_at (cp_ftl c2) b q j l))"
        using c1 c2 copied_trans by auto
    qed
  qed
qed

lemma copyBlock_ok:
  assumes env: "env_ok e" and inv: "ftl_inv e X (cp_ftl c)"
  shows "okE (\<lambda>c'. copied e X (cp_ftl c) (cp_ftl c') \<and> emptied e {b} (cp_ftl c) (cp_ftl c'))
          (foldE (copyPage e opener msg refreshed bt g h b) [0..<pagesInBlock (param e)] c)"
proof (rule okE_mono [OF copyPages_ok [OF env inv]])
  fix c' :: copy_state
  assume c': "copied e X (cp_ftl c) (cp_ftl c') \<and> (fullBlock e (cp_ftl c) b \<longrightarrow>
     (\<forall>p\<in>set [0..<pagesInBlock (param e)]. \<forall>j l. \<not> valid_at (cp_ftl c') b p j l))"
  then have inv': "ftl_inv e X (cp_ftl c')" by (auto dest: copied_inv)
  have "p < pagesInBlock (param e)" if "valid_at (cp_ftl c') b p j l" for p j l
    using valid_at_isMapped [OF ftl_invD(1) [OF inv'] that] by (simp add: isMapped_def)
  then show "copied e X (cp_ftl c) (cp_ftl c') \<and> emptied e {b} (cp_ftl c) (cp_ftl c')"
    using c' unfolding emptied_def by (metis atLeastLessThan_iff le0 set_upt singletonD)
qed simp

end

lemma copyBlocks_ok:
  assumes step: "\<And>b c. ftl_inv e X (cp_ftl c) \<Longrightarrow>
      okE (\<lambda>c'. copied e X (cp_ftl c) (cp_ftl c') \<and> emptied e {b} (cp_ftl c) (cp_ftl c')) (f b c)"
    and inv: "ftl_inv e X (cp_ftl c)"
  shows "okE (\<lambda>c'. copied e X (cp_ftl c) (cp_ftl c') \<and> emptied e (set bs) (cp_ftl c) (cp_ftl c')) (foldE f bs (c :: copy_state))"
  using inv
proof (induction bs arbitrary: c)
  case Nil
  then show ?case using copied_core [OF Nil(1) refl] by (simp add: emptied_def)
next
  case (Cons b bs)
  show ?case
    unfolding foldE.simps
  proof (rule okE_bindI [OF step [OF Cons.prems]])
    fix c1 :: copy_state
    assume c1: "copied e X (cp_ftl c) (cp_ftl c1) \<and> emptied e {b} (cp_ftl c) (cp_ftl c1)"
    then have inv1: "ftl_inv e X (cp_ftl c1)" by (auto dest: copied_inv)
    show "okE (\<lambda>c'. copied e X (cp_ftl c) (cp_ftl c') \<and> emptied e (set (b # bs)) (cp_ftl c) (cp_ftl c')) (foldE f bs c1)"
    proof (rule okE_mono [OF Cons.IH [OF inv1]])
      fix c2 :: copy_state
      assume c2: "copied e X (cp_ftl c1) (cp_ftl c2) \<and> emptied e (set bs) (cp_ftl c1) (cp_ftl c2)"
      have "emptied e (set (b # bs)) (cp_ftl c) (cp_ftl c2)"
        using c1 c2 unfolding emptied_def copied_def by (metis insert_iff list.simps(15) singletonI)
      then show "copied e X (cp_ftl c) (cp_ftl c2) \<and> emptied e (set (b # bs)) (cp_ftl c) (cp_ftl c2)"
        using c1 c2 copied_trans by blast
    qed
  qed
qed

lemma gcUnit_copyUnit:
  "gcUnit e r b p lpns bitm newB = copyUnit e ''Invalid mapping table entry'' False (uninitTick e)
     (\<lambda>st. st\<lparr>refreshGcPageCopies := refreshGcPageCopies st + (if r then 1 else 0),
              validPageCopies := validPageCopies st + 1\<rparr>) b p lpns bitm newB"
  by (simp add: fun_eq_iff gcUnit_def copyUnit_def)

lemma gcPage_copyPage:
  "gcPage e r b = copyPage e getLastFreeBlock ''Invalid mapping table entry'' False (uninitTick e)
     (\<lambda>st. st\<lparr>refreshGcPageCopies := refreshGcPageCopies st + (if r then 1 else 0),
              validPageCopies := validPageCopies st + 1\<rparr>)
     (\<lambda>st. st\<lparr>validSuperPageCopies := validSuperPageCopies st + 1\<rparr>) b"
  by (intro ext) (simp only: gcPage_def copyPage_def gcUnit_copyUnit)

lemma gcBlock_ok:
  assumes "env_ok e" and "ftl_inv e X (cp_ftl c)"
  shows "okE (\<lambda>c'. copied e X (cp_ftl c) (cp_ftl c') \<and> emptied e {b} (cp_ftl c) (cp_ftl c')) (gcBlock e r b c)"
  unfolding gcBlock_def gcPage_copyPage using free_open.copyBlock_ok [OF assms] by simp

lemma sepGcUnit_copyUnit:
  "sepGcUnit e r ty b p lpns bitm newB = copyUnit e ''Invalid mapping table entry'' False (uninitTick e)
     (\<lambda>st. let st1 = st\<lparr>refreshGcPageCopies := refreshGcPageCopies st + (if r then 1 else 0)\<rparr>
           in if ty = HOT then st1\<lparr>hotValidPageCopies := hotValidPageCopies st1 + 1\<rparr>
              else st1\<lparr>coldValidPageCopies := coldValidPageCopies st1 + 1\<rparr>) b p lpns bitm newB"
  by (simp add: fun_eq_iff sepGcUnit_def copyUnit_def)

lemma sepGcPage_copyPage:
  "sepGcPage e r ty b = copyPage e getLastCoolFreeBlock ''Invalid mapping table entry'' False (uninitTick e)
     (\<lambda>st. let st1 = st\<lparr>refreshGcPageCopies := refreshGcPageCopies st + (if r then 1 else 0)\<rparr>
           in if ty = HOT then st1\<lparr>hotValidPageCopies := hotValidPageCopies st1 + 1\<rparr>
              else st1\<lparr>coldValidPageCopies := coldValidPageCopies st1 + 1\<rparr>)
     (\<lambda>st. if ty = HOT then st\<lparr>hotValidSuperPageCopies := hotValidSuperPageCopies st + 1\<rparr>
           else st\<lparr>coldValidSuperPageCopies := coldValidSuperPageCopies st + 1\<rparr>) b"
  by (intro ext) (simp only: sepGcPage_def copyPage_def sepGcUnit_copyUnit)

lemma sepGcBlock_ok:
  assumes "env_ok e" and "ftl_inv e X (cp_ftl c)"
  shows "okE (\<lambda>c'. copied e X (cp_ftl c) (cp_ftl c') \<and> emptied e {b} (cp_ftl c) (cp_ftl c')) (sepGcBlock e r ty b c)"
  unfolding sepGcBlock_def sepGcPage_copyPage using cool_open.copyBlock_ok [OF assms] by simp

subsection \<open>Erasing\<close>

lemma mset_insertFree: "mset (insertFree B bs) = mset (B # bs)"
proof -
  have "mset (insertBack B xs) = mset (B # xs)" for xs by (induction xs) auto
  then show ?thesis by (simp add: insertFree_def)
qed

lemma mset_insertBefore: "insertBefore b B bs = Inr cs \<Longrightarrow> mset cs = mset (B # bs)"
  by (induction bs arbitrary: cs) (auto split: if_splits)

lemma mset_insertAt: "insertAt pos B bs = Inr cs \<Longrightarrow> mset cs = mset (B # bs)"
  by (auto simp: insertAt_def mset_insertBefore split: option.splits)

text \<open>
  What erasing block b promises: no logical unit moves, no other block goes out of use, and b does.
\<close>

definition erased_post :: "env \<Rightarrow> (u64 \<times> nat) set \<Rightarrow> nat \<Rightarrow> PageMapping \<Rightarrow> PageMapping \<Rightarrow> bool" where
  "erased_post e X b s s' \<longleftrightarrow> keeps e X s s' \<and> findBlock s' b = None \<and>
     (\<forall>x. x \<noteq> b \<longrightarrow> findBlock s x \<noteq> None \<longrightarrow> findBlock s' x \<noteq> None)"

lemma erased_postI:
  assumes inv: "ftl_inv e X s1" and B: "findBlock s1 b = Some B" and em: "blk_empty B"
    and bl: "ftl_blocks s' = AList.delete b (ftl_blocks s1)" and tb: "ftl_table s' = ftl_table s1"
    and pl: "poolBlocks s' = poolBlocks s1 \<or>
      (\<exists>B1. mset (poolBlocks s') = mset (B1 # poolBlocks s1) \<and> free_ok e B1 \<and> blk_idx B1 = b)"
    and k: "keeps e X s s1" and g: "\<And>x. findBlock s x \<noteq> None \<Longrightarrow> findBlock s1 x \<noteq> None"
    and c: "core s'' = core s'"
  shows "erased_post e X b s s''"
proof -
  note F = ftl_inv_free [OF inv B em bl tb pl] and C = core_cong [OF c]
  show ?thesis
    using F k g unfolding erased_post_def keeps_def C by auto
qed

lemma erase_step:
  assumes inv: "ftl_inv e X s" and B: "findBlock s b = Some B" and em: "getValidPageCount B = 0"
    and c: "core s1 = core (setBlock b (Block_erase B) s)"
  shows "ftl_inv e X s1" "findBlock s1 b = Some (Block_erase B)" "blk_empty (Block_erase B)"
    "free_ok e (Block_erase B)" "blk_idx (Block_erase B) = b" "keeps e X s s1"
    "\<And>x. findBlock s x \<noteq> None \<Longrightarrow> findBlock s1 x \<noteq> None"
proof -
  have ok: "blk_ok e b B" by (rule ftl_invD(7) [OF inv B])
  have em': "blk_empty B" using em getValidPageCount_zero [OF blk_okD(2) [OF ok]] by simp
  have k: "keeps e X s (setBlock b (Block_erase B) s)"
    by (rule keeps_same_units [OF inv B same_units_erase [OF blk_okD(1) [OF ok] em']])
  show "keeps e X s s1" by (rule keeps_trans [OF k keeps_core [OF keeps_inv [OF k] c]])
  then show "ftl_inv e X s1" by (rule keeps_inv)
  show "findBlock s1 b = Some (Block_erase B)" and "\<And>x. findBlock s x \<noteq> None \<Longrightarrow> findBlock s1 x \<noteq> None"
    by (simp_all add: core_cong(1) [OF c])
  show "free_ok e (Block_erase B)" "blk_idx (Block_erase B) = b" by (rule free_ok_erase [OF ok])+
  then show "blk_empty (Block_erase B)" by (simp add: free_ok_def)
qed

lemma eraseInternal_ok:
  assumes inv: "ftl_inv e X s"
  shows "okE (\<lambda>(t', s'). erased_post e X (preq_blockIndex req) s s') (eraseInternal e req t s)"
proof (cases "findBlock s (preq_blockIndex req)")
  case None
  then show ?thesis by (simp add: eraseInternal_def)
next
  case (Some B)
  let ?b = "preq_blockIndex req" and ?B1 = "Block_erase B"
  obtain t1 s1 where pe: "palErase e req t (setBlock ?b ?B1 s) = (t1, s1)" by fastforce
  have c1: "core s1 = core (setBlock ?b ?B1 s)" using core_ext(3) [of e req t "setBlock ?b ?B1 s"] pe by simp
  have post: "erased_post e X ?b s (snd (addLatency e CpuERASE_INTERNAL t1
      (s2\<lparr>ftl_blocks := AList.delete ?b (ftl_blocks s2)\<rparr>)))"
    if v: "getValidPageCount B = 0" and s2: "s2 = s1 \<or> s2 = s1\<lparr>freeBlocks := insertFree ?B1 (freeBlocks s1),
          nFreeBlocks := nFreeBlocks s1 + 1\<rparr>" for s2
  proof -
    note E = erase_step [OF inv Some v c1]
    show ?thesis
    proof (rule erased_postI [OF E(1,2,3) _ _ _ E(6,7) core_ext(6)])
      show "ftl_blocks (s2\<lparr>ftl_blocks := AList.delete ?b (ftl_blocks s2)\<rparr>) = AList.delete ?b (ftl_blocks s1)"
        and "ftl_table (s2\<lparr>ftl_blocks := AList.delete ?b (ftl_blocks s2)\<rparr>) = ftl_table s1"
        using s2 by auto
      show "poolBlocks (s2\<lparr>ftl_blocks := AList.delete ?b (ftl_blocks s2)\<rparr>) = poolBlocks s1 \<or>
        (\<exists>B1. mset (poolBlocks (s2\<lparr>ftl_blocks := AList.delete ?b (ftl_blocks s2)\<rparr>)) = mset (B1 # poolBlocks s1) \<and>
           free_ok e B1 \<and> blk_idx B1 = ?b)"
        using s2 E(4,5) mset_insertFree [of ?B1 "freeBlocks s1"] by (auto simp: poolBlocks_def)
    qed
  qed
  show ?thesis
    unfolding eraseInternal_def Some
    using post [of s1] post [of "s1\<lparr>freeBlocks := insertFree ?B1 (freeBlocks s1), nFreeBlocks := nFreeBlocks s1 + 1\<rparr>"]
    by (auto simp: Let_def pe okE_bind case_prod_unfold)
qed

lemma replaceOpenBlock_ok:
  assumes env: "env_ok e" and inv: "ftl_inv e X s"
  shows "okE (retype_post e X s) (replaceOpenBlock e ty b s)"
proof -
  have step: "okE (retype_post e X s) (bindE (getColdFreeBlock e i True s) (\<lambda>(nb, s1). Inr (upd nb s1)))"
    if "\<And>nb s1. core (upd nb s1) = core s1" for i upd
  proof (rule okE_bindI [OF getColdFreeBlock_ok [OF env inv]])
    fix r
    assume "alloc_post e X s r"
    then obtain nb s1 where r: "r = (nb, s1)" and k: "retype_post e X s s1"
      by (auto simp: alloc_post_def retype_post_def)
    have "ftl_inv e X s1" using k by (auto simp: retype_post_def dest: keeps_inv)
    then show "okE (retype_post e X s) (case r of (nb, s1) \<Rightarrow> Inr (upd nb s1))"
      using retype_trans [OF k retype_core [OF _ that]] by (simp add: r)
  qed
  show ?thesis
    unfolding replaceOpenBlock_def
    using retype_core [OF inv refl]
    by (auto split: blockPoolType.split option.split intro!: step simp: core_def)
qed

lemma free_ok_same_block:
  assumes "free_ok e B" and "same_block B B'"
  shows "free_ok e B'" and "blk_idx B' = blk_idx B"
  using assms blk_okD(3-5) [OF free_okD(1) [OF assms(1)]]
  by (auto simp: free_ok_def blk_ok_def blk_empty_def same_block_def same_units_def blk_geom_def)

definition freed :: "env \<Rightarrow> (u64 \<times> nat) set \<Rightarrow> nat \<Rightarrow> PageMapping \<Rightarrow> PageMapping \<Rightarrow> bool" where
  "freed e X b s s2 \<longleftrightarrow> (\<exists>s3 C. retype_post e X s s3 \<and> findBlock s3 b = Some C \<and> free_ok e C \<and> blk_idx C = b \<and>
     ftl_table s2 = ftl_table s3 \<and> ftl_blocks s2 = ftl_blocks s3 \<and> mset (poolBlocks s2) = mset (C # poolBlocks s3))"

lemma sepFreeErased_ok:
  assumes env: "env_ok e" and inv: "ftl_inv e X s" and B: "findBlock s b = Some B"
    and fr: "free_ok e B" and ix: "blk_idx B = b"
  shows "okE (freed e X b s) (sepFreeErased e b s)"
proof (cases "blk_blockType B = HOT")
  case True
  then show ?thesis
    unfolding sepFreeErased_def freed_def
    using B fr ix retype_core [OF inv refl]
    by (auto simp: poolBlocks_def mset_insertFree intro!: exI [of _ s] exI [of _ B])
next
  case False
  have "okE (freed e X b s) (case findBlock s1 b of
           None \<Rightarrow> Inl (UB ''dereference of blocks.end()'')
         | Some B1 \<Rightarrow> bindE (insertAt pos B1 (coldFreeBlocks s1)) (\<lambda>bs.
             Inr (s1\<lparr>coldFreeBlocks := bs, nColdFreeBlocks := nColdFreeBlocks s1 + 1\<rparr>)))"
    if r: "retype_post e X s s1" for s1 pos
  proof -
    obtain C where C: "findBlock s1 b = Some C" "same_block B C"
      using r B by (auto simp: retype_post_def grows_def)
    note F = free_ok_same_block [OF fr C(2)]
    show ?thesis
      unfolding okE_iff freed_def using C F ix r
      by (auto simp: poolBlocks_def dest!: mset_insertAt intro!: exI [of _ s1] exI [of _ C])
  qed
  then show ?thesis
    unfolding sepFreeErased_def using B False
    by (auto simp: Let_def intro!: okE_bindI [OF replaceOpenBlock_ok [OF env inv]])
qed

lemma sepEraseInternal_ok:
  assumes env: "env_ok e" and inv: "ftl_inv e X s"
  shows "okE (\<lambda>(t', s'). erased_post e X (preq_blockIndex req) s s') (sepEraseInternal e req t s)"
proof (cases "findBlock s (preq_blockIndex req)")
  case None
  then show ?thesis by (simp add: sepEraseInternal_def)
next
  case (Some B)
  let ?b = "preq_blockIndex req" and ?B1 = "Block_erase B"
  obtain t1 s1 where pe: "palErase e req t (setBlock ?b ?B1 s) = (t1, s1)" by fastforce
  have c1: "core s1 = core (setBlock ?b ?B1 s)" using core_ext(3) [of e req t "setBlock ?b ?B1 s"] pe by simp
  let ?fin = "\<lambda>s2. snd (addLatency e CpuERASE_INTERNAL t1 (s2\<lparr>ftl_blocks := AList.delete ?b (ftl_blocks s2)\<rparr>))"
  have post: "erased_post e X ?b s (?fin s2)"
    if v: "getValidPageCount B = 0" and f: "freed e X ?b s1 s2" for s2
  proof -
    note E = erase_step [OF inv Some v c1]
    obtain s3 C where r: "retype_post e X s1 s3" and C: "findBlock s3 ?b = Some C" "free_ok e C" "blk_idx C = ?b"
      and eq: "ftl_table s2 = ftl_table s3" "ftl_blocks s2 = ftl_blocks s3" "mset (poolBlocks s2) = mset (C # poolBlocks s3)"
      using f by (auto simp: freed_def)
    have k: "keeps e X s s3" "grows s1 s3"
      using r E(6) by (auto simp: retype_post_def intro: keeps_trans)
    have em: "blk_empty C" using C(2) by (simp add: free_ok_def)
    show ?thesis
    proof (rule erased_postI [OF keeps_inv [OF k(1)] C(1) em _ _ _ k(1) _ core_ext(6)])
      show "findBlock s x \<noteq> None \<Longrightarrow> findBlock s3 x \<noteq> None" for x
        using E(7) [of x] k(2) by (force simp: grows_def)
    qed (use eq C in \<open>auto simp: poolBlocks_def\<close>)
  qed
  have post0: "erased_post e X ?b s (?fin s1)" if v: "getValidPageCount B = 0"
  proof -
    note E = erase_step [OF inv Some v c1]
    show ?thesis by (rule erased_postI [OF E(1,2,3) _ _ _ E(6,7) core_ext(6)]) (auto simp: poolBlocks_def)
  qed
  have main: "okE (\<lambda>s2. erased_post e X ?b s (?fin s2))
       (if unat (blk_eraseCount ?B1) < badBlockThreshold (conf e) then sepFreeErased e ?b s1 else Inr s1)"
    if v: "getValidPageCount B = 0"
  proof -
    note E = erase_step [OF inv Some v c1]
    show ?thesis
      using okE_mono [OF sepFreeErased_ok [OF env E(1,2,4,5)] post [OF v]] post0 [OF v] by simp
  qed
  show ?thesis
    unfolding sepEraseInternal_def Some using main by (auto simp: Let_def pe okE_bind case_prod_unfold)
qed

subsection \<open>Garbage collection\<close>

lemma eraseLoop_ok:
  assumes step: "\<And>r t s. ftl_inv e X s \<Longrightarrow> okE (\<lambda>(t', s'). erased_post e X (preq_blockIndex r) s s') (f r t s)"
    and inv: "ftl_inv e X s"
  shows "okE (\<lambda>(t', s'). keeps e X s s') (eraseLoop f rs bt ft s)"
  using inv
proof (induction rs arbitrary: s ft)
  case Nil
  then show ?case by (simp add: keeps_core)
next
  case (Cons r rs)
  show ?case
    unfolding eraseLoop.simps
  proof (rule okE_bindI [OF step [OF Cons.prems]])
    fix x :: "tick \<times> PageMapping"
    assume "case x of (t', s') \<Rightarrow> erased_post e X (preq_blockIndex r) s s'"
    then obtain t1 :: tick and s1 where x: "x = (t1, s1)" and k: "keeps e X s s1" by (auto simp: erased_post_def)
    have "okE (\<lambda>(t', s'). keeps e X s1 s') (eraseLoop f rs bt (max ft t1) s1)" by (rule Cons.IH [OF keeps_inv [OF k]])
    then show "okE (\<lambda>(t', s'). keeps e X s s') (case x of (t, s1) \<Rightarrow> eraseLoop f rs bt (max ft t) s1)"
      unfolding x by (auto intro: okE_mono keeps_trans [OF k])
  qed
qed

text \<open>The common tail of the two collectors: flash reads, flash writes, erases.\<close>

lemma gc_tail_ok:
  assumes step: "\<And>r t s. ftl_inv e X s \<Longrightarrow> okE (\<lambda>(t', s'). erased_post e X (preq_blockIndex r) s s') (f r t s)"
    and inv: "ftl_inv e X s"
  shows "okE (\<lambda>(t', s'). ftl_inv e X s' \<and> live e s' = live e s)
    (case palLoop (palRead e) rs t t0 s of (r1, s1) \<Rightarrow>
     case palLoop (palWrite e) ws r1 t0 s1 of (w2, s2) \<Rightarrow>
       bindE (eraseLoop f es r1 t0 s2) (\<lambda>(eraseFinishedAt, s3).
          Inr (addLatency e CpuDO_GARBAGE_COLLECTION (max w2 eraseFinishedAt) s3)))"
proof -
  obtain r1 s1 where p1: "palLoop (palRead e) rs t t0 s = (r1, s1)" by fastforce
  obtain w2 s2 where p2: "palLoop (palWrite e) ws r1 t0 s1 = (w2, s2)" by fastforce
  have c: "core s2 = core s"
    using core_palLoop(1) [of e rs t t0 s] core_palLoop(2) [of e ws r1 t0 s1] p1 p2 by simp
  have inv2: "ftl_inv e X s2" and lv2: "live e s2 = live e s" using core_cong(6,7) [OF c] inv by simp_all
  show ?thesis
    unfolding p1 p2 prod.case
  proof (rule okE_bindI [OF eraseLoop_ok [OF step inv2]])
    fix x :: "tick \<times> PageMapping"
    assume "case x of (t', s') \<Rightarrow> keeps e X s2 s'"
    then have k: "keeps e X s2 (snd x)" by (simp add: case_prod_unfold)
    show "okE (\<lambda>(t', s'). ftl_inv e X s' \<and> live e s' = live e s) (case x of (eraseFinishedAt, s3) \<Rightarrow>
        Inr (addLatency e CpuDO_GARBAGE_COLLECTION (max w2 eraseFinishedAt) s3))"
      using keeps_live [OF k] keeps_inv [OF k] lv2 core_cong(6,7) [OF core_ext(6)]
      by (auto simp: case_prod_unfold)
  qed
qed

lemma doGarbageCollection_ok:
  assumes env: "env_ok e" and inv: "ftl_inv e X s"
  shows "okE (\<lambda>(t', s'). ftl_inv e X s' \<and> live e s' = live e s) (doGarbageCollection e bs t r s)"
proof (cases "bs = []")
  case True
  then show ?thesis using inv by (simp add: doGarbageCollection_def)
next
  case False
  let ?c = "\<lparr>cp_ftl = s, cp_reads = [], cp_writes = [], cp_tick = t\<rparr>"
  have cp: "okE (\<lambda>c'. copied e X s (cp_ftl c')) (foldE (gcBlock e r) bs ?c)"
    by (rule okE_mono [OF copyBlocks_ok [where f = "gcBlock e r" and c = ?c, OF gcBlock_ok [OF env]]])
      (use inv in auto)
  show ?thesis
    unfolding doGarbageCollection_def if_not_P [OF False] Let_def
  proof (rule okE_bindI [OF cp])
    fix c :: copy_state
    assume c: "copied e X s (cp_ftl c)"
    show "okE (\<lambda>(t', s'). ftl_inv e X s' \<and> live e s' = live e s)
      (case palLoop (palRead e) (cp_reads c) (cp_tick c) t (cp_ftl c) of (r1, s1) \<Rightarrow>
       case palLoop (palWrite e) (cp_writes c) r1 t s1 of (w2, s2) \<Rightarrow>
         bindE (eraseLoop (eraseInternal e) (map (\<lambda>b. palReq b 0 (fullFlag e)) bs) r1 t s2)
           (\<lambda>(eraseFinishedAt, s3). Inr (addLatency e CpuDO_GARBAGE_COLLECTION (max w2 eraseFinishedAt) s3)))"
      using gc_tail_ok [OF eraseInternal_ok copied_inv [OF c]] c unfolding copied_def by auto
  qed
qed

lemma sepDoGarbageCollection_ok:
  assumes env: "env_ok e" and inv: "ftl_inv e X s"
  shows "okE (\<lambda>(t', s'). ftl_inv e X s' \<and> live e s' = live e s) (sepDoGarbageCollection e bs t r ty s)"
proof (cases "bs = []")
  case True
  then show ?thesis using inv by (simp add: sepDoGarbageCollection_def)
next
  case False
  let ?c = "\<lparr>cp_ftl = s, cp_reads = [], cp_writes = [], cp_tick = t\<rparr>"
  have cp: "okE (\<lambda>c'. copied e X s (cp_ftl c')) (foldE (sepGcBlock e r ty) bs ?c)"
    by (rule okE_mono [OF copyBlocks_ok [where f = "sepGcBlock e r ty" and c = ?c, OF sepGcBlock_ok [OF env]]])
      (use inv in auto)
  show ?thesis
    unfolding sepDoGarbageCollection_def if_not_P [OF False] Let_def
  proof (rule okE_bindI [OF cp])
    fix c :: copy_state
    assume c: "copied e X s (cp_ftl c)"
    show "okE (\<lambda>(t', s'). ftl_inv e X s' \<and> live e s' = live e s)
      (case palLoop (palRead e) (cp_reads c) (cp_tick c) t (cp_ftl c) of (r1, s1) \<Rightarrow>
       case palLoop (palWrite e) (cp_writes c) r1 t s1 of (w2, s2) \<Rightarrow>
         bindE (eraseLoop (sepEraseInternal e) (map (\<lambda>b. palReq b 0 (fullFlag e)) bs) r1 t s2)
           (\<lambda>(eraseFinishedAt, s3). Inr (addLatency e CpuDO_GARBAGE_COLLECTION (max w2 eraseFinishedAt) s3)))"
      using gc_tail_ok [OF sepEraseInternal_ok [OF env] copied_inv [OF c]] c unfolding copied_def by auto
  qed
qed

subsection \<open>Erased blocks go back in the order of wear\<close>

lemma set_insertBack: "set (insertBack B xs) = insert B (set xs)"
  by (induction xs) auto

lemma insertBack_sorted:
  "sorted_wrt (\<lambda>a b. blk_eraseCount b \<le> blk_eraseCount a) xs \<Longrightarrow>
   sorted_wrt (\<lambda>a b. blk_eraseCount b \<le> blk_eraseCount a) (insertBack B xs)"
proof (induction xs)
  case (Cons x xs)
  then show ?case by (auto simp: set_insertBack)
qed simp

lemma insertFree_sorted:
  assumes "wear_sorted bs"
  shows "wear_sorted (insertFree B bs)"
  using insertBack_sorted [of "rev bs" B] assms
  by (simp add: wear_sorted_def insertFree_def sorted_wrt_rev)

text \<open>The victims leave the blocks in use.\<close>

lemma eraseInternal_frees:
  assumes "eraseInternal e req t s = Inr (t', s')"
  shows "findBlock s' c = (if c = preq_blockIndex req then None else findBlock s c)"
  using assms
  by (auto simp: eraseInternal_def Let_def palErase_def addLatency_def setBlock_def findBlock_def delete_conv'
      update_conv' split: option.splits if_splits)

lemma eraseLoop_frees:
  "eraseLoop (eraseInternal e) rs bt ft s = Inr (t', s') \<Longrightarrow>
   findBlock s' c = (if c \<in> preq_blockIndex ` set rs then None else findBlock s c)"
proof (induction rs arbitrary: ft s)
  case (Cons r rs)
  then obtain t1 s1 where "eraseInternal e r bt s = Inr (t1, s1)" and "eraseLoop (eraseInternal e) rs bt (max ft t1) s1 = Inr (t', s')"
    by auto
  then show ?case using Cons.IH eraseInternal_frees by auto
qed simp

lemma doGarbageCollection_frees:
  assumes "doGarbageCollection e bs t r s = Inr (t', s')" and "b \<in> set bs"
  shows "findBlock s' b = None"
proof -
  let ?es = "map (\<lambda>b. palReq b 0 (fullFlag e)) bs"
  have la: "findBlock (snd (addLatency e f t2 s2)) = findBlock s2" for f t2 s2
    by (rule core_cong(1)) simp
  obtain bt ft s2 x where er: "eraseLoop (eraseInternal e) ?es bt ft s2 = Inr x"
    and s': "findBlock s' = findBlock (snd x)"
    using assms la by (auto simp: doGarbageCollection_def Let_def case_prod_unfold dest!: arg_cong [of _ _ snd] split: if_splits)
  have "b \<in> preq_blockIndex ` set ?es" using assms(2) by (force simp: palReq_def)
  then show ?thesis using eraseLoop_frees [of e ?es bt ft s2 "fst x" "snd x" b] er s' by auto
qed

end
