(* ===== verification/FtlIo.thy ===== *)
theory FtlIo
  imports FtlGc
begin

text \<open>
  Reading and writing (\<open>readInternal\<close>, \<open>writeInternal\<close>, \<open>sepWriteInternal\<close>,
  \<open>sepHotWriteInternal\<close>, \<open>read\<close>, \<open>write\<close>), and the proof that each of them keeps the invariant
  and makes exactly the addressed units mapped.
\<close>

subsection \<open>Reading\<close>

definition palReqOf :: "FtlRequest \<Rightarrow> nat \<Rightarrow> nat \<Rightarrow> Bitset \<Rightarrow> PalRequest" where
  "palReqOf req b p flag =
     (PalRequest_of req)\<lparr>preq_blockIndex := b, preq_pageIndex := p, preq_ioFlag := flag\<rparr>"

definition reqUnitFlag :: "env \<Rightarrow> FtlRequest \<Rightarrow> nat \<Rightarrow> Bitset" where
  "reqUnitFlag e req idx =
     (if bRandomTweak e then bs_set (bs_reset_all (freq_ioFlag req)) idx True
      else bs_set_all (freq_ioFlag req))"

definition readUnit :: "env \<Rightarrow> FtlRequest \<Rightarrow> mapping_entry list \<Rightarrow> tick \<Rightarrow> nat \<Rightarrow> tick \<times> PageMapping \<Rightarrow>
    (tick \<times> PageMapping) res" where
  "readUnit e req ml t idx = (\<lambda>(finishedAt, s).
     if bs_test (freq_ioFlag req) idx \<or> \<not> bRandomTweak e
     then guardE (idx < length ml) (Throw ''vector::at'')
       (if isMapped e (ml ! idx)
        then case findBlock s (fst (ml ! idx)) of
               None \<Rightarrow> Inl (Panic ''Block is not in use'')
             | Some B \<Rightarrow>
                 bindE (Block_read B (snd (ml ! idx)) idx t) (\<lambda>(ok, B1).
                 let (t1, s1) = palRead e (palReqOf req (fst (ml ! idx)) (snd (ml ! idx)) (reqUnitFlag e req idx)) t
                       (setBlock (fst (ml ! idx)) B1 s)
                 in Inr (max finishedAt t1, s1))
        else Inr (finishedAt, s))
     else Inr (finishedAt, s))"

definition readInternal :: "env \<Rightarrow> FtlRequest \<Rightarrow> tick \<Rightarrow> PageMapping \<Rightarrow> (tick \<times> PageMapping) res" where
  "readInternal e req t0 s =
     (case findMapping s (freq_lpn req) of
        None \<Rightarrow> Inr (t0, s)
      | Some ml \<Rightarrow>
          let (t, s1) = dramRead e (if bRandomTweak e then 8 * bs_count (freq_ioFlag req) else 8) t0 s
          in bindE (foldE (readUnit e req ml t) [0..<bitsetSize e] (t0, s1)) (\<lambda>(finishedAt, s2).
             Inr (addLatency e CpuREAD_INTERNAL finishedAt s2)))"

definition ftlRead :: "env \<Rightarrow> FtlRequest \<Rightarrow> tick \<Rightarrow> PageMapping \<Rightarrow> (tick \<times> PageMapping) res" where
  "ftlRead e req t s =
     bindE (if bs_count (freq_ioFlag req) > 0 then readInternal e req t s else Inr (t, s))
       (\<lambda>(t1, s1). Inr (addLatency e CpuREAD t1 s1))"

subsection \<open>Writing\<close>

text \<open>
  The first loop of a write: every addressed unit that is mapped has its old copy invalidated.
  The block iterator is not compared with \<open>end()\<close> here. The loop also remembers the last block
  it looked at, which the separated write uses afterwards.
\<close>

definition invalidateUnit :: "env \<Rightarrow> FtlRequest \<Rightarrow> mapping_entry list \<Rightarrow> nat \<Rightarrow>
    nat option \<times> PageMapping \<Rightarrow> (nat option \<times> PageMapping) res" where
  "invalidateUnit e req ml idx = (\<lambda>(lastB, s).
     if bs_test (freq_ioFlag req) idx \<or> \<not> bRandomTweak e
     then guardE (idx < length ml) (Throw ''vector::at'')
       (if isMapped e (ml ! idx)
        then case findBlock s (fst (ml ! idx)) of
               None \<Rightarrow> Inl (UB ''dereference of blocks.end()'')
             | Some B \<Rightarrow>
                 bindE (Block_invalidate B (snd (ml ! idx)) idx) (\<lambda>B1.
                   Inr (Some (fst (ml ! idx)), setBlock (fst (ml ! idx)) B1 s))
        else Inr (lastB, s))
     else Inr (lastB, s))"

definition openMapping :: "env \<Rightarrow> FtlRequest \<Rightarrow> PageMapping \<Rightarrow> (nat option \<times> PageMapping) res" where
  "openMapping e req s =
     (case findMapping s (freq_lpn req) of
        Some ml \<Rightarrow> foldE (invalidateUnit e req ml) [0..<bitsetSize e] (None, s)
      | None \<Rightarrow> Inr (None, emplaceMapping e (freq_lpn req)
          (replicate (bitsetSize e) (totalPhysicalBlocks (param e), pagesInBlock (param e))) s))"

text \<open>The DRAM traffic of the mapping table entry.\<close>

definition dramMapping :: "env \<Rightarrow> FtlRequest \<Rightarrow> bool \<Rightarrow> tick \<Rightarrow> PageMapping \<Rightarrow> tick \<times> PageMapping" where
  "dramMapping e req sendToPAL t s =
     (if sendToPAL
      then let n = (if bRandomTweak e then 8 * bs_count (freq_ioFlag req) else 8);
               (t1, s1) = dramRead e n t s
           in dramWrite e n t1 s1
      else (t, s))"

text \<open>
  One iteration of the second loop: unit \<open>idx\<close> is written at the write pointer of the open block
  b, the old data is read first when only a part of a page is written without the random I/O
  tweak, the mapping is redirected, the write is sent to the flash, the refresh period noted.
\<close>

definition writeUnit :: "env \<Rightarrow> FtlRequest \<Rightarrow> bool \<Rightarrow> nat \<Rightarrow> tick \<Rightarrow> nat \<Rightarrow> tick \<times> PageMapping \<Rightarrow>
    (tick \<times> PageMapping) res" where
  "writeUnit e req sendToPAL b t idx = (\<lambda>(finishedAt, s).
     if bs_test (freq_ioFlag req) idx \<or> \<not> bRandomTweak e
     then case findBlock s b of
            None \<Rightarrow> Inl (UB ''dereference of blocks.end()'')
          | Some B \<Rightarrow>
     bindE (getNextWritePageIndexAt B idx) (\<lambda>pageIndex.
     case findMapping s (freq_lpn req) of
       None \<Rightarrow> Inl (UB ''dereference of table.end()'')
     | Some ml \<Rightarrow>
     guardE (idx < length ml) (Throw ''vector::at'')
     (bindE (Block_write B pageIndex (freq_lpn req) idx t) (\<lambda>B1.
      let s1 = setBlock b B1 s;
          readBeforeWrite = (\<not> bRandomTweak e \<and> \<not> bs_all (freq_ioFlag req));
          (t1, s2) = (if readBeforeWrite \<and> sendToPAL
                      then palRead e (palReqOf req (fst (ml ! idx)) (snd (ml ! idx))
                             (bs_flip_all (freq_ioFlag req))) t s1
                      else (t, s1));
          s3 = setMapping (freq_lpn req) idx (b, pageIndex) s2;
          (t2, s4) = (if sendToPAL
                      then palWrite e (palReqOf req b pageIndex (reqUnitFlag e req idx)) t1 s3
                      else (t1, s3))
      in bindE (setRefreshPeriod e (blk_eraseCount B1) b (pageIndex mod 64) s4) (\<lambda>s5.
         Inr (max finishedAt t2, s5)))))
     else Inr (finishedAt, s))"

definition gcIfNeeded :: "env \<Rightarrow> bool \<Rightarrow> bool \<Rightarrow> tick \<Rightarrow> PageMapping \<Rightarrow> PageMapping res" where
  "gcIfNeeded e sendToPAL isRefresh t s =
     (if f32_less (freeBlockRatio e s) (gcThreshold (conf e))
      then guardE sendToPAL (Panic ''ftl: GC triggered while in initialization'')
        (bindE (selectVictimBlock e t [] s) (\<lambda>(list, t1, s1).
         bindE (doGarbageCollection e list t1 isRefresh s1) (\<lambda>(t2, s2).
         Inr (bumpStat (\<lambda>st. st\<lparr>gcCount := gcCount st + 1,
                                reclaimedBlocks := reclaimedBlocks st + of_nat (length list)\<rparr>) s2))))
      else Inr s)"

definition writeInternal :: "env \<Rightarrow> FtlRequest \<Rightarrow> tick \<Rightarrow> bool \<Rightarrow> PageMapping \<Rightarrow> (tick \<times> PageMapping) res" where
  "writeInternal e req t0 sendToPAL s =
     bindE (openMapping e req s) (\<lambda>(_, s1).
     bindE (getLastFreeBlock e (freq_ioFlag req) s1) (\<lambda>(b, s2).
     guardE (findBlock s2 b \<noteq> None) (Panic ''No such block'')
     (let (t, s3) = dramMapping e req sendToPAL t0 s2
      in bindE (foldE (writeUnit e req sendToPAL b t) [0..<bitsetSize e] (t0, s3)) (\<lambda>(finishedAt, s4).
         let (t', s5) = (if sendToPAL then addLatency e CpuWRITE_INTERNAL finishedAt s4 else (t, s4))
         in bindE (gcIfNeeded e sendToPAL False t' s5) (\<lambda>s6. Inr (t', s6))))))"

subsection \<open>Writing with hot/cold separation\<close>

definition coldGcIfNeeded :: "env \<Rightarrow> string \<Rightarrow> bool \<Rightarrow> bool \<Rightarrow> tick \<Rightarrow> PageMapping \<Rightarrow> PageMapping res" where
  "coldGcIfNeeded e msg sendToPAL isRefresh t s =
     (if f32_less (coldFreeBlockRatio e s) (gcThreshold (conf e))
      then guardE sendToPAL (Panic msg)
        (bindE (selectColdVictimBlock e t s) (\<lambda>(list, t1, s1).
         bindE (sepDoGarbageCollection e list t1 isRefresh COLD s1) (\<lambda>(t2, s2).
         Inr (bumpStat (\<lambda>st. st\<lparr>coldGcCount := coldGcCount st + 1,
                                reclaimedColdBlocks := reclaimedColdBlocks st + of_nat (length list)\<rparr>) s2))))
      else Inr s)"

definition hotGcIfNeeded :: "env \<Rightarrow> bool \<Rightarrow> tick \<Rightarrow> PageMapping \<Rightarrow> PageMapping res" where
  "hotGcIfNeeded e sendToPAL t s =
     (if f32_less (hotFreeBlockRatio e s) (gcThreshold (conf e))
      then guardE sendToPAL (Panic ''ftl: GC triggered while in initialization by hot'')
        (bindE (selectHotVictimBlock e t s) (\<lambda>(list, t1, s1).
         bindE (sepDoGarbageCollection e list t1 False HOT s1) (\<lambda>(t2, s2).
         Inr (bumpStat (\<lambda>st. st\<lparr>hotGcCount := hotGcCount st + 1,
                                reclaimedHotBlocks := reclaimedHotBlocks st + of_nat (length list)\<rparr>) s2))))
      else Inr s)"

text \<open>
  The temperature of the data: the pool of the block the old copy is in. If the page was mapped
  before but none of the addressed units was, the source reads an uninitialised iterator.
\<close>

definition curBlockType :: "bool \<Rightarrow> blockPoolType \<Rightarrow> nat option \<Rightarrow> PageMapping \<Rightarrow> blockPoolType res" where
  "curBlockType known fresh lastB s =
     (if \<not> known then Inr fresh
      else case lastB of
             None \<Rightarrow> Inl (UB ''uninitialised iterator'')
           | Some b \<Rightarrow> (case findBlock s b of
                          None \<Rightarrow> Inl (UB ''dereference of blocks.end()'')
                        | Some B \<Rightarrow> Inr (blk_blockType B)))"

definition sepWriteInternal :: "env \<Rightarrow> FtlRequest \<Rightarrow> tick \<Rightarrow> bool \<Rightarrow> PageMapping \<Rightarrow> (tick \<times> PageMapping) res" where
  "sepWriteInternal e req t0 sendToPAL s =
     bindE (openMapping e req s) (\<lambda>(lastB, s1).
     bindE (curBlockType (findMapping s (freq_lpn req) \<noteq> None) COLD lastB s1) (\<lambda>ty.
     bindE (if ty = HOT \<or> ty = COOL then getLastHotFreeBlock e (freq_ioFlag req) s1
            else getLastCoolFreeBlock e (freq_ioFlag req) s1) (\<lambda>(b, s2).
     guardE (findBlock s2 b \<noteq> None) (Panic ''No such block'')
     (let (t, s3) = dramMapping e req sendToPAL t0 s2
      in bindE (foldE (writeUnit e req sendToPAL b t) [0..<bitsetSize e] (t0, s3)) (\<lambda>(finishedAt, s4).
         let (t', s5) = (if sendToPAL then addLatency e CpuWRITE_INTERNAL finishedAt s4 else (t, s4))
         in bindE (coldGcIfNeeded e ''ftl: GC triggered while in initialization by cold''
                     sendToPAL False t' s5) (\<lambda>s6.
            bindE (hotGcIfNeeded e sendToPAL t' s6) (\<lambda>s7. Inr (t', s7))))))))"

text \<open>The variant used only while filling: no flash traffic, no refresh period, no collection.\<close>

definition fillUnit :: "env \<Rightarrow> FtlRequest \<Rightarrow> bool \<Rightarrow> nat \<Rightarrow> tick \<Rightarrow> nat \<Rightarrow> PageMapping \<Rightarrow> PageMapping res" where
  "fillUnit e req sendToPAL b t idx s =
     (if bs_test (freq_ioFlag req) idx \<or> \<not> bRandomTweak e
      then case findBlock s b of
             None \<Rightarrow> Inl (UB ''dereference of blocks.end()'')
           | Some B \<Rightarrow>
      bindE (getNextWritePageIndexAt B idx) (\<lambda>pageIndex.
      case findMapping s (freq_lpn req) of
        None \<Rightarrow> Inl (UB ''dereference of table.end()'')
      | Some ml \<Rightarrow>
      guardE (idx < length ml) (Throw ''vector::at'')
      (bindE (Block_write B pageIndex (freq_lpn req) idx t) (\<lambda>B1.
       let s1 = setBlock b B1 s;
           (t1, s2) = (if \<not> bRandomTweak e \<and> \<not> bs_all (freq_ioFlag req) \<and> sendToPAL
                       then palRead e (palReqOf req (fst (ml ! idx)) (snd (ml ! idx))
                              (bs_flip_all (freq_ioFlag req))) t s1
                       else (t, s1))
       in Inr (setMapping (freq_lpn req) idx (b, pageIndex) s2))))
      else Inr s)"

definition sepHotWriteInternal :: "env \<Rightarrow> FtlRequest \<Rightarrow> tick \<Rightarrow> bool \<Rightarrow> PageMapping \<Rightarrow> (tick \<times> PageMapping) res" where
  "sepHotWriteInternal e req t sendToPAL s =
     bindE (openMapping e req s) (\<lambda>(lastB, s1).
     bindE (curBlockType (findMapping s (freq_lpn req) \<noteq> None) HOT lastB s1) (\<lambda>ty.
     guardE (ty = HOT) (Panic ''It cannot be cool or cold block'')
     (bindE (getLastHotFreeBlock e (freq_ioFlag req) s1) (\<lambda>(b, s2).
      guardE (findBlock s2 b \<noteq> None) (Panic ''No such block'')
      (bindE (foldE (fillUnit e req sendToPAL b t) [0..<bitsetSize e] s2) (\<lambda>s3.
       guardE (\<not> f32_less (coldFreeBlockRatio e s3) (gcThreshold (conf e)))
         (Panic ''ftl: Cold GC triggered while in hot block filling'')
       (guardE (\<not> f32_less (hotFreeBlockRatio e s3) (gcThreshold (conf e)))
         (Panic ''ftl: Hot GC triggered while in hot block filling'')
         (Inr (t, s3)))))))))"

definition ftlWrite :: "env \<Rightarrow> FtlRequest \<Rightarrow> tick \<Rightarrow> PageMapping \<Rightarrow> (tick \<times> PageMapping) res" where
  "ftlWrite e req t s =
     bindE (if bs_count (freq_ioFlag req) > 0
            then if wrap32 (hotColdSeperation (conf e)) = 0 then writeInternal e req t True s
                 else sepWriteInternal e req t True s
            else Inr (t, s))
       (\<lambda>(t1, s1). Inr (addLatency e CpuWRITE t1 s1))"

subsection \<open>What the layer promises\<close>

text \<open>The state serves the set L of logical units: the invariant holds and exactly L is mapped.\<close>

definition serves :: "env \<Rightarrow> (u64 \<times> nat) set \<Rightarrow> PageMapping \<Rightarrow> bool" where
  "serves e L s \<longleftrightarrow> ftl_inv e {} s \<and> live e s = L"

definition addressed :: "env \<Rightarrow> FtlRequest \<Rightarrow> nat \<Rightarrow> bool" where
  "addressed e req i \<longleftrightarrow> bs_test (freq_ioFlag req) i \<or> \<not> bRandomTweak e"

definition unitsOf :: "env \<Rightarrow> FtlRequest \<Rightarrow> (u64 \<times> nat) set" where
  "unitsOf e req = {(l, i). l = freq_lpn req \<and> i < bitsetSize e \<and> addressed e req i}"

lemma serves_core: "serves e L s \<Longrightarrow> core s' = core s \<Longrightarrow> serves e L s'"
  using core_cong(6,7) [of s' s] by (simp add: serves_def)

lemma serves_keeps: "serves e L s \<Longrightarrow> keeps e {} s s' \<Longrightarrow> serves e L s'"
  using keeps_live [of e "{}" s s'] by (simp add: serves_def keeps_def)

lemma okE_latency:
  "okE (\<lambda>(t, s). serves e L s) m \<Longrightarrow>
   okE (\<lambda>(t, s). serves e L s) (bindE m (\<lambda>(t, s). Inr (addLatency e f t s)))"
  by (erule okE_bindI) (auto simp: case_prod_unfold intro: serves_core)

subsection \<open>Reading\<close>

lemma readUnit_ok:
  assumes inv: "ftl_inv e {} s0" and k: "keeps e {} s0 s" and ml: "findMapping s0 (freq_lpn req) = Some ml"
  shows "okE (\<lambda>(t', s'). keeps e {} s0 s') (readUnit e req ml t i (fin, s))"
proof (cases "addressed e req i \<and> i < length ml \<and> isMapped e (ml ! i)")
  case False
  then show ?thesis using k by (auto simp: readUnit_def addressed_def)
next
  case True
  let ?b = "fst (ml ! i)" and ?p = "snd (ml ! i)"
  have m: "maps s0 (freq_lpn req) i = Some (?b, ?p)" using ml True by (simp add: maps_def)
  have v: "valid_at s ?b ?p i (freq_lpn req)"
    using ftl_invD(6) [OF inv m] True k by (simp add: keeps_def)
  obtain B where B: "findBlock s ?b = Some B" and p: "?p < blk_pageCount B" "i < blk_ioUnitInPage B"
    using v by (auto simp: valid_at_def split: option.splits)
  note wf = inv_wf [OF keeps_inv [OF k] B]
  have "keeps e {} s0 (snd (palRead e r t (setBlock ?b B1 s)))" if su: "same_units B B1" for r B1
  proof -
    have k2: "keeps e {} s (setBlock ?b B1 s)" by (rule keeps_same_units [OF keeps_inv [OF k] B su])
    show ?thesis
      by (rule keeps_trans [OF k keeps_trans [OF k2 keeps_core [OF keeps_inv [OF k2] core_ext(1)]]])
  qed
  then show ?thesis
    using True B Block_read_ok [OF wf p, of t] same_units_setters(4,5) [OF wf]
    by (simp add: readUnit_def addressed_def case_prod_unfold Let_def)
qed

lemma readInternal_ok:
  assumes sv: "serves e L s"
  shows "okE (\<lambda>(t', s'). serves e L s') (readInternal e req t s)"
proof (cases "findMapping s (freq_lpn req)")
  case None
  then show ?thesis using sv by (simp add: readInternal_def)
next
  case (Some ml)
  let ?n = "if bRandomTweak e then 8 * bs_count (freq_ioFlag req) else 8"
  obtain t1 s1 where d: "dramRead e ?n t s = (t1, s1)" by fastforce
  have c: "core s1 = core s" using core_ext(4) [of e ?n t s] d by simp
  have inv1: "ftl_inv e {} s1" using sv core_cong(6) [OF c] by (simp add: serves_def)
  have ml1: "findMapping s1 (freq_lpn req) = Some ml" using Some core_cong(2) [OF c] by simp
  have "okE (\<lambda>(t', s'). keeps e {} s1 s') (foldE (readUnit e req ml t1) [0..<bitsetSize e] (t, s1))"
    using readUnit_ok [OF inv1 _ ml1] keeps_core [OF inv1 refl] by (intro foldE_okE) auto
  then have "okE (\<lambda>(t', s'). serves e L s') (foldE (readUnit e req ml t1) [0..<bitsetSize e] (t, s1))"
    using serves_keeps [OF serves_core [OF sv c]] by (auto elim!: okE_mono)
  then show ?thesis by (simp add: readInternal_def Some d okE_latency)
qed

lemma ftlRead_ok:
  assumes "serves e L s"
  shows "okE (\<lambda>(t', s'). serves e L s') (ftlRead e req t s)"
  unfolding ftlRead_def using assms readInternal_ok by (intro okE_latency) auto

subsection \<open>Opening the mapping of a page that is about to be written\<close>

definition pending :: "env \<Rightarrow> FtlRequest \<Rightarrow> nat \<Rightarrow> (u64 \<times> nat) set" where
  "pending e req k = {(l, i) \<in> unitsOf e req. i < k}"

lemma invalidateUnit_ok:
  assumes inv: "ftl_inv e (pending e req i) s" and i: "i < bitsetSize e"
    and ml: "findMapping s (freq_lpn req) = Some ml"
  shows "okE (\<lambda>(lastB', s'). ftl_inv e (pending e req (Suc i)) s' \<and> live e s' = live e s \<and>
            findMapping s' = findMapping s)
          (invalidateUnit e req ml i (lastB, s))"
proof -
  let ?l = "freq_lpn req"
  have len: "length ml = bitsetSize e" by (rule ftl_invD(5) [OF inv ml])
  have m: "maps s ?l i = Some (fst (ml ! i), snd (ml ! i))" using ml len i by (simp add: maps_def)
  have step: "pending e req (Suc i) = (if addressed e req i then insert (?l, i) (pending e req i) else pending e req i)"
    using i by (auto simp: pending_def unitsOf_def less_Suc_eq)
  have fresh: "(?l, i) \<notin> pending e req i" by (simp add: pending_def)
  consider (skip) "\<not> addressed e req i" | (nowhere) "addressed e req i" "\<not> isMapped e (ml ! i)"
    | (mapped) "addressed e req i" "isMapped e (ml ! i)" by blast
  then show ?thesis
  proof cases
    case skip
    then show ?thesis using inv step by (simp add: invalidateUnit_def addressed_def)
  next
    case nowhere
    then have "ftl_inv e ({(?l, i)} \<union> pending e req i) s"
      using m by (intro ftl_inv_unmapped [OF inv]) auto
    then show ?thesis
      using nowhere step len i unfolding invalidateUnit_def by (simp add: addressed_def [symmetric])
  next
    case mapped
    have "okE (\<lambda>B'. ftl_inv e (insert (?l, i) (pending e req i)) (setBlock (fst (ml ! i)) B' s))
        (Block_invalidate B (snd (ml ! i)) i)" if "findBlock s (fst (ml ! i)) = Some B" for B
      using ftl_inv_invalidate [OF inv that m] mapped(2) fresh by (auto intro: totE_okE elim: totE_mono okE_mono)
    then show ?thesis
      using mapped step len i unfolding invalidateUnit_def
      by (auto simp: addressed_def [symmetric] okE_bind split: option.split elim!: okE_mono)
  qed
qed

definition opened :: "env \<Rightarrow> FtlRequest \<Rightarrow> (u64 \<times> nat) set \<Rightarrow> PageMapping \<Rightarrow> bool" where
  "opened e req L s \<longleftrightarrow> ftl_inv e (unitsOf e req) s \<and> live e s = L \<and> findMapping s (freq_lpn req) \<noteq> None"

lemma openMapping_ok:
  assumes env: "env_ok e" and sv: "serves e L s"
  shows "okE (\<lambda>(lastB, s'). opened e req L s') (openMapping e req s)"
proof (cases "findMapping s (freq_lpn req)")
  case None
  have inv: "ftl_inv e {} s" using sv by (simp add: serves_def)
  note E = ftl_inv_emplaceMapping [OF inv env None, folded noPage_def]
  let ?s = "emplaceMapping e (freq_lpn req) (replicate (bitsetSize e) (noPage e)) s"
  have "ftl_inv e (unitsOf e req \<union> {}) ?s"
  proof (rule ftl_inv_unmapped [OF E(1)])
    fix l i c q
    assume "(l, i) \<in> unitsOf e req" "maps ?s l i = Some (c, q)"
    then show "\<not> isMapped e (c, q)"
      using noPage_eq_mapped [of e "(c, q)"] by (auto simp: maps_def E(2) unitsOf_def split: if_splits)
  qed
  then show ?thesis using E(2,4) sv None by (simp add: openMapping_def opened_def serves_def noPage_def)
next
  case (Some ml)
  let ?P = "\<lambda>i (lastB, s'). ftl_inv e (pending e req i) s' \<and> live e s' = L \<and> findMapping s' = findMapping s"
  have "okE (?P (length [0..<bitsetSize e])) (foldE (invalidateUnit e req ml) [0..<bitsetSize e] (None, s))"
  proof (rule foldE_okE_idx)
    show "?P 0 (None, s)" using sv by (simp add: serves_def pending_def)
    fix i and x :: "nat option \<times> PageMapping"
    assume i: "i < length [0..<bitsetSize e]" and x: "?P i x"
    then show "okE (?P (Suc i)) (invalidateUnit e req ml ([0..<bitsetSize e] ! i) x)"
      using invalidateUnit_ok [of e req i "snd x" ml "fst x"] Some
      by (auto simp: case_prod_unfold elim!: okE_mono)
  qed
  moreover have "pending e req (bitsetSize e) = unitsOf e req" by (auto simp: pending_def unitsOf_def)
  ultimately show ?thesis
    using Some by (auto simp: openMapping_def opened_def elim!: okE_mono)
qed

lemma opened_keeps: "opened e req L s \<Longrightarrow> keeps e (unitsOf e req) s s' \<Longrightarrow> bitsetSize e > 0 \<Longrightarrow> opened e req L s'"
proof -
  assume o: "opened e req L s" and k: "keeps e (unitsOf e req) s s'" and z: "bitsetSize e > 0"
  obtain ml where ml: "findMapping s (freq_lpn req) = Some ml" using o by (auto simp: opened_def)
  have "length ml = bitsetSize e" using ftl_invD(5) [OF _ ml] o by (auto simp: opened_def)
  then have "maps s (freq_lpn req) 0 \<noteq> None" using ml z by (simp add: maps_def)
  then have "maps s' (freq_lpn req) 0 \<noteq> None" using k by (simp add: keeps_def)
  then have "findMapping s' (freq_lpn req) \<noteq> None" by (auto simp: maps_def split: option.splits)
  then show ?thesis using o keeps_live [OF k] keeps_inv [OF k] by (simp add: opened_def)
qed

lemma opened_core: "opened e req L s \<Longrightarrow> core s' = core s \<Longrightarrow> opened e req L s'"
  using core_cong(2,6,7) [of s' s] by (simp add: opened_def)

subsection \<open>Writing the units\<close>

text \<open>After k units: those from k on are still in transit, those before are mapped.\<close>

definition writing :: "env \<Rightarrow> FtlRequest \<Rightarrow> (u64 \<times> nat) set \<Rightarrow> nat \<Rightarrow> PageMapping \<Rightarrow> bool" where
  "writing e req L k s \<longleftrightarrow> ftl_inv e (unitsOf e req - pending e req k) s \<and>
     live e s = L \<union> pending e req k \<and> findMapping s (freq_lpn req) \<noteq> None"

lemma writing_core: "writing e req L k s \<Longrightarrow> core s' = core s \<Longrightarrow> writing e req L k s'"
  using core_cong(2,6,7) [of s' s] by (simp add: writing_def)

lemma pending_Suc:
  "i < bitsetSize e \<Longrightarrow> pending e req (Suc i) =
     (if addressed e req i then insert (freq_lpn req, i) (pending e req i) else pending e req i)"
  by (auto simp: pending_def unitsOf_def less_Suc_eq)

lemma write_step:
  assumes w: "writing e req L i s" and i: "i < bitsetSize e" and ad: "addressed e req i"
    and N: "findBlock s b = Some N" and ml: "findMapping s (freq_lpn req) = Some ml"
    and bw: "Block_write N (pNextWritePageIndex N ! i) (freq_lpn req) i t = Inr N'"
    and c: "core s' = core (setMapping (freq_lpn req) i (b, pNextWritePageIndex N ! i) (setBlock b N' s))"
  shows "writing e req L (Suc i) s'"
proof -
  let ?l = "freq_lpn req"
  have inv: "ftl_inv e (unitsOf e req - pending e req i) s" using w by (simp add: writing_def)
  have X: "(?l, i) \<in> unitsOf e req - pending e req i" using i ad by (auto simp: unitsOf_def pending_def)
  note W = ftl_inv_write [OF inv N ml i X bw refl]
  have "unitsOf e req - pending e req i - {(?l, i)} = unitsOf e req - pending e req (Suc i)"
    using pending_Suc [OF i, of req] ad by auto
  then have "writing e req L (Suc i) (setMapping ?l i (b, pNextWritePageIndex N ! i) (setBlock b N' s))"
    using W(1,3) w pending_Suc [OF i, of req] ad ml by (simp add: writing_def findMapping_setMapping)
  then show ?thesis by (rule writing_core [OF _ c])
qed

lemma writeUnit_ok:
  assumes w: "writing e req L i s" and i: "i < bitsetSize e"
  shows "okE (\<lambda>(t', s'). writing e req L (Suc i) s') (writeUnit e req send b t i (fin, s))"
proof (cases "addressed e req i")
  case False
  then have "writing e req L (Suc i) s" using w pending_Suc [OF i, of req] by (simp add: writing_def)
  then show ?thesis using False by (simp add: writeUnit_def addressed_def)
next
  case True
  have "writing e req L (Suc i) s'" if r: "writeUnit e req send b t i (fin, s) = Inr (t', s')" for t' s'
  proof -
    let ?l = "freq_lpn req"
    obtain N ml N1 where N: "findBlock s b = Some N" and ml: "findMapping s ?l = Some ml"
      and bw: "Block_write N (pNextWritePageIndex N ! i) ?l i t = Inr N1"
      using r True by (auto simp: writeUnit_def addressed_def getNextWritePageIndexAt_def split: option.splits if_splits)
    let ?rd = "if (\<not> bRandomTweak e \<and> \<not> bs_all (freq_ioFlag req)) \<and> send
       then palRead e (palReqOf req (fst (ml ! i)) (snd (ml ! i)) (bs_flip_all (freq_ioFlag req))) t (setBlock b N1 s)
       else (t, setBlock b N1 s)"
    let ?wr = "\<lambda>t1 s3. if send then palWrite e (palReqOf req b (pNextWritePageIndex N ! i) (reqUnitFlag e req i)) t1 s3
       else (t1, s3)"
    let ?m = "setMapping ?l i (b, pNextWritePageIndex N ! i)"
    have rp: "setRefreshPeriod e (blk_eraseCount N1) b (pNextWritePageIndex N ! i mod 64)
        (snd (?wr (fst ?rd) (?m (snd ?rd)))) = Inr s'"
      using r True N ml bw
      by (auto simp: writeUnit_def addressed_def getNextWritePageIndexAt_def Let_def case_prod_unfold split: if_splits)
    have cm: "core (?m u) = core (?m v)" if "core u = core v" for u v
      using that by (auto simp: core_def setMapping_def split: option.split)
    have "core (snd ?rd) = core (setBlock b N1 s)" by simp
    then have "core (?m (snd ?rd)) = core (?m (setBlock b N1 s))" by (rule cm)
    moreover have "core s' = core (snd (?wr (fst ?rd) (?m (snd ?rd))))"
      using rp setRefreshPeriod_frame by (metis okE_simps(2) only_queues_core)
    moreover have "core (snd (?wr t1 s3)) = core s3" for t1 s3 by simp
    ultimately have "core s' = core (?m (setBlock b N1 s))" by simp
    then show ?thesis by (rule write_step [OF w i True N ml bw])
  qed
  then show ?thesis by (auto simp: okE_iff)
qed

lemma writeUnits_ok:
  assumes o: "opened e req L s"
  shows "okE (\<lambda>(t', s'). serves e (L \<union> unitsOf e req) s')
           (foldE (writeUnit e req send b t) [0..<bitsetSize e] (fin, s))"
proof -
  have "okE (\<lambda>x. writing e req L (length [0..<bitsetSize e]) (snd x))
      (foldE (writeUnit e req send b t) [0..<bitsetSize e] (fin, s))"
  proof (rule foldE_okE_idx)
    show "writing e req L 0 (snd (fin, s))" using o by (simp add: writing_def opened_def pending_def)
    fix i and x :: "tick \<times> PageMapping"
    assume "i < length [0..<bitsetSize e]" and "writing e req L i (snd x)"
    then show "okE (\<lambda>x. writing e req L (Suc i) (snd x)) (writeUnit e req send b t ([0..<bitsetSize e] ! i) x)"
      using writeUnit_ok [of e req L i "snd x" send b t "fst x"] by (simp add: case_prod_unfold)
  qed
  moreover have "pending e req (bitsetSize e) = unitsOf e req" by (auto simp: pending_def unitsOf_def)
  ultimately show ?thesis by (auto simp: writing_def serves_def elim!: okE_mono)
qed

lemma opened_alloc:
  assumes o: "opened e req L s" and a: "alloc_post e (unitsOf e req) s (b, s')"
  shows "opened e req L s'"
proof -
  obtain N where k: "keeps e (unitsOf e req) s s'" and N: "findBlock s' b = Some N"
    using a by (auto simp: alloc_post_def)
  have "blk_ok e b N" by (rule ftl_invD(7) [OF keeps_inv [OF k] N])
  then have "0 < ioUnitInPage (param e)" using blk_okD(2,5) by (fastforce simp: blk_shape_def)
  then show ?thesis by (intro opened_keeps [OF o k]) (simp add: bitsetSize_def)
qed

lemma dramMapping_core [simp]: "core (snd (dramMapping e req send t s)) = core s"
  by (simp add: dramMapping_def Let_def case_prod_unfold)

subsection \<open>Collecting garbage when free blocks run low\<close>

lemma gc_after_select:
  assumes sv: "serves e L s" and sel: "okE (\<lambda>(l, t', s'). core s' = core s) m"
    and gc: "\<And>l t s'. ftl_inv e {} s' \<Longrightarrow> okE (\<lambda>(t', s2). ftl_inv e {} s2 \<and> live e s2 = live e s') (gc l t s')"
  shows "okE (serves e L) (bindE m (\<lambda>(l, t1, s1). bindE (gc l t1 s1) (\<lambda>(t2, s2). Inr (bumpStat (g l) s2))))"
proof (rule okE_bindI [OF sel], clarify)
  fix l t1 s1
  assume "core s1 = core s"
  then have s1: "serves e L s1" using serves_core [OF sv] by simp
  then have i1: "ftl_inv e {} s1" "live e s1 = L" by (auto simp: serves_def)
  show "okE (serves e L) (bindE (gc l t1 s1) (\<lambda>(t2, s2). Inr (bumpStat (g l) s2)))"
  proof (rule okE_bindI [OF gc [OF i1(1)]], clarify)
    fix t2 :: 'c and s2
    assume "ftl_inv e {} s2" "live e s2 = live e s1"
    then have "serves e L s2" using i1(2) by (simp add: serves_def)
    then show "okE (serves e L) (Inr (bumpStat (g l) s2))" using serves_core [of e L s2] by simp
  qed
qed

lemma gcIfNeeded_ok:
  assumes "env_ok e" and "serves e L s"
  shows "okE (serves e L) (gcIfNeeded e send r t s)"
  using assms gc_after_select [OF assms(2) select_frame(1) doGarbageCollection_ok [OF assms(1)]]
  by (simp add: gcIfNeeded_def)

lemma coldGcIfNeeded_ok:
  assumes "env_ok e" and "serves e L s"
  shows "okE (serves e L) (coldGcIfNeeded e msg send r t s)"
  using assms gc_after_select [OF assms(2) select_frame(3) sepDoGarbageCollection_ok [OF assms(1)]]
  by (simp add: coldGcIfNeeded_def)

lemma hotGcIfNeeded_ok:
  assumes "env_ok e" and "serves e L s"
  shows "okE (serves e L) (hotGcIfNeeded e send t s)"
  using assms gc_after_select [OF assms(2) select_frame(2) sepDoGarbageCollection_ok [OF assms(1)]]
  by (simp add: hotGcIfNeeded_def)

subsection \<open>The three writes\<close>

text \<open>From the open mapping and the open block to the units written, in the two timed variants.\<close>

lemma write_body:
  assumes o: "opened e req L s2"
    and gc: "\<And>t' s5. serves e (L \<union> unitsOf e req) s5 \<Longrightarrow>
               okE (\<lambda>(t'', s6). serves e (L \<union> unitsOf e req) s6) (gc t' s5)"
  shows "okE (\<lambda>(t', s'). serves e (L \<union> unitsOf e req) s')
     (let (t, s3) = dramMapping e req send t0 s2
      in bindE (foldE (writeUnit e req send b t) [0..<bitsetSize e] (t0, s3)) (\<lambda>(finishedAt, s4).
         let (t', s5) = (if send then addLatency e CpuWRITE_INTERNAL finishedAt s4 else (t, s4))
         in gc t' s5))"
proof -
  obtain t s3 where d: "dramMapping e req send t0 s2 = (t, s3)" by fastforce
  have o3: "opened e req L s3" using opened_core [OF o] dramMapping_core [of e req send t0 s2] d by simp
  show ?thesis
    unfolding d Let_def prod.case
  proof (rule okE_bindI [OF writeUnits_ok [OF o3]], clarify)
    fix finishedAt :: tick and s4
    assume s4: "serves e (L \<union> unitsOf e req) s4"
    obtain t' s5 where r: "(if send then addLatency e CpuWRITE_INTERNAL finishedAt s4 else (t, s4)) = (t', s5)"
      by fastforce
    have "core (snd (if send then addLatency e CpuWRITE_INTERNAL finishedAt s4 else (t, s4))) = core s4" by simp
    then have "core s5 = core s4" unfolding r by simp
    then show "okE (\<lambda>(t', s'). serves e (L \<union> unitsOf e req) s')
        (case if send then addLatency e CpuWRITE_INTERNAL finishedAt s4 else (t, s4) of (t', s5) \<Rightarrow> gc t' s5)"
      using gc [OF serves_core [OF s4]] by (simp add: r)
  qed
qed

lemma writeInternal_ok:
  assumes env: "env_ok e" and sv: "serves e L s"
  shows "okE (\<lambda>(t', s'). serves e (L \<union> unitsOf e req) s') (writeInternal e req t0 send s)"
  unfolding writeInternal_def
proof (rule okE_bindI [OF openMapping_ok [OF env sv]], clarify)
  fix lastB :: "nat option" and s1
  assume o: "opened e req L s1"
  then have inv: "ftl_inv e (unitsOf e req) s1" by (simp add: opened_def)
  show "okE (\<lambda>(t', s'). serves e (L \<union> unitsOf e req) s')
    (bindE (getLastFreeBlock e (freq_ioFlag req) s1) (\<lambda>(b, s2).
     guardE (findBlock s2 b \<noteq> None) (Panic ''No such block'')
     (let (t, s3) = dramMapping e req send t0 s2
      in bindE (foldE (writeUnit e req send b t) [0..<bitsetSize e] (t0, s3)) (\<lambda>(finishedAt, s4).
         let (t', s5) = (if send then addLatency e CpuWRITE_INTERNAL finishedAt s4 else (t, s4))
         in bindE (gcIfNeeded e send False t' s5) (\<lambda>s6. Inr (t', s6))))))"
  proof (rule okE_bindI [OF free_open.open_ok [OF env inv]], clarify)
    fix b s2
    assume "alloc_post e (unitsOf e req) s1 (b, s2)"
    then have o2: "opened e req L s2" by (rule opened_alloc [OF o])
    show "okE (\<lambda>(t', s'). serves e (L \<union> unitsOf e req) s')
      (guardE (findBlock s2 b \<noteq> None) (Panic ''No such block'')
       (let (t, s3) = dramMapping e req send t0 s2
        in bindE (foldE (writeUnit e req send b t) [0..<bitsetSize e] (t0, s3)) (\<lambda>(finishedAt, s4).
           let (t', s5) = (if send then addLatency e CpuWRITE_INTERNAL finishedAt s4 else (t, s4))
           in bindE (gcIfNeeded e send False t' s5) (\<lambda>s6. Inr (t', s6)))))"
      using write_body [OF o2, of "\<lambda>t' s5. bindE (gcIfNeeded e send False t' s5) (\<lambda>s6. Inr (t', s6))"]
        okE_bindI [OF gcIfNeeded_ok [OF env]] by (auto simp: okE_bindI [OF gcIfNeeded_ok [OF env]])
  qed
qed

lemma sepWriteInternal_ok:
  assumes env: "env_ok e" and sv: "serves e L s"
  shows "okE (\<lambda>(t', s'). serves e (L \<union> unitsOf e req) s') (sepWriteInternal e req t0 send s)"
  unfolding sepWriteInternal_def
proof (rule okE_bindI [OF openMapping_ok [OF env sv]], clarify, rule okE_bind_any)
  fix lastB :: "nat option" and s1 and ty
  assume o: "opened e req L s1"
  then have inv: "ftl_inv e (unitsOf e req) s1" by (simp add: opened_def)
  let ?gc = "\<lambda>t' s5. bindE (coldGcIfNeeded e ''ftl: GC triggered while in initialization by cold''
                     send False t' s5) (\<lambda>s6. bindE (hotGcIfNeeded e send t' s6) (\<lambda>s7. Inr (t', s7)))"
  let ?rest = "\<lambda>(b, s2). guardE (findBlock s2 b \<noteq> None) (Panic ''No such block'')
     (let (t, s3) = dramMapping e req send t0 s2
      in bindE (foldE (writeUnit e req send b t) [0..<bitsetSize e] (t0, s3)) (\<lambda>(finishedAt, s4).
         let (t', s5) = (if send then addLatency e CpuWRITE_INTERNAL finishedAt s4 else (t, s4))
         in ?gc t' s5))"
  have gc: "okE (\<lambda>(t'', s6). serves e (L \<union> unitsOf e req) s6) (?gc t' s5)"
    if "serves e (L \<union> unitsOf e req) s5" for t' s5
    by (rule okE_bindI [OF coldGcIfNeeded_ok [OF env that]], rule okE_bindI [OF hotGcIfNeeded_ok [OF env]]) simp_all
  have al: "okE (alloc_post e (unitsOf e req) s1)
     (if ty = HOT \<or> ty = COOL then getLastHotFreeBlock e (freq_ioFlag req) s1
      else getLastCoolFreeBlock e (freq_ioFlag req) s1)"
    using hot_open.open_ok [OF env inv] cool_open.open_ok [OF env inv] by simp
  show "okE (\<lambda>(t', s'). serves e (L \<union> unitsOf e req) s')
    (bindE (if ty = HOT \<or> ty = COOL then getLastHotFreeBlock e (freq_ioFlag req) s1
            else getLastCoolFreeBlock e (freq_ioFlag req) s1) ?rest)"
  proof (rule okE_bindI [OF al])
    fix r
    assume "alloc_post e (unitsOf e req) s1 r"
    then obtain b s2 where r: "r = (b, s2)" and o2: "opened e req L s2"
      using opened_alloc [OF o] by (cases r) auto
    show "okE (\<lambda>(t', s'). serves e (L \<union> unitsOf e req) s') (?rest r)"
      using write_body [OF o2 gc] by (simp add: r)
  qed
qed

lemma fillUnit_ok:
  assumes w: "writing e req L i s" and i: "i < bitsetSize e"
  shows "okE (writing e req L (Suc i)) (fillUnit e req send b t i s)"
proof (cases "addressed e req i")
  case False
  then have "writing e req L (Suc i) s" using w pending_Suc [OF i, of req] by (simp add: writing_def)
  then show ?thesis using False by (simp add: fillUnit_def addressed_def)
next
  case True
  have "writing e req L (Suc i) s'" if r: "fillUnit e req send b t i s = Inr s'" for s'
  proof -
    let ?l = "freq_lpn req"
    obtain N ml N1 where N: "findBlock s b = Some N" and ml: "findMapping s ?l = Some ml"
      and bw: "Block_write N (pNextWritePageIndex N ! i) ?l i t = Inr N1"
      using r True by (auto simp: fillUnit_def addressed_def getNextWritePageIndexAt_def split: option.splits if_splits)
    let ?rd = "if \<not> bRandomTweak e \<and> \<not> bs_all (freq_ioFlag req) \<and> send
       then palRead e (palReqOf req (fst (ml ! i)) (snd (ml ! i)) (bs_flip_all (freq_ioFlag req))) t (setBlock b N1 s)
       else (t, setBlock b N1 s)"
    let ?m = "setMapping ?l i (b, pNextWritePageIndex N ! i)"
    have s': "s' = ?m (snd ?rd)"
      using r True N ml bw
      by (auto simp: fillUnit_def addressed_def getNextWritePageIndexAt_def Let_def case_prod_unfold split: if_splits)
    have cm: "core (?m u) = core (?m v)" if "core u = core v" for u v
      using that by (auto simp: core_def setMapping_def split: option.split)
    have "core (snd ?rd) = core (setBlock b N1 s)" by simp
    then have "core s' = core (?m (setBlock b N1 s))" unfolding s' by (rule cm)
    then show ?thesis by (rule write_step [OF w i True N ml bw])
  qed
  then show ?thesis by (auto simp: okE_iff)
qed

lemma fillUnits_ok:
  assumes o: "opened e req L s"
  shows "okE (serves e (L \<union> unitsOf e req)) (foldE (fillUnit e req send b t) [0..<bitsetSize e] s)"
proof -
  have "okE (writing e req L (length [0..<bitsetSize e])) (foldE (fillUnit e req send b t) [0..<bitsetSize e] s)"
  proof (rule foldE_okE_idx)
    show "writing e req L 0 s" using o by (simp add: writing_def opened_def pending_def)
  qed (simp add: fillUnit_ok)
  moreover have "pending e req (bitsetSize e) = unitsOf e req" by (auto simp: pending_def unitsOf_def)
  ultimately show ?thesis by (auto simp: writing_def serves_def elim!: okE_mono)
qed

lemma sepHotWriteInternal_ok:
  assumes env: "env_ok e" and sv: "serves e L s"
  shows "okE (\<lambda>(t', s'). serves e (L \<union> unitsOf e req) s') (sepHotWriteInternal e req t send s)"
  unfolding sepHotWriteInternal_def
proof (rule okE_bindI [OF openMapping_ok [OF env sv]], clarify, rule okE_bind_any, simp only: okE_guard, rule impI)
  fix lastB :: "nat option" and s1 and ty
  assume o: "opened e req L s1"
  then have inv: "ftl_inv e (unitsOf e req) s1" by (simp add: opened_def)
  show "okE (\<lambda>(t', s'). serves e (L \<union> unitsOf e req) s')
    (bindE (getLastHotFreeBlock e (freq_ioFlag req) s1) (\<lambda>(b, s2).
      guardE (findBlock s2 b \<noteq> None) (Panic ''No such block'')
      (bindE (foldE (fillUnit e req send b t) [0..<bitsetSize e] s2) (\<lambda>s3.
       guardE (\<not> f32_less (coldFreeBlockRatio e s3) (gcThreshold (conf e)))
         (Panic ''ftl: Cold GC triggered while in hot block filling'')
       (guardE (\<not> f32_less (hotFreeBlockRatio e s3) (gcThreshold (conf e)))
         (Panic ''ftl: Hot GC triggered while in hot block filling'')
         (Inr (t, s3)))))))"
    using opened_alloc [OF o] okE_bindI [OF fillUnits_ok]
    by (auto intro!: okE_bindI [OF hot_open.open_ok [OF env inv]] okE_bindI [OF fillUnits_ok])
qed

lemma ftlWrite_ok:
  assumes env: "env_ok e" and sv: "serves e L s"
  shows "okE (\<lambda>(t', s'). serves e (if bs_count (freq_ioFlag req) > 0 then L \<union> unitsOf e req else L) s')
           (ftlWrite e req t s)"
  unfolding ftlWrite_def using sv writeInternal_ok [OF env sv] sepWriteInternal_ok [OF env sv]
  by (intro okE_latency) auto

end
