(* ===== verification/FtlTrim.thy ===== *)
theory FtlTrim
  imports FtlIo
begin

text \<open>
  Trimming one logical page and formatting a range (\<open>trimInternal\<close>, \<open>trim\<close>, \<open>format\<close>): what is
  trimmed is no longer mapped, everything else stays.
\<close>

subsection \<open>Definitions\<close>

definition trimUnit :: "env \<Rightarrow> mapping_entry list \<Rightarrow> nat \<Rightarrow> PageMapping \<Rightarrow> PageMapping res" where
  "trimUnit e ml idx s =
     guardE (idx < length ml) (Throw ''vector::at'')
       (case findBlock s (fst (ml ! idx)) of
          None \<Rightarrow> Inl (Panic ''Block is not in use'')
        | Some B \<Rightarrow> bindE (Block_invalidate B (snd (ml ! idx)) idx) (\<lambda>B1.
            Inr (setBlock (fst (ml ! idx)) B1 s)))"

definition trimInternal :: "env \<Rightarrow> FtlRequest \<Rightarrow> tick \<Rightarrow> PageMapping \<Rightarrow> (tick \<times> PageMapping) res" where
  "trimInternal e req t s =
     (case findMapping s (freq_lpn req) of
        None \<Rightarrow> Inr (t, s)
      | Some ml \<Rightarrow>
          let (t1, s1) = dramRead e (if bRandomTweak e then 8 * bs_count (freq_ioFlag req) else 8) t s
          in bindE (foldE (trimUnit e ml) [0..<bitsetSize e] s1) (\<lambda>s2.
             Inr (addLatency e CpuTRIM_INTERNAL t1 (eraseMapping (freq_lpn req) s2))))"

definition ftlTrim :: "env \<Rightarrow> FtlRequest \<Rightarrow> tick \<Rightarrow> PageMapping \<Rightarrow> (tick \<times> PageMapping) res" where
  "ftlTrim e req t s =
     bindE (trimInternal e req t s) (\<lambda>(t1, s1). Inr (addLatency e CpuTRIM t1 s1))"

definition inRange :: "LPNRange \<Rightarrow> u64 \<Rightarrow> bool" where
  "inRange rng lpn \<longleftrightarrow> slpn rng \<le> lpn \<and> lpn < slpn rng + nlp rng"

text \<open>
  The loop over the table: an entry in the range is trimmed, its blocks are collected and it is
  erased, the iterator moving on to the next entry.
\<close>

definition formatEntry :: "env \<Rightarrow> LPNRange \<Rightarrow> u64 \<times> mapping_entry list \<Rightarrow>
    nat list \<times> PageMapping \<Rightarrow> (nat list \<times> PageMapping) res" where
  "formatEntry e rng = (\<lambda>(lpn, ml) (list, s).
     if inRange rng lpn
     then bindE (foldE (trimUnit e ml) [0..<bitsetSize e] s) (\<lambda>s1.
            Inr (list @ map fst (take (bitsetSize e) ml), eraseMapping lpn s1))
     else Inr (list, s))"

definition ftlFormat :: "env \<Rightarrow> LPNRange \<Rightarrow> tick \<Rightarrow> PageMapping \<Rightarrow> (tick \<times> PageMapping) res" where
  "ftlFormat e rng t s =
     bindE (foldE (formatEntry e rng) (ftl_table s) ([], s)) (\<lambda>(collected, s1).
     let list = remdups (sort collected)
     in bindE (if wrap32 (hotColdSeperation (conf e)) = 0
               then doGarbageCollection e list t False s1
               else sepDoGarbageCollection e list t False COLD s1) (\<lambda>(t1, s2).
        Inr (addLatency e CpuFORMAT t1 s2)))"

subsection \<open>What is left after trimming\<close>

text \<open>The first k units of page l are in transit.\<close>

definition trimmed :: "u64 \<Rightarrow> nat \<Rightarrow> (u64 \<times> nat) set" where
  "trimmed l k = {(l', i). l' = l \<and> i < k}"

lemma trimUnit_ok:
  assumes inv: "ftl_inv e (trimmed l i) s" and i: "i < bitsetSize e" and ml: "findMapping s l = Some ml"
  shows "okE (\<lambda>s'. ftl_inv e (trimmed l (Suc i)) s' \<and> live e s' = live e s \<and> findMapping s' = findMapping s)
           (trimUnit e ml i s)"
proof -
  note D = ftl_invD [OF inv]
  have len: "length ml = bitsetSize e" by (rule D(5) [OF ml])
  have m: "maps s l i = Some (fst (ml ! i), snd (ml ! i))" using ml len i by (simp add: maps_def)
  have X: "(l, i) \<notin> trimmed l i" "trimmed l (Suc i) = insert (l, i) (trimmed l i)"
    by (auto simp: trimmed_def)
  have "okE (\<lambda>B'. ftl_inv e (trimmed l (Suc i)) (setBlock (fst (ml ! i)) B' s)) (Block_invalidate B (snd (ml ! i)) i)"
    if B: "findBlock s (fst (ml ! i)) = Some B" for B
  proof -
    have "isMapped e (ml ! i)"
      using D(6) [OF m] B noPage_no_block [OF D(1)] by (auto split: if_splits)
    then show ?thesis
      using ftl_inv_invalidate [OF inv B m] X by (auto intro: totE_okE elim: totE_mono okE_mono)
  qed
  then show ?thesis
    using len i by (auto simp: trimUnit_def okE_bind split: option.split elim!: okE_mono)
qed

lemma trimUnits_ok:
  assumes inv: "ftl_inv e {} s" and ml: "findMapping s l = Some ml"
  shows "okE (\<lambda>s'. ftl_inv e {} (eraseMapping l s') \<and> live e (eraseMapping l s') = {(k, i) \<in> live e s. k \<noteq> l} \<and>
            findMapping s' = findMapping s)
           (foldE (trimUnit e ml) [0..<bitsetSize e] s)"
proof -
  let ?P = "\<lambda>i s'. ftl_inv e (trimmed l i) s' \<and> live e s' = live e s \<and> findMapping s' = findMapping s"
  have "okE (?P (length [0..<bitsetSize e])) (foldE (trimUnit e ml) [0..<bitsetSize e] s)"
  proof (rule foldE_okE_idx)
    show "?P 0 s" using inv by (simp add: trimmed_def)
    fix i s'
    assume "i < length [0..<bitsetSize e]" and "?P i s'"
    then show "okE (?P (Suc i)) (trimUnit e ml ([0..<bitsetSize e] ! i) s')"
      using trimUnit_ok [of e l i s' ml] ml by (auto elim!: okE_mono)
  qed
  then show ?thesis
  proof (rule okE_mono)
    fix s'
    assume s': "?P (length [0..<bitsetSize e]) s'"
    then have "ftl_inv e {(k, i) \<in> trimmed l (bitsetSize e). k \<noteq> l} (eraseMapping l s')"
      by (intro ftl_inv_eraseMapping) (auto simp: trimmed_def)
    moreover have "{(k, i) \<in> trimmed l (bitsetSize e). k \<noteq> l} = {}" by (auto simp: trimmed_def)
    ultimately show "ftl_inv e {} (eraseMapping l s') \<and> live e (eraseMapping l s') = {(k, i) \<in> live e s. k \<noteq> l} \<and>
            findMapping s' = findMapping s"
      using s' by simp
  qed
qed

lemma trimInternal_ok:
  assumes sv: "serves e L s"
  shows "okE (\<lambda>(t', s'). serves e {(l, i) \<in> L. l \<noteq> freq_lpn req} s') (trimInternal e req t s)"
proof (cases "findMapping s (freq_lpn req)")
  case None
  then have "{(l, i) \<in> L. l \<noteq> freq_lpn req} = L" using sv by (auto simp: serves_def live_def maps_def)
  then show ?thesis using None sv by (simp add: trimInternal_def)
next
  case (Some ml)
  let ?n = "if bRandomTweak e then 8 * bs_count (freq_ioFlag req) else 8"
  obtain t1 s1 where d: "dramRead e ?n t s = (t1, s1)" by fastforce
  have c: "core s1 = core s" using core_ext(4) [of e ?n t s] d by simp
  have inv1: "ftl_inv e {} s1" and L: "live e s1 = L"
    using serves_core [OF sv c] by (auto simp: serves_def)
  have ml1: "findMapping s1 (freq_lpn req) = Some ml" using Some core_cong(2) [OF c] by simp
  have "okE (\<lambda>(t', s'). serves e {(l, i) \<in> L. l \<noteq> freq_lpn req} s')
      (bindE (foldE (trimUnit e ml) [0..<bitsetSize e] s1) (\<lambda>s2.
         Inr (addLatency e CpuTRIM_INTERNAL t1 (eraseMapping (freq_lpn req) s2))))"
  proof (rule okE_bindI [OF trimUnits_ok [OF inv1 ml1]])
    fix s2
    assume "ftl_inv e {} (eraseMapping (freq_lpn req) s2) \<and>
      live e (eraseMapping (freq_lpn req) s2) = {(k, i) \<in> live e s1. k \<noteq> freq_lpn req} \<and> findMapping s2 = findMapping s1"
    then have "serves e {(l, i) \<in> L. l \<noteq> freq_lpn req} (eraseMapping (freq_lpn req) s2)"
      using L by (simp add: serves_def)
    from serves_core [OF this core_ext(6)]
    show "okE (\<lambda>(t', s'). serves e {(l, i) \<in> L. l \<noteq> freq_lpn req} s')
        (Inr (addLatency e CpuTRIM_INTERNAL t1 (eraseMapping (freq_lpn req) s2)))"
      by (simp add: case_prod_unfold)
  qed
  then show ?thesis by (simp add: trimInternal_def Some d)
qed

lemma ftlTrim_ok:
  assumes "serves e L s"
  shows "okE (\<lambda>(t', s'). serves e {(l, i) \<in> L. l \<noteq> freq_lpn req} s') (ftlTrim e req t s)"
  unfolding ftlTrim_def by (rule okE_latency [OF trimInternal_ok [OF assms]])

text \<open>The loop of \<open>format\<close>: after k entries of the table t0, those of them in the range are gone.\<close>

definition formatting :: "env \<Rightarrow> LPNRange \<Rightarrow> table_t \<Rightarrow> (u64 \<times> nat) set \<Rightarrow> nat \<Rightarrow> PageMapping \<Rightarrow> bool" where
  "formatting e rng t0 L k s \<longleftrightarrow> ftl_inv e {} s \<and>
     live e s = {(l, i) \<in> L. \<not> (inRange rng l \<and> l \<in> fst ` set (take k t0))} \<and>
     (\<forall>(l, ml)\<in>set (drop k t0). findMapping s l = Some ml)"

lemma formatEntry_ok:
  assumes f: "formatting e rng t0 L k s" and k: "k < length t0" and d: "distinct (map fst t0)"
  shows "okE (\<lambda>(list', s'). formatting e rng t0 L (Suc k) s') (formatEntry e rng (t0 ! k) (list, s))"
proof -
  obtain l ml where lm: "t0 ! k = (l, ml)" by fastforce
  have tk: "take (Suc k) t0 = take k t0 @ [(l, ml)]" and dk: "drop k t0 = (l, ml) # drop (Suc k) t0"
    using k lm Cons_nth_drop_Suc [OF k] by (simp_all add: take_Suc_conv_app_nth)
  have ml: "findMapping s l = Some ml" using f dk by (simp add: formatting_def)
  have inv: "ftl_inv e {} s" using f by (simp add: formatting_def)
  have fresh: "l \<notin> fst ` set (drop (Suc k) t0)"
    using d k lm append_take_drop_id [of k t0] dk by (metis distinct.simps(2) distinct_append list.set_map list.simps(9) fst_conv map_append)
  have other: "\<forall>(l', ml')\<in>set (drop (Suc k) t0). findMapping s l' = Some ml' \<and> l' \<noteq> l"
    using f dk fresh by (force simp: formatting_def)
  show ?thesis
  proof (cases "inRange rng l")
    case False
    then have "formatting e rng t0 L (Suc k) s" using f tk other by (force simp: formatting_def)
    then show ?thesis by (simp add: formatEntry_def lm False)
  next
    case True
    have "okE (\<lambda>s'. formatting e rng t0 L (Suc k) (eraseMapping l s')) (foldE (trimUnit e ml) [0..<bitsetSize e] s)"
    proof (rule okE_mono [OF trimUnits_ok [OF inv ml]])
      fix s'
      assume s': "ftl_inv e {} (eraseMapping l s') \<and> live e (eraseMapping l s') = {(k, i) \<in> live e s. k \<noteq> l} \<and>
            findMapping s' = findMapping s"
      have "live e (eraseMapping l s') = {(l', i) \<in> L. \<not> (inRange rng l' \<and> l' \<in> fst ` set (take (Suc k) t0))}"
        using s' f True tk by (auto simp: formatting_def)
      moreover have "\<forall>(l', ml')\<in>set (drop (Suc k) t0). findMapping (eraseMapping l s') l' = Some ml'"
        using other s' by auto
      ultimately show "formatting e rng t0 L (Suc k) (eraseMapping l s')" using s' by (simp add: formatting_def)
    qed
    then show ?thesis using True by (auto simp: formatEntry_def lm intro: okE_bindI)
  qed
qed

lemma formatLoop_ok:
  assumes sv: "serves e L s"
  shows "okE (\<lambda>(list, s'). serves e {(l, i) \<in> L. \<not> inRange rng l} s') (foldE (formatEntry e rng) (ftl_table s) ([], s))"
proof -
  have inv: "ftl_inv e {} s" and L: "live e s = L" using sv by (auto simp: serves_def)
  have d: "distinct (map fst (ftl_table s))" by (rule ftl_invD(3) [OF inv])
  have "okE (\<lambda>x. formatting e rng (ftl_table s) L (length (ftl_table s)) (snd x))
      (foldE (formatEntry e rng) (ftl_table s) ([], s))"
  proof (rule foldE_okE_idx)
    show "formatting e rng (ftl_table s) L 0 (snd ([], s))"
      using inv L findMapping_iff [OF d] by (auto simp: formatting_def)
    fix i and x :: "nat list \<times> PageMapping"
    assume i: "i < length (ftl_table s)" and "formatting e rng (ftl_table s) L i (snd x)"
    then show "okE (\<lambda>x. formatting e rng (ftl_table s) L (Suc i) (snd x)) (formatEntry e rng (ftl_table s ! i) x)"
      using formatEntry_ok [OF _ i d, of e rng L "snd x" "fst x"] by (simp add: case_prod_unfold)
  qed
  moreover have "l \<in> fst ` set (ftl_table s)" if li: "(l, i) \<in> L" for l i
  proof -
    obtain ml where "findMapping s l = Some ml" using li L by (auto simp: live_def maps_Some)
    then show ?thesis by (metis findMapping_iff [OF d] fst_conv imageI)
  qed
  ultimately show ?thesis
    by (auto simp: formatting_def serves_def elim!: okE_mono)
qed

lemma ftlFormat_ok:
  assumes env: "env_ok e" and sv: "serves e L s"
  shows "okE (\<lambda>(t', s'). serves e {(l, i) \<in> L. \<not> inRange rng l} s') (ftlFormat e rng t s)"
  unfolding ftlFormat_def Let_def
proof (rule okE_bindI [OF formatLoop_ok [OF sv, of rng]], clarify, rule okE_latency)
  fix collected :: "nat list" and s1
  assume s1: "serves e {(l, i) \<in> L. \<not> inRange rng l} s1"
  then have inv: "ftl_inv e {} s1" by (simp add: serves_def)
  show "okE (\<lambda>(t', s'). serves e {(l, i) \<in> L. \<not> inRange rng l} s')
      (if wrap32 (hotColdSeperation (conf e)) = 0 then doGarbageCollection e (remdups (sort collected)) t False s1
       else sepDoGarbageCollection e (remdups (sort collected)) t False COLD s1)"
    using doGarbageCollection_ok [OF env inv] sepDoGarbageCollection_ok [OF env inv] s1
    by (auto simp: serves_def elim!: okE_mono)
qed

end
