(* ===== verification/FtlRefresh.thy ===== *)
theory FtlRefresh
  imports FtlIo
begin

text \<open>
  The refresh of one queue of layers (\<open>refreshPage\<close>, \<open>refresh_event\<close>): the valid pages of a layer
  whose error rate is about to exceed the limit are copied to an open block.
\<close>

subsection \<open>Definitions\<close>

definition gcForRefresh :: "env \<Rightarrow> tick \<Rightarrow> PageMapping \<Rightarrow> PageMapping res" where
  "gcForRefresh e t s =
     (if wrap32 (hotColdSeperation (conf e)) = 0 then gcIfNeeded e True True t s
      else coldGcIfNeeded e [] True True t s)"

definition refreshUnit :: "env \<Rightarrow> tick \<Rightarrow> nat \<Rightarrow> nat \<Rightarrow> u64 list \<Rightarrow> Bitset \<Rightarrow> nat \<Rightarrow> nat \<Rightarrow> copy_state \<Rightarrow> copy_state res" where
  "refreshUnit e beginAt b p lpns bitm newB idx c =
     (if bs_test bitm idx
      then bindE (remapUnit e ''Invalid mapping table entry, refresh failed'' True beginAt b p lpns newB idx c)
             (\<lambda>c1. Inr (c1\<lparr>cp_ftl :=
                bumpStat (\<lambda>st. st\<lparr>refreshPageCopies := refreshPageCopies st + 1\<rparr>) (cp_ftl c1)\<rparr>))
      else Inr c)"

definition openForRefresh :: "env \<Rightarrow> blockPoolType \<Rightarrow> Bitset \<Rightarrow> PageMapping \<Rightarrow> (nat \<times> PageMapping) res" where
  "openForRefresh e ty bitm s =
     (if wrap32 (hotColdSeperation (conf e)) = 0 then getLastFreeBlock e bitm s
      else if ty = COLD then getLastColdFreeBlock e bitm s
      else getLastCoolFreeBlock e bitm s)"

definition refreshOnePage :: "env \<Rightarrow> tick \<Rightarrow> blockPoolType \<Rightarrow> nat \<Rightarrow> nat \<Rightarrow> copy_state \<Rightarrow> copy_state res" where
  "refreshOnePage e beginAt ty b p c =
     (case findBlock (cp_ftl c) b of
        None \<Rightarrow> Inl (UB ''dereference of blocks.end()'')
      | Some B \<Rightarrow>
     bindE (getPageInfo B p (Bitset_new (ioUnitInPage (param e)))) (\<lambda>(valid, lpns, bit0).
     if valid
     then let bitm = (if bRandomTweak e then bit0 else bs_set_all bit0)
          in bindE (openForRefresh e ty bitm (cp_ftl c)) (\<lambda>(newB, s1).
             bindE (foldE (refreshUnit e beginAt b p lpns bitm newB) [0..<bitsetSize e]
                      (c\<lparr>cp_ftl := s1, cp_reads := cp_reads c @ [palReq b p bitm]\<rparr>)) (\<lambda>c1.
             Inr (c1\<lparr>cp_ftl := bumpStat (\<lambda>st. st\<lparr>refreshSuperPageCopies := refreshSuperPageCopies st + 1\<rparr>)
                                 (cp_ftl c1)\<rparr>)))
     else Inr c))"

text \<open>The pages of a layer: \<open>layerIndex\<close>, \<open>layerIndex + 64\<close>, \<open>layerIndex + 128\<close> and so on.\<close>

definition pagesOfLayer :: "env \<Rightarrow> nat \<Rightarrow> nat list" where
  "pagesOfLayer e layerIndex = filter (\<lambda>p. p mod 64 = layerIndex) [0..<pagesInBlock (param e)]"

definition refreshLayer :: "env \<Rightarrow> tick \<Rightarrow> nat \<Rightarrow> nat \<Rightarrow> copy_state \<Rightarrow> copy_state res" where
  "refreshLayer e beginAt queueNum layerID c =
     (let s = cp_ftl c
      in guardE (layerID < length (layerQueueNum s)) (UB ''layerQueueNum out of bounds'')
        (if queueNum \<noteq> layerQueueNum s ! layerID
         then Inr (c\<lparr>cp_ftl := bumpStat (\<lambda>st. st\<lparr>doubleInsertionCount := doubleInsertionCount st + 1\<rparr>) s\<rparr>)
         else bindE (testLayer layerID s) (\<lambda>inserted.
              guardE inserted (Panic ''Corrupted layer check bitmap, refresh failed'')
              (bindE (setLayer layerID False s) (\<lambda>s1.
               case findBlock s1 (layerID div 64) of
                 None \<Rightarrow> Inr (c\<lparr>cp_ftl := s1\<rparr>)
               | Some B \<Rightarrow>
                   foldE (refreshOnePage e beginAt (blk_blockType B) (layerID div 64))
                     (pagesOfLayer e (layerID mod 64)) (c\<lparr>cp_ftl := s1\<rparr>))))))"

text \<open>At most n layers are taken from the front of the checked queue.\<close>

fun refreshLoop :: "env \<Rightarrow> tick \<Rightarrow> nat \<Rightarrow> nat \<Rightarrow> copy_state \<Rightarrow> copy_state res" where
  "refreshLoop e beginAt queueNum 0 c = Inr c"
| "refreshLoop e beginAt queueNum (Suc n) c =
     guardE (queueNum < length (checkedQueues (cp_ftl c))) (UB ''checkedQueues out of bounds'')
       (case checkedQueues (cp_ftl c) ! queueNum of
          [] \<Rightarrow> Inr c
        | layerID # rest \<Rightarrow>
            bindE (refreshLayer e beginAt queueNum layerID
                     (c\<lparr>cp_ftl := (cp_ftl c)\<lparr>checkedQueues := (checkedQueues (cp_ftl c))[queueNum := rest]\<rparr>\<rparr>))
              (refreshLoop e beginAt queueNum n))"

definition refreshPage :: "env \<Rightarrow> nat \<Rightarrow> tick \<Rightarrow> PageMapping \<Rightarrow> (tick \<times> PageMapping) res" where
  "refreshPage e queueNum t0 s0 =
     bindE (gcForRefresh e t0 s0) (\<lambda>s1.
     bindE (refreshLoop e t0 queueNum (wrap32 (refreshMaxLayerNum (conf e)))
              \<lparr>cp_ftl = s1, cp_reads = [], cp_writes = [], cp_tick = t0\<rparr>) (\<lambda>c.
     let (readFinishedAt, s2) = palLoop (palRead e) (cp_reads c) (cp_tick c) t0 (cp_ftl c);
         (writeFinishedAt, s3) = palLoop (palWrite e) (cp_writes c) readFinishedAt t0 s2;
         (t, s4) = addLatency e CpuDO_GARBAGE_COLLECTION (max writeFinishedAt readFinishedAt) s3
     in bindE (gcForRefresh e t s4) (\<lambda>s5. Inr (t, s5))))"

definition refresh_event :: "env \<Rightarrow> tick \<Rightarrow> PageMapping \<Rightarrow> PageMapping res" where
  "refresh_event e t s =
     guardE (refreshQueues s \<noteq> []) (UB ''remainder by zero'')
       (let target_queue = (refreshcallCount s + 1) mod 2 ^ 64 mod length (refreshQueues s)
        in guardE (target_queue < length (checkedQueues s)) (UB ''checkedQueues out of bounds'')
             (bindE (refreshPage e target_queue t
                (s\<lparr>checkedQueues := (checkedQueues s)[target_queue := refreshQueues s ! target_queue],
                   refreshQueues := (refreshQueues s)[target_queue := checkedQueues s ! target_queue]\<rparr>))
              (\<lambda>(t1, s1). Inr (bumpStat (\<lambda>st. st\<lparr>refreshCallCount := refreshCallCount st + 1\<rparr>) s1))))"

subsection \<open>Refreshing moves copies and loses nothing\<close>

lemma openForRefresh_ok:
  "env_ok e \<Longrightarrow> ftl_inv e X s \<Longrightarrow> okE (alloc_post e X s) (openForRefresh e ty m s)"
  by (simp add: openForRefresh_def free_open.open_ok cold_open.open_ok cool_open.open_ok)

interpretation refresh_open: open_block_source "\<lambda>e. openForRefresh e ty" for ty
  by unfold_locales (rule openForRefresh_ok)

lemma refreshUnit_copyUnit:
  "refreshUnit e bt b p lpns bitm newB = copyUnit e ''Invalid mapping table entry, refresh failed'' True bt
     (\<lambda>st. st\<lparr>refreshPageCopies := refreshPageCopies st + 1\<rparr>) b p lpns bitm newB"
  by (intro ext) (simp only: refreshUnit_def copyUnit_def)

lemma refreshOnePage_copyPage:
  "refreshOnePage e bt ty b = copyPage e (\<lambda>e. openForRefresh e ty) ''Invalid mapping table entry, refresh failed'' True bt
     (\<lambda>st. st\<lparr>refreshPageCopies := refreshPageCopies st + 1\<rparr>)
     (\<lambda>st. st\<lparr>refreshSuperPageCopies := refreshSuperPageCopies st + 1\<rparr>) b"
  by (intro ext) (simp only: refreshOnePage_def copyPage_def refreshUnit_copyUnit)

lemma refreshLayer_ok:
  assumes env: "env_ok e" and inv: "ftl_inv e X (cp_ftl c)"
  shows "okE (\<lambda>c'. copied e X (cp_ftl c) (cp_ftl c')) (refreshLayer e bt q layer c)"
proof -
  have pages: "okE (\<lambda>c'. copied e X (cp_ftl c) (cp_ftl c'))
      (foldE (refreshOnePage e bt ty b) (pagesOfLayer e i) (c\<lparr>cp_ftl := s1\<rparr>))"
    if c1: "core s1 = core (cp_ftl c)" for ty b i s1
  proof -
    have cp: "copied e X (cp_ftl c) s1" by (rule copied_core [OF inv c1])
    have "okE (\<lambda>c'. copied e X s1 (cp_ftl c'))
        (foldE (refreshOnePage e bt ty b) (pagesOfLayer e i) (c\<lparr>cp_ftl := s1\<rparr>))"
      unfolding refreshOnePage_copyPage
      by (rule okE_mono [OF refresh_open.copyPages_ok [OF env]])
        (use copied_inv [OF cp] in \<open>auto simp: pagesOfLayer_def\<close>)
    then show ?thesis by (rule okE_mono) (rule copied_trans [OF cp])
  qed
  have sl: "okE (\<lambda>s1. core s1 = core (cp_ftl c)) (setLayer layer False (cp_ftl c))"
    using okE_mono [OF queue_prims_frame(4) only_queues_core] .
  show ?thesis
    unfolding refreshLayer_def Let_def
    using copied_core [OF inv] pages
    by (auto intro!: okE_bind_any okE_bindI [OF sl] split: option.split)
qed

lemma refreshLoop_ok:
  assumes env: "env_ok e"
  shows "ftl_inv e X (cp_ftl c) \<Longrightarrow> okE (\<lambda>c'. copied e X (cp_ftl c) (cp_ftl c')) (refreshLoop e bt q n c)"
proof (induction n arbitrary: c)
  case 0
  then show ?case using copied_core [OF 0 refl] by simp
next
  case (Suc n)
  show ?case
  proof (cases "checkedQueues (cp_ftl c) ! q")
    case Nil
    then show ?thesis using copied_core [OF Suc.prems refl] by simp
  next
    case (Cons layer rest)
    let ?s = "(cp_ftl c)\<lparr>checkedQueues := (checkedQueues (cp_ftl c))[q := rest]\<rparr>"
    let ?c = "c\<lparr>cp_ftl := ?s\<rparr>"
    have cp: "copied e X (cp_ftl c) ?s" by (rule copied_core [OF Suc.prems]) (simp add: core_def)
    have inv: "ftl_inv e X (cp_ftl ?c)" using copied_inv [OF cp] by simp
    have "okE (\<lambda>c'. copied e X (cp_ftl c) (cp_ftl c')) (bindE (refreshLayer e bt q layer ?c) (refreshLoop e bt q n))"
    proof (rule okE_bindI [OF refreshLayer_ok [OF env inv]])
      fix c1 :: copy_state
      assume "copied e X (cp_ftl ?c) (cp_ftl c1)"
      then have c1: "copied e X (cp_ftl c) (cp_ftl c1)" using copied_trans [OF cp] by simp
      show "okE (\<lambda>c'. copied e X (cp_ftl c) (cp_ftl c')) (refreshLoop e bt q n c1)"
        using Suc.IH [OF copied_inv [OF c1]] by (rule okE_mono) (rule copied_trans [OF c1])
    qed
    then show ?thesis by (simp add: Cons)
  qed
qed

lemma gcForRefresh_ok:
  assumes "env_ok e" and "serves e L s"
  shows "okE (serves e L) (gcForRefresh e t s)"
  using gcIfNeeded_ok [OF assms] coldGcIfNeeded_ok [OF assms] by (simp add: gcForRefresh_def)

lemma refreshPage_ok:
  assumes env: "env_ok e" and sv: "serves e L s"
  shows "okE (\<lambda>(t', s'). serves e L s') (refreshPage e q t0 s)"
  unfolding refreshPage_def
proof (rule okE_bindI [OF gcForRefresh_ok [OF env sv]])
  fix s1
  assume s1: "serves e L s1"
  let ?c = "\<lparr>cp_ftl = s1, cp_reads = [], cp_writes = [], cp_tick = t0\<rparr>"
  have inv1: "ftl_inv e {} (cp_ftl ?c)" using s1 by (simp add: serves_def)
  show "okE (\<lambda>(t', s'). serves e L s') (bindE (refreshLoop e t0 q (wrap32 (refreshMaxLayerNum (conf e))) ?c) (\<lambda>c.
     let (readFinishedAt, s2) = palLoop (palRead e) (cp_reads c) (cp_tick c) t0 (cp_ftl c);
         (writeFinishedAt, s3) = palLoop (palWrite e) (cp_writes c) readFinishedAt t0 s2;
         (t, s4) = addLatency e CpuDO_GARBAGE_COLLECTION (max writeFinishedAt readFinishedAt) s3
     in bindE (gcForRefresh e t s4) (\<lambda>s5. Inr (t, s5))))"
  proof (rule okE_bindI [OF refreshLoop_ok [OF env inv1]])
    fix c :: copy_state
    assume "copied e {} (cp_ftl ?c) (cp_ftl c)"
    then have sc: "serves e L (cp_ftl c)" using s1 by (simp add: copied_def serves_def)
    obtain r1 s2 where p1: "palLoop (palRead e) (cp_reads c) (cp_tick c) t0 (cp_ftl c) = (r1, s2)" by fastforce
    obtain w2 s3 where p2: "palLoop (palWrite e) (cp_writes c) r1 t0 s2 = (w2, s3)" by fastforce
    obtain t s4 where p3: "addLatency e CpuDO_GARBAGE_COLLECTION (max w2 r1) s3 = (t, s4)" by fastforce
    have "core s4 = core (cp_ftl c)"
      using core_palLoop(1) [of e "cp_reads c" "cp_tick c" t0 "cp_ftl c"] core_palLoop(2) [of e "cp_writes c" r1 t0 s2]
        core_ext(6) [of e CpuDO_GARBAGE_COLLECTION "max w2 r1" s3] p1 p2 p3 by simp
    then have s4: "serves e L s4" by (rule serves_core [OF sc])
    show "okE (\<lambda>(t', s'). serves e L s')
     (let (readFinishedAt, s2) = palLoop (palRead e) (cp_reads c) (cp_tick c) t0 (cp_ftl c);
         (writeFinishedAt, s3) = palLoop (palWrite e) (cp_writes c) readFinishedAt t0 s2;
         (t, s4) = addLatency e CpuDO_GARBAGE_COLLECTION (max writeFinishedAt readFinishedAt) s3
     in bindE (gcForRefresh e t s4) (\<lambda>s5. Inr (t, s5)))"
      using okE_bindI [OF gcForRefresh_ok [OF env s4], of "\<lambda>(t', s'). serves e L s'" "\<lambda>s5. Inr (t, s5)"]
      by (simp add: p1 p2 p3)
  qed
qed

lemma refresh_event_ok:
  assumes env: "env_ok e" and sv: "serves e L s"
  shows "okE (serves e L) (refresh_event e t s)"
proof -
  have "okE (serves e L) (bindE (refreshPage e q t s1) (\<lambda>(t1, s2). Inr (bumpStat g s2)))"
    if "core s1 = core s" for s1 q g
    using serves_core [OF sv that]
    by (intro okE_bindI [OF refreshPage_ok [OF env]]) (auto intro: serves_core [OF _ core_ext(8)])
  then show ?thesis by (simp add: refresh_event_def Let_def core_def)
qed

end
