(* ===== verification/FtlInit.thy ===== *)
theory FtlInit
  imports FtlTrim FtlRefresh
begin

text \<open>
  The constructor of \<open>PageMapping\<close>, the initial filling (\<open>initialize\<close>), the status and wear
  statistics, and the layer \<open>FTL\<close> (\<open>src/simplessd/ftl/ftl.cc\<close>) that derives the geometry from
  the flash parameters and forwards requests.
\<close>

subsection \<open>Constructor\<close>

text \<open>
  Members the source leaves uninitialised when hot/cold separation is off are 0 here; nothing
  reads them then.
\<close>

definition emptyMapping :: "env \<Rightarrow> tick \<Rightarrow> PageMapping" where
  "emptyMapping e now =
     \<lparr>ftl_table = [], ftl_blocks = [], freeBlocks = [], nFreeBlocks = 0,
      lastFreeBlock = replicate (pageCountToMaxPerf (param e)) 0,
      lastFreeBlockIOMap = Bitset_new (ioUnitInPage (param e)), lastFreeBlockIndex = 0,
      layerQueueNum = [], bReclaimMore = False, ftl_stat = zero_stat,
      insertedLayerCheck = Bitset_new 0, refreshQueues = [], checkedQueues = [],
      hotFreeBlocks = [], coldFreeBlocks = [], nHotFreeBlocks = 0, nColdFreeBlocks = 0,
      nCooldownBlocks = 0, hotBlocksLimit = 0, coldBlocksLimit = 0, hotWindow = [],
      coolDownWindow = [],
      lastHotFreeBlock = replicate (pageCountToMaxPerf (param e)) 0,
      lastColdFreeBlock = replicate (pageCountToMaxPerf (param e)) 0,
      lastCoolFreeBlock = replicate (pageCountToMaxPerf (param e)) 0,
      lastHotFreeBlockIOMap = Bitset_new (ioUnitInPage (param e)),
      lastColdFreeBlockIOMap = Bitset_new (ioUnitInPage (param e)),
      lastCoolFreeBlockIOMap = Bitset_new (ioUnitInPage (param e)),
      lastHotFreeBlockIndex = 0, lastColdFreeBlockIndex = 0, lastCoolFreeBlockIndex = 0,
      simTick = now, trace = []\<rparr>"

definition newBlocks :: "env \<Rightarrow> blockPoolType \<Rightarrow> nat list \<Rightarrow> Block list res" where
  "newBlocks e ty bs =
     foldE (\<lambda>i acc. bindE (Block_new_typed i (pagesInBlock (param e)) (ioUnitInPage (param e))
                              (initEraseCount (conf e)) ty) (\<lambda>B. Inr (acc @ [B]))) bs []"

definition coldRatio :: "env \<Rightarrow> f32" where
  "coldRatio e = f32_sub (F32 1) (hotBlocksRatio (conf e))"

definition fillPools :: "env \<Rightarrow> PageMapping \<Rightarrow> PageMapping res" where
  "fillPools e s =
     (if wrap32 (hotColdSeperation (conf e)) = 0
      then guardE (totalPhysicalBlocks (param e) < 2 ^ 32) Diverge
        (bindE (foldE (\<lambda>i acc. bindE (Block_new_PE i (pagesInBlock (param e)) (ioUnitInPage (param e))
                                        (initEraseCount (conf e))) (\<lambda>B. Inr (acc @ [B])))
                  [0..<totalPhysicalBlocks (param e)] []) (\<lambda>bs.
         Inr (s\<lparr>freeBlocks := bs, nFreeBlocks := totalPhysicalBlocks (param e)\<rparr>)))
      else let nFree = wrap32 (totalPhysicalBlocks (param e))
           in bindE (f32_to_uint 32 (f32_mul (f32_of_nat nFree) (hotBlocksRatio (conf e)))) (\<lambda>hot.
              let cold = sub32 nFree hot
              in bindE (newBlocks e HOT [0..<hot]) (\<lambda>hs.
                 bindE (newBlocks e COLD [hot..<wrap32 (hot + cold)]) (\<lambda>cs.
                 Inr (s\<lparr>nFreeBlocks := nFree, hotBlocksLimit := hot, coldBlocksLimit := cold,
                        nHotFreeBlocks := hot, nColdFreeBlocks := cold,
                        nCooldownBlocks := wrap32 (coolDownWindowSize (conf e)),
                        hotFreeBlocks := hs, coldFreeBlocks := cs\<rparr>)))))"

definition openBlocks :: "env \<Rightarrow> nat \<Rightarrow> PageMapping \<Rightarrow> PageMapping res" where
  "openBlocks e i s =
     (if wrap32 (hotColdSeperation (conf e)) = 0
      then bindE (getFreeBlock e i s) (\<lambda>(b, s1).
             Inr (s1\<lparr>lastFreeBlock := (lastFreeBlock s1)[i := b]\<rparr>))
      else bindE (getHotFreeBlock e i s) (\<lambda>(h, s1).
           let s1' = s1\<lparr>lastHotFreeBlock := (lastHotFreeBlock s1)[i := h]\<rparr>
           in bindE (getColdFreeBlock e i True s1') (\<lambda>(c, s2).
           let s2' = s2\<lparr>lastCoolFreeBlock := (lastCoolFreeBlock s2)[i := c]\<rparr>
           in bindE (getColdFreeBlock e i False s2') (\<lambda>(d, s3).
              Inr (s3\<lparr>lastColdFreeBlock := (lastColdFreeBlock s3)[i := d]\<rparr>)))))"

definition PageMapping_new :: "env \<Rightarrow> tick \<Rightarrow> PageMapping res" where
  "PageMapping_new e now =
     bindE (fillPools e (emptyMapping e now)) (\<lambda>s.
     bindE (foldE (openBlocks e) [0..<pageCountToMaxPerf (param e)] s) (\<lambda>s1.
       Inr (s1\<lparr>lastFreeBlockIndex := 0, lastHotFreeBlockIndex := 0, lastColdFreeBlockIndex := 0,
               lastCoolFreeBlockIndex := 0, ftl_stat := zero_stat\<rparr>)))"

subsection \<open>Initial filling\<close>

definition totalLogicalPages :: "env \<Rightarrow> nat" where
  "totalLogicalPages e = wrap64 (totalLogicalBlocks (param e) * pagesInBlock (param e))"

definition pagesToWarmup :: "env \<Rightarrow> nat res" where
  "pagesToWarmup e = f32_to_uint 64 (f32_mul (f32_of_nat (totalLogicalPages e)) (fillingRatio (conf e)))"

definition maxPagesBeforeGC :: "env \<Rightarrow> nat res" where
  "maxPagesBeforeGC e =
     f32_to_uint 64 (f32_mul (f32_of_nat (pagesInBlock (param e)))
       (f32_sub (f32_mul (f32_of_nat (totalPhysicalBlocks (param e)))
                         (f32_sub (F32 1) (gcThreshold (conf e))))
                (f32_of_nat (pageCountToMaxPerf (param e)))))"

text \<open>The adjustment is an unsigned subtraction and wraps when more pages are filled than fit.\<close>

definition adjustInvalid :: "nat \<Rightarrow> nat \<Rightarrow> nat \<Rightarrow> nat" where
  "adjustInvalid warm inval maxPages =
     (if wrap64 (warm + inval) > maxPages then sub64 maxPages warm else inval)"

definition pagesToInvalidate :: "env \<Rightarrow> nat \<Rightarrow> nat res" where
  "pagesToInvalidate e warm =
     bindE (f32_to_uint 64 (f32_mul (f32_of_nat (totalLogicalPages e)) (invalidRatio (conf e)))) (\<lambda>inval.
     bindE (maxPagesBeforeGC e) (\<lambda>maxPages. Inr (adjustInvalid warm inval maxPages)))"

definition setupRefresh :: "env \<Rightarrow> PageMapping \<Rightarrow> PageMapping" where
  "setupRefresh e s =
     (let n = DIVCEIL (totalPhysicalBlocks (param e) * pagesInBlock (param e)) 8
      in s\<lparr>refreshQueues := refreshQueues s @ replicate (num_queue e) [],
           checkedQueues := checkedQueues s @ replicate (num_queue e) [],
           insertedLayerCheck := bs_reset_all (Bitset_new (wrap32 n)),
           layerQueueNum := replicate n 0,
           ftl_stat := (ftl_stat s)\<lparr>refreshCallCount := 0\<rparr>\<rparr>)"

definition fillRequest :: "env \<Rightarrow> u64 \<Rightarrow> FtlRequest" where
  "fillRequest e lpn =
     (FtlRequest_new (ioUnitInPage (param e)))
       \<lparr>freq_lpn := lpn, freq_ioFlag := bs_set_all (Bitset_new (ioUnitInPage (param e)))\<rparr>"

type_synonym write_fn = "env \<Rightarrow> FtlRequest \<Rightarrow> tick \<Rightarrow> bool \<Rightarrow> PageMapping \<Rightarrow> (tick \<times> PageMapping) res"

definition fillPage :: "env \<Rightarrow> write_fn \<Rightarrow> u64 \<Rightarrow> PageMapping \<Rightarrow> PageMapping res" where
  "fillPage e wr lpn s = bindE (wr e (fillRequest e lpn) 0 False s) (\<lambda>(t, s1). Inr s1)"

definition fillSequential :: "env \<Rightarrow> write_fn \<Rightarrow> nat list \<Rightarrow> PageMapping \<Rightarrow> PageMapping res" where
  "fillSequential e wr is = foldE (\<lambda>i. fillPage e wr (of_nat i)) is"

text \<open>The i-th random page number of phase k is \<open>fillDraws e k i\<close>.\<close>

definition fillRandom :: "env \<Rightarrow> nat \<Rightarrow> nat \<Rightarrow> PageMapping \<Rightarrow> PageMapping res" where
  "fillRandom e k n = foldE (\<lambda>i. fillPage e writeInternal (fillDraws e k i)) [0..<n]"

definition fillStep1 :: "env \<Rightarrow> nat \<Rightarrow> PageMapping \<Rightarrow> PageMapping res" where
  "fillStep1 e warm s =
     (if fillingMode (conf e) = FILLING_MODE_2 then fillRandom e 1 warm s
      else if wrap32 (hotColdSeperation (conf e)) = 0
      then fillSequential e writeInternal [0..<warm] s
      else bindE (f32_to_uint 64 (f32_mul (f32_of_nat warm) (coldRatio e))) (\<lambda>coldWarmup.
           bindE (fillSequential e sepWriteInternal [0..<coldWarmup] s)
                 (fillSequential e sepHotWriteInternal [coldWarmup..<warm])))"

definition fillStep2 :: "env \<Rightarrow> nat \<Rightarrow> PageMapping \<Rightarrow> PageMapping res" where
  "fillStep2 e inval s =
     (if fillingMode (conf e) = FILLING_MODE_0 then fillSequential e writeInternal [0..<inval] s
      else fillRandom e 2 inval s)"

definition ftlInitialize :: "env \<Rightarrow> PageMapping \<Rightarrow> PageMapping res" where
  "ftlInitialize e s =
     bindE (pagesToWarmup e) (\<lambda>warm.
     bindE (pagesToInvalidate e warm) (\<lambda>inval.
     bindE (fillStep1 e warm (setupRefresh e s)) (fillStep2 e inval)))"

subsection \<open>Status and statistics\<close>

record Status =
  st_totalLogicalPages :: nat
  st_mappedLogicalPages :: nat
  st_freePhysicalBlocks :: nat

definition ftlStatus :: "env \<Rightarrow> nat \<Rightarrow> nat \<Rightarrow> PageMapping \<Rightarrow> Status" where
  "ftlStatus e lpnBegin lpnEnd s =
     \<lparr>st_totalLogicalPages = totalLogicalPages e,
      st_mappedLogicalPages =
        (if lpnBegin = 0 \<and> lpnEnd \<ge> totalLogicalPages e then length (ftl_table s)
         else length (filter (\<lambda>lpn. findMapping s (of_nat lpn) \<noteq> None) [lpnBegin..<lpnEnd])),
      st_freePhysicalBlocks = nFreeBlocks s\<rparr>"

definition calculateTotalPages :: "PageMapping \<Rightarrow> (nat \<times> nat) res" where
  "calculateTotalPages s =
     foldE (\<lambda>(b, B) (valid, invalid).
        bindE (getDirtyPageCount B) (\<lambda>d.
          Inr (wrap64 (valid + getValidPageCount B), wrap64 (invalid + d)))) (ftl_blocks s) (0, 0)"

definition eraseSums :: "Block list \<Rightarrow> u64 \<times> u64 \<Rightarrow> u64 \<times> u64" where
  "eraseSums = fold (\<lambda>B (tot, sq).
     let c = ucast (blk_eraseCount B) in (tot + c, sq + c * c))"

definition calculateWearLeveling :: "env \<Rightarrow> PageMapping \<Rightarrow> f32" where
  "calculateWearLeveling e s =
     (let (tot, sq) = eraseSums (takeWhile (\<lambda>B. blk_eraseCount B \<noteq> 0) (rev (freeBlocks s)))
                        (eraseSums (map snd (ftl_blocks s)) (0, 0))
      in if sq = 0 then F32 (- 1)
         else f32_div (f32_mul (f32_of_nat (unat tot)) (f32_of_nat (unat tot)))
                (f32_of_nat (unat (of_nat (totalLogicalBlocks (param e)) * sq))))"

definition calculateAverageError :: "PageMapping \<Rightarrow> f32" where
  "calculateAverageError s =
     (let (tot, cnt) = fold (\<lambda>B (tot, cnt). (tot + blk_maxErrorCount B, f32_add cnt (F32 1)))
                         (map snd (ftl_blocks s)) (0, F32 0)
      in f32_div (f32_of_nat (unat tot)) cnt)"

definition resetStatValues :: "PageMapping \<Rightarrow> PageMapping" where
  "resetStatValues s = s\<lparr>ftl_stat := zero_stat\<rparr>"

subsection \<open>The FTL layer\<close>

record PalParameter =
  pal_superBlock :: nat
  pal_block :: nat
  pal_page :: nat
  pal_superPageSize :: nat
  pal_pageInSuperPage :: nat

definition FTL_param :: "PalParameter \<Rightarrow> FtlConfig \<Rightarrow> Parameter res" where
  "FTL_param pp c =
     bindE (f32_to_uint 64 (f32_mul (f32_of_nat (pal_superBlock pp)) (f32_sub (F32 1) (overProvision c)))) (\<lambda>logical.
     guardE (pal_block pp \<noteq> 0) (UB ''division by zero'')
     (Inr \<lparr>totalPhysicalBlocks = pal_superBlock pp, totalLogicalBlocks = logical,
           pagesInBlock = pal_page pp, pageSize = wrap32 (pal_superPageSize pp),
           ioUnitInPage = wrap32 (pal_pageInSuperPage pp),
           pageCountToMaxPerf = wrap32 (pal_superBlock pp div pal_block pp)\<rparr>))"

definition FTL_new :: "env \<Rightarrow> PalParameter \<Rightarrow> tick \<Rightarrow> (env \<times> PageMapping) res" where
  "FTL_new e0 pp now =
     bindE (FTL_param pp (conf e0)) (\<lambda>p.
     let e = e0\<lparr>param := p\<rparr>
     in bindE (PageMapping_new e now) (\<lambda>s.
        guardE (\<not> totalPhysicalBlocks p \<le> wrap64 (totalLogicalBlocks p + pageCountToMaxPerf p))
          (Panic ''FTL Over-Provision Ratio is too small'')
          (bindE (ftlInitialize e s) (\<lambda>s1. Inr (e, s1)))))"

definition FTL_read :: "env \<Rightarrow> FtlRequest \<Rightarrow> tick \<Rightarrow> PageMapping \<Rightarrow> (tick \<times> PageMapping) res" where
  "FTL_read e req t s = bindE (ftlRead e req t s) (\<lambda>(t1, s1). Inr (addLatency e CpuFTL_READ t1 s1))"

definition FTL_write :: "env \<Rightarrow> FtlRequest \<Rightarrow> tick \<Rightarrow> PageMapping \<Rightarrow> (tick \<times> PageMapping) res" where
  "FTL_write e req t s = bindE (ftlWrite e req t s) (\<lambda>(t1, s1). Inr (addLatency e CpuFTL_WRITE t1 s1))"

definition FTL_trim :: "env \<Rightarrow> FtlRequest \<Rightarrow> tick \<Rightarrow> PageMapping \<Rightarrow> (tick \<times> PageMapping) res" where
  "FTL_trim e req t s = bindE (ftlTrim e req t s) (\<lambda>(t1, s1). Inr (addLatency e CpuFTL_TRIM t1 s1))"

definition FTL_format :: "env \<Rightarrow> LPNRange \<Rightarrow> tick \<Rightarrow> PageMapping \<Rightarrow> (tick \<times> PageMapping) res" where
  "FTL_format e rng t s = bindE (ftlFormat e rng t s) (\<lambda>(t1, s1). Inr (addLatency e CpuFTL_FORMAT t1 s1))"

definition FTL_getUsedPageCount :: "env \<Rightarrow> nat \<Rightarrow> nat \<Rightarrow> PageMapping \<Rightarrow> nat" where
  "FTL_getUsedPageCount e lpnBegin lpnEnd s = st_mappedLogicalPages (ftlStatus e lpnBegin lpnEnd s)"

subsection \<open>The constructor establishes the invariant\<close>

lemma newBlocks_ok:
  assumes "param_ok e" and "\<forall>i\<in>set bs. i < totalPhysicalBlocks (param e)"
  shows "totE (\<lambda>Bs. map blk_idx Bs = bs \<and> (\<forall>B\<in>set Bs. free_ok e B)) (newBlocks e ty bs)"
proof -
  let ?P = "\<lambda>k Bs. map blk_idx Bs = take k bs \<and> (\<forall>B\<in>set Bs. free_ok e B)"
  have "totE (?P (length bs)) (newBlocks e ty bs)"
    unfolding newBlocks_def
  proof (rule foldE_totE_idx)
    fix k Bs
    assume k: "k < length bs" and P: "?P k Bs"
    have io: "0 < pagesInBlock (param e)" "0 < ioUnitInPage (param e)" using assms(1) by (auto simp: param_ok_def)
    show "totE (?P (Suc k)) (bindE (Block_new_typed (bs ! k) (pagesInBlock (param e)) (ioUnitInPage (param e))
         (initEraseCount (conf e)) ty) (\<lambda>B. Inr (Bs @ [B])))"
    proof (rule totE_bindI [OF Block_new_typed_ok [OF io]], elim conjE)
      fix B
      assume "blk_wf B" "blk_empty B" and g: "blk_geom B = (bs ! k, pagesInBlock (param e), ioUnitInPage (param e))"
        and "pNextWritePageIndex B = replicate (ioUnitInPage (param e)) 0"
      then have "free_ok e B" and "blk_idx B = bs ! k"
        using assms(2) k by (auto simp: free_ok_def blk_ok_def blk_geom_def)
      then show "totE (?P (Suc k)) (Inr (Bs @ [B]))"
        using P k by (auto simp: take_Suc_conv_app_nth)
    qed
  qed simp
  then show ?thesis by simp
qed

text \<open>The configured split into a hot and a cold pool fits the device.\<close>

definition pools_fit :: "env \<Rightarrow> bool" where
  "pools_fit e \<longleftrightarrow> totalPhysicalBlocks (param e) < 2 ^ 32 \<and>
     (wrap32 (hotColdSeperation (conf e)) \<noteq> 0 \<longrightarrow>
        (case f32_to_uint 32 (f32_mul (f32_of_nat (totalPhysicalBlocks (param e))) (hotBlocksRatio (conf e))) of
           Inl _ \<Rightarrow> True | Inr hot \<Rightarrow> hot \<le> totalPhysicalBlocks (param e)))"

lemma fresh_pools_inv:
  assumes tb: "ftl_table s = []" and bl: "ftl_blocks s = []"
    and d: "distinct (map blk_idx (poolBlocks s))" and f: "\<forall>B\<in>set (poolBlocks s). free_ok e B"
  shows "serves e {} s"
proof -
  have fb: "findBlock s b = None" and fm: "findMapping s l = None" for b l
    using tb bl by (auto simp: findBlock_def findMapping_def)
  have "ftl_inv e {} s"
    using tb bl d f fb by (simp add: ftl_inv_def blocks_inv_def pools_inv_def map_inv_def)
  moreover have "live e s = {}" by (simp add: live_def maps_def fm)
  ultimately show ?thesis by (simp add: serves_def)
qed

lemma fillPools_ok:
  assumes pk: "param_ok e" and fit: "pools_fit e"
  shows "okE (serves e {}) (fillPools e (emptyMapping e now))"
proof (cases "wrap32 (hotColdSeperation (conf e)) = 0")
  case True
  have "totE (\<lambda>Bs. map blk_idx Bs = [0..<totalPhysicalBlocks (param e)] \<and> (\<forall>B\<in>set Bs. free_ok e B))
      (newBlocks e COLD [0..<totalPhysicalBlocks (param e)])"
    by (rule newBlocks_ok [OF pk]) simp
  then show ?thesis
    unfolding fillPools_def if_P [OF True] okE_guard Block_new_PE_typed newBlocks_def [symmetric]
    by (auto simp: totE_iff poolBlocks_def emptyMapping_def intro!: fresh_pools_inv)
next
  case False
  let ?n = "totalPhysicalBlocks (param e)"
  have n: "wrap32 ?n = ?n" using fit by (simp add: pools_fit_def)
  have "okE (serves e {}) (let cold = sub32 ?n hot
              in bindE (newBlocks e HOT [0..<hot]) (\<lambda>hs.
                 bindE (newBlocks e COLD [hot..<wrap32 (hot + cold)]) (\<lambda>cs.
                 Inr ((emptyMapping e now)\<lparr>nFreeBlocks := ?n, hotBlocksLimit := hot, coldBlocksLimit := cold,
                        nHotFreeBlocks := hot, nColdFreeBlocks := cold,
                        nCooldownBlocks := wrap32 (coolDownWindowSize (conf e)),
                        hotFreeBlocks := hs, coldFreeBlocks := cs\<rparr>))))"
    if h: "hot \<le> ?n" for hot
  proof -
    have c: "wrap32 (hot + sub32 ?n hot) = ?n" using h fit by (simp add: pools_fit_def sub32_ge)
    have "totE (\<lambda>Bs. map blk_idx Bs = [0..<hot] \<and> (\<forall>B\<in>set Bs. free_ok e B)) (newBlocks e HOT [0..<hot])"
      by (rule newBlocks_ok [OF pk]) (use h in auto)
    moreover have "totE (\<lambda>Bs. map blk_idx Bs = [hot..<?n] \<and> (\<forall>B\<in>set Bs. free_ok e B)) (newBlocks e COLD [hot..<?n])"
      by (rule newBlocks_ok [OF pk]) (use h in auto)
    ultimately show ?thesis
      using upt_add_eq_append [of 0 hot "?n - hot"] h unfolding Let_def c
      by (auto simp: totE_iff poolBlocks_def emptyMapping_def intro!: fresh_pools_inv)
  qed note main = this
  have "okE (\<lambda>hot. hot \<le> ?n) (f32_to_uint 32 (f32_mul (f32_of_nat ?n) (hotBlocksRatio (conf e))))"
    using fit False by (auto simp: pools_fit_def split: sum.splits)
  then show ?thesis
    unfolding fillPools_def if_not_P [OF False] n Let_def
    using main by (auto simp: Let_def intro: okE_bindI)
qed

lemma serves_core_iff: "core s' = core s \<Longrightarrow> serves e L s' = serves e L s"
  using core_cong(6,7) [of s' s] by (simp add: serves_def)

lemma serves_updates [simp]:
  "serves e L (s\<lparr>lastFreeBlock := x\<rparr>) = serves e L s" "serves e L (s\<lparr>lastHotFreeBlock := x\<rparr>) = serves e L s"
  "serves e L (s\<lparr>lastColdFreeBlock := x\<rparr>) = serves e L s" "serves e L (s\<lparr>lastCoolFreeBlock := x\<rparr>) = serves e L s"
  "serves e L (s\<lparr>lastFreeBlockIndex := i, lastHotFreeBlockIndex := j, lastColdFreeBlockIndex := k,
     lastCoolFreeBlockIndex := l, ftl_stat := st\<rparr>) = serves e L s"
  by (rule serves_core_iff, simp add: core_def)+

lemma openBlocks_ok:
  assumes env: "env_ok e" and sv: "serves e L s"
  shows "okE (serves e L) (openBlocks e i s)"
proof -
  have post: "okE (\<lambda>(b, s1). serves e L s1) m" if "serves e L s" "okE (alloc_post e {} s) m" for s and m :: "(nat \<times> PageMapping) res"
    using that(2) by (rule okE_mono) (auto simp: alloc_post_def intro: serves_keeps [OF that(1)])
  have step: "okE (serves e L) (bindE m (\<lambda>(b, s1). f b s1))"
    if "okE (\<lambda>(b, s1). serves e L s1) m" and "\<And>b s1. serves e L s1 \<Longrightarrow> okE (serves e L) (f b s1)"
    for m and f :: "nat \<Rightarrow> PageMapping \<Rightarrow> PageMapping res"
    by (rule okE_bindI [OF that(1)]) (use that(2) in auto)
  have inv: "ftl_inv e {} s" if "serves e L s" for s using that by (simp add: serves_def)
  have al: "okE (\<lambda>(b, s1). serves e L s1) (getFreeBlock e i s)" "okE (\<lambda>(b, s1). serves e L s1) (getHotFreeBlock e i s)"
    "okE (\<lambda>(b, s1). serves e L s1) (getColdFreeBlock e i q s)" if "serves e L s" for s q
    using post [OF that] free_alloc.alloc_ok [OF env inv [OF that]] hot_alloc.alloc_ok [OF env inv [OF that]]
      getColdFreeBlock_ok [OF env inv [OF that]] by blast+
  show ?thesis
    unfolding openBlocks_def Let_def using sv by (auto intro!: step al)
qed

lemma PageMapping_new_ok:
  assumes "env_ok e" and "param_ok e" and "pools_fit e"
  shows "okE (serves e {}) (PageMapping_new e now)"
  unfolding PageMapping_new_def
proof (rule okE_bindI [OF fillPools_ok [OF assms(2,3)]])
  fix s
  assume "serves e {} s"
  then have "okE (serves e {}) (foldE (openBlocks e) [0..<pageCountToMaxPerf (param e)] s)"
    by (intro foldE_okE openBlocks_ok [OF assms(1)])
  then show "okE (serves e {}) (bindE (foldE (openBlocks e) [0..<pageCountToMaxPerf (param e)] s) (\<lambda>s1.
       Inr (s1\<lparr>lastFreeBlockIndex := 0, lastHotFreeBlockIndex := 0, lastColdFreeBlockIndex := 0,
               lastCoolFreeBlockIndex := 0, ftl_stat := zero_stat\<rparr>)))"
    by (auto elim!: okE_bindI)
qed

subsection \<open>The initial filling\<close>

definition fullPages :: "env \<Rightarrow> u64 set \<Rightarrow> (u64 \<times> nat) set" where
  "fullPages e F = {(l, i). l \<in> F \<and> i < bitsetSize e}"

lemma fillRequest_units:
  assumes "param_ok e"
  shows "unitsOf e (fillRequest e lpn) = fullPages e {lpn}"
proof -
  have io: "0 < ioUnitInPage (param e)" using assms by (simp add: param_ok_def)
  have "bs_test (bs_set_all (Bitset_new (ioUnitInPage (param e)))) i" if "i < ioUnitInPage (param e)" for i
    by (rule bs_sized_test(3) [OF bs_sized_new [OF io] that])
  then show ?thesis
    by (auto simp: unitsOf_def fullPages_def addressed_def fillRequest_def FtlRequest_new_def bitsetSize_def
        split: if_splits)
qed

text \<open>A page is filled: the set of full pages grows by it.\<close>

definition filled :: "env \<Rightarrow> u64 set \<Rightarrow> PageMapping \<Rightarrow> bool" where
  "filled e F s \<longleftrightarrow> env_ok e \<and> param_ok e \<and> serves e (fullPages e F) s"

lemma fillPage_ok:
  assumes f: "filled e F s"
    and wr: "\<And>L req. serves e L s \<Longrightarrow> okE (\<lambda>(t', s'). serves e (L \<union> unitsOf e req) s') (wr e req 0 False s)"
  shows "okE (filled e (insert lpn F)) (fillPage e wr lpn s)"
proof -
  have e: "env_ok e" "param_ok e" and s: "serves e (fullPages e F) s" using f by (auto simp: filled_def)
  have "fullPages e F \<union> fullPages e {lpn} = fullPages e (insert lpn F)" by (auto simp: fullPages_def)
  then have "okE (\<lambda>(t', s'). serves e (fullPages e (insert lpn F)) s') (wr e (fillRequest e lpn) 0 False s)"
    using wr [OF s, of "fillRequest e lpn"] fillRequest_units [OF e(2), of lpn] by simp
  then show ?thesis
    unfolding fillPage_def by (rule okE_bindI) (auto simp: filled_def e)
qed

interpretation fill: service "fillPage e writeInternal" "filled e" insert for e
  by unfold_locales (rule fillPage_ok, assumption, rule writeInternal_ok, simp_all add: filled_def)

interpretation sep_fill: service "fillPage e sepWriteInternal" "filled e" insert for e
  by unfold_locales (rule fillPage_ok, assumption, rule sepWriteInternal_ok, simp_all add: filled_def)

interpretation hot_fill: service "fillPage e sepHotWriteInternal" "filled e" insert for e
  by unfold_locales (rule fillPage_ok, assumption, rule sepHotWriteInternal_ok, simp_all add: filled_def)

lemma fold_insert: "fold insert xs F = F \<union> set xs"
  by (induction xs arbitrary: F) auto

lemma fillSequential_ok:
  assumes "filled e F s"
  shows "okE (filled e (F \<union> of_nat ` set is)) (fillSequential e writeInternal is s)"
    and "okE (filled e (F \<union> of_nat ` set is)) (fillSequential e sepWriteInternal is s)"
    and "okE (filled e (F \<union> of_nat ` set is)) (fillSequential e sepHotWriteInternal is s)"
  unfolding fillSequential_def foldE_map
  using fill.run_refines [OF assms, of "map of_nat is"] sep_fill.run_refines [OF assms, of "map of_nat is"]
    hot_fill.run_refines [OF assms, of "map of_nat is"]
  by (simp_all add: fold_insert)

lemma fillRandom_ok:
  assumes "filled e F s"
  shows "okE (filled e (F \<union> fillDraws e k ` {..<n})) (fillRandom e k n s)"
  unfolding fillRandom_def foldE_map
  using fill.run_refines [OF assms, of "map (fillDraws e k) [0..<n]"]
  by (simp add: fold_insert atLeast0LessThan)

text \<open>The pages the two steps write.\<close>

definition warmPages :: "env \<Rightarrow> nat \<Rightarrow> u64 set" where
  "warmPages e warm =
     (if fillingMode (conf e) = FILLING_MODE_2 then fillDraws e 1 ` {..<warm}
      else if wrap32 (hotColdSeperation (conf e)) = 0 then of_nat ` {..<warm}
      else case f32_to_uint 64 (f32_mul (f32_of_nat warm) (coldRatio e)) of
             Inl _ \<Rightarrow> {} | Inr cold \<Rightarrow> of_nat ` {..<max cold warm})"

definition overwrittenPages :: "env \<Rightarrow> nat \<Rightarrow> u64 set" where
  "overwrittenPages e inval =
     (if fillingMode (conf e) = FILLING_MODE_0 then of_nat ` {..<inval} else fillDraws e 2 ` {..<inval})"

lemma fillStep1_ok:
  assumes "filled e F s"
  shows "okE (filled e (F \<union> warmPages e warm)) (fillStep1 e warm s)"
proof (cases "fillingMode (conf e) = FILLING_MODE_2 \<or> wrap32 (hotColdSeperation (conf e)) = 0")
  case True
  then show ?thesis
    using fillRandom_ok [OF assms, of 1 warm] fillSequential_ok(1) [OF assms, of "[0..<warm]"]
    by (auto simp: fillStep1_def warmPages_def atLeast0LessThan)
next
  case False
  have "okE (filled e (F \<union> of_nat ` {..<max cold warm})) (bindE (fillSequential e sepWriteInternal [0..<cold] s)
                 (fillSequential e sepHotWriteInternal [cold..<warm]))" for cold
  proof (rule okE_bindI [OF fillSequential_ok(2) [OF assms]])
    fix s1
    assume "filled e (F \<union> of_nat ` set [0..<cold]) s1"
    from fillSequential_ok(3) [OF this, of "[cold..<warm]"]
    have "okE (filled e (F \<union> of_nat ` {0..<cold} \<union> of_nat ` {cold..<warm}))
        (fillSequential e sepHotWriteInternal [cold..<warm] s1)" by simp
    moreover have "{..<max cold warm} = {0..<cold} \<union> {cold..<warm}" by auto
    ultimately show "okE (filled e (F \<union> of_nat ` {..<max cold warm})) (fillSequential e sepHotWriteInternal [cold..<warm] s1)"
      by (simp add: image_Un Un_assoc)
  qed
  then show ?thesis
    using False
    by (cases "f32_to_uint 64 (f32_mul (f32_of_nat warm) (coldRatio e))") (auto simp: fillStep1_def warmPages_def)
qed

lemma fillStep2_ok:
  assumes "filled e F s"
  shows "okE (filled e (F \<union> overwrittenPages e inval)) (fillStep2 e inval s)"
  using fillRandom_ok [OF assms, of 2 inval] fillSequential_ok(1) [OF assms, of "[0..<inval]"]
  by (auto simp: fillStep2_def overwrittenPages_def atLeast0LessThan)

lemma setupRefresh_core [simp]: "core (setupRefresh e s) = core s"
  by (simp add: setupRefresh_def core_def Let_def)

lemma ftlInitialize_ok:
  assumes "env_ok e" and "param_ok e" and "serves e {} s"
    and "pagesToWarmup e = Inr warm" and "pagesToInvalidate e warm = Inr inval"
  shows "okE (serves e (fullPages e (warmPages e warm \<union> overwrittenPages e inval))) (ftlInitialize e s)"
proof -
  have "fullPages e {} = {}" by (simp add: fullPages_def)
  then have f: "filled e {} (setupRefresh e s)"
    using assms(1-3) serves_core [OF assms(3) setupRefresh_core] by (simp add: filled_def)
  have "okE (filled e ({} \<union> warmPages e warm \<union> overwrittenPages e inval))
      (bindE (fillStep1 e warm (setupRefresh e s)) (fillStep2 e inval))"
    by (rule okE_bindI [OF fillStep1_ok [OF f] fillStep2_ok])
  then show ?thesis using assms(4,5) by (auto simp: ftlInitialize_def filled_def elim: okE_mono)
qed

subsection \<open>The layer as a service\<close>

datatype ftl_cmd =
    CmdRead FtlRequest tick
  | CmdWrite FtlRequest tick
  | CmdTrim FtlRequest tick
  | CmdFormat LPNRange tick
  | CmdRefresh tick

definition ftl_exec :: "env \<Rightarrow> ftl_cmd \<Rightarrow> PageMapping \<Rightarrow> PageMapping res" where
  "ftl_exec e c s =
     (case c of
        CmdRead req t \<Rightarrow> bindE (FTL_read e req t s) (\<lambda>(t', s'). Inr s')
      | CmdWrite req t \<Rightarrow> bindE (FTL_write e req t s) (\<lambda>(t', s'). Inr s')
      | CmdTrim req t \<Rightarrow> bindE (FTL_trim e req t s) (\<lambda>(t', s'). Inr s')
      | CmdFormat rng t \<Rightarrow> bindE (FTL_format e rng t s) (\<lambda>(t', s'). Inr s')
      | CmdRefresh t \<Rightarrow> refresh_event e t s)"

definition ftl_spec :: "env \<Rightarrow> ftl_cmd \<Rightarrow> (u64 \<times> nat) set \<Rightarrow> (u64 \<times> nat) set" where
  "ftl_spec e c L =
     (case c of
        CmdRead req t \<Rightarrow> L
      | CmdWrite req t \<Rightarrow> (if bs_count (freq_ioFlag req) > 0 then L \<union> unitsOf e req else L)
      | CmdTrim req t \<Rightarrow> {(l, i) \<in> L. l \<noteq> freq_lpn req}
      | CmdFormat rng t \<Rightarrow> {(l, i) \<in> L. \<not> inRange rng l}
      | CmdRefresh t \<Rightarrow> L)"

lemma drop_tick: "okE (\<lambda>(t, s). P s) m \<Longrightarrow> okE P (bindE m (\<lambda>(t', s'). Inr s'))"
  by (erule okE_bindI) auto

lemma ftl_exec_ok:
  assumes "env_ok e" and "serves e L s"
  shows "okE (serves e (ftl_spec e c L)) (ftl_exec e c s)"
  unfolding ftl_exec_def ftl_spec_def FTL_read_def FTL_write_def FTL_trim_def FTL_format_def
  by (cases c) (auto intro!: drop_tick okE_latency ftlRead_ok ftlTrim_ok ftlFormat_ok refresh_event_ok assms
      ftlWrite_ok [OF assms, THEN okE_mono])

lemma env_ok_param [simp]: "env_ok (e\<lparr>param := p\<rparr>) = env_ok e"
  by (simp add: env_ok_def)

text \<open>A device that starts serves the pages of the initial filling.\<close>

lemma FTL_new_ok:
  assumes new: "FTL_new e0 pp now = Inr (e, s)" and env: "env_ok e0" and pk: "param_ok e" and fit: "pools_fit e"
  shows "env_ok e" and "\<exists>warm inval. pagesToWarmup e = Inr warm \<and> pagesToInvalidate e warm = Inr inval \<and>
      serves e (fullPages e (warmPages e warm \<union> overwrittenPages e inval)) s"
proof -
  obtain s0 where e: "env_ok e" and s0: "PageMapping_new e now = Inr s0" and i: "ftlInitialize e s0 = Inr s"
    using new env by (auto simp: FTL_new_def Let_def)
  show "env_ok e" by (rule e)
  have sv: "serves e {} s0" using PageMapping_new_ok [OF e pk fit, of now] s0 by simp
  obtain warm inval where w: "pagesToWarmup e = Inr warm" and v: "pagesToInvalidate e warm = Inr inval"
    using i by (auto simp: ftlInitialize_def)
  show "\<exists>warm inval. pagesToWarmup e = Inr warm \<and> pagesToInvalidate e warm = Inr inval \<and>
      serves e (fullPages e (warmPages e warm \<union> overwrittenPages e inval)) s"
    using ftlInitialize_ok [OF e pk sv w v] i w v by auto
qed

interpretation ftl_service: service "ftl_exec e" "\<lambda>L s. env_ok e \<and> serves e L s" "ftl_spec e" for e
  by unfold_locales (use ftl_exec_ok in \<open>fastforce simp: okE_iff\<close>)

end
