(* ===== verification/FtlProgress.thy ===== *)
theory FtlProgress
  imports FtlInit
begin

text \<open>
  Total correctness, without hot/cold separation. A write that triggers no garbage collection
  succeeds: as long as a free block is left, the open blocks are in use and the refresh tables
  have an entry for every layer, no panic, no exception and no undefined behaviour is reached.
  Reads always succeed; a trim succeeds exactly when every unit of the page is mapped; the
  constructor succeeds and leaves a state in which writes do.
\<close>

subsection \<open>Definitions\<close>

text \<open>The bookkeeping that a write relies on, besides the mapping invariant.\<close>

definition openView :: "PageMapping \<Rightarrow> nat list \<times> nat \<times> Bitset \<times> nat \<times> Block list" where
  "openView s = (lastFreeBlock s, lastFreeBlockIndex s, lastFreeBlockIOMap s, nFreeBlocks s, freeBlocks s)"

definition same_use :: "PageMapping \<Rightarrow> PageMapping \<Rightarrow> bool" where
  "same_use s s' \<longleftrightarrow> (\<forall>b. findBlock s' b = None \<longleftrightarrow> findBlock s b = None)"

definition refresh_ready :: "env \<Rightarrow> PageMapping \<Rightarrow> bool" where
  "refresh_ready e s \<longleftrightarrow> queues_ok e s \<and> totalPhysicalBlocks (param e) * 64 \<le> length (layerQueueNum s) \<and>
     totalPhysicalBlocks (param e) * 64 \<le> 2 ^ 32 \<and>
     (wrap32 (refreshMode (conf e)) = 1 \<longrightarrow> wrap32 (refreshGroupingSize (conf e)) \<noteq> 0)"

definition open_ready :: "env \<Rightarrow> PageMapping \<Rightarrow> bool" where
  "open_ready e s \<longleftrightarrow> length (lastFreeBlock s) = pageCountToMaxPerf (param e) \<and>
     lastFreeBlockIndex s < pageCountToMaxPerf (param e) \<and>
     (\<forall>b\<in>set (lastFreeBlock s). findBlock s b \<noteq> None) \<and>
     nFreeBlocks s = length (freeBlocks s) \<and>
     bs_sized (ioUnitInPage (param e)) (lastFreeBlockIOMap s)"

definition ready :: "env \<Rightarrow> PageMapping \<Rightarrow> bool" where
  "ready e s \<longleftrightarrow> open_ready e s \<and> refresh_ready e s"

definition quiet :: "env \<Rightarrow> nat \<Rightarrow> bool" where
  "quiet e n \<longleftrightarrow> \<not> f32_less (f32_div (f32_of_nat n) (f32_of_nat (totalPhysicalBlocks (param e)))) (gcThreshold (conf e))"

text \<open>
  The pages that can still be written before another block is needed than those in the free list:
  the rest of the open blocks and the free blocks.
\<close>

definition blockRoom :: "env \<Rightarrow> PageMapping \<Rightarrow> nat \<Rightarrow> nat" where
  "blockRoom e s b = (case findBlock s b of None \<Rightarrow> 0 | Some B \<Rightarrow> pagesInBlock (param e) - getNextWritePageIndex B)"

definition capacity :: "env \<Rightarrow> PageMapping \<Rightarrow> nat" where
  "capacity e s = nFreeBlocks s * pagesInBlock (param e) + (\<Sum>b\<in>set (lastFreeBlock s). blockRoom e s b)"

text \<open>
  The state has room for k more page writes without garbage collection: however many blocks n are
  still free after them, n is positive and above the garbage collection threshold.
\<close>

definition headroom :: "env \<Rightarrow> nat \<Rightarrow> PageMapping \<Rightarrow> bool" where
  "headroom e k s \<longleftrightarrow> (\<forall>n\<le>nFreeBlocks s.
     capacity e s \<le> (n + pageCountToMaxPerf (param e)) * pagesInBlock (param e) + k \<longrightarrow> 0 < n \<and> quiet e n)"

text \<open>Steps that write no page, and the step that writes unit i in block b.\<close>

definition slots :: "Block \<Rightarrow> nat \<times> nat list" where
  "slots B = (blk_ioUnitInPage B, pNextWritePageIndex B)"

definition slots_same :: "PageMapping \<Rightarrow> PageMapping \<Rightarrow> bool" where
  "slots_same s s' \<longleftrightarrow> (\<forall>b. map_option slots (findBlock s' b) = map_option slots (findBlock s b))"

definition wrote :: "nat \<Rightarrow> nat set \<Rightarrow> PageMapping \<Rightarrow> PageMapping \<Rightarrow> bool" where
  "wrote b I s s' \<longleftrightarrow> (\<forall>x. x \<noteq> b \<longrightarrow> findBlock s' x = findBlock s x) \<and>
     lastFreeBlock s' = lastFreeBlock s \<and> nFreeBlocks s' = nFreeBlocks s \<and>
     (\<exists>N N'. findBlock s b = Some N \<and> findBlock s' b = Some N' \<and> blk_ioUnitInPage N' = blk_ioUnitInPage N \<and>
        (\<forall>j. pNextWritePageIndex N' ! j \<le> (if j \<in> I then Suc (pNextWritePageIndex N ! j) else pNextWritePageIndex N ! j)))"

subsection \<open>Frames\<close>

lemma open_ready_cong:
  "open_ready e s \<Longrightarrow> openView s' = openView s \<Longrightarrow> same_use s s' \<Longrightarrow> open_ready e s'"
  by (auto simp: open_ready_def openView_def same_use_def)

lemma refresh_ready_step: "refresh_ready e s \<Longrightarrow> queue_step e s s' \<Longrightarrow> refresh_ready e s'"
  by (simp add: refresh_ready_def queue_step_def)

lemma queues_ok_cong:
  "refreshQueues s' = refreshQueues s \<Longrightarrow> layerQueueNum s' = layerQueueNum s \<Longrightarrow>
   insertedLayerCheck s' = insertedLayerCheck s \<Longrightarrow> refresh_ready e s' = refresh_ready e s"
  by (simp add: refresh_ready_def queues_ok_def)

text \<open>Steps that touch neither the open blocks nor the refresh queues.\<close>

definition aside :: "PageMapping \<Rightarrow> PageMapping \<Rightarrow> bool" where
  "aside s s' \<longleftrightarrow> openView s' = openView s \<and> same_use s s' \<and> refreshQueues s' = refreshQueues s \<and>
     layerQueueNum s' = layerQueueNum s \<and> insertedLayerCheck s' = insertedLayerCheck s"

lemma aside_ready: "aside s s' \<Longrightarrow> ready e s \<Longrightarrow> ready e s'"
  using open_ready_cong [of e s s'] queues_ok_cong [of s' s e] by (auto simp: aside_def ready_def)

lemma aside_trans: "aside s s' \<Longrightarrow> aside s' s'' \<Longrightarrow> aside s s''"
  by (auto simp: aside_def same_use_def)

lemma aside_refl [simp]: "aside s s"
  by (simp add: aside_def same_use_def)

lemma aside_prims:
  "findBlock s b \<noteq> None \<Longrightarrow> aside s (setBlock b B s)"
  "aside s (setMapping l i m s)" "aside s (emplaceMapping e l ml s)"
  "aside s (snd (palRead e r t s))" "aside s (snd (palWrite e r t s))"
  "aside s (snd (dramRead e n t s))" "aside s (snd (dramWrite e n t s))" "aside s (snd (addLatency e f t s))"
  by (auto simp: aside_def same_use_def openView_def setBlock_def findBlock_def update_conv' setMapping_def
      emplaceMapping_def palRead_def palWrite_def dramRead_def dramWrite_def addLatency_def split: option.split)

lemma slots_next: "slots B' = slots B \<Longrightarrow> getNextWritePageIndex B' = getNextWritePageIndex B"
  by (simp add: slots_def getNextWritePageIndex_def cong: if_cong)

lemma slots_same_refl [simp]: "slots_same s s"
  by (simp add: slots_same_def)

lemma slots_same_trans: "slots_same s s' \<Longrightarrow> slots_same s' s'' \<Longrightarrow> slots_same s s''"
  by (simp add: slots_same_def)

lemma slots_same_core: "core s' = core s \<Longrightarrow> slots_same s s'"
  using core_cong(1) [of s' s] by (simp add: slots_same_def)

lemma slots_same_setBlock: "findBlock s b = Some B \<Longrightarrow> slots B' = slots B \<Longrightarrow> slots_same s (setBlock b B' s)"
  by (simp add: slots_same_def)

lemma capacity_cong:
  assumes "openView s' = openView s" and "slots_same s s'"
  shows "capacity e s' = capacity e s"
proof -
  have "blockRoom e s' b = blockRoom e s b" for b
    using assms(2) [unfolded slots_same_def, rule_format, of b] slots_next [of "the (findBlock s' b)" "the (findBlock s b)"]
    by (cases "findBlock s b"; cases "findBlock s' b") (simp_all add: blockRoom_def)
  then show ?thesis using assms(1) by (simp add: capacity_def openView_def)
qed

lemma next_bound:
  assumes "blk_ioUnitInPage N' = blk_ioUnitInPage N"
    and "\<And>j. pNextWritePageIndex N' ! j \<le> Suc (pNextWritePageIndex N ! j)"
  shows "getNextWritePageIndex N' \<le> Suc (getNextWritePageIndex N)"
proof (cases "getNextWritePageIndex N' = 0")
  case False
  then obtain j where j: "j < blk_ioUnitInPage N" and eq: "getNextWritePageIndex N' = pNextWritePageIndex N' ! j"
    using fold_max_in [of "\<lambda>i. pNextWritePageIndex N' ! i" "[0..<blk_ioUnitInPage N']" 0] assms(1)
    by (auto simp: getNextWritePageIndex_def)
  then show ?thesis using assms(2) [of j] getNextWritePageIndex_ge [OF j] by linarith
qed simp

text \<open>A write consumes at most one page.\<close>

lemma wrote_capacity:
  assumes "wrote b I s s'"
  shows "capacity e s \<le> Suc (capacity e s')"
proof -
  obtain N N' where N: "findBlock s b = Some N" "findBlock s' b = Some N'" "blk_ioUnitInPage N' = blk_ioUnitInPage N"
    and nx: "\<And>j. pNextWritePageIndex N' ! j \<le> (if j \<in> I then Suc (pNextWritePageIndex N ! j) else pNextWritePageIndex N ! j)"
    using assms by (auto simp: wrote_def)
  have "getNextWritePageIndex N' \<le> Suc (getNextWritePageIndex N)"
    by (rule next_bound [OF N(3) order_trans [OF nx]]) simp
  then have "blockRoom e s b \<le> Suc (blockRoom e s' b)" using N by (simp add: blockRoom_def)
  moreover have "blockRoom e s' x = blockRoom e s x" if "x \<noteq> b" for x
    using assms that by (simp add: wrote_def blockRoom_def)
  ultimately have le: "blockRoom e s x \<le> blockRoom e s' x + (if x = b then 1 else 0)" for x by simp
  have "(\<Sum>x\<in>set (lastFreeBlock s). blockRoom e s x)
      \<le> (\<Sum>x\<in>set (lastFreeBlock s). blockRoom e s' x + (if x = b then 1 else 0))"
    by (rule sum_mono) (rule le)
  also have "\<dots> \<le> Suc (\<Sum>x\<in>set (lastFreeBlock s). blockRoom e s' x)" by (simp add: sum.distrib sum.delta)
  finally show ?thesis using assms by (simp add: capacity_def wrote_def)
qed

lemma capacity_le:
  assumes "open_ready e s"
  shows "capacity e s \<le> (nFreeBlocks s + pageCountToMaxPerf (param e)) * pagesInBlock (param e)"
proof -
  have "(\<Sum>b\<in>set (lastFreeBlock s). blockRoom e s b) \<le> card (set (lastFreeBlock s)) * pagesInBlock (param e)"
    using sum_bounded_above [of "set (lastFreeBlock s)" "blockRoom e s" "pagesInBlock (param e)"]
    by (simp add: blockRoom_def split: option.splits)
  also have "card (set (lastFreeBlock s)) \<le> pageCountToMaxPerf (param e)"
    using assms card_length [of "lastFreeBlock s"] by (simp add: open_ready_def)
  finally show ?thesis by (simp add: capacity_def algebra_simps)
qed

lemma headroom_mono: "headroom e k s \<Longrightarrow> j \<le> k \<Longrightarrow> headroom e j s"
  unfolding headroom_def by (meson add_le_cancel_left order_trans)

lemma headroom_now:
  assumes "headroom e k s" and "open_ready e s"
  shows "0 < nFreeBlocks s" and "quiet e (nFreeBlocks s)"
  using assms(1) capacity_le [OF assms(2)] by (auto simp: headroom_def intro: trans_le_add1)

lemma headroom_step:
  assumes "headroom e (Suc k) s" and "nFreeBlocks s' \<le> nFreeBlocks s" and "capacity e s \<le> Suc (capacity e s')"
  shows "headroom e k s'"
proof -
  have "0 < n \<and> quiet e n" if n: "n \<le> nFreeBlocks s'"
    and c: "capacity e s' \<le> (n + pageCountToMaxPerf (param e)) * pagesInBlock (param e) + k" for n
  proof -
    have "capacity e s \<le> (n + pageCountToMaxPerf (param e)) * pagesInBlock (param e) + Suc k"
      using c assms(3) by linarith
    then show ?thesis using assms(1,2) n unfolding headroom_def by (meson order_trans)
  qed
  then show ?thesis by (simp add: headroom_def)
qed

subsection \<open>Opening the mapping\<close>

lemma invalidateUnit_total:
  assumes inv: "ftl_inv e (pending e req i) s" and i: "i < bitsetSize e"
    and ml: "findMapping s (freq_lpn req) = Some ml"
  shows "totE (\<lambda>(lastB', s'). aside s s' \<and> slots_same s s') (invalidateUnit e req ml i (lastB, s))"
proof (cases "addressed e req i \<and> isMapped e (ml ! i)")
  case False
  have "i < length ml" using ftl_invD(5) [OF inv ml] i by simp
  then show ?thesis using False by (auto simp: invalidateUnit_def addressed_def)
next
  case True
  let ?b = "fst (ml ! i)" and ?p = "snd (ml ! i)"
  have len: "i < length ml" using ftl_invD(5) [OF inv ml] i by simp
  have m: "maps s (freq_lpn req) i = Some (?b, ?p)" using ml len by (simp add: maps_def)
  have fresh: "(freq_lpn req, i) \<notin> pending e req i" by (simp add: pending_def)
  have "valid_at s ?b ?p i (freq_lpn req)" using ftl_invD(6) [OF inv m] True fresh by simp
  then obtain B where B: "findBlock s ?b = Some B" and pi: "?p < blk_pageCount B" "i < blk_ioUnitInPage B"
    by (auto simp: valid_at_def split: option.splits)
  obtain B1 where b1: "Block_invalidate B ?p i = Inr B1" and sl: "slots B1 = slots B"
    using Block_invalidate_ok [OF inv_wf [OF inv B] pi] by (auto simp: totE_iff slots_def blk_geom_def)
  then show ?thesis
    using True len B aside_prims(1) [of s ?b B1] slots_same_setBlock [OF B sl]
    by (simp add: invalidateUnit_def addressed_def)
qed

lemma openMapping_total:
  assumes sv: "serves e L s"
  shows "totE (\<lambda>(lastB, s'). aside s s' \<and> slots_same s s') (openMapping e req s)"
proof (cases "findMapping s (freq_lpn req)")
  case None
  moreover have "slots_same s (emplaceMapping e (freq_lpn req) ml s)" for ml
    by (simp add: slots_same_def emplaceMapping_def findBlock_def)
  ultimately show ?thesis by (simp add: openMapping_def aside_prims)
next
  case (Some ml)
  let ?P = "\<lambda>i (lastB, s'). ftl_inv e (pending e req i) s' \<and> findMapping s' = findMapping s \<and> aside s s' \<and> slots_same s s'"
  have "totE (?P (length [0..<bitsetSize e])) (foldE (invalidateUnit e req ml) [0..<bitsetSize e] (None, s))"
  proof (rule foldE_totE_idx)
    show "?P 0 (None, s)" using sv by (simp add: serves_def pending_def)
    fix i and x :: "nat option \<times> PageMapping"
    assume i: "i < length [0..<bitsetSize e]" and P: "?P i x"
    obtain lb s1 where x: "x = (lb, s1)" by fastforce
    have pre: "ftl_inv e (pending e req i) s1" "i < bitsetSize e" "findMapping s1 (freq_lpn req) = Some ml"
      using i P Some by (auto simp: x)
    show "totE (?P (Suc i)) (invalidateUnit e req ml ([0..<bitsetSize e] ! i) x)"
      using totE_conjI [OF invalidateUnit_total [OF pre, of lb] invalidateUnit_ok [OF pre, of lb]] P i
      by (auto simp: x elim!: totE_mono intro: aside_trans slots_same_trans)
  qed
  then show ?thesis using Some by (auto simp: openMapping_def elim!: totE_mono)
qed

subsection \<open>Taking the open block\<close>

definition queues_same :: "PageMapping \<Rightarrow> PageMapping \<Rightarrow> bool" where
  "queues_same s s' \<longleftrightarrow> refreshQueues s' = refreshQueues s \<and> layerQueueNum s' = layerQueueNum s \<and>
     insertedLayerCheck s' = insertedLayerCheck s"

lemma getFreeBlock_total:
  assumes env: "env_ok e" and inv: "ftl_inv e X s" and i: "i < pageCountToMaxPerf (param e)"
    and n: "nFreeBlocks s = length (freeBlocks s)" "0 < nFreeBlocks s"
  shows "totE (\<lambda>(b, s'). nFreeBlocks s' = nFreeBlocks s - 1 \<and> nFreeBlocks s' = length (freeBlocks s') \<and>
            lastFreeBlock s' = lastFreeBlock s \<and> lastFreeBlockIndex s' = lastFreeBlockIndex s \<and>
            lastFreeBlockIOMap s' = lastFreeBlockIOMap s \<and> queues_same s s' \<and> findBlock s b = None \<and>
            (\<forall>N. findBlock s' b = Some N \<longrightarrow> getNextWritePageIndex N = 0))
          (getFreeBlock e i s)"
proof -
  have "freeBlocks s \<noteq> []" using n by auto
  then obtain B rest where pf: "pickFree (pageCountToMaxPerf (param e)) i (freeBlocks s) = Some (B, rest)"
    using pickFree_exists by blast
  note ms = pickFree_Some [OF pf]
  have "B \<in> set (poolBlocks s)" using mset_eq_setD [OF ms] by (simp add: poolBlocks_def)
  then have nb: "findBlock s (blk_idx B) = None" and fr: "free_ok e B" using ftl_invD(2) [OF inv] by (auto simp: pools_inv_def)
  have len: "length (freeBlocks s) = Suc (length rest)" using arg_cong [OF ms, of size] by simp
  let ?B1 = "Block_setRefreshedPageCount 0 (Block_setLastWrittenTime (simTick s) B)"
  let ?s1 = "(emplaceBlock e (blk_idx B) ?B1 s)\<lparr>freeBlocks := rest, nFreeBlocks := nFreeBlocks s - 1\<rparr>"
  have res: "getFreeBlock e i s = Inr (blk_idx B, ?s1)"
    using i n pf nb by (simp add: getFreeBlock_def Let_def)
  have wf: "blk_wf B" by (rule blk_okD(1) [OF free_okD(1) [OF fr]])
  have "same_block B ?B1"
    by (rule same_block_trans [OF same_block_setters(1) same_block_setters(2)]) (use wf in simp_all)
  then have "findBlock ?s1 (blk_idx B) = Some ?B1"
    using ftl_inv_alloc(7) [OF inv env, of B ?B1 ?s1 "blk_idx B"] ms
    by (simp add: same_block_def emplaceBlock_def poolBlocks_def)
  moreover have "slots ?B1 = slots B"
    by (simp add: slots_def Block_setRefreshedPageCount_def Block_setLastWrittenTime_def)
  ultimately show ?thesis
    using res nb len n slots_next [of ?B1 B] free_next [OF fr] by (simp add: emplaceBlock_def queues_same_def)
qed

lemma nextOpenIndex_total:
  assumes "bs_sized n lastMap" and "bs_sized n iomap" and "i < pageCountToMaxPerf (param e)"
  shows "totE (\<lambda>(m, j). bs_sized n m \<and> j < pageCountToMaxPerf (param e)) (nextOpenIndex e lastMap iomap i)"
proof -
  have wf: "bs_wf lastMap" "bs_wf iomap" "bs_size lastMap = bs_size iomap" "bs_size lastMap = n"
    using assms(1,2) by (auto simp: bs_sized_def)
  obtain c where c: "bs_and lastMap iomap = Inr c" by (rule bs_and_ok [OF wf(1-3)])
  obtain d where d: "bs_or lastMap iomap = Inr d" "bs_wf d" "bs_size d = bs_size lastMap"
    by (rule bs_or_ok [OF wf(1-3)])
  have "bs_sized n d" using d wf(4) by (simp add: bs_sized_def)
  then show ?thesis
    using assms(2,3) by (auto simp: nextOpenIndex_def c d(1))
qed

lemma grows_room:
  assumes "grows s s'" and "findBlock s x \<noteq> None"
  shows "blockRoom e s' x = blockRoom e s x"
proof -
  obtain A A' where A: "findBlock s x = Some A" "findBlock s' x = Some A'" and sb: "same_block A A'"
    using assms by (force simp: grows_def)
  have "slots A' = slots A" using sb by (simp add: slots_def same_block_def same_units_def blk_geom_def)
  then show ?thesis using A slots_next [of A' A] by (simp add: blockRoom_def)
qed

text \<open>Replacing a full open block by a fresh one moves a block's pages from one sum to the other.\<close>

lemma capacity_reopen:
  assumes ap: "alloc_post e X s (b, s')" and nb: "findBlock s b = None" and j: "j < length (lastFreeBlock s)"
    and full: "findBlock s (lastFreeBlock s ! j) = Some B" "isFull e B"
    and use: "\<forall>x\<in>set (lastFreeBlock s). findBlock s x \<noteq> None"
    and lf: "lastFreeBlock s' = (lastFreeBlock s)[j := b]" and n: "0 < nFreeBlocks s" "nFreeBlocks s' = nFreeBlocks s - 1"
    and nx: "\<And>N. findBlock s' b = Some N \<Longrightarrow> getNextWritePageIndex N = 0"
  shows "capacity e s' = capacity e s"
proof -
  let ?c = "lastFreeBlock s ! j" and ?L = "set (lastFreeBlock s)" and ?L' = "set (lastFreeBlock s')"
  have old: "blockRoom e s' x = blockRoom e s x" if "findBlock s x \<noteq> None" for x
    using ap by (intro grows_room that) (simp add: alloc_post_def)
  have c0: "blockRoom e s' ?c = 0" using old [of ?c] full by (simp add: blockRoom_def isFull_def)
  have new: "blockRoom e s' b = pagesInBlock (param e)"
    using ap nx by (auto simp: alloc_post_def blockRoom_def)
  have "b \<notin> ?L" using nb use by auto
  have "?L' \<union> {?c} = insert b ?L"
  proof -
    have "lastFreeBlock s = take j (lastFreeBlock s) @ ?c # drop (Suc j) (lastFreeBlock s)"
      using j by (rule id_take_nth_drop)
    then have "?L = set (take j (lastFreeBlock s)) \<union> {?c} \<union> set (drop (Suc j) (lastFreeBlock s))"
      by (metis Un_insert_right list.simps(15) set_append sup_bot.right_neutral Un_assoc insert_is_Un)
    then show ?thesis using j by (auto simp: lf upd_conv_take_nth_drop)
  qed
  have "(\<Sum>x\<in>?L'. blockRoom e s' x) = (\<Sum>x\<in>?L' \<union> {?c}. blockRoom e s' x)"
    by (rule sum.mono_neutral_left) (use c0 in auto)
  also have "\<dots> = pagesInBlock (param e) + (\<Sum>x\<in>?L. blockRoom e s' x)"
    using \<open>?L' \<union> {?c} = insert b ?L\<close> \<open>b \<notin> ?L\<close> new by simp
  also have "(\<Sum>x\<in>?L. blockRoom e s' x) = (\<Sum>x\<in>?L. blockRoom e s x)"
    by (rule sum.cong) (use old use in auto)
  finally show ?thesis using n by (simp add: capacity_def mult_eq_if)
qed

lemma getLastFreeBlock_total:
  assumes env: "env_ok e" and inv: "ftl_inv e X s" and rd: "open_ready e s" and n: "0 < nFreeBlocks s"
    and io: "bs_sized (ioUnitInPage (param e)) iomap"
  shows "totE (\<lambda>(b, s'). alloc_post e X s (b, s') \<and> open_ready e s' \<and> queues_same s s' \<and>
            nFreeBlocks s - 1 \<le> nFreeBlocks s' \<and> nFreeBlocks s' \<le> nFreeBlocks s \<and> capacity e s' = capacity e s)
          (getLastFreeBlock e iomap s)"
proof -
  have r: "length (lastFreeBlock s) = pageCountToMaxPerf (param e)" "lastFreeBlockIndex s < pageCountToMaxPerf (param e)"
    "\<And>b. b \<in> set (lastFreeBlock s) \<Longrightarrow> findBlock s b \<noteq> None" "nFreeBlocks s = length (freeBlocks s)"
    "bs_sized (ioUnitInPage (param e)) (lastFreeBlockIOMap s)"
    using rd by (auto simp: open_ready_def)
  obtain m j where mj: "nextOpenIndex e (lastFreeBlockIOMap s) iomap (lastFreeBlockIndex s) = Inr (m, j)"
    and m: "bs_sized (ioUnitInPage (param e)) m" and j: "j < pageCountToMaxPerf (param e)"
    using nextOpenIndex_total [OF r(5) io r(2)] by (auto simp: totE_iff)
  let ?s1 = "s\<lparr>lastFreeBlockIOMap := m, lastFreeBlockIndex := j\<rparr>"
  have c1: "core ?s1 = core s" by (simp add: core_def)
  have fb1: "findBlock ?s1 = findBlock s" by (rule core_cong(1) [OF c1])
  obtain B where B: "findBlock s (lastFreeBlock s ! j) = Some B" using r(1,3) j by force
  have inv1: "ftl_inv e X ?s1" using core_cong(6) [OF c1] inv by simp
  show ?thesis
  proof (cases "isFull e B")
    case False
    then have res: "getLastFreeBlock e iomap s = Inr (lastFreeBlock s ! j, ?s1)"
      using mj r(1) j B fb1 by (simp add: getLastFreeBlock_def isFull_def)
    moreover have "open_ready e ?s1" using r m j fb1 by (simp add: open_ready_def)
    moreover have "capacity e ?s1 = capacity e s" using fb1 by (simp add: capacity_def blockRoom_def)
    ultimately show ?thesis
      using free_open.open_ok [OF env inv, of iomap] by (simp add: queues_same_def)
  next
    case True
    obtain b s2 where g: "getFreeBlock e j ?s1 = Inr (b, s2)" and n2: "nFreeBlocks s2 = nFreeBlocks s - 1"
      "nFreeBlocks s2 = length (freeBlocks s2)" "lastFreeBlock s2 = lastFreeBlock s" "lastFreeBlockIndex s2 = j"
      "lastFreeBlockIOMap s2 = m" "queues_same s s2" "findBlock s b = None"
      "\<And>N. findBlock s2 b = Some N \<Longrightarrow> getNextWritePageIndex N = 0"
      using getFreeBlock_total [OF env inv1 j] r(4) n fb1 by (auto simp: totE_iff queues_same_def)
    let ?s3 = "s2\<lparr>lastFreeBlock := (lastFreeBlock s2)[j := b], bReclaimMore := True\<rparr>"
    have res: "getLastFreeBlock e iomap s = Inr (b, ?s3)"
      using mj r(1) j B fb1 True g by (simp add: getLastFreeBlock_def isFull_def)
    have ap: "alloc_post e X s (b, ?s3)"
      using free_open.open_ok [OF env inv, of iomap] res by simp
    have use: "findBlock ?s3 x \<noteq> None" if "findBlock s x \<noteq> None \<or> x = b" for x
      using ap that by (force simp: alloc_post_def grows_def)
    have "open_ready e ?s3"
      unfolding open_ready_def using r n2 m j use
      by (auto dest!: set_update_subset_insert [THEN subsetD])
    moreover have "capacity e ?s3 = capacity e s"
      by (rule capacity_reopen [OF ap n2(7)]) (use r(1,3) j B True n n2 in \<open>auto simp: findBlock_def\<close>)
    ultimately show ?thesis using ap n2 by (simp add: res queues_same_def)
  qed
qed

subsection \<open>Writing the units\<close>

text \<open>What a unit write needs of the open block: room for the units that are still to come.\<close>

definition room :: "env \<Rightarrow> nat \<Rightarrow> nat \<Rightarrow> PageMapping \<Rightarrow> bool" where
  "room e b i s = (case findBlock s b of None \<Rightarrow> False
     | Some N \<Rightarrow> \<forall>j<bitsetSize e. i \<le> j \<longrightarrow> pNextWritePageIndex N ! j < pagesInBlock (param e))"

lemma pal_if_read:
  assumes "aside s s1" and "(if c then palRead e r t s1 else (t, s1)) = (t2, s2)"
  shows "aside s s2 \<and> core s2 = core s1"
proof -
  have "aside s (snd (palRead e r t s1))" by (rule aside_trans [OF assms(1) aside_prims(4)])
  then show ?thesis using assms core_ext(1) [of e r t s1] by (cases c) auto
qed

lemma pal_if_write:
  assumes "aside s s1" and "(if c then palWrite e r t s1 else (t, s1)) = (t2, s2)"
  shows "aside s s2 \<and> core s2 = core s1"
proof -
  have "aside s (snd (palWrite e r t s1))" by (rule aside_trans [OF assms(1) aside_prims(5)])
  then show ?thesis using assms core_ext(2) [of e r t s1] by (cases c) auto
qed

lemma wrote_Suc:
  assumes "wrote b {..<i} s s1" and "wrote b {i} s1 s2"
  shows "wrote b {..<Suc i} s s2"
proof -
  obtain N N1 N2 where N: "findBlock s b = Some N" "findBlock s1 b = Some N1" "findBlock s2 b = Some N2"
    and io: "blk_ioUnitInPage N1 = blk_ioUnitInPage N" "blk_ioUnitInPage N2 = blk_ioUnitInPage N1"
    and le: "\<And>j. pNextWritePageIndex N1 ! j \<le> (if j \<in> {..<i} then Suc (pNextWritePageIndex N ! j) else pNextWritePageIndex N ! j)"
      "\<And>j. pNextWritePageIndex N2 ! j \<le> (if j \<in> {i} then Suc (pNextWritePageIndex N1 ! j) else pNextWritePageIndex N1 ! j)"
    using assms unfolding wrote_def by auto
  have "pNextWritePageIndex N2 ! j \<le> (if j \<in> {..<Suc i} then Suc (pNextWritePageIndex N ! j) else pNextWritePageIndex N ! j)" for j
    using le(1) [of j] le(2) [of j] by (auto split: if_splits)
  then show ?thesis using assms N io unfolding wrote_def by auto
qed

lemma writeUnit_total:
  assumes w: "writing e req L i s" and i: "i < bitsetSize e" and rm: "room e b i s"
    and rd: "open_ready e s" "refresh_ready e s"
  shows "totE (\<lambda>(t', s'). room e b (Suc i) s' \<and> open_ready e s' \<and> refresh_ready e s' \<and> wrote b {i} s s')
           (writeUnit e req send b t i (fin, s))"
proof (cases "addressed e req i")
  case False
  then show ?thesis using rm rd by (auto simp: writeUnit_def addressed_def room_def wrote_def split: option.splits)
next
  case True
  let ?l = "freq_lpn req"
  have inv: "ftl_inv e (unitsOf e req - pending e req i) s" using w by (simp add: writing_def)
  obtain N where N: "findBlock s b = Some N"
    and rN: "\<And>j. j < bitsetSize e \<Longrightarrow> i \<le> j \<Longrightarrow> pNextWritePageIndex N ! j < pagesInBlock (param e)"
    using rm by (auto simp: room_def split: option.splits)
  obtain ml where ml: "findMapping s ?l = Some ml" using w by (auto simp: writing_def)
  have len: "i < length ml" using ftl_invD(5) [OF inv ml] i by simp
  note ok = ftl_invD(7) [OF inv N]
  note geo = blk_okD [OF ok]
  have sh: "length (pNextWritePageIndex N) = ioUnitInPage (param e)" "0 < ioUnitInPage (param e)"
    using geo(2,5) by (auto simp: blk_shape_def)
  have io: "i < ioUnitInPage (param e)" using i sh(2) by (auto simp: bitsetSize_def split: if_splits)
  let ?p = "pNextWritePageIndex N ! i"
  have p: "?p < blk_pageCount N" using rN [OF i] geo(4) by simp
  obtain N1 where bw: "Block_write N ?p ?l i t = Inr N1" and wr: "blk_written N ?p i ?l N1"
    using Block_write_next [OF geo(1), of i ?l t] io geo(5) p by (auto simp: totE_iff)
  let ?s1 = "setBlock b N1 s"
  obtain t2 s2 where rdq: "(if (\<not> bRandomTweak e \<and> \<not> bs_all (freq_ioFlag req)) \<and> send
       then palRead e (palReqOf req (fst (ml ! i)) (snd (ml ! i)) (bs_flip_all (freq_ioFlag req))) t ?s1 else (t, ?s1)) = (t2, s2)"
    by fastforce
  let ?s3 = "setMapping ?l i (b, ?p) s2"
  obtain t4 s4 where wrq: "(if send then palWrite e (palReqOf req b ?p (reqUnitFlag e req i)) t2 ?s3 else (t2, ?s3)) = (t4, s4)"
    by fastforce
  have a1: "aside s ?s1" using N by (simp add: aside_prims)
  have a2: "aside s s2" and c2: "core s2 = core ?s1" using pal_if_read [OF a1 rdq] by auto
  have a3: "aside s ?s3" by (rule aside_trans [OF a2 aside_prims(2)])
  have a4: "aside s s4" and c4: "core s4 = core ?s3" using pal_if_write [OF a3 wrq] by auto
  have rd4: "open_ready e s4" "refresh_ready e s4" using aside_ready [OF a4, of e] rd by (auto simp: ready_def)
  have fit: "layers_fit b s4"
    using rd4(2) geo(6) by (auto simp: layers_fit_def refresh_ready_def)
  have "totE (queue_step e s4) (setRefreshPeriod e (blk_eraseCount N1) b (?p mod 64) s4)"
    by (rule setRefreshPeriod_total [OF _ fit]) (use rd4(2) in \<open>auto simp: refresh_ready_def\<close>)
  then obtain s5 where s5: "setRefreshPeriod e (blk_eraseCount N1) b (?p mod 64) s4 = Inr s5"
    and q5: "queue_step e s4 s5" by (auto simp: totE_iff)
  have eq: "writeUnit e req send b t i (fin, s) = Inr (max fin t4, s5)"
    using True N ml len bw s5 sh(1) io rdq wrq
    by (cases send; cases "bRandomTweak e"; cases "bs_all (freq_ioFlag req)")
      (simp_all add: writeUnit_def addressed_def getNextWritePageIndexAt_def Let_def)
  have oq: "only_queues s4 s5" using q5 by (simp add: queue_step_def)
  have ov: "openView s5 = openView s4" and fb5: "findBlock s5 = findBlock s4"
    using oq core_cong(1) [OF only_queues_core [OF oq]] by (auto simp: only_queues_def openView_def)
  have o5: "open_ready e s5" using open_ready_cong [OF rd4(1) ov] fb5 by (simp add: same_use_def)
  have r5: "refresh_ready e s5" by (rule refresh_ready_step [OF rd4(2) q5])
  have n5: "nFreeBlocks s5 = nFreeBlocks s" using ov a4 by (simp add: aside_def openView_def)
  have fb: "findBlock s5 = (findBlock s)(b \<mapsto> N1)"
    using fb5 core_cong(1) [OF c4] core_cong(1) [OF c2] by (auto simp: fun_eq_iff)
  have nx: "pNextWritePageIndex N1 = (pNextWritePageIndex N)[i := Suc ?p]" "blk_ioUnitInPage N1 = blk_ioUnitInPage N"
    using wr by (auto simp: blk_written_def blk_geom_def)
  have "room e b (Suc i) s5" using fb nx rN by (auto simp: room_def)
  moreover have "lastFreeBlock s5 = lastFreeBlock s" using ov a4 by (simp add: aside_def openView_def)
  then have "wrote b {i} s s5"
    using fb N nx n5 sh(1) io by (auto simp: wrote_def nth_list_update)
  ultimately show ?thesis using eq o5 r5 by simp
qed

lemma writeUnits_total:
  assumes o: "opened e req L s" and rm: "room e b 0 s" and rd: "open_ready e s" "refresh_ready e s"
  shows "totE (\<lambda>(t', s'). serves e (L \<union> unitsOf e req) s' \<and> open_ready e s' \<and> refresh_ready e s' \<and> wrote b {..<bitsetSize e} s s')
           (foldE (writeUnit e req send b t) [0..<bitsetSize e] (fin, s))"
proof -
  let ?P = "\<lambda>i x. writing e req L i (snd x) \<and> room e b i (snd x) \<and> open_ready e (snd x) \<and> refresh_ready e (snd x) \<and>
     wrote b {..<i} s (snd x)"
  have "totE (?P (length [0..<bitsetSize e])) (foldE (writeUnit e req send b t) [0..<bitsetSize e] (fin, s))"
  proof (rule foldE_totE_idx)
    show "?P 0 (fin, s)" using o rm rd
      by (auto simp: writing_def opened_def pending_def wrote_def room_def split: option.splits)
    fix i and x :: "tick \<times> PageMapping"
    assume i: "i < length [0..<bitsetSize e]" and P: "?P i x"
    obtain f1 s1 where x: "x = (f1, s1)" by fastforce
    have pre: "writing e req L i s1" "i < bitsetSize e" "room e b i s1" "open_ready e s1" "refresh_ready e s1"
      using i P by (auto simp: x)
    show "totE (?P (Suc i)) (writeUnit e req send b t ([0..<bitsetSize e] ! i) x)"
      using totE_conjI [OF writeUnit_total [OF pre, of send t f1] writeUnit_ok [OF pre(1,2), of send b t f1]] i P
      by (auto simp: x elim!: totE_mono intro: wrote_Suc)
  qed
  moreover have "pending e req (bitsetSize e) = unitsOf e req" by (auto simp: pending_def unitsOf_def)
  ultimately show ?thesis by (auto simp: writing_def serves_def elim!: totE_mono)
qed

subsection \<open>The whole write\<close>

lemma room_open:
  assumes a: "alloc_post e X s (b, s')"
  shows "room e b 0 s'"
proof -
  obtain N where k: "keeps e X s s'" and N: "findBlock s' b = Some N" and nf: "\<not> isFull e N"
    using a by (auto simp: alloc_post_def)
  have ok: "blk_ok e b N" by (rule ftl_invD(7) [OF keeps_inv [OF k] N])
  note geo = blk_okD [OF ok]
  have "getNextWritePageIndex N < pagesInBlock (param e)"
    using getNextWritePageIndex_le [OF geo(1)] nf geo(4) by (simp add: isFull_def)
  moreover have "j < blk_ioUnitInPage N" if "j < bitsetSize e" for j
    using that geo(2,5) by (auto simp: bitsetSize_def blk_shape_def split: if_splits)
  ultimately have "\<forall>j<bitsetSize e. pNextWritePageIndex N ! j < pagesInBlock (param e)"
    using getNextWritePageIndex_ge [of _ N] le_less_trans by blast
  then show ?thesis using N by (simp add: room_def)
qed

lemma dramMapping_aside: "aside s (snd (dramMapping e req send t s))"
  by (simp add: dramMapping_def Let_def case_prod_unfold aside_trans [OF aside_prims(6) aside_prims(7)])

lemma writeInternal_total:
  assumes env: "env_ok e" and sv: "serves e L s" and rd: "ready e s" and h: "headroom e (Suc k) s"
    and io: "bs_sized (ioUnitInPage (param e)) (freq_ioFlag req)"
  shows "totE (\<lambda>(t', s'). serves e (L \<union> unitsOf e req) s' \<and> ready e s' \<and> headroom e k s')
           (writeInternal e req t0 send s)"
proof -
  have n: "0 < nFreeBlocks s" using headroom_now [OF h] rd by (simp add: ready_def)
  obtain lastB s1 where om: "openMapping e req s = Inr (lastB, s1)" and a1: "aside s s1" and sl1: "slots_same s s1"
    using openMapping_total [OF sv, of req] by (auto simp: totE_iff)
  have o1: "opened e req L s1" using openMapping_ok [OF env sv, of req] om by simp
  have inv1: "ftl_inv e (unitsOf e req) s1" using o1 by (simp add: opened_def)
  have r1: "open_ready e s1" "refresh_ready e s1" using aside_ready [OF a1 rd] by (auto simp: ready_def)
  have n1: "nFreeBlocks s1 = nFreeBlocks s" using a1 by (simp add: aside_def openView_def)
  have "totE (\<lambda>(b, s'). alloc_post e (unitsOf e req) s1 (b, s') \<and> open_ready e s' \<and> queues_same s1 s' \<and>
      nFreeBlocks s1 - 1 \<le> nFreeBlocks s' \<and> nFreeBlocks s' \<le> nFreeBlocks s1 \<and> capacity e s' = capacity e s1) (getLastFreeBlock e (freq_ioFlag req) s1)"
    by (rule getLastFreeBlock_total [OF env inv1 r1(1) _ io]) (use n n1 in simp)
  then obtain b s2 where g: "getLastFreeBlock e (freq_ioFlag req) s1 = Inr (b, s2)" and ap: "alloc_post e (unitsOf e req) s1 (b, s2)"
    and r2: "open_ready e s2" "queues_same s1 s2" and n2: "nFreeBlocks s - 1 \<le> nFreeBlocks s2" "nFreeBlocks s2 \<le> nFreeBlocks s"
    and k2: "capacity e s2 = capacity e s1"
    using n1 by (auto simp: totE_iff)
  have rr2: "refresh_ready e s2" using r1(2) r2(2) queues_ok_cong [of s2 s1 e] by (simp add: queues_same_def)
  have o2: "opened e req L s2" by (rule opened_alloc [OF o1 ap])
  obtain t s3 where d: "dramMapping e req send t0 s2 = (t, s3)" by fastforce
  have a3: "aside s2 s3"
    using dramMapping_aside [of s2 e req send t0] d by simp
  have r3: "open_ready e s3" "refresh_ready e s3" using aside_ready [OF a3, of e] r2(1) rr2 by (auto simp: ready_def)
  have c3: "core s3 = core s2" using dramMapping_core [of e req send t0 s2] d by simp
  have o3: "opened e req L s3" by (rule opened_core [OF o2 c3])
  have rm3: "room e b 0 s3" using room_open [OF ap] core_cong(1) [OF c3] by (simp add: room_def)
  have n3: "nFreeBlocks s3 = nFreeBlocks s2" using a3 by (simp add: aside_def openView_def)
  obtain fin s4 where f: "foldE (writeUnit e req send b t) [0..<bitsetSize e] (t0, s3) = Inr (fin, s4)"
    and s4: "serves e (L \<union> unitsOf e req) s4" "open_ready e s4" "refresh_ready e s4" "wrote b {..<bitsetSize e} s3 s4"
    using writeUnits_total [OF o3 rm3 r3, of send t t0] by (auto simp: totE_iff)
  obtain t' s5 where l: "(if send then addLatency e CpuWRITE_INTERNAL fin s4 else (t, s4)) = (t', s5)" by fastforce
  have a5: "aside s4 s5" and c5: "core s5 = core s4"
    using l aside_prims(8) [of s4 e CpuWRITE_INTERNAL fin] core_ext(6) [of e CpuWRITE_INTERNAL fin s4] by (cases send; auto)+
  have n5: "nFreeBlocks s5 = nFreeBlocks s2" using a5 s4(4) n3 by (simp add: aside_def openView_def wrote_def)
  have "capacity e s1 = capacity e s" "capacity e s3 = capacity e s2" "capacity e s5 = capacity e s4"
    using a1 a3 a5 sl1 slots_same_core [OF c3] slots_same_core [OF c5] by (auto simp: aside_def intro!: capacity_cong)
  then have k5: "capacity e s \<le> Suc (capacity e s5)" using k2 wrote_capacity [OF s4(4), of e] by simp
  have rd5: "ready e s5" using aside_ready [OF a5, of e] s4 by (simp add: ready_def)
  have h5: "headroom e k s5" using headroom_step [OF h _ k5] n2(2) n5 by simp
  have "quiet e (nFreeBlocks s5)" using headroom_now [OF h5] rd5 by (simp add: ready_def)
  then have "gcIfNeeded e send False t' s5 = Inr s5"
    by (auto simp: gcIfNeeded_def freeBlockRatio_def quiet_def)
  then have "writeInternal e req t0 send s = Inr (t', s5)"
    using om g ap d f l by (auto simp: writeInternal_def alloc_post_def)
  then show ?thesis using serves_core [OF s4(1) c5] rd5 h5 by simp
qed

lemma ftlWrite_total:
  assumes "env_ok e" and "serves e L s" and "ready e s" and "headroom e (Suc k) s"
    and "bs_sized (ioUnitInPage (param e)) (freq_ioFlag req)" and "0 < bs_count (freq_ioFlag req)"
    and "wrap32 (hotColdSeperation (conf e)) = 0"
  shows "totE (\<lambda>(t', s'). serves e (L \<union> unitsOf e req) s' \<and> ready e s' \<and> headroom e k s') (ftlWrite e req t s)"
proof -
  obtain t1 s1 where w: "writeInternal e req t True s = Inr (t1, s1)" and s1: "serves e (L \<union> unitsOf e req) s1"
    "ready e s1" "headroom e k s1"
    using writeInternal_total [OF assms(1-5), of t True] by (auto simp: totE_iff)
  let ?s2 = "snd (addLatency e CpuWRITE t1 s1)"
  have a: "aside s1 ?s2" by (rule aside_prims(8))
  have "nFreeBlocks ?s2 = nFreeBlocks s1" "capacity e ?s2 = capacity e s1"
    using a capacity_cong [of ?s2 s1 e] slots_same_core [OF core_ext(6)] by (auto simp: aside_def openView_def)
  then show ?thesis
    using w s1 assms(6,7) aside_ready [OF a s1(2)] serves_core [OF s1(1) core_ext(6), of e CpuWRITE t1]
    by (auto simp: ftlWrite_def case_prod_unfold headroom_def)
qed

subsection \<open>Reading and trimming\<close>

text \<open>Both leave everything a write relies on as it is.\<close>

definition calm :: "PageMapping \<Rightarrow> PageMapping \<Rightarrow> bool" where
  "calm s s' \<longleftrightarrow> aside s s' \<and> slots_same s s'"

lemma calm_refl [simp]: "calm s s"
  by (simp add: calm_def)

lemma calm_trans: "calm s s' \<Longrightarrow> calm s' s'' \<Longrightarrow> calm s s''"
  by (auto simp: calm_def intro: aside_trans slots_same_trans)

lemma calm_keeps:
  assumes "calm s s'"
  shows "ready e s \<Longrightarrow> ready e s'" "nFreeBlocks s' = nFreeBlocks s" "capacity e s' = capacity e s"
  using assms aside_ready [of s s' e] capacity_cong [of s' s e] by (auto simp: calm_def aside_def openView_def)

lemma calm_setBlock: "findBlock s b = Some B \<Longrightarrow> slots B' = slots B \<Longrightarrow> calm s (setBlock b B' s)"
  by (simp add: calm_def aside_prims slots_same_setBlock)

lemma calm_ext:
  "calm s (snd (palRead e r t s))" "calm s (snd (dramRead e n t s))" "calm s (snd (addLatency e f t s))"
  by (simp_all add: calm_def aside_prims slots_same_core)

lemma totE_latency:
  "totE (\<lambda>(t, s'). calm s s') m \<Longrightarrow> totE (\<lambda>(t, s'). calm s s') (bindE m (\<lambda>(t, s'). Inr (addLatency e f t s')))"
  by (erule totE_bindI) (auto simp: case_prod_unfold intro: calm_trans [OF _ calm_ext(3)])

lemma readUnit_total:
  assumes inv: "ftl_inv e {} s0" and k: "keeps e {} s0 s" and ml: "findMapping s0 (freq_lpn req) = Some ml"
    and i: "i < bitsetSize e"
  shows "totE (\<lambda>(t', s'). calm s s') (readUnit e req ml t i (fin, s))"
proof (cases "addressed e req i \<and> isMapped e (ml ! i)")
  case False
  have "i < length ml" using ftl_invD(5) [OF inv ml] i by simp
  then show ?thesis using False by (auto simp: readUnit_def addressed_def)
next
  case True
  let ?b = "fst (ml ! i)" and ?p = "snd (ml ! i)"
  have len: "i < length ml" using ftl_invD(5) [OF inv ml] i by simp
  have m: "maps s0 (freq_lpn req) i = Some (?b, ?p)" using ml len by (simp add: maps_def)
  have v: "valid_at s ?b ?p i (freq_lpn req)" using ftl_invD(6) [OF inv m] True k by (simp add: keeps_def)
  obtain B where B: "findBlock s ?b = Some B" and p: "?p < blk_pageCount B" "i < blk_ioUnitInPage B"
    using v by (auto simp: valid_at_def split: option.splits)
  have "calm s (snd (palRead e r t (setBlock ?b B1 s)))" if "slots B1 = slots B" for B1 r
    by (rule calm_trans [OF calm_setBlock [OF B that] calm_ext(1)])
  then show ?thesis
    using True len B Block_read_ok [OF inv_wf [OF keeps_inv [OF k] B] p, of t]
    by (auto simp: readUnit_def addressed_def case_prod_unfold Let_def slots_def)
qed

lemma readInternal_total:
  assumes sv: "serves e L s"
  shows "totE (\<lambda>(t', s'). calm s s') (readInternal e req t s)"
proof (cases "findMapping s (freq_lpn req)")
  case None
  then show ?thesis by (simp add: readInternal_def)
next
  case (Some ml)
  let ?n = "if bRandomTweak e then 8 * bs_count (freq_ioFlag req) else 8"
  obtain t1 s1 where d: "dramRead e ?n t s = (t1, s1)" by fastforce
  have c: "core s1 = core s" using core_ext(4) [of e ?n t s] d by simp
  have inv1: "ftl_inv e {} s1" using sv core_cong(6) [OF c] by (simp add: serves_def)
  have ml1: "findMapping s1 (freq_lpn req) = Some ml" using Some core_cong(2) [OF c] by simp
  have "totE (\<lambda>x. keeps e {} s1 (snd x) \<and> calm s1 (snd x)) (foldE (readUnit e req ml t1) [0..<bitsetSize e] (t, s1))"
  proof (rule foldE_totE)
    show "keeps e {} s1 (snd (t, s1)) \<and> calm s1 (snd (t, s1))" using keeps_core [OF inv1 refl] by simp
    fix i and x :: "tick \<times> PageMapping"
    assume i: "i \<in> set [0..<bitsetSize e]" and P: "keeps e {} s1 (snd x) \<and> calm s1 (snd x)"
    then have k: "keeps e {} s1 (snd x)" and c: "calm s1 (snd x)" by auto
    have "totE (\<lambda>(t', s'). calm (snd x) s') (readUnit e req ml t1 i (fst x, snd x))"
      by (rule readUnit_total [OF inv1 k ml1]) (use i in simp)
    from totE_conjI [OF this readUnit_ok [OF inv1 k ml1, of t1 i "fst x"]]
    show "totE (\<lambda>x. keeps e {} s1 (snd x) \<and> calm s1 (snd x)) (readUnit e req ml t1 i x)"
      using c by (auto simp: case_prod_unfold elim!: totE_mono intro: calm_trans)
  qed
  moreover have c1: "calm s s1" using calm_ext(2) [of s e ?n t] d by simp
  ultimately have "totE (\<lambda>(t', s'). calm s s') (foldE (readUnit e req ml t1) [0..<bitsetSize e] (t, s1))"
    by (auto elim!: totE_mono intro: calm_trans [OF c1])
  from totE_latency [OF this, of e CpuREAD_INTERNAL] show ?thesis
    by (simp add: readInternal_def Some d case_prod_unfold)
qed

lemma ftlRead_total:
  assumes sv: "serves e L s"
  shows "totE (\<lambda>(t', s'). serves e L s' \<and> calm s s') (ftlRead e req t s)"
proof -
  have "totE (\<lambda>(t', s'). calm s s') (ftlRead e req t s)"
    unfolding ftlRead_def using readInternal_total [OF sv, of req t] by (intro totE_latency) simp
  from totE_conjI [OF this ftlRead_ok [OF sv, of req t]] show ?thesis by (auto elim: totE_mono)
qed

lemma trimUnit_result:
  assumes inv: "ftl_inv e (trimmed l i) s" and i: "i < bitsetSize e" and ml: "findMapping s l = Some ml"
  shows "if isMapped e (ml ! i) then totE (calm s) (trimUnit e ml i s)
         else trimUnit e ml i s = Inl (Panic ''Block is not in use'')"
proof -
  note D = ftl_invD [OF inv]
  have len: "i < length ml" using D(5) [OF ml] i by simp
  have m: "maps s l i = Some (fst (ml ! i), snd (ml ! i))" using ml len by (simp add: maps_def)
  show ?thesis
  proof (cases "isMapped e (ml ! i)")
    case True
    have X: "(l, i) \<notin> trimmed l i" by (simp add: trimmed_def)
    have "valid_at s (fst (ml ! i)) (snd (ml ! i)) i l" using D(6) [OF m] True X by simp
    then obtain B where B: "findBlock s (fst (ml ! i)) = Some B" and pi: "snd (ml ! i) < blk_pageCount B" "i < blk_ioUnitInPage B"
      by (auto simp: valid_at_def split: option.splits)
    obtain B1 where "Block_invalidate B (snd (ml ! i)) i = Inr B1" and sl: "slots B1 = slots B"
      using Block_invalidate_ok [OF inv_wf [OF inv B] pi] by (auto simp: totE_iff slots_def blk_geom_def)
    then show ?thesis using True len B calm_setBlock [OF B sl] by (simp add: trimUnit_def)
  next
    case False
    then have "ml ! i = noPage e" using D(6) [OF m] by simp
    then show ?thesis using False len noPage_no_block [OF D(1)] by (simp add: trimUnit_def)
  qed
qed

text \<open>Trimming a page succeeds when all its units are mapped and panics when one is not.\<close>

lemma trimUnits_prefix:
  assumes inv: "ftl_inv e {} s" and ml: "findMapping s l = Some ml" and k: "k \<le> bitsetSize e"
    and mp: "\<forall>i<k. isMapped e (ml ! i)"
  shows "totE (\<lambda>s'. ftl_inv e (trimmed l k) s' \<and> findMapping s' = findMapping s \<and> calm s s') (foldE (trimUnit e ml) [0..<k] s)"
proof -
  let ?P = "\<lambda>i s'. ftl_inv e (trimmed l i) s' \<and> findMapping s' = findMapping s \<and> calm s s'"
  have "totE (?P (length [0..<k])) (foldE (trimUnit e ml) [0..<k] s)"
  proof (rule foldE_totE_idx)
    show "?P 0 s" using inv by (simp add: trimmed_def)
    fix i s'
    assume i: "i < length [0..<k]" and P: "?P i s'"
    have pre: "ftl_inv e (trimmed l i) s'" "i < bitsetSize e" "findMapping s' l = Some ml" using i P k ml by auto
    have "totE (calm s') (trimUnit e ml i s')" using trimUnit_result [OF pre] mp i by simp
    from totE_conjI [OF this trimUnit_ok [OF pre]]
    show "totE (?P (Suc i)) (trimUnit e ml ([0..<k] ! i) s')" using i P by (auto elim!: totE_mono intro: calm_trans)
  qed
  then show ?thesis by simp
qed

lemma trimInternal_cases:
  assumes sv: "serves e L s" and ml: "findMapping s (freq_lpn req) = Some ml"
  shows "(\<forall>i<bitsetSize e. (freq_lpn req, i) \<in> L) \<Longrightarrow>
            totE (\<lambda>(t', s'). serves e {(l, i) \<in> L. l \<noteq> freq_lpn req} s' \<and> calm s s') (trimInternal e req t s)"
    and "i < bitsetSize e \<Longrightarrow> (freq_lpn req, i) \<notin> L \<Longrightarrow>
            trimInternal e req t s = Inl (Panic ''Block is not in use'')"
proof -
  let ?l = "freq_lpn req"
  let ?n = "if bRandomTweak e then 8 * bs_count (freq_ioFlag req) else 8"
  obtain t1 s1 where d: "dramRead e ?n t s = (t1, s1)" by fastforce
  have c: "core s1 = core s" using core_ext(4) [of e ?n t s] d by simp
  have inv1: "ftl_inv e {} s1" and lv: "live e s1 = L" using serves_core [OF sv c] by (auto simp: serves_def)
  have ml1: "findMapping s1 ?l = Some ml" using ml core_cong(2) [OF c] by simp
  have len: "length ml = bitsetSize e" by (rule ftl_invD(5) [OF inv1 ml1])
  have mapped: "isMapped e (ml ! j) \<longleftrightarrow> (?l, j) \<in> L" if "j < bitsetSize e" for j
    using that len ml1 lv by (cases "ml ! j") (auto simp: live_def maps_def)
  show "totE (\<lambda>(t', s'). serves e {(l, i) \<in> L. l \<noteq> ?l} s' \<and> calm s s') (trimInternal e req t s)"
    if all: "\<forall>i<bitsetSize e. (?l, i) \<in> L"
  proof -
    obtain s2 where f: "foldE (trimUnit e ml) [0..<bitsetSize e] s1 = Inr s2" and c2: "calm s1 s2"
      using trimUnits_prefix [OF inv1 ml1 order_refl] all mapped by (auto simp: totE_iff)
    have "calm s s1" using calm_ext(2) [of s e ?n t] d by simp
    moreover have "calm s2 (eraseMapping ?l s2)"
      by (simp add: calm_def aside_def same_use_def slots_same_def eraseMapping_def openView_def findBlock_def)
    ultimately have "calm s (snd (addLatency e CpuTRIM_INTERNAL t1 (eraseMapping ?l s2)))"
      by (intro calm_trans [OF _ calm_ext(3)]) (rule calm_trans [OF _ calm_trans [OF c2]])
    then have "totE (\<lambda>(t', s'). calm s s') (trimInternal e req t s)"
      by (simp add: trimInternal_def ml d f case_prod_unfold)
    from totE_conjI [OF this trimInternal_ok [OF sv, of req t]] show ?thesis by (auto elim: totE_mono)
  qed
  show "trimInternal e req t s = Inl (Panic ''Block is not in use'')" if i: "i < bitsetSize e" "(?l, i) \<notin> L"
  proof -
    define k where "k = (LEAST j. j < bitsetSize e \<and> (?l, j) \<notin> L)"
    have k: "k < bitsetSize e" "(?l, k) \<notin> L" using LeastI [of "\<lambda>j. j < bitsetSize e \<and> (?l, j) \<notin> L", OF conjI [OF i]]
      by (auto simp: k_def)
    have before: "\<forall>j<k. isMapped e (ml ! j)"
      using not_less_Least [of _ "\<lambda>j. j < bitsetSize e \<and> (?l, j) \<notin> L"] k(1) mapped unfolding k_def [symmetric]
      by (meson less_trans)
    obtain s2 where f: "foldE (trimUnit e ml) [0..<k] s1 = Inr s2" and s2: "ftl_inv e (trimmed ?l k) s2" "findMapping s2 = findMapping s1"
      using trimUnits_prefix [OF inv1 ml1 less_imp_le [OF k(1)] before] by (auto simp: totE_iff)
    have "trimUnit e ml k s2 = Inl (Panic ''Block is not in use'')"
      using trimUnit_result [OF s2(1) k(1)] s2(2) ml1 mapped [OF k(1)] k(2) by simp
    moreover have "[0..<bitsetSize e] = [0..<k] @ k # [Suc k..<bitsetSize e]"
      using k(1) upt_add_eq_append [of 0 k "bitsetSize e - k"] upt_conv_Cons [OF k(1)] by simp
    ultimately have "foldE (trimUnit e ml) [0..<bitsetSize e] s1 = Inl (Panic ''Block is not in use'')"
      using f by (simp add: foldE_append)
    then show ?thesis by (simp add: trimInternal_def ml d)
  qed
qed


subsection \<open>Starting up\<close>

text \<open>The state of the allocation loop of the constructor after k open blocks.\<close>

definition opening_at :: "env \<Rightarrow> nat \<Rightarrow> PageMapping \<Rightarrow> bool" where
  "opening_at e k s \<longleftrightarrow> serves e {} s \<and> length (lastFreeBlock s) = pageCountToMaxPerf (param e) \<and>
     (\<forall>j<k. findBlock s (lastFreeBlock s ! j) \<noteq> None \<and> blockRoom e s (lastFreeBlock s ! j) = pagesInBlock (param e)) \<and>
     distinct (take k (lastFreeBlock s)) \<and>
     nFreeBlocks s = length (freeBlocks s) \<and> nFreeBlocks s = totalPhysicalBlocks (param e) - k \<and>
     bs_sized (ioUnitInPage (param e)) (lastFreeBlockIOMap s) \<and>
     refreshQueues s = [] \<and> checkedQueues s = [] \<and> trace s = []"

lemma fillPools_total:
  assumes pk: "param_ok e" and sep: "wrap32 (hotColdSeperation (conf e)) = 0" and n: "totalPhysicalBlocks (param e) < 2 ^ 32"
  shows "totE (opening_at e 0) (fillPools e (emptyMapping e now))"
proof -
  have fit: "pools_fit e" using sep n by (simp add: pools_fit_def)
  have "totE (\<lambda>Bs. map blk_idx Bs = [0..<totalPhysicalBlocks (param e)] \<and> (\<forall>B\<in>set Bs. free_ok e B))
      (newBlocks e COLD [0..<totalPhysicalBlocks (param e)])"
    by (rule newBlocks_ok [OF pk]) simp
  then obtain Bs where Bs: "newBlocks e COLD [0..<totalPhysicalBlocks (param e)] = Inr Bs"
    and ix: "map blk_idx Bs = [0..<totalPhysicalBlocks (param e)]" by (auto simp: totE_iff)
  let ?s = "(emptyMapping e now)\<lparr>freeBlocks := Bs, nFreeBlocks := totalPhysicalBlocks (param e)\<rparr>"
  have eq: "fillPools e (emptyMapping e now) = Inr ?s"
    using sep n Bs by (simp add: fillPools_def Block_new_PE_typed newBlocks_def)
  have "serves e {} ?s" using fillPools_ok [OF pk fit, of now] eq by simp
  moreover have "length Bs = totalPhysicalBlocks (param e)" using arg_cong [OF ix, of length] by simp
  moreover have "bs_sized (ioUnitInPage (param e)) (Bitset_new (ioUnitInPage (param e)))"
    using pk by (simp add: param_ok_def bs_sized_new)
  ultimately have "opening_at e 0 ?s" by (simp add: opening_at_def) (simp add: emptyMapping_def)
  then show ?thesis by (simp add: eq)
qed

lemma openBlocks_total:
  assumes env: "env_ok e" and sep: "wrap32 (hotColdSeperation (conf e)) = 0"
    and o: "opening_at e k s" and k: "k < pageCountToMaxPerf (param e)" "pageCountToMaxPerf (param e) \<le> totalPhysicalBlocks (param e)"
  shows "totE (opening_at e (Suc k)) (openBlocks e k s)"
proof -
  have inv: "ftl_inv e {} s" and n: "nFreeBlocks s = length (freeBlocks s)" "0 < nFreeBlocks s"
    using o k by (auto simp: opening_at_def serves_def)
  obtain b s1 where g: "getFreeBlock e k s = Inr (b, s1)" and s1: "nFreeBlocks s1 = nFreeBlocks s - 1"
    "nFreeBlocks s1 = length (freeBlocks s1)" "lastFreeBlock s1 = lastFreeBlock s" "lastFreeBlockIOMap s1 = lastFreeBlockIOMap s"
    "queues_same s s1" "findBlock s b = None" "\<And>N. findBlock s1 b = Some N \<Longrightarrow> getNextWritePageIndex N = 0"
    using getFreeBlock_total [OF env inv k(1) n] by (auto simp: totE_iff)
  have rest: "checkedQueues s1 = checkedQueues s" "trace s1 = trace s"
    using g by (auto simp: getFreeBlock_def Let_def emplaceBlock_def split: if_splits option.splits)
  have ap: "alloc_post e {} s (b, s1)" using free_alloc.alloc_ok [OF env inv, of k] g by simp
  have use: "findBlock s1 x \<noteq> None" if "findBlock s x \<noteq> None \<or> x = b" for x
    using ap that by (force simp: alloc_post_def grows_def)
  let ?s2 = "s1\<lparr>lastFreeBlock := (lastFreeBlock s1)[k := b]\<rparr>"
  have sv: "serves e {} ?s2" using openBlocks_ok [OF env, of "{}" s k] o g sep by (simp add: openBlocks_def opening_at_def)
  have fb2: "findBlock ?s2 = findBlock s1" by (rule core_cong(1)) (simp add: core_def)
  then have br2: "blockRoom e ?s2 = blockRoom e s1" by (simp add: blockRoom_def fun_eq_iff)
  have new: "blockRoom e s1 b = pagesInBlock (param e)"
    using ap s1(7) by (auto simp: alloc_post_def blockRoom_def)
  have old: "blockRoom e s1 x = blockRoom e s x" if "findBlock s x \<noteq> None" for x
    using ap by (intro grows_room that) (simp add: alloc_post_def)
  have "findBlock ?s2 (lastFreeBlock ?s2 ! j) \<noteq> None \<and> blockRoom e ?s2 (lastFreeBlock ?s2 ! j) = pagesInBlock (param e)"
    if "j < Suc k" for j
    using use o that k(1) s1(3) new old unfolding fb2 br2
    by (cases "j = k") (auto simp: opening_at_def less_Suc_eq)
  moreover have "distinct (take (Suc k) (lastFreeBlock ?s2))"
  proof -
    have len: "length (lastFreeBlock s) = pageCountToMaxPerf (param e)" and d: "distinct (take k (lastFreeBlock s))"
      and us: "\<And>j. j < k \<Longrightarrow> findBlock s (lastFreeBlock s ! j) \<noteq> None" using o by (auto simp: opening_at_def)
    have "b \<notin> set (take k (lastFreeBlock s))" using us s1(6) by (force simp: in_set_conv_nth)
    then show ?thesis using d k(1) s1(3) len by (simp add: take_Suc_conv_app_nth take_update_swap list_update_append)
  qed
  moreover have "nFreeBlocks s1 = totalPhysicalBlocks (param e) - Suc k"
  proof -
    have "nFreeBlocks s = totalPhysicalBlocks (param e) - k" using o unfolding opening_at_def by blast
    then show ?thesis using s1(1) by linarith
  qed
  ultimately have "opening_at e (Suc k) ?s2"
    using o s1(2-5) sv rest unfolding opening_at_def queues_same_def by (simp add: fb2)
  then show ?thesis using g sep by (simp add: openBlocks_def)
qed

lemma PageMapping_new_total:
  assumes env: "env_ok e" and pk: "param_ok e" and sep: "wrap32 (hotColdSeperation (conf e)) = 0"
    and n: "totalPhysicalBlocks (param e) < 2 ^ 32"
    and k: "0 < pageCountToMaxPerf (param e)" "pageCountToMaxPerf (param e) \<le> totalPhysicalBlocks (param e)"
  shows "totE (\<lambda>s. opening_at e (pageCountToMaxPerf (param e)) s \<and> lastFreeBlockIndex s = 0) (PageMapping_new e now)"
proof -
  let ?k = "pageCountToMaxPerf (param e)"
  obtain s0 where f: "fillPools e (emptyMapping e now) = Inr s0" and o0: "opening_at e 0 s0"
    using fillPools_total [OF pk sep n, of now] by (auto simp: totE_iff)
  have "totE (opening_at e (length [0..<?k])) (foldE (openBlocks e) [0..<?k] s0)"
    by (rule foldE_totE_idx) (use o0 openBlocks_total [OF env sep _ _ k(2)] in auto)
  then obtain s1 where l: "foldE (openBlocks e) [0..<?k] s0 = Inr s1" and o1: "opening_at e ?k s1"
    by (auto simp: totE_iff)
  let ?s2 = "s1\<lparr>lastFreeBlockIndex := 0, lastHotFreeBlockIndex := 0, lastColdFreeBlockIndex := 0,
               lastCoolFreeBlockIndex := 0, ftl_stat := zero_stat\<rparr>"
  have "findBlock ?s2 = findBlock s1" by (rule core_cong(1)) (simp add: core_def)
  then have "opening_at e ?k ?s2" using o1 by (auto simp: opening_at_def blockRoom_def)
  then show ?thesis by (simp add: PageMapping_new_def f l)
qed

text \<open>The room of a fresh device: all its pages.\<close>

definition fits :: "env \<Rightarrow> nat \<Rightarrow> bool" where
  "fits e k \<longleftrightarrow> (\<forall>n\<le>totalPhysicalBlocks (param e) - pageCountToMaxPerf (param e).
     totalPhysicalBlocks (param e) * pagesInBlock (param e)
       \<le> (n + pageCountToMaxPerf (param e)) * pagesInBlock (param e) + k \<longrightarrow> 0 < n \<and> quiet e n)"

lemma opening_headroom:
  assumes o: "opening_at e (pageCountToMaxPerf (param e)) s"
    and k: "pageCountToMaxPerf (param e) \<le> totalPhysicalBlocks (param e)" and f: "fits e j"
  shows "headroom e j s"
proof -
  let ?K = "pageCountToMaxPerf (param e)"
  have len: "length (lastFreeBlock s) = ?K" and d: "distinct (lastFreeBlock s)" and n: "nFreeBlocks s = totalPhysicalBlocks (param e) - ?K"
    and r: "\<And>b. b \<in> set (lastFreeBlock s) \<Longrightarrow> blockRoom e s b = pagesInBlock (param e)"
    using o by (auto simp: opening_at_def in_set_conv_nth)
  have "(\<Sum>b\<in>set (lastFreeBlock s). blockRoom e s b) = ?K * pagesInBlock (param e)"
    using r d len by (simp add: distinct_card)
  then have "capacity e s = totalPhysicalBlocks (param e) * pagesInBlock (param e)"
    using k n by (simp add: capacity_def flip: add_mult_distrib)
  then show ?thesis using f n by (simp add: fits_def headroom_def)
qed

text \<open>
  With at least 512 pages per block the tables of the refresh queues have room for the 64 layers
  of every block.
\<close>

lemma setupRefresh_ready:
  assumes o: "opening_at e (pageCountToMaxPerf (param e)) s" and i: "lastFreeBlockIndex s = 0"
    and k: "0 < pageCountToMaxPerf (param e)" and q: "0 < num_queue e"
    and p: "512 \<le> pagesInBlock (param e)" and t: "totalPhysicalBlocks (param e) * pagesInBlock (param e) < 2 ^ 32"
    and g: "wrap32 (refreshMode (conf e)) = 1 \<Longrightarrow> wrap32 (refreshGroupingSize (conf e)) \<noteq> 0"
    and tb: "0 < totalPhysicalBlocks (param e)"
  shows "ready e (setupRefresh e s)"
proof -
  let ?n = "DIVCEIL (totalPhysicalBlocks (param e) * pagesInBlock (param e)) 8"
  have pos: "0 < totalPhysicalBlocks (param e) * pagesInBlock (param e)" using p tb by simp
  have ge: "totalPhysicalBlocks (param e) * pagesInBlock (param e) \<le> ?n * 8"
    and le: "(?n - 1) * 8 < totalPhysicalBlocks (param e) * pagesInBlock (param e)"
    using DIVCEIL_bounds [OF pos, of 8] by simp_all
  have "totalPhysicalBlocks (param e) * 512 \<le> totalPhysicalBlocks (param e) * pagesInBlock (param e)" using p by simp
  then have fit: "totalPhysicalBlocks (param e) * 64 \<le> ?n" using ge by linarith
  have n32: "?n < 2 ^ 32" using le t by linarith
  have n0: "0 < ?n" by (simp add: DIVCEIL_def)
  have "bs_sized ?n (bs_reset_all (Bitset_new ?n))" by (rule bs_sized_ops(4) [OF bs_sized_new [OF n0]])
  then have "refresh_ready e (setupRefresh e s)"
    using o q fit n32 g by (simp add: refresh_ready_def queues_ok_def setupRefresh_def Let_def opening_at_def)
  moreover have "open_ready e (setupRefresh e s)"
  proof -
    have "findBlock (setupRefresh e s) = findBlock s" by (rule core_cong(1)) simp
    then show ?thesis
      using o i k by (auto simp: open_ready_def opening_at_def in_set_conv_nth setupRefresh_def Let_def)
  qed
  ultimately show ?thesis by (simp add: ready_def)
qed

end
