(* ===== verification/FtlSession.thy ===== *)
theory FtlSession
  imports FtlProgress
begin

text \<open>
  Sessions that complete. The initial filling and every sequence of reads, writes and trims of
  fully mapped pages run to the end without a panic, an exception or undefined behaviour, as long
  as the page writes fit into the room left before garbage collection starts; and the mapping then
  holds exactly the units the specification of the commands says.
\<close>

subsection \<open>One command\<close>

definition cmd_ok :: "env \<Rightarrow> (u64 \<times> nat) set \<Rightarrow> ftl_cmd \<Rightarrow> bool" where
  "cmd_ok e L c =
     (case c of
        CmdRead req t \<Rightarrow> True
      | CmdWrite req t \<Rightarrow> bs_sized (ioUnitInPage (param e)) (freq_ioFlag req) \<and> 0 < bs_count (freq_ioFlag req)
      | CmdTrim req t \<Rightarrow> (\<forall>i<bitsetSize e. (freq_lpn req, i) \<in> L)
      | CmdFormat rng t \<Rightarrow> False
      | CmdRefresh t \<Rightarrow> False)"

definition cmd_writes :: "ftl_cmd \<Rightarrow> nat" where
  "cmd_writes c = (case c of CmdWrite req t \<Rightarrow> 1 | _ \<Rightarrow> 0)"

fun session_ok :: "env \<Rightarrow> (u64 \<times> nat) set \<Rightarrow> ftl_cmd list \<Rightarrow> bool" where
  "session_ok e L [] = True"
| "session_ok e L (c # cs) = (cmd_ok e L c \<and> session_ok e (ftl_spec e c L) cs)"

definition session_writes :: "ftl_cmd list \<Rightarrow> nat" where
  "session_writes cs = sum_list (map cmd_writes cs)"

definition at_work :: "env \<Rightarrow> nat \<Rightarrow> (u64 \<times> nat) set \<Rightarrow> PageMapping \<Rightarrow> bool" where
  "at_work e k L s \<longleftrightarrow> env_ok e \<and> wrap32 (hotColdSeperation (conf e)) = 0 \<and> serves e L s \<and> ready e s \<and> headroom e k s"

lemma at_work_calm:
  assumes "at_work e k L s" and "calm s s'" and "serves e L' s'"
  shows "at_work e k L' s'"
  using assms calm_keeps(1,3) [OF assms(2), of e] calm_keeps(2) [OF assms(2)] by (auto simp: at_work_def headroom_def)

lemma calm_latency:
  assumes "totE (\<lambda>(t, s'). serves e L s' \<and> calm s s') m"
  shows "totE (\<lambda>(t, s'). serves e L s' \<and> calm s s') (bindE m (\<lambda>(t, s'). Inr (addLatency e f t s')))"
  using assms
proof (rule totE_bindI, clarify)
  fix t s1
  assume "serves e L s1" and "calm s s1"
  then show "totE (\<lambda>(t, s'). serves e L s' \<and> calm s s') (Inr (addLatency e f t s1))"
    using serves_core [OF _ core_ext(6), of e L s1 e f t] calm_trans [OF _ calm_ext(3), of s s1 e f t]
    by (simp add: case_prod_unfold)
qed

lemma trimInternal_total:
  assumes sv: "serves e L s" and all: "\<forall>i<bitsetSize e. (freq_lpn req, i) \<in> L"
  shows "totE (\<lambda>(t', s'). serves e {(l, i) \<in> L. l \<noteq> freq_lpn req} s' \<and> calm s s') (trimInternal e req t s)"
proof (cases "findMapping s (freq_lpn req)")
  case None
  then have "trimInternal e req t s = Inr (t, s)" by (simp add: trimInternal_def)
  then show ?thesis using trimInternal_ok [OF sv, of req t] by simp
next
  case (Some ml)
  then show ?thesis using trimInternal_cases(1) [OF sv Some all] by simp
qed

lemma cmd_total:
  assumes w: "at_work e (k + cmd_writes c) L s" and c: "cmd_ok e L c"
  shows "totE (at_work e k (ftl_spec e c L)) (ftl_exec e c s)"
proof -
  have sv: "serves e L s" using w by (simp add: at_work_def)
  have calm: "totE (at_work e k L') (bindE (bindE m (\<lambda>(t1, s1). Inr (addLatency e f t1 s1))) (\<lambda>(t', s'). Inr s'))"
    if "totE (\<lambda>(t', s'). serves e L' s' \<and> calm s s') m" and "at_work e k L s" for m :: "(tick \<times> PageMapping) res" and f L'
    by (rule totE_bindI [OF calm_latency [OF that(1)]]) (auto intro: at_work_calm [OF that(2)])
  show ?thesis
  proof (cases c)
    case (CmdRead req t)
    then show ?thesis
      using calm [OF ftlRead_total [OF sv, of req t]] w
      by (simp add: ftl_exec_def FTL_read_def ftl_spec_def cmd_writes_def)
  next
    case (CmdWrite req t)
    have h: "headroom e (Suc k) s" using w CmdWrite by (simp add: at_work_def cmd_writes_def)
    have pre: "bs_sized (ioUnitInPage (param e)) (freq_ioFlag req)" "0 < bs_count (freq_ioFlag req)"
      using c CmdWrite by (auto simp: cmd_ok_def)
    have a: "env_ok e" "ready e s" "wrap32 (hotColdSeperation (conf e)) = 0" using w by (auto simp: at_work_def)
    obtain t1 s1 where r: "ftlWrite e req t s = Inr (t1, s1)" and s1: "at_work e k (L \<union> unitsOf e req) s1"
      using ftlWrite_total [OF a(1) sv a(2) h pre a(3), of t] a by (auto simp: totE_iff at_work_def)
    let ?s2 = "snd (addLatency e CpuFTL_WRITE t1 s1)"
    have "serves e (L \<union> unitsOf e req) ?s2"
      using s1 serves_core [OF _ core_ext(6)] by (auto simp: at_work_def)
    then have "at_work e k (L \<union> unitsOf e req) ?s2" by (rule at_work_calm [OF s1 calm_ext(3)])
    then show ?thesis
      using CmdWrite r pre(2) by (simp add: ftl_exec_def FTL_write_def ftl_spec_def case_prod_unfold)
  next
    case (CmdTrim req t)
    have "totE (\<lambda>(t', s'). serves e {(l, i) \<in> L. l \<noteq> freq_lpn req} s' \<and> calm s s') (ftlTrim e req t s)"
      unfolding ftlTrim_def by (rule calm_latency [OF trimInternal_total [OF sv]]) (use c CmdTrim in \<open>simp add: cmd_ok_def\<close>)
    from calm [OF this] show ?thesis
      using w CmdTrim by (simp add: ftl_exec_def FTL_trim_def ftl_spec_def cmd_writes_def)
  qed (use c in \<open>auto simp: cmd_ok_def\<close>)
qed

subsection \<open>A whole session\<close>

lemma session_total:
  "at_work e (k + session_writes cs) L s \<Longrightarrow> session_ok e L cs \<Longrightarrow>
   totE (at_work e k (fold (ftl_spec e) cs L)) (foldE (ftl_exec e) cs s)"
proof (induction cs arbitrary: L s)
  case (Cons c cs)
  have "at_work e (k + session_writes cs + cmd_writes c) L s"
    using Cons.prems(1) by (simp add: session_writes_def algebra_simps)
  then have "totE (at_work e (k + session_writes cs) (ftl_spec e c L)) (ftl_exec e c s)"
    by (rule cmd_total) (use Cons.prems(2) in simp)
  then show ?case by (auto intro: totE_bindI Cons.IH Cons.prems(2) [simplified, THEN conjunct2])
qed (simp add: session_writes_def)

subsection \<open>The initial filling completes\<close>

lemma fillPage_total:
  assumes w: "at_work e (Suc k) L s" and pk: "param_ok e"
  shows "totE (at_work e k (L \<union> fullPages e {lpn})) (fillPage e writeInternal lpn s)"
proof -
  have "bs_sized (ioUnitInPage (param e)) (freq_ioFlag (fillRequest e lpn))"
    using pk by (simp add: fillRequest_def FtlRequest_new_def param_ok_def bs_sized_new bs_sized_ops)
  then show ?thesis
    using w writeInternal_total [of e L s k "fillRequest e lpn" 0 False]
    by (auto simp: fillPage_def at_work_def fillRequest_units [OF pk] totE_iff)
qed

lemma fillPages_total:
  assumes pk: "param_ok e"
  shows "at_work e (k + length ls) L s \<Longrightarrow>
    totE (at_work e k (L \<union> fullPages e (set ls))) (foldE (fillPage e writeInternal) ls s)"
proof (induction ls arbitrary: L s)
  case Nil
  then show ?case by (simp add: fullPages_def)
next
  case (Cons l ls)
  have u: "L \<union> fullPages e {l} \<union> fullPages e (set ls) = L \<union> fullPages e (set (l # ls))"
    by (auto simp: fullPages_def)
  have "totE (at_work e (k + length ls) (L \<union> fullPages e {l})) (fillPage e writeInternal l s)"
    by (rule fillPage_total [OF _ pk]) (use Cons.prems in simp)
  then show ?case using Cons.IH [of "L \<union> fullPages e {l}"] unfolding u by (auto intro: totE_bindI)
qed

lemma ftlInitialize_total:
  assumes pk: "param_ok e" and w: "at_work e (k + inval + warm) {} (setupRefresh e s)"
    and n: "pagesToWarmup e = Inr warm" "pagesToInvalidate e warm = Inr inval"
  shows "totE (at_work e k (fullPages e (warmPages e warm \<union> overwrittenPages e inval))) (ftlInitialize e s)"
proof -
  have sep: "wrap32 (hotColdSeperation (conf e)) = 0" using w by (simp add: at_work_def)
  have 1: "totE (at_work e j (L \<union> fullPages e (warmPages e warm))) (fillStep1 e warm s1)"
    if "at_work e (j + warm) L s1" for j L s1
    using that fillPages_total [OF pk, of j "map of_nat [0..<warm]" L s1]
      fillPages_total [OF pk, of j "map (fillDraws e 1) [0..<warm]" L s1] sep
    by (auto simp: fillStep1_def warmPages_def fillRandom_def fillSequential_def foldE_map atLeast0LessThan)
  have 2: "totE (at_work e j (L \<union> fullPages e (overwrittenPages e inval))) (fillStep2 e inval s1)"
    if "at_work e (j + inval) L s1" for j L s1
    using that fillPages_total [OF pk, of j "map of_nat [0..<inval]" L s1]
      fillPages_total [OF pk, of j "map (fillDraws e 2) [0..<inval]" L s1]
    by (auto simp: fillStep2_def overwrittenPages_def fillRandom_def fillSequential_def foldE_map atLeast0LessThan)
  have u: "{} \<union> fullPages e A \<union> fullPages e B = fullPages e (A \<union> B)" for A B by (auto simp: fullPages_def)
  have "totE (at_work e k ({} \<union> fullPages e (warmPages e warm) \<union> fullPages e (overwrittenPages e inval)))
      (bindE (fillStep1 e warm (setupRefresh e s)) (fillStep2 e inval))"
    by (rule totE_bindI [OF 1 2]) (use w in auto)
  then show ?thesis unfolding u by (simp add: ftlInitialize_def n)
qed

subsection \<open>A device that starts up\<close>

text \<open>The configurations of a device without hot/cold separation that starts and then has room for k writes.\<close>

definition device_ok :: "env \<Rightarrow> bool" where
  "device_ok e \<longleftrightarrow> env_ok e \<and> param_ok e \<and> wrap32 (hotColdSeperation (conf e)) = 0 \<and>
     0 < pageCountToMaxPerf (param e) \<and> pageCountToMaxPerf (param e) < totalPhysicalBlocks (param e) \<and>
     512 \<le> pagesInBlock (param e) \<and> totalPhysicalBlocks (param e) * pagesInBlock (param e) < 2 ^ 32 \<and>
     0 < num_queue e \<and> (wrap32 (refreshMode (conf e)) = 1 \<longrightarrow> wrap32 (refreshGroupingSize (conf e)) \<noteq> 0)"

lemma PageMapping_new_at_work:
  assumes d: "device_ok e" and f: "fits e k"
  shows "totE (\<lambda>s. at_work e k {} (setupRefresh e s)) (PageMapping_new e now)"
proof -
  let ?n = "totalPhysicalBlocks (param e)"
  have a: "env_ok e" "param_ok e" "wrap32 (hotColdSeperation (conf e)) = 0" "0 < pageCountToMaxPerf (param e)"
    "pageCountToMaxPerf (param e) \<le> ?n" "512 \<le> pagesInBlock (param e)" "?n * pagesInBlock (param e) < 2 ^ 32" "0 < num_queue e"
    "wrap32 (refreshMode (conf e)) = 1 \<Longrightarrow> wrap32 (refreshGroupingSize (conf e)) \<noteq> 0" "0 < ?n"
    using d by (auto simp: device_ok_def)
  have "?n * 1 \<le> ?n * pagesInBlock (param e)" using a(6) by (intro mult_le_mono) auto
  then have n32: "?n < 2 ^ 32" using a(7) by linarith
  show ?thesis
  proof (rule totE_mono [OF PageMapping_new_total [OF a(1-3) n32 a(4,5)]], elim conjE)
    fix s
    assume o: "opening_at e (pageCountToMaxPerf (param e)) s" and i: "lastFreeBlockIndex s = 0"
    have fb: "findBlock (setupRefresh e s) = findBlock s" by (rule core_cong(1)) simp
    have "headroom e k (setupRefresh e s)"
      using opening_headroom [OF o a(5) f] fb
      by (simp add: headroom_def capacity_def blockRoom_def) (simp add: setupRefresh_def Let_def)
    moreover have "serves e {} (setupRefresh e s)" using o serves_core_iff [OF setupRefresh_core] by (auto simp: opening_at_def)
    ultimately show "at_work e k {} (setupRefresh e s)"
      using a(1,3) setupRefresh_ready [OF o i a(4,8,6,7,9,10)] by (simp add: at_work_def)
  qed
qed

lemma FTL_new_total:
  assumes p: "FTL_param pp (conf e0) = Inr p" and e: "e = e0\<lparr>param := p\<rparr>" and d: "device_ok e"
    and op: "wrap64 (totalLogicalBlocks p + pageCountToMaxPerf p) < totalPhysicalBlocks p"
    and n: "pagesToWarmup e = Inr warm" "pagesToInvalidate e warm = Inr inval" and f: "fits e (k + inval + warm)"
  shows "totE (\<lambda>(e', s). e' = e \<and> at_work e k (fullPages e (warmPages e warm \<union> overwrittenPages e inval)) s)
           (FTL_new e0 pp now)"
proof -
  obtain s where s: "PageMapping_new e now = Inr s" and w: "at_work e (k + inval + warm) {} (setupRefresh e s)"
    using PageMapping_new_at_work [OF d f, of now] by (auto simp: totE_iff)
  have "param_ok e" using d by (simp add: device_ok_def)
  then show ?thesis
    using ftlInitialize_total [OF _ w n] p op s e by (auto simp: FTL_new_def totE_iff)
qed

end
