(* ===== verification/FtlDemo.thy ===== *)
theory FtlDemo
  imports FtlSession "HOL-Library.Code_Target_Nat"
begin

text \<open>
  A small concrete device on which the theorems of the development are applied: surroundings
  that answer every call with 0, hash tables that keep insertion order, an insertion sort for
  \<open>std::sort\<close>, five blocks of two pages. \<open>big_env\<close> is the same device with 512 pages per block,
  the smallest block size the refresh tables are made for.
\<close>

fun insW :: "nat \<times> f32 \<Rightarrow> weights_t \<Rightarrow> weights_t" where
  "insW x [] = [x]"
| "insW x (y # ys) = (if f32_less (snd y) (snd x) then y # insW x ys else x # y # ys)"

definition sortW :: "weights_t \<Rightarrow> weights_t" where
  "sortW ws = foldr insW ws []"

definition demo_conf :: FtlConfig where
  "demo_conf = \<lparr>overProvision = F32 (1 / 2), gcThreshold = F32 (1 / 2), badBlockThreshold = 100000,
     fillingMode = FILLING_MODE_0, fillingRatio = F32 0, invalidRatio = F32 0, reclaimBlock = 1,
     reclaimThreshold = F32 0, gcMode = GC_MODE_0, evictPolicy = POLICY_GREEDY, dChoiceParam = 3,
     randomIOTweak = True, refreshFilterNum = 2, refreshMode = 4, refreshMaxLayerNum = 4,
     refreshMaxRBER = F32 0, recoGCParam = F32 0, refreshGroupingSize = 3, initEraseCount = 0,
     hotColdSeperation = 0, hotBlocksRatio = F32 (1 / 4), coolDownWindowSize = 4\<rparr>"

definition demo_param :: Parameter where
  "demo_param = \<lparr>totalPhysicalBlocks = 5, totalLogicalBlocks = 2, pagesInBlock = 2, pageSize = 4096,
     ioUnitInPage = 1, pageCountToMaxPerf = 1\<rparr>"

definition demo_env :: env where
  "demo_env = \<lparr>param = demo_param, conf = demo_conf,
     extTick = (\<lambda>h c. 0), extRBER = (\<lambda>h c. F32 0), shuffleBlocks = (\<lambda>x. x), shuffleTable = (\<lambda>x. x),
     sortWeights = sortW, randomDraws = (\<lambda>h n. []), fillDraws = (\<lambda>k i. 0), uninitTick = 0\<rparr>"

definition demo_pal :: PalParameter where
  "demo_pal = \<lparr>pal_superBlock = 5, pal_block = 5, pal_page = 2, pal_superPageSize = 4096, pal_pageInSuperPage = 1\<rparr>"

definition big_env :: env where
  "big_env = demo_env\<lparr>param := demo_param\<lparr>pagesInBlock := 512\<rparr>\<rparr>"

definition big_pal :: PalParameter where
  "big_pal = demo_pal\<lparr>pal_page := 512\<rparr>"

definition sep_env :: env where
  "sep_env = demo_env\<lparr>param := demo_param\<lparr>totalPhysicalBlocks := 8, totalLogicalBlocks := 4, pagesInBlock := 1\<rparr>,
     conf := demo_conf\<lparr>hotColdSeperation := 1, hotBlocksRatio := F32 (1 / 2)\<rparr>\<rparr>"

definition sep_pal :: PalParameter where
  "sep_pal = demo_pal\<lparr>pal_superBlock := 8, pal_block := 8, pal_page := 1\<rparr>"

definition demo_req :: "u64 \<Rightarrow> FtlRequest" where
  "demo_req lpn = \<lparr>freq_reqID = 0, freq_reqSubID = 0, freq_lpn = lpn, freq_ioFlag = bs_set_all (Bitset_new 1)\<rparr>"

definition demo_write :: "u64 \<Rightarrow> ftl_cmd" where
  "demo_write lpn = CmdWrite (demo_req lpn) 0"

definition demo_session :: "ftl_cmd list" where
  "demo_session = [demo_write 0, demo_write 1, CmdRead (demo_req 0) 0, demo_write 0, CmdTrim (demo_req 1) 0]"

definition demo_run :: "ftl_cmd list \<Rightarrow> PageMapping res" where
  "demo_run cs = bindE (FTL_new demo_env demo_pal 0) (\<lambda>(e, s). foldE (ftl_exec e) cs s)"

subsection \<open>The surroundings satisfy what is asked of them\<close>

lemma mset_insW: "mset (insW x ws) = mset (x # ws)"
  by (induction ws) auto

lemma mset_sortW: "mset (sortW ws) = mset ws"
  by (induction ws) (auto simp: sortW_def mset_insW)

lemma set_insW [simp]: "set (insW x ws) = insert x (set ws)"
  using mset_eq_setD [OF mset_insW [of x ws]] by simp

lemma insW_sorted:
  assumes "F32NaN \<notin> snd ` set (x # ws)" and "weights_sorted ws"
  shows "weights_sorted (insW x ws)"
  using assms
proof (induction ws)
  case (Cons y ys)
  have n: "snd x \<noteq> F32NaN" "snd y \<noteq> F32NaN" "\<And>z. z \<in> set ys \<Longrightarrow> snd z \<noteq> F32NaN"
    using Cons.prems(1) by (auto simp: image_iff)
  show ?case
  proof (cases "f32_less (snd y) (snd x)")
    case True
    then have "\<not> f32_less (snd x) (snd y)" using f32_less_trans f32_less_irrefl by blast
    then show ?thesis using Cons True by (auto simp: weights_sorted_def)
  next
    case False
    then have "\<not> f32_less (snd z) (snd x)" if "z \<in> set ys" for z
      using f32_less_negtrans [of "snd z" "snd y" "snd x"] n that Cons.prems(2) by (auto simp: weights_sorted_def)
    then show ?thesis using Cons.prems False by (auto simp: weights_sorted_def)
  qed
qed (simp add: weights_sorted_def)

lemma sortW_sorted: "F32NaN \<notin> snd ` set ws \<Longrightarrow> weights_sorted (sortW ws)"
proof (induction ws)
  case (Cons x ws)
  have s: "set (sortW ws) = set ws" by (rule mset_eq_setD [OF mset_sortW])
  have "weights_sorted (insW x (sortW ws))"
    by (rule insW_sorted) (use Cons s in auto)
  then show ?case by (simp add: sortW_def)
qed (simp add: sortW_def weights_sorted_def)

lemma demo_env_ok [simp]: "env_ok demo_env" "env_ok big_env" "env_ok sep_env"
  by (simp_all add: env_ok_def demo_env_def big_env_def sep_env_def mset_sortW sortW_sorted)

lemma demo_param_ok [simp]: "param_ok demo_env" "param_ok big_env" "param_ok sep_env"
  by (simp_all add: param_ok_def demo_env_def big_env_def sep_env_def demo_param_def)

lemma env_selectors [simp]:
  "param demo_env = demo_param" "conf demo_env = demo_conf"
  "param big_env = demo_param\<lparr>pagesInBlock := 512\<rparr>" "conf big_env = demo_conf"
  "param sep_env = demo_param\<lparr>totalPhysicalBlocks := 8, totalLogicalBlocks := 4, pagesInBlock := 1\<rparr>"
  "conf sep_env = demo_conf\<lparr>hotColdSeperation := 1, hotBlocksRatio := F32 (1 / 2)\<rparr>"
  by (simp_all add: demo_env_def big_env_def sep_env_def)

lemma demo_FTL_param:
  "FTL_param demo_pal (conf demo_env) = Inr demo_param" "demo_env\<lparr>param := demo_param\<rparr> = demo_env"
  by code_simp (simp add: demo_env_def)

lemma big_FTL_param:
  "FTL_param big_pal (conf big_env) = Inr (demo_param\<lparr>pagesInBlock := 512\<rparr>)"
  "big_env\<lparr>param := demo_param\<lparr>pagesInBlock := 512\<rparr>\<rparr> = big_env"
  by code_simp (simp add: big_env_def)

subsection \<open>The larger device starts and works\<close>

lemma big_device: "device_ok big_env"
  by (simp add: device_ok_def) (simp add: demo_param_def demo_conf_def num_queue_def wrap32_def)

lemma big_quiet: "quiet big_env 3" "quiet big_env 4"
  by code_simp+

lemma big_fits: "fits big_env 1000"
proof -
  have "n = 3 \<or> n = 4" if "n \<le> 4" "2560 \<le> (n + 1) * 512 + 1000" for n :: nat using that by presburger
  then show ?thesis using big_quiet by (fastforce simp: fits_def demo_param_def)
qed

lemma big_fill: "pagesToWarmup big_env = Inr 0" "pagesToInvalidate big_env 0 = Inr 0"
  by code_simp+

lemma big_start: "\<exists>s. FTL_new big_env big_pal 0 = Inr (big_env, s) \<and> at_work big_env 1000 {} s"
proof -
  have "fits big_env (1000 + 0 + 0)" using big_fits by simp
  moreover have "warmPages big_env 0 \<union> overwrittenPages big_env 0 = {}"
    by (simp add: warmPages_def overwrittenPages_def demo_conf_def wrap32_def)
  ultimately show ?thesis
    using FTL_new_total [OF big_FTL_param(1) big_FTL_param(2) [symmetric] big_device _ big_fill, of 1000 0]
    by (auto simp: totE_iff fullPages_def demo_param_def wrap64_def)
qed

lemma demo_req_sized: "bs_sized 1 (freq_ioFlag (demo_req l))" "bs_count (freq_ioFlag (demo_req l)) = 1"
  "bs_test (freq_ioFlag (demo_req l)) 0" "freq_lpn (demo_req l) = l"
  unfolding demo_req_def FtlRequest.simps
  by (rule bs_sized_ops(3) [OF bs_sized_new], simp) (code_simp, code_simp, rule refl)

lemma big_units: "unitsOf big_env (demo_req l) = {(l, 0)}"
  by (auto simp: unitsOf_def addressed_def demo_req_sized bitsetSize_def bRandomTweak_def demo_conf_def demo_param_def)

lemma big_written: "\<exists>s. at_work big_env 999 {(l, 0)} s"
proof -
  obtain s where "at_work big_env (999 + cmd_writes (demo_write l)) {} s"
    using big_start by (auto simp: demo_write_def cmd_writes_def)
  then have "totE (at_work big_env 999 (ftl_spec big_env (demo_write l) {})) (ftl_exec big_env (demo_write l) s)"
    by (rule cmd_total) (simp add: cmd_ok_def demo_write_def demo_req_sized del: One_nat_def, simp add: demo_param_def demo_req_sized del: One_nat_def)
  then show ?thesis
    by (auto simp: totE_iff ftl_spec_def demo_write_def demo_req_sized big_units)
qed

subsection \<open>Runs of the small devices\<close>

text \<open>These are computed.\<close>

lemma demo_session_runs: "totE (\<lambda>s. True) (demo_run demo_session)"
  by code_simp

lemma demo_gc_runs:
  "totE (\<lambda>s. totE (\<lambda>x. True) (doGarbageCollection demo_env [0] 0 False s)) (demo_run [demo_write 0, demo_write 1, demo_write 0])"
  by code_simp

lemma demo_refresh_runs: "totE (\<lambda>s. totE (\<lambda>x. True) (refresh_event demo_env 0 s)) (demo_run [demo_write 0])"
  by code_simp

lemma demo_format_runs:
  "totE (\<lambda>s. totE (\<lambda>x. True) (ftlFormat demo_env \<lparr>slpn = 0, nlp = 10\<rparr> 0 s)) (demo_run [demo_write 0, demo_write 1, demo_write 0])"
  by code_simp

definition sep_run :: "ftl_cmd list \<Rightarrow> PageMapping res" where
  "sep_run cs = bindE (FTL_new sep_env sep_pal 0) (\<lambda>(e, s). foldE (ftl_exec e) cs s)"

lemma sep_hot_runs:
  "totE (\<lambda>s. totE (\<lambda>x. True) (sepHotWriteInternal sep_env (demo_req 2) 0 True s)) (sep_run [demo_write 0])"
  by code_simp

lemma sep_gc_runs:
  "totE (\<lambda>s. totE (\<lambda>x. True) (sepDoGarbageCollection sep_env [4] 0 False COLD s)) (sep_run [demo_write 0])"
  by code_simp

lemma FTL_new_env: "FTL_new e0 pp now = Inr (e, s) \<Longrightarrow> FTL_param pp (conf e0) = Inr p \<Longrightarrow> e = e0\<lparr>param := p\<rparr>"
  by (auto simp: FTL_new_def Let_def)

lemma sep_FTL_param:
  "FTL_param sep_pal (conf sep_env) = Inr (param sep_env)"
  by code_simp

lemma small_pools_fit: "pools_fit demo_env" "pools_fit sep_env"
  by code_simp+

lemma demo_new_serves:
  assumes "FTL_new demo_env demo_pal 0 = Inr (e, s)"
  shows "e = demo_env" and "\<exists>L. serves demo_env L s"
proof -
  show e: "e = demo_env" using FTL_new_env [OF assms demo_FTL_param(1)] demo_FTL_param(2) by simp
  show "\<exists>L. serves demo_env L s" using FTL_new_ok(2) [OF assms] small_pools_fit by (auto simp: e)
qed

lemma sep_run_serves:
  assumes "sep_run cs = Inr s"
  shows "\<exists>L. serves sep_env L s"
proof -
  have same: "sep_env\<lparr>param := param sep_env\<rparr> = sep_env" by (simp add: sep_env_def demo_env_def)
  obtain e s0 where n0: "FTL_new sep_env sep_pal 0 = Inr (e, s0)" and r0: "foldE (ftl_exec e) cs s0 = Inr s"
    using assms by (auto simp: sep_run_def)
  have e: "e = sep_env" using FTL_new_env [OF n0 sep_FTL_param] same by (simp only:)
  note n = n0 [unfolded e] and r = r0 [unfolded e]
  obtain L where "serves sep_env L s0" using FTL_new_ok(2) [OF n] small_pools_fit(2) by auto
  then show ?thesis using ftl_service.run_result [OF _ r, of L] by auto
qed

lemma demo_run_serves:
  assumes "demo_run cs = Inr s"
  shows "\<exists>L. serves demo_env L s"
proof -
  obtain s0 where n: "FTL_new demo_env demo_pal 0 = Inr (demo_env, s0)" and r: "foldE (ftl_exec demo_env) cs s0 = Inr s"
    using assms demo_new_serves(1) by (auto simp: demo_run_def)
  obtain L where "serves demo_env L s0" using demo_new_serves(2) [OF n] by blast
  then show ?thesis using ftl_service.run_result [OF _ r, of L] by auto
qed

end
