(* ===== verification/Engine.thy ===== *)
theory Engine
  imports Prelude
begin

text \<open>
  The discrete event engine (\<open>src/sim/engine.cc\<close>, \<open>src/sim/engine.hh\<close>). Its state is the record
  \<open>Engine\<close>: the clock, the counter of event numbers, the stop flag, the table of event functions
  (\<open>std::unordered_map\<close>, an association list) and the queue of pending events
  (\<open>std::list\<close>, in the order of their ticks).
  An event function is a value of the type parameter \<open>'h\<close>; what calling it does is the parameter
  \<open>call\<close> of \<open>doNextEvent\<close>, on the engine and the rest \<open>'w\<close> of the simulator. What is assumed of
  it, where it matters, is that it changes the engine through the interface only
  (\<open>engine_step\<close>), since all fields are private.
  The queue is shown to implement the interface \<open>agenda\<close>, a finite map from events to ticks
  with a least element; the engine's laws (the clock never goes back, an event fires once, at the
  tick it was scheduled for, and never before an earlier one) rest on that interface.
\<close>

section \<open>Interface: an agenda\<close>

locale agenda =
  fixes inv :: "'q \<Rightarrow> bool"
    and due :: "'q \<Rightarrow> 'k \<Rightarrow> 't::linorder option"
    and put :: "'k \<Rightarrow> 't \<Rightarrow> 'q \<Rightarrow> 'q"
    and cancel :: "'k \<Rightarrow> 'q \<Rightarrow> 'q"
    and first :: "'q \<Rightarrow> ('k \<times> 't) option"
  assumes inv_put: "inv q \<Longrightarrow> inv (put k t q)"
    and inv_cancel: "inv q \<Longrightarrow> inv (cancel k q)"
    and due_put: "inv q \<Longrightarrow> due (put k t q) = (due q)(k \<mapsto> t)"
    and due_cancel: "inv q \<Longrightarrow> due (cancel k q) = (due q)(k := None)"
    and first_None: "inv q \<Longrightarrow> first q = None \<longleftrightarrow> due q = Map.empty"
    and first_due: "inv q \<Longrightarrow> first q = Some (k, t) \<Longrightarrow> due q k = Some t"
    and first_least: "inv q \<Longrightarrow> first q = Some (k, t) \<Longrightarrow> due q k' = Some t' \<Longrightarrow> t \<le> t'"
begin

text \<open>Nothing on the agenda is due before \<open>now\<close>.\<close>

definition ahead :: "'t \<Rightarrow> 'q \<Rightarrow> bool" where
  "ahead now q \<longleftrightarrow> (\<forall>k t. due q k = Some t \<longrightarrow> now \<le> t)"

lemma ahead_put: "inv q \<Longrightarrow> ahead now q \<Longrightarrow> now \<le> t \<Longrightarrow> ahead now (put k t q)"
  by (auto simp: ahead_def due_put)

lemma ahead_cancel: "inv q \<Longrightarrow> ahead now q \<Longrightarrow> ahead now (cancel k q)"
  by (auto simp: ahead_def due_cancel)

lemma ahead_first: "inv q \<Longrightarrow> first q = Some (k, t) \<Longrightarrow> ahead t (cancel k q)"
  by (auto simp: ahead_def due_cancel dest: first_least)

lemma first_ahead: "inv q \<Longrightarrow> ahead now q \<Longrightarrow> first q = Some (k, t) \<Longrightarrow> now \<le> t"
  by (auto simp: ahead_def dest: first_due)

lemma first_put:
  assumes "inv q" and "first (put k t q) = Some (k', t')"
  shows "t' \<le> t" and "k' \<noteq> k \<Longrightarrow> due q k' = Some t'"
  using first_least [OF inv_put [OF assms(1)] assms(2), of k t]
    first_due [OF inv_put [OF assms(1)] assms(2)] by (auto simp: due_put [OF assms(1)])

end

section \<open>The engine\<close>

type_synonym eventq = "(u64 \<times> tick) list"

record 'h Engine =
  simTick :: tick
  counter :: u64
  forceStop :: bool
  eventList :: "(u64 \<times> 'h) list"
  eventQueue :: eventq
  eventHandled :: u64

definition Engine_new :: "'h Engine" where
  "Engine_new = \<lparr>simTick = 0, counter = 0, forceStop = False, eventList = [], eventQueue = [],
     eventHandled = 0\<rparr>"

text \<open>
  \<open>insertEvent\<close> walks over the whole queue once, remembering in \<open>old\<close> the (last) entry of the event
  and in \<open>insert\<close> the first entry with a later tick; both iterators are positions here. The new
  entry is inserted first and the old one erased afterwards; \<open>p\<close> says whether the caller passed
  a place for the old tick.
\<close>

fun scanQueue :: "u64 \<Rightarrow> tick \<Rightarrow> nat \<Rightarrow> eventq \<Rightarrow> nat option \<times> nat option \<Rightarrow> nat option \<times> nat option" where
  "scanQueue eid t i [] r = r"
| "scanQueue eid t i (x # q) (old, ins) =
     scanQueue eid t (Suc i) q
       (if fst x = eid then Some i else old, if t < snd x \<and> ins = None then Some i else ins)"

definition insertNode :: "nat \<Rightarrow> 'a \<Rightarrow> 'a list \<Rightarrow> 'a list" where
  "insertNode i x q = take i q @ x # drop i q"

definition eraseNode :: "nat \<Rightarrow> 'a list \<Rightarrow> 'a list" where
  "eraseNode i q = take i q @ drop (Suc i) q"

definition insertEvent :: "u64 \<Rightarrow> tick \<Rightarrow> bool \<Rightarrow> eventq \<Rightarrow> bool \<times> tick option \<times> eventq" where
  "insertEvent eid t p q =
     (let (old, ins) = scanQueue eid t 0 q (None, None);
          oldTick = (if p then map_option (\<lambda>j. snd (q ! j)) old else None);
          i = (case ins of None \<Rightarrow> length q | Some i \<Rightarrow> i);
          q1 = insertNode i (eid, t) q
      in if oldTick = Some t then (False, oldTick, q)
         else case old of
           None \<Rightarrow> (False, oldTick, q1)
         | Some j \<Rightarrow> (True, oldTick, eraseNode (if i \<le> j then Suc j else j) q1))"

fun removeEvent :: "u64 \<Rightarrow> eventq \<Rightarrow> bool \<times> eventq" where
  "removeEvent eid [] = (False, [])"
| "removeEvent eid (x # q) =
     (if fst x = eid then (True, q) else (let (f, q') = removeEvent eid q in (f, x # q')))"

definition isEventExist :: "u64 \<Rightarrow> eventq \<Rightarrow> tick option" where
  "isEventExist eid q = map_of q eid"

definition getCurrentTick :: "'h Engine \<Rightarrow> tick" where
  "getCurrentTick E = simTick E"

definition allocateEvent :: "'h \<Rightarrow> 'h Engine \<Rightarrow> (u64 \<times> 'h Engine) res" where
  "allocateEvent func E =
     (let c = counter E + 1
      in guardE (map_of (eventList E) c = None) (Panic ''Fail to allocate event'')
           (Inr (c, E\<lparr>counter := c, eventList := (c, func) # eventList E\<rparr>)))"

definition knownEvent :: "u64 \<Rightarrow> 'h Engine \<Rightarrow> bool" where
  "knownEvent eid E \<longleftrightarrow> map_of (eventList E) eid \<noteq> None"

definition scheduleEvent :: "u64 \<Rightarrow> tick \<Rightarrow> 'h Engine \<Rightarrow> 'h Engine res" where
  "scheduleEvent eid t E =
     guardE (knownEvent eid E) (Panic ''Event does not exists'')
       (let t' = (if t < simTick E then simTick E else t)
        in Inr (E\<lparr>eventQueue := snd (snd (insertEvent eid t' True (eventQueue E)))\<rparr>))"

definition descheduleEvent :: "u64 \<Rightarrow> 'h Engine \<Rightarrow> 'h Engine res" where
  "descheduleEvent eid E =
     guardE (knownEvent eid E) (Panic ''Event does not exists'')
       (Inr (E\<lparr>eventQueue := snd (removeEvent eid (eventQueue E))\<rparr>))"

definition isScheduled :: "u64 \<Rightarrow> 'h Engine \<Rightarrow> tick option res" where
  "isScheduled eid E =
     guardE (knownEvent eid E) (Panic ''Event does not exists'') (Inr (isEventExist eid (eventQueue E)))"

definition deallocateEvent :: "u64 \<Rightarrow> 'h Engine \<Rightarrow> 'h Engine res" where
  "deallocateEvent eid E =
     guardE (knownEvent eid E) (Panic ''Event does not exists'')
       (Inr (E\<lparr>eventQueue := snd (removeEvent eid (eventQueue E)),
               eventList := AList.delete eid (eventList E)\<rparr>))"

definition stopEngine :: "'h Engine \<Rightarrow> 'h Engine" where
  "stopEngine E = E\<lparr>forceStop := True\<rparr>"

text \<open>
  \<open>doNextEvent\<close>. When the function of the event is not in the table the code reads the entry it
  has just removed from the list in order to print its number: undefined behaviour.
\<close>

definition doNextEvent ::
  "('h \<Rightarrow> tick \<Rightarrow> 'h Engine \<times> 'w \<Rightarrow> ('h Engine \<times> 'w) res) \<Rightarrow> 'h Engine \<times> 'w \<Rightarrow> (bool \<times> 'h Engine \<times> 'w) res" where
  "doNextEvent call S =
     (let (E, w) = S
      in if forceStop E then Inr (False, S)
         else case eventQueue E of
           [] \<Rightarrow> Inr (False, S)
         | (eid, t) # q \<Rightarrow>
             (let E1 = E\<lparr>simTick := t, eventQueue := q\<rparr>
              in case map_of (eventList E) eid of
                   None \<Rightarrow> Inl (UB ''entry of the event queue read after it was removed'')
                 | Some func \<Rightarrow> bindE (call func t (E1, w))
                     (\<lambda>(E2, w'). Inr (True, E2\<lparr>eventHandled := eventHandled E2 + 1\<rparr>, w'))))"

text \<open>
  The main loop of the simulator, \<open>while (engine.doNextEvent());\<close>, with the number of iterations
  it may take.
\<close>

fun runEngine ::
  "('h \<Rightarrow> tick \<Rightarrow> 'h Engine \<times> 'w \<Rightarrow> ('h Engine \<times> 'w) res) \<Rightarrow> nat \<Rightarrow> 'h Engine \<times> 'w \<Rightarrow> ('h Engine \<times> 'w) res" where
  "runEngine call 0 S = Inl Diverge"
| "runEngine call (Suc n) S =
     bindE (doNextEvent call S) (\<lambda>(cont, S'). if cont then runEngine call n S' else Inr S')"

section \<open>The event queue is an agenda\<close>

definition queue_ok :: "eventq \<Rightarrow> bool" where
  "queue_ok q \<longleftrightarrow> sorted (map snd q) \<and> distinct (map fst q)"

text \<open>The reference definition: forget the event, then insert it after all that are not later.\<close>

definition reschedule :: "u64 \<Rightarrow> tick \<Rightarrow> eventq \<Rightarrow> eventq" where
  "reschedule eid t q =
     (let r = filter (\<lambda>x. fst x \<noteq> eid) q
      in takeWhile (\<lambda>x. snd x \<le> t) r @ (eid, t) # dropWhile (\<lambda>x. snd x \<le> t) r)"

lemma scanQueue_ins:
  "snd (scanQueue eid t i q (old, ins)) =
     (if ins \<noteq> None then ins
      else if \<exists>x\<in>set q. t < snd x then Some (i + length (takeWhile (\<lambda>x. snd x \<le> t) q)) else None)"
proof (induction q arbitrary: i old ins)
  case (Cons x q)
  then show ?case by (cases "t < snd x") (simp_all add: not_le [symmetric])
qed simp

lemma scanQueue_old_None:
  "eid \<notin> fst ` set q \<Longrightarrow> fst (scanQueue eid t i q (old, ins)) = old"
  by (induction q arbitrary: i old ins) (auto simp: image_iff)

lemma scanQueue_old_Some:
  "eid \<notin> fst ` set b \<Longrightarrow> fst (scanQueue eid t i (a @ (eid, t') # b) (old, ins)) = Some (i + length a)"
  by (induction a arbitrary: i old ins) (auto simp: scanQueue_old_None)

lemma takeWhile_all_length: "\<not> (\<exists>x\<in>set q. t < snd x) \<Longrightarrow> takeWhile (\<lambda>x. snd x \<le> (t::tick)) q = q"
  by (simp add: takeWhile_eq_all_conv not_less)

lemma insert_position:
  "(case snd (scanQueue eid t 0 q (None, None)) of None \<Rightarrow> length q | Some i \<Rightarrow> i) =
     length (takeWhile (\<lambda>x. snd x \<le> t) q)"
  by (cases "\<exists>x\<in>set q. t < snd x") (auto simp: scanQueue_ins takeWhile_all_length)

lemma insertNode_takeWhile:
  "insertNode (length (takeWhile P q)) x q = takeWhile P q @ x # dropWhile P q"
  by (metis append_eq_conv_conj insertNode_def takeWhile_dropWhile_id)

lemma eraseNode_append: "eraseNode (length a) (a @ x # b) = a @ b"
  by (simp add: eraseNode_def)

lemma length_takeWhile_dropWhile: "length (takeWhile P xs) + length (dropWhile P xs) = length xs"
  by (metis length_append takeWhile_dropWhile_id)

lemma insertEvent_eq:
  "insertEvent eid t p q =
     (let old = fst (scanQueue eid t 0 q (None, None));
          oldTick = (if p then map_option (\<lambda>j. snd (q ! j)) old else None);
          i = length (takeWhile (\<lambda>x. snd x \<le> t) q);
          q1 = takeWhile (\<lambda>x. snd x \<le> t) q @ (eid, t) # dropWhile (\<lambda>x. snd x \<le> t) q
      in if oldTick = Some t then (False, oldTick, q)
         else case old of
           None \<Rightarrow> (False, oldTick, q1)
         | Some j \<Rightarrow> (True, oldTick, eraseNode (if i \<le> j then Suc j else j) q1))"
  unfolding insertEvent_def Let_def case_prod_unfold insert_position insertNode_takeWhile ..


lemma filter_key_id: "k \<notin> fst ` set q \<Longrightarrow> filter (\<lambda>x. fst x \<noteq> k) q = q"
  by (induction q) auto

lemma insertEvent_new:
  assumes "eid \<notin> fst ` set q"
  shows "insertEvent eid t p q = (False, None, reschedule eid t q)"
proof -
  have "filter (\<lambda>x. fst x \<noteq> eid) q = q" by (rule filter_key_id [OF assms])
  then show ?thesis by (simp add: insertEvent_eq scanQueue_old_None [OF assms] reschedule_def Let_def)
qed

lemma sorted_tail_later:
  assumes "sorted (map snd (a @ (k, t') # b))" and "t < (t'::tick)"
  shows "takeWhile (\<lambda>x. snd x \<le> t) b = []" and "dropWhile (\<lambda>x. snd x \<le> t) b = b"
proof -
  have "\<forall>x\<in>set b. t' \<le> snd x" using assms(1) by (simp add: sorted_append)
  then have "\<forall>x\<in>set b. \<not> snd x \<le> t" using assms(2) by force
  then show "takeWhile (\<lambda>x. snd x \<le> t) b = []" and "dropWhile (\<lambda>x. snd x \<le> t) b = b"
    by (cases b; simp)+
qed

lemma erase_old:
  assumes q: "q = a @ (eid, t') # b" and new: "eid \<notin> fst ` set a" "eid \<notin> fst ` set b"
    and s: "sorted (map snd q)"
  shows "(let i = length (takeWhile (\<lambda>x. snd x \<le> t) q)
          in eraseNode (if i \<le> length a then Suc (length a) else length a)
               (takeWhile (\<lambda>x. snd x \<le> t) q @ (eid, t) # dropWhile (\<lambda>x. snd x \<le> t) q)) = reschedule eid t q"
proof -
  let ?P = "\<lambda>x. snd x \<le> t"
  have f: "filter (\<lambda>x. fst x \<noteq> eid) q = a @ b"
    using filter_key_id [OF new(1)] filter_key_id [OF new(2)] unfolding q by simp
  have r: "reschedule eid t q = takeWhile ?P (a @ b) @ (eid, t) # dropWhile ?P (a @ b)"
    by (simp only: reschedule_def f Let_def)
  consider "\<exists>x\<in>set a. \<not> ?P x" | "\<forall>x\<in>set a. ?P x" "t' \<le> t" | "\<forall>x\<in>set a. ?P x" "t < t'" by (metis not_less)
  then show ?thesis
  proof cases
    case 1
    then obtain x where x: "x \<in> set a" "\<not> ?P x" by blast
    have "takeWhile ?P (a @ c) = takeWhile ?P a" "dropWhile ?P (a @ c) = dropWhile ?P a @ c" for c
      using takeWhile_append1 [of x a ?P c] dropWhile_append1 [of x a ?P c] x by auto
    moreover have "length (takeWhile ?P a) \<le> length a" by (rule length_takeWhile_le)
    moreover have "Suc (length a) = length (takeWhile ?P a @ (eid, t) # dropWhile ?P a)"
      using length_takeWhile_dropWhile [of ?P a] by simp
    ultimately show ?thesis
      using eraseNode_append [of "takeWhile ?P a @ (eid, t) # dropWhile ?P a" "(eid, t')" b]
      unfolding r unfolding q by simp
  next
    case 2
    then have "takeWhile ?P (a @ c) = a @ takeWhile ?P c" "dropWhile ?P (a @ c) = dropWhile ?P c" for c
      by (simp_all add: takeWhile_append2 dropWhile_append2)
    then show ?thesis
      using 2(2) eraseNode_append [of a "(eid, t')"] unfolding r unfolding q by simp
  next
    case 3
    then have "takeWhile ?P (a @ c) = a @ takeWhile ?P c" "dropWhile ?P (a @ c) = dropWhile ?P c" for c
      by (simp_all add: takeWhile_append2 dropWhile_append2)
    then show ?thesis
      using 3(2) eraseNode_append [of "a @ [(eid, t)]" "(eid, t')" b] sorted_tail_later [OF s [unfolded q] 3(2)]
        not_le [THEN iffD2, OF 3(2)] unfolding r unfolding q by simp
  qed
qed

lemma insertEvent_old:
  assumes "queue_ok q" and "map_of q eid = Some t'"
  shows "insertEvent eid t p q =
     (if p \<and> t' = t then (False, Some t, q) else (True, if p then Some t' else None, reschedule eid t q))"
proof -
  obtain a b where q: "q = a @ (eid, t') # b"
    using map_of_SomeD [OF assms(2)] by (meson split_list)
  have new: "eid \<notin> fst ` set a" "eid \<notin> fst ` set b" and s: "sorted (map snd q)"
    using assms(1) unfolding q queue_ok_def by auto
  have o: "fst (scanQueue eid t 0 q (None, None)) = Some (length a)"
    unfolding q using scanQueue_old_Some [OF new(2)] by simp
  have n: "snd (q ! length a) = t'" unfolding q by simp
  show ?thesis unfolding insertEvent_eq o using erase_old [OF q new s, of t] n by (simp add: Let_def)
qed

lemma reschedule_set: "set (reschedule eid t q) = insert (eid, t) {x \<in> set q. fst x \<noteq> eid}"
proof -
  have "set (takeWhile P r) \<union> set (dropWhile P r) = set r" for P and r :: eventq
    by (metis set_append takeWhile_dropWhile_id)
  then show ?thesis by (auto simp: reschedule_def Let_def)
qed

lemma distinct_keys_filter: "distinct (map fst q) \<Longrightarrow> distinct (map fst (filter P q))"
  by (induction q) auto

lemma queue_ok_filter: "queue_ok q \<Longrightarrow> queue_ok (filter P q)"
  by (auto simp: queue_ok_def distinct_keys_filter sorted_filter)

lemma queue_ok_between:
  "queue_ok (a @ b) \<Longrightarrow> \<forall>x\<in>set a. snd x \<le> t \<Longrightarrow> \<forall>x\<in>set b. t \<le> snd x \<Longrightarrow>
     k \<notin> fst ` set a \<Longrightarrow> k \<notin> fst ` set b \<Longrightarrow> queue_ok (a @ (k, t) # b)"
  by (auto simp: queue_ok_def sorted_append)

lemma reschedule_ok:
  assumes "queue_ok q"
  shows "queue_ok (reschedule eid t q)"
proof -
  let ?r = "filter (\<lambda>x. fst x \<noteq> eid) q" and ?P = "\<lambda>x. snd x \<le> t"
  let ?a = "takeWhile ?P ?r" and ?b = "dropWhile ?P ?r"
  have ok: "queue_ok (?a @ ?b)" using queue_ok_filter [OF assms] by simp
  have a: "\<forall>x\<in>set ?a. snd x \<le> t" by (auto dest: set_takeWhileD)
  have "\<forall>x\<in>set ?b. t \<le> snd x"
  proof (cases ?b)
    case (Cons y ys)
    have "\<not> ?P y" by (metis Cons hd_dropWhile list.distinct(1) list.sel(1))
    then show ?thesis using ok unfolding Cons queue_ok_def by (auto simp: sorted_append)
  next
    case Nil
    then show ?thesis unfolding Nil by simp
  qed
  moreover have "eid \<notin> fst ` set ?a" "eid \<notin> fst ` set ?b" by (auto dest: set_takeWhileD set_dropWhileD)
  moreover have "reschedule eid t q = ?a @ (eid, t) # ?b" by (simp add: reschedule_def Let_def)
  ultimately show ?thesis
    using queue_ok_between [OF ok a] by simp
qed

lemma map_of_set_eq:
  "distinct (map fst q) \<Longrightarrow> map_of q k = Some t \<longleftrightarrow> (k, t) \<in> set q"
  by (rule map_of_eq_Some_iff)

lemma due_reschedule:
  assumes "queue_ok q"
  shows "map_of (reschedule eid t q) = (map_of q)(eid \<mapsto> t)"
proof
  fix k
  have d: "distinct (map fst (reschedule eid t q))" "distinct (map fst q)"
    using reschedule_ok [OF assms] assms by (auto simp: queue_ok_def)
  have "map_of (reschedule eid t q) k = Some v \<longleftrightarrow> ((map_of q)(eid \<mapsto> t)) k = Some v" for v
    using d by (auto simp: map_of_eq_Some_iff reschedule_set)
  then show "map_of (reschedule eid t q) k = ((map_of q)(eid \<mapsto> t)) k"
    by (metis not_Some_eq)
qed


lemma removeEvent_eq:
  "distinct (map fst q) \<Longrightarrow> removeEvent eid q = (eid \<in> fst ` set q, filter (\<lambda>x. fst x \<noteq> eid) q)"
proof (induction q)
  case (Cons x q)
  then show ?case using filter_key_id [of eid q] by auto
qed simp

lemma insertEvent_put:
  assumes "queue_ok q"
  shows "queue_ok (snd (snd (insertEvent eid t True q)))"
    and "map_of (snd (snd (insertEvent eid t True q))) = (map_of q)(eid \<mapsto> t)"
proof -
  show "queue_ok (snd (snd (insertEvent eid t True q)))"
  proof (cases "map_of q eid")
    case None
    then show ?thesis using insertEvent_new reschedule_ok [OF assms] by (simp add: map_of_eq_None_iff)
  qed (simp add: insertEvent_old [OF assms] reschedule_ok [OF assms] assms)
  show "map_of (snd (snd (insertEvent eid t True q))) = (map_of q)(eid \<mapsto> t)"
  proof (cases "map_of q eid")
    case None
    then show ?thesis using insertEvent_new due_reschedule [OF assms] by (simp add: map_of_eq_None_iff)
  qed (auto simp: insertEvent_old [OF assms] due_reschedule [OF assms])
qed

lemma map_of_filter_key: "map_of (filter (\<lambda>x. fst x \<noteq> k) q) = (map_of q)(k := None)"
  by (induction q) auto

definition firstEvent :: "eventq \<Rightarrow> (u64 \<times> tick) option" where
  "firstEvent q = (case q of [] \<Rightarrow> None | x # _ \<Rightarrow> Some x)"

interpretation evq: agenda queue_ok "\<lambda>q. map_of q" "\<lambda>k t q. snd (snd (insertEvent k t True q))"
  "\<lambda>k q. snd (removeEvent k q)" firstEvent
proof unfold_locales
  fix q :: eventq and k k' :: u64 and t t' :: tick
  assume ok: "queue_ok q"
  then have d: "distinct (map fst q)" and s: "sorted (map snd q)" by (auto simp: queue_ok_def)
  show "queue_ok (snd (snd (insertEvent k t True q)))"
    and "map_of (snd (snd (insertEvent k t True q))) = (map_of q)(k \<mapsto> t)" by (rule insertEvent_put [OF ok])+
  show "queue_ok (snd (removeEvent k q))" by (simp add: removeEvent_eq [OF d] queue_ok_filter [OF ok])
  show "map_of (snd (removeEvent k q)) = (map_of q)(k := None)"
    by (simp add: removeEvent_eq [OF d] map_of_filter_key)
  show "firstEvent q = None \<longleftrightarrow> map_of q = Map.empty" by (cases q) (auto simp: firstEvent_def)
  assume f: "firstEvent q = Some (k, t)"
  then obtain r where q: "q = (k, t) # r" by (auto simp: firstEvent_def split: list.splits)
  then show "map_of q k = Some t" by simp
  assume "map_of q k' = Some t'"
  then show "t \<le> t'" using s unfolding q by (auto dest!: map_of_SomeD split: if_splits)
qed

section \<open>The laws of the engine\<close>

text \<open>
  The state invariant: the queue is in the order of its ticks, has one entry for an event, only
  for events of the table, and none of them is in the past.
\<close>

definition engine_inv :: "'h Engine \<Rightarrow> bool" where
  "engine_inv E \<longleftrightarrow> queue_ok (eventQueue E) \<and> evq.ahead (simTick E) (eventQueue E) \<and>
     (\<forall>k t. map_of (eventQueue E) k = Some t \<longrightarrow> knownEvent k E)"

lemma engine_invD:
  assumes "engine_inv E"
  shows "queue_ok (eventQueue E)" and "evq.ahead (simTick E) (eventQueue E)"
    and "map_of (eventQueue E) k = Some t \<Longrightarrow> knownEvent k E"
  using assms by (auto simp: engine_inv_def knownEvent_def)

lemma engine_new_inv: "engine_inv Engine_new"
  by (simp add: engine_inv_def Engine_new_def queue_ok_def evq.ahead_def)

text \<open>The interface: every way in which the other components can change the engine.\<close>

inductive engine_step :: "'h Engine \<Rightarrow> 'h Engine \<Rightarrow> bool" where
  step_allocate: "allocateEvent func E = Inr (eid, E') \<Longrightarrow> engine_step E E'"
| step_schedule: "scheduleEvent eid t E = Inr E' \<Longrightarrow> engine_step E E'"
| step_deschedule: "descheduleEvent eid E = Inr E' \<Longrightarrow> engine_step E E'"
| step_deallocate: "deallocateEvent eid E = Inr E' \<Longrightarrow> engine_step E E'"
| step_stop: "engine_step E (stopEngine E)"

inductive_cases engine_stepE: "engine_step E E'"

definition agenda_of :: "'h Engine \<Rightarrow> u64 \<Rightarrow> tick option" where
  "agenda_of E = map_of (eventQueue E)"

lemma allocateEvent_ok:
  assumes "allocateEvent func E = Inr (eid, E')"
  shows "simTick E' = simTick E" and "agenda_of E' = agenda_of E" and "knownEvent eid E'" and "\<not> knownEvent eid E"
    and "engine_inv E \<Longrightarrow> engine_inv E'"
  using assms by (auto simp: allocateEvent_def Let_def agenda_of_def knownEvent_def engine_inv_def)

lemma scheduleEvent_ok:
  assumes "scheduleEvent eid t E = Inr E'"
  shows "simTick E' = simTick E"
    and "engine_inv E \<Longrightarrow> agenda_of E' = (agenda_of E)(eid \<mapsto> max t (simTick E))"
    and "engine_inv E \<Longrightarrow> engine_inv E'"
proof -
  let ?t = "if t < simTick E then simTick E else t"
  have E': "E' = E\<lparr>eventQueue := snd (snd (insertEvent eid ?t True (eventQueue E)))\<rparr>" and k: "knownEvent eid E"
    using assms by (auto simp: scheduleEvent_def Let_def)
  show "simTick E' = simTick E" by (simp add: E')
  assume inv: "engine_inv E"
  note D = engine_invD [OF inv]
  have m: "max t (simTick E) = ?t" by (auto simp: max_def)
  show "agenda_of E' = (agenda_of E)(eid \<mapsto> max t (simTick E))"
    unfolding m by (simp add: E' agenda_of_def evq.due_put [OF D(1)])
  have "evq.ahead (simTick E) (eventQueue E')"
    unfolding E' by (simp add: evq.ahead_put [OF D(1,2)])
  moreover have "\<forall>k t. map_of (eventQueue E') k = Some t \<longrightarrow> knownEvent k E'"
    using inv k by (auto simp: E' evq.due_put [OF D(1)] engine_inv_def knownEvent_def)
  ultimately show "engine_inv E'" using evq.inv_put [OF D(1)] by (simp add: engine_inv_def E')
qed

lemma descheduleEvent_ok:
  assumes "descheduleEvent eid E = Inr E'"
  shows "simTick E' = simTick E"
    and "engine_inv E \<Longrightarrow> agenda_of E' = (agenda_of E)(eid := None)"
    and "engine_inv E \<Longrightarrow> engine_inv E'"
proof -
  have E': "E' = E\<lparr>eventQueue := snd (removeEvent eid (eventQueue E))\<rparr>"
    using assms by (auto simp: descheduleEvent_def)
  show "simTick E' = simTick E" by (simp add: E')
  assume inv: "engine_inv E"
  note D = engine_invD [OF inv]
  show "agenda_of E' = (agenda_of E)(eid := None)" by (simp add: E' agenda_of_def evq.due_cancel [OF D(1)])
  show "engine_inv E'"
    using evq.inv_cancel [OF D(1)] evq.ahead_cancel [OF D(1,2)] inv
    by (auto simp: engine_inv_def knownEvent_def E' evq.due_cancel [OF D(1)] split: if_splits)
qed

lemma deallocateEvent_ok:
  assumes "deallocateEvent eid E = Inr E'"
  shows "simTick E' = simTick E"
    and "engine_inv E \<Longrightarrow> agenda_of E' = (agenda_of E)(eid := None)"
    and "\<not> knownEvent eid E'"
    and "engine_inv E \<Longrightarrow> engine_inv E'"
proof -
  have E': "E' = E\<lparr>eventQueue := snd (removeEvent eid (eventQueue E)), eventList := AList.delete eid (eventList E)\<rparr>"
    using assms by (auto simp: deallocateEvent_def)
  show "simTick E' = simTick E" by (simp add: E')
  show "\<not> knownEvent eid E'" by (simp add: E' knownEvent_def delete_conv)
  assume inv: "engine_inv E"
  note D = engine_invD [OF inv]
  show "agenda_of E' = (agenda_of E)(eid := None)" by (simp add: E' agenda_of_def evq.due_cancel [OF D(1)])
  show "engine_inv E'"
    using evq.inv_cancel [OF D(1)] evq.ahead_cancel [OF D(1,2)] inv
    by (auto simp: engine_inv_def knownEvent_def E' evq.due_cancel [OF D(1)] delete_conv split: if_splits)
qed

lemma engine_step_inv: "engine_step E E' \<Longrightarrow> engine_inv E \<Longrightarrow> engine_inv E' \<and> simTick E' = simTick E"
  by (cases rule: engine_step.cases)
    (auto simp: allocateEvent_ok scheduleEvent_ok descheduleEvent_ok deallocateEvent_ok stopEngine_def engine_inv_def knownEvent_def
      dest: allocateEvent_ok scheduleEvent_ok descheduleEvent_ok deallocateEvent_ok)

lemma engine_steps_inv: "engine_step\<^sup>*\<^sup>* E E' \<Longrightarrow> engine_inv E \<Longrightarrow> engine_inv E' \<and> simTick E' = simTick E"
  by (induction rule: rtranclp_induct) (auto dest: engine_step_inv)


subsection \<open>Firing events\<close>

text \<open>What is assumed of the event functions: they change the engine through its interface only.\<close>

definition handlers_ok :: "('h \<Rightarrow> tick \<Rightarrow> 'h Engine \<times> 'w \<Rightarrow> ('h Engine \<times> 'w) res) \<Rightarrow> bool" where
  "handlers_ok call \<longleftrightarrow> (\<forall>func t E w E' w'. call func t (E, w) = Inr (E', w') \<longrightarrow> engine_step\<^sup>*\<^sup>* E E')"

lemma doNextEvent_fires:
  assumes inv: "engine_inv E" and go: "\<not> forceStop E" and some: "agenda_of E \<noteq> Map.empty"
  shows "\<exists>eid t func E1. agenda_of E eid = Some t \<and> (\<forall>k' t'. agenda_of E k' = Some t' \<longrightarrow> t \<le> t') \<and>
     simTick E \<le> t \<and> map_of (eventList E) eid = Some func \<and> E1 = E\<lparr>simTick := t, eventQueue := tl (eventQueue E)\<rparr> \<and>
     engine_inv E1 \<and> agenda_of E1 = (agenda_of E)(eid := None) \<and>
     doNextEvent call (E, w) =
       bindE (call func t (E1, w)) (\<lambda>(E2, w'). Inr (True, E2\<lparr>eventHandled := eventHandled E2 + 1\<rparr>, w'))"
proof -
  note D = engine_invD [OF inv]
  obtain eid t q where q: "eventQueue E = (eid, t) # q"
    using some by (cases "eventQueue E") (auto simp: agenda_of_def)
  have f: "firstEvent (eventQueue E) = Some (eid, t)" by (simp add: firstEvent_def q)
  have r: "snd (removeEvent eid (eventQueue E)) = q" by (simp add: q)
  have d: "map_of q = (map_of (eventQueue E))(eid := None)" using evq.due_cancel [OF D(1), of eid] by (simp add: r)
  obtain func where func: "map_of (eventList E) eid = Some func"
    using D(3) [of eid t] by (auto simp: q knownEvent_def)
  let ?E1 = "E\<lparr>simTick := t, eventQueue := tl (eventQueue E)\<rparr>"
  have "queue_ok q" using evq.inv_cancel [OF D(1), of eid] by (simp add: r)
  moreover have "evq.ahead t q" using evq.ahead_first [OF D(1) f] by (simp add: r)
  moreover have "knownEvent k ?E1" if "map_of q k = Some v" for k v
    using that d D(3) [of k v] by (auto simp: knownEvent_def split: if_splits)
  ultimately have "engine_inv ?E1" by (simp add: engine_inv_def q)
  moreover have "agenda_of ?E1 = (agenda_of E)(eid := None)" using d by (simp add: agenda_of_def q)
  moreover have "t \<le> t'" if "agenda_of E k' = Some t'" for k' t'
    using evq.first_least [OF D(1) f] that by (simp add: agenda_of_def)
  ultimately show ?thesis
    using go func evq.first_due [OF D(1) f] evq.first_ahead [OF D(1,2) f]
    by (intro exI [of _ eid] exI [of _ t] exI [of _ func] exI [of _ ?E1])
      (simp add: doNextEvent_def q agenda_of_def)
qed

lemma doNextEvent_idle:
  "forceStop E \<or> agenda_of E = Map.empty \<Longrightarrow> doNextEvent call (E, w) = Inr (False, E, w)"
  by (cases "eventQueue E") (auto simp: doNextEvent_def agenda_of_def)

lemma handled_inv [simp]: "engine_inv (E\<lparr>eventHandled := n\<rparr>) = engine_inv E"
  by (simp add: engine_inv_def knownEvent_def)

lemma doNextEvent_inv:
  assumes h: "handlers_ok call" and inv: "engine_inv E" and r: "doNextEvent call (E, w) = Inr (cont, E', w')"
  shows "engine_inv E'" and "simTick E \<le> simTick E'"
    and "cont \<Longrightarrow> \<exists>eid. agenda_of E eid = Some (simTick E') \<and> (\<forall>k' t'. agenda_of E k' = Some t' \<longrightarrow> simTick E' \<le> t')"
    and "\<not> cont \<Longrightarrow> E' = E \<and> w' = w"
proof -
  have "engine_inv E' \<and> simTick E \<le> simTick E' \<and>
    (cont \<longrightarrow> (\<exists>eid. agenda_of E eid = Some (simTick E') \<and> (\<forall>k' t'. agenda_of E k' = Some t' \<longrightarrow> simTick E' \<le> t'))) \<and>
    (\<not> cont \<longrightarrow> E' = E \<and> w' = w)"
  proof (cases "forceStop E \<or> agenda_of E = Map.empty")
    case True
    then show ?thesis using doNextEvent_idle [OF True, of call w] r inv by simp
  next
    case False
    then obtain eid t func E1 where a: "agenda_of E eid = Some t" "\<forall>k' t'. agenda_of E k' = Some t' \<longrightarrow> t \<le> t'"
        "simTick E \<le> t" "E1 = E\<lparr>simTick := t, eventQueue := tl (eventQueue E)\<rparr>" "engine_inv E1"
      and n: "doNextEvent call (E, w) =
        bindE (call func t (E1, w)) (\<lambda>(E2, w'). Inr (True, E2\<lparr>eventHandled := eventHandled E2 + 1\<rparr>, w'))"
      using doNextEvent_fires [OF inv, of call w] by auto
    from r n obtain E2 where c: "call func t (E1, w) = Inr (E2, w')" and E': "E' = E2\<lparr>eventHandled := eventHandled E2 + 1\<rparr>"
      and cont by auto
    have "engine_step\<^sup>*\<^sup>* E1 E2" using h c unfolding handlers_ok_def by blast
    then have "engine_inv E2" "simTick E2 = t" using engine_steps_inv [OF _ a(5)] a(4) by auto
    then show ?thesis using a(1-3) \<open>cont\<close> by (auto simp: E')
  qed
  then show "engine_inv E'" and "simTick E \<le> simTick E'"
    and "cont \<Longrightarrow> \<exists>eid. agenda_of E eid = Some (simTick E') \<and> (\<forall>k' t'. agenda_of E k' = Some t' \<longrightarrow> simTick E' \<le> t')"
    and "\<not> cont \<Longrightarrow> E' = E \<and> w' = w" by auto
qed

text \<open>The states of a simulation: start, interface calls of the other components, and events.\<close>

inductive engine_reach :: "('h \<Rightarrow> tick \<Rightarrow> 'h Engine \<times> 'w \<Rightarrow> ('h Engine \<times> 'w) res) \<Rightarrow> 'h Engine \<times> 'w \<Rightarrow> bool"
  for call where
  reach_new: "engine_reach call (Engine_new, w)"
| reach_step: "engine_reach call (E, w) \<Longrightarrow> engine_step E E' \<Longrightarrow> engine_reach call (E', w')"
| reach_next: "engine_reach call S \<Longrightarrow> doNextEvent call S = Inr (cont, S') \<Longrightarrow> engine_reach call S'"

lemma engine_reach_inv: "engine_reach call S \<Longrightarrow> handlers_ok call \<Longrightarrow> engine_inv (fst S)"
proof (induction rule: engine_reach.induct)
  case (reach_new w)
  show ?case by (simp add: engine_new_inv)
next
  case (reach_step E w E' w')
  then show ?case by (auto dest: engine_step_inv)
next
  case (reach_next S cont S')
  then show ?case using doNextEvent_inv(1) [of call "fst S" "snd S" cont "fst S'" "snd S'"] by simp
qed

lemma reach_steps: "engine_step\<^sup>*\<^sup>* E E' \<Longrightarrow> engine_reach call (E, w) \<Longrightarrow> engine_reach call (E', w)"
  by (induction rule: rtranclp_induct) (auto intro: reach_step)


subsection \<open>Draining the queue\<close>

text \<open>Event functions that leave the engine alone: every pending event is fired, and the loop ends.\<close>

definition handlers_quiet :: "('h \<Rightarrow> tick \<Rightarrow> 'h Engine \<times> 'w \<Rightarrow> ('h Engine \<times> 'w) res) \<Rightarrow> bool" where
  "handlers_quiet call \<longleftrightarrow> (\<forall>func t E w. \<exists>w'. call func t (E, w) = Inr (E, w'))"

lemma runEngine_drains:
  assumes "handlers_quiet call" and "engine_inv E" and "\<not> forceStop E" and "length (eventQueue E) = n"
  shows "\<exists>E' w'. runEngine call (Suc n) (E, w) = Inr (E', w') \<and> eventQueue E' = [] \<and>
     eventHandled E' = eventHandled E + of_nat n \<and>
     simTick E' = (if n = 0 then simTick E else snd (last (eventQueue E)))"
  using assms
proof (induction n arbitrary: E w)
  case 0
  then show ?case using doNextEvent_idle [of E call w] by (simp add: agenda_of_def)
next
  case (Suc n)
  then obtain x q where q: "eventQueue E = x # q" "length q = n" by (cases "eventQueue E") auto
  then have "agenda_of E \<noteq> Map.empty" by (cases x) (auto simp: agenda_of_def)
  then obtain eid t func E1 where E1: "E1 = E\<lparr>simTick := t, eventQueue := tl (eventQueue E)\<rparr>" "engine_inv E1"
    and n: "doNextEvent call (E, w) =
      bindE (call func t (E1, w)) (\<lambda>(E2, w'). Inr (True, E2\<lparr>eventHandled := eventHandled E2 + 1\<rparr>, w'))"
    and t: "agenda_of E eid = Some t" and least: "\<forall>k' t'. agenda_of E k' = Some t' \<longrightarrow> t \<le> t'"
    using doNextEvent_fires [OF Suc.prems(2,3), of call w] by auto
  obtain w1 where c: "call func t (E1, w) = Inr (E1, w1)" using Suc.prems(1) unfolding handlers_quiet_def by blast
  let ?E2 = "E1\<lparr>eventHandled := eventHandled E1 + 1\<rparr>"
  have tx: "t = snd x"
  proof -
    have "agenda_of E (fst x) = Some (snd x)" by (cases x) (simp add: agenda_of_def q)
    then have "t \<le> snd x" using least by blast
    moreover have "snd x \<le> t"
      using t engine_invD(1) [OF Suc.prems(2)] 
      by (auto simp: agenda_of_def q queue_ok_def split: if_splits dest!: map_of_SomeD)
    ultimately show ?thesis by simp
  qed
  have "\<not> forceStop ?E2" "length (eventQueue ?E2) = n" "engine_inv ?E2" using E1 Suc.prems(3) q by simp_all
  from Suc.IH [OF Suc.prems(1) this(3,1,2), of w1] obtain E' w' where
    "runEngine call (Suc n) (?E2, w1) = Inr (E', w')" "eventQueue E' = []"
    "eventHandled E' = eventHandled ?E2 + of_nat n"
    "simTick E' = (if n = 0 then simTick ?E2 else snd (last (eventQueue ?E2)))" by blast
  moreover have "(if n = 0 then simTick ?E2 else snd (last (eventQueue ?E2))) = snd (last (eventQueue E))"
    using q by (auto simp: E1(1) tx)
  moreover have "runEngine call (Suc (Suc n)) (E, w) = runEngine call (Suc n) (?E2, w1)"
    by (simp only: runEngine.simps(2) [of call "Suc n"] n c bindE_simps prod.case if_True)
  moreover have "eventHandled ?E2 + of_nat n = eventHandled E + of_nat (Suc n)" by (simp add: E1(1))
  ultimately show ?case by auto
qed

subsection \<open>Refinement\<close>

datatype 'h EngineCmd = Allocate 'h | Schedule u64 tick | Deschedule u64 | Deallocate u64 | Stop

fun engine_exec :: "'h EngineCmd \<Rightarrow> 'h Engine \<Rightarrow> 'h Engine res" where
  "engine_exec (Allocate func) E = bindE (allocateEvent func E) (\<lambda>(eid, E'). Inr E')"
| "engine_exec (Schedule eid t) E = scheduleEvent eid t E"
| "engine_exec (Deschedule eid) E = descheduleEvent eid E"
| "engine_exec (Deallocate eid) E = deallocateEvent eid E"
| "engine_exec Stop E = Inr (stopEngine E)"

text \<open>The specification: the current tick and a finite map from events to the ticks they are due.\<close>

fun agenda_spec :: "'h EngineCmd \<Rightarrow> tick \<times> (u64 \<rightharpoonup> tick) \<Rightarrow> tick \<times> (u64 \<rightharpoonup> tick)" where
  "agenda_spec (Allocate func) (now, m) = (now, m)"
| "agenda_spec (Schedule eid t) (now, m) = (now, m(eid \<mapsto> max t now))"
| "agenda_spec (Deschedule eid) (now, m) = (now, m(eid := None))"
| "agenda_spec (Deallocate eid) (now, m) = (now, m(eid := None))"
| "agenda_spec Stop (now, m) = (now, m)"

definition on_agenda :: "tick \<times> (u64 \<rightharpoonup> tick) \<Rightarrow> 'h Engine \<Rightarrow> bool" where
  "on_agenda a E \<longleftrightarrow> engine_inv E \<and> a = (simTick E, agenda_of E)"

interpretation engine_service: service engine_exec on_agenda agenda_spec
proof unfold_locales
  fix a and E :: "'h Engine" and c :: "'h EngineCmd"
  assume "on_agenda a E"
  then have inv: "engine_inv E" and a: "a = (simTick E, agenda_of E)" by (auto simp: on_agenda_def)
  show "okE (on_agenda (agenda_spec c a)) (engine_exec c E)"
  proof (cases c)
    case (Allocate func)
    have "on_agenda (simTick E, agenda_of E) E'" if r: "allocateEvent func E = Inr (eid, E')" for eid E'
      unfolding on_agenda_def using allocateEvent_ok(1,2,5) [OF r] inv by simp
    then show ?thesis using Allocate by (auto simp: okE_iff a)
  next
    case (Schedule eid t)
    have "on_agenda (agenda_spec c a) E'" if r: "scheduleEvent eid t E = Inr E'" for E'
      unfolding on_agenda_def a using scheduleEvent_ok(1,2,3) [OF r] inv by (simp add: Schedule)
    then show ?thesis using Schedule by (auto simp: okE_iff)
  next
    case (Deschedule eid)
    have "on_agenda (agenda_spec c a) E'" if r: "descheduleEvent eid E = Inr E'" for E'
      unfolding on_agenda_def a using descheduleEvent_ok(1,2,3) [OF r] inv by (simp add: Deschedule)
    then show ?thesis using Deschedule by (auto simp: okE_iff)
  next
    case (Deallocate eid)
    have "on_agenda (agenda_spec c a) E'" if r: "deallocateEvent eid E = Inr E'" for E'
      unfolding on_agenda_def a using deallocateEvent_ok(1,2,4) [OF r] inv by (simp add: Deallocate)
    then show ?thesis using Deallocate by (auto simp: okE_iff)
  next
    case Stop
    then show ?thesis using inv by (simp add: a on_agenda_def stopEngine_def engine_inv_def knownEvent_def agenda_of_def)
  qed
qed


section \<open>Properties\<close>

text \<open>A small simulation: one event whose function schedules it again five ticks later.\<close>

definition demo_call :: "unit \<Rightarrow> tick \<Rightarrow> unit Engine \<times> nat \<Rightarrow> (unit Engine \<times> nat) res" where
  "demo_call func t S = bindE (scheduleEvent 1 (t + 5) (fst S)) (\<lambda>E'. Inr (E', Suc (snd S)))"

definition demo_cmds :: "unit EngineCmd list" where
  "demo_cmds = [Allocate (), Allocate (), Schedule 2 9, Schedule 1 7]"

definition demo_engine :: "unit Engine" where
  "demo_engine = \<lparr>simTick = 0, counter = 2, forceStop = False, eventList = [(2, ()), (1, ())],
     eventQueue = [(1, 7), (2, 9)], eventHandled = 0\<rparr>"

lemma demo_handlers: "handlers_ok demo_call"
  by (auto simp: handlers_ok_def demo_call_def intro: step_schedule)

lemma demo_engine_run: "foldE engine_exec demo_cmds Engine_new = Inr demo_engine"
  by (simp add: demo_cmds_def Engine_new_def demo_engine_def allocateEvent_def scheduleEvent_def knownEvent_def
      insertEvent_def insertNode_def)

lemma exec_step: "engine_exec c E = Inr E' \<Longrightarrow> engine_step E E'"
  by (cases c) (auto intro: engine_step.intros)

lemma exec_reach: "foldE engine_exec cs E = Inr E' \<Longrightarrow> engine_reach call (E, w) \<Longrightarrow> engine_reach call (E', w)"
proof (induction cs arbitrary: E)
  case (Cons c cs)
  then obtain E1 where "engine_exec c E = Inr E1" and "foldE engine_exec cs E1 = Inr E'" by auto
  then show ?case using Cons.IH reach_step [OF Cons.prems(2) exec_step] by blast
qed simp

lemma demo_reach: "engine_reach demo_call (demo_engine, 0)"
  by (rule exec_reach [OF demo_engine_run reach_new])

text \<open>
  C13. Safety. In every state a simulation can reach, \<open>doNextEvent\<close> either does nothing, or fires
  an event that is due no later than any other; the clock moves to the tick of that event and
  never goes back, and the queue stays sorted, without duplicates and free of past events.
\<close>

theorem engine_next:
  assumes "handlers_ok call" and "engine_reach call (E, w)" and "doNextEvent call (E, w) = Inr (cont, E', w')"
  shows "engine_inv E' \<and> simTick E \<le> simTick E' \<and>
     (if cont then \<exists>eid. agenda_of E eid = Some (simTick E') \<and> (\<forall>k' t'. agenda_of E k' = Some t' \<longrightarrow> simTick E' \<le> t')
      else E' = E \<and> w' = w)"
proof -
  have "engine_inv E" using engine_reach_inv [OF assms(2,1)] by simp
  from doNextEvent_inv [OF assms(1) this assms(3)] show ?thesis by auto
qed

theorem engine_next_witness:
  "\<exists>E'. doNextEvent demo_call (demo_engine, 0) = Inr (True, E', 1) \<and> engine_inv E' \<and> simTick E' = 7"
proof -
  let ?E = "demo_engine\<lparr>simTick := 7, eventQueue := [(2, 9), (1, 12)], eventHandled := 1\<rparr>"
  have n: "doNextEvent demo_call (demo_engine, 0) = Inr (True, ?E, 1)"
    by (simp add: doNextEvent_def demo_engine_def demo_call_def scheduleEvent_def knownEvent_def insertEvent_def insertNode_def)
  show ?thesis using engine_next [OF demo_handlers demo_reach n] n by auto
qed



text \<open>
  C15. Equivalence. The one-pass, insert-then-erase \<open>insertEvent\<close> computes what its reference
  definition does: forget the event and insert it behind every entry that is not later (so events
  of the same tick fire in the order they were scheduled); it reports whether the event was
  pending, and leaves the queue alone when the tick does not change.
\<close>

theorem insertEvent_equiv:
  assumes "queue_ok q"
  shows "insertEvent eid t True q =
     (if map_of q eid = Some t then (False, Some t, q)
      else (map_of q eid \<noteq> None, map_of q eid, reschedule eid t q))"
proof (cases "map_of q eid")
  case None
  then have "eid \<notin> fst ` set q" by (simp add: map_of_eq_None_iff)
  then show ?thesis using None by (simp add: insertEvent_new)
qed (auto simp: insertEvent_old [OF assms])

theorem insertEvent_equiv_witness:
  "queue_ok [(1, 7), (2, 9), (3, 9)] \<and> insertEvent 1 9 True [(1, 7), (2, 9), (3, 9)] = (True, Some 7, [(2, 9), (3, 9), (1, 9)])"
proof -
  have ok: "queue_ok [(1, 7), (2, 9), (3, 9)]" by (simp add: queue_ok_def)
  show ?thesis using insertEvent_equiv [OF ok, of 1 9] ok by (simp add: reschedule_def)
qed

text \<open>
  C16. Refinement. Whatever sequence of allocate, schedule, deschedule, deallocate and stop calls
  is executed without a panic, the pending events with their ticks are those that the
  specification, a finite map, has: scheduling sets the tick (not before the current one),
  descheduling and deallocating forget the event.
\<close>

theorem engine_refines:
  assumes "foldE engine_exec cs Engine_new = Inr E"
  shows "engine_inv E \<and> (simTick E, agenda_of E) = fold agenda_spec cs (0, Map.empty)"
proof -
  have "on_agenda (0, Map.empty) (Engine_new :: 'a Engine)"
    using engine_new_inv by (simp add: on_agenda_def Engine_new_def agenda_of_def)
  from engine_service.run_result [OF this assms] show ?thesis by (simp add: on_agenda_def)
qed

theorem engine_refines_witness:
  "foldE engine_exec demo_cmds Engine_new = Inr demo_engine \<and> engine_inv demo_engine \<and>
     (simTick demo_engine, agenda_of demo_engine) = fold agenda_spec demo_cmds (0, Map.empty)"
  using engine_refines [OF demo_engine_run] demo_engine_run by simp

text \<open>
  C17. Termination. When the event functions do not schedule anything, the main loop ends: with one
  iteration more than there are pending events it returns, all of them have been handled, and
  the clock stands at the tick of the last one.
\<close>

theorem engine_drains:
  assumes "handlers_quiet call" and "engine_inv E" and "\<not> forceStop E" and "eventQueue E \<noteq> []"
  shows "\<exists>E' w'. runEngine call (Suc (length (eventQueue E))) (E, w) = Inr (E', w') \<and> eventQueue E' = [] \<and>
     eventHandled E' = eventHandled E + of_nat (length (eventQueue E)) \<and> simTick E' = snd (last (eventQueue E))"
  using runEngine_drains [OF assms(1-3) refl, of w] assms(4) by auto

theorem engine_drains_witness:
  "\<exists>E' w'. runEngine (\<lambda>f t S. Inr (fst S, Suc (snd S))) 3 (demo_engine, 0) = Inr (E', w') \<and> simTick E' = 9"
proof -
  have q: "handlers_quiet (\<lambda>(f :: unit) t S. Inr (fst S, Suc (snd S)))" by (simp add: handlers_quiet_def)
  have inv: "engine_inv demo_engine" using engine_reach_inv [OF demo_reach demo_handlers] by simp
  have g: "\<not> forceStop demo_engine" and n: "eventQueue demo_engine \<noteq> []" by (simp_all add: demo_engine_def)
  have l: "Suc (length (eventQueue demo_engine)) = 3" and t: "snd (last (eventQueue demo_engine)) = 9"
    by (simp_all add: demo_engine_def)
  show ?thesis using engine_drains [OF q inv g n, of 0] unfolding l t by blast
qed

end
