(* ===== verification/GenericCache.thy ===== *)
theory GenericCache
  imports FtlInit
begin

text \<open>
  The write-back cache between the host interface and the translation layer
  (\<open>src/simplessd/icl/generic_cache.cc\<close>, \<open>icl/abstract_cache.cc\<close>, \<open>icl/config.hh\<close>). An
  object is the record \<open>GenericCache\<close>; the translation layer it owns is its field \<open>pFTL\<close>, through
  which the calls to the DRAM and CPU models are recorded as well. A \<open>Line *\<close> is the pair of set and
  way of the line. The record is not reset by the constructor: members that the code leaves
  uninitialised keep the value of the raw object it is given.
  Random numbers of \<open>POLICY_RANDOM\<close> are the parameter \<open>ic_draw\<close>, taken one after the other.
\<close>

section \<open>Data\<close>

record Line =
  ln_tag :: u64
  ln_lastAccessed :: tick
  ln_insertedAt :: tick
  ln_dirty :: bool
  ln_valid :: bool

definition Line_new :: Line where
  "Line_new = \<lparr>ln_tag = 0, ln_lastAccessed = 0, ln_insertedAt = 0, ln_dirty = False, ln_valid = False\<rparr>"

datatype ICL_EVICT_POLICY = ICL_POLICY_RANDOM | ICL_POLICY_FIFO | ICL_POLICY_LEAST_RECENTLY_USED | ICL_POLICY_OTHER

datatype PREFETCH_MODE = MODE_SUPERPAGE | MODE_ALL

record IclRequest =
  ireq_reqID :: u64
  ireq_reqSubID :: u64
  ireq_offset :: u64
  ireq_length :: u64
  ireq_range :: LPNRange

abbreviation ireq_slpn :: "IclRequest \<Rightarrow> u64" where
  "ireq_slpn r \<equiv> slpn (ireq_range r)"

definition IclRequest_new :: IclRequest where
  "IclRequest_new = \<lparr>ireq_reqID = 0, ireq_reqSubID = 0, ireq_offset = 0, ireq_length = 0,
     ireq_range = \<lparr>slpn = 0, nlp = 0\<rparr>\<rparr>"

definition FtlRequest_of :: "nat \<Rightarrow> IclRequest \<Rightarrow> FtlRequest" where
  "FtlRequest_of iocount r =
     \<lparr>freq_reqID = ireq_reqID r, freq_reqSubID = ireq_reqSubID r, freq_lpn = ireq_slpn r div of_nat iocount,
      freq_ioFlag = bs_set (Bitset_new iocount) (unat (ireq_slpn r) mod iocount) True\<rparr>"

record SequentialDetect =
  sd_enabled :: bool
  sd_lastRequest :: IclRequest
  sd_hitCounter :: u32
  sd_accessCounter :: u32

definition SequentialDetect_new :: SequentialDetect where
  "SequentialDetect_new = \<lparr>sd_enabled = False, sd_lastRequest = IclRequest_new\<lparr>ireq_reqID := 1\<rparr>,
     sd_hitCounter = 0, sd_accessCounter = 0\<rparr>"

record IclConfig =
  ic_readCaching :: bool
  ic_writeCaching :: bool
  ic_readPrefetch :: bool
  ic_prefetchCount :: nat
  ic_prefetchRatio :: f32
  ic_prefetchMode :: PREFETCH_MODE
  ic_evictMode :: PREFETCH_MODE
  ic_evictPolicy :: ICL_EVICT_POLICY
  ic_cacheSize :: nat
  ic_cacheWaySize :: nat
  ic_cacheLatency :: u64
  ic_coreICL :: u64
  ic_draw :: "nat \<Rightarrow> nat"

type_synonym line_ptr = "nat \<times> nat"

record GenericCache =
  superPageSize :: nat
  parallelIO :: nat
  lineCountInSuperPage :: nat
  lineCountInMaxIO :: nat
  lineSize :: nat
  setSize :: nat
  waySize :: nat
  prefetchIOCount :: nat
  prefetchIORatio :: f32
  useReadCaching :: bool
  useWriteCaching :: bool
  useReadPrefetch :: bool
  bSuperPage :: bool
  readDetect :: SequentialDetect
  prefetchTrigger :: u64
  lastPrefetched :: u64
  prefetchMode :: PREFETCH_MODE
  evictMode :: PREFETCH_MODE
  policy :: ICL_EVICT_POLICY
  nDraws :: nat
  cacheData :: "Line list list"
  evictData :: "line_ptr option list list"
  stat_request :: "u64 \<times> u64"
  stat_cache :: "u64 \<times> u64"
  pFTL :: PageMapping

section \<open>Construction\<close>

text \<open>The initialiser list; the members it does not name keep their values.\<close>

definition cacheMembers :: "env \<Rightarrow> IclConfig \<Rightarrow> GenericCache \<Rightarrow> GenericCache" where
  "cacheMembers e ic raw =
     raw\<lparr>superPageSize := pageSize (param e), parallelIO := pageCountToMaxPerf (param e),
         lineCountInSuperPage := ioUnitInPage (param e),
         lineCountInMaxIO := wrap32 (pageCountToMaxPerf (param e) * ioUnitInPage (param e)),
         waySize := wrap32 (ic_cacheWaySize ic),
         prefetchIOCount := wrap32 (ic_prefetchCount ic), prefetchIORatio := ic_prefetchRatio ic,
         useReadCaching := ic_readCaching ic, useWriteCaching := ic_writeCaching ic,
         useReadPrefetch := ic_readPrefetch ic, readDetect := SequentialDetect_new,
         nDraws := 0, cacheData := [], evictData := []\<rparr>"

text \<open>The size of a line: a page, or its part that is one I/O unit.\<close>

definition cacheLineSize :: "env \<Rightarrow> GenericCache \<Rightarrow> GenericCache" where
  "cacheLineSize e c =
     (let ls = superPageSize c div lineCountInSuperPage c;
          c1 = c\<lparr>lineSize := ls, bSuperPage := (if ls \<noteq> superPageSize c then True else bSuperPage c)\<rparr>
      in if randomIOTweak (conf e) then c1
         else c1\<lparr>lineSize := superPageSize c, lineCountInSuperPage := 1, lineCountInMaxIO := parallelIO c\<rparr>)"

definition cacheSets :: "IclConfig \<Rightarrow> GenericCache \<Rightarrow> GenericCache" where
  "cacheSets ic c =
     (let lines = ic_cacheSize ic div lineSize c
      in if waySize c = 0 then c\<lparr>setSize := 1, waySize := wrap32 (max lines 1)\<rparr>
         else c\<lparr>setSize := wrap32 (max (lines div waySize c) 1)\<rparr>)"

definition cacheArrays :: "IclConfig \<Rightarrow> GenericCache \<Rightarrow> GenericCache" where
  "cacheArrays ic c =
     c\<lparr>cacheData := replicate (setSize c) (replicate (waySize c) Line_new),
       evictData := replicate (lineCountInSuperPage c) (replicate (parallelIO c) None),
       prefetchTrigger := - 1, evictMode := ic_evictMode ic,
       prefetchMode := ic_prefetchMode ic, policy := ic_evictPolicy ic\<rparr>"

definition GenericCache_new :: "env \<Rightarrow> IclConfig \<Rightarrow> GenericCache \<Rightarrow> GenericCache res" where
  "GenericCache_new e ic raw =
     guardE (ioUnitInPage (param e) \<noteq> 0) (UB ''division by zero'')
       (let c = cacheLineSize e (cacheMembers e ic raw)
        in if \<not> useReadCaching c \<and> \<not> useWriteCaching c then Inr c
           else guardE (lineSize c \<noteq> 0) (UB ''division by zero'')
             (let c1 = cacheArrays ic (cacheSets ic c)
              in guardE (policy c1 \<noteq> ICL_POLICY_OTHER) (Panic ''Undefined cache evict policy'')
                   (Inr (c1\<lparr>stat_request := (0, 0), stat_cache := (0, 0)\<rparr>))))"

section \<open>Lines, sets and positions\<close>

definition lineAt :: "GenericCache \<Rightarrow> line_ptr \<Rightarrow> Line" where
  "lineAt c p = cacheData c ! fst p ! snd p"

definition updLine :: "line_ptr \<Rightarrow> (Line \<Rightarrow> Line) \<Rightarrow> GenericCache \<Rightarrow> GenericCache" where
  "updLine p f c =
     c\<lparr>cacheData := (cacheData c)[fst p := (cacheData c ! fst p)[snd p := f (lineAt c p)]]\<rparr>"

definition evictAt :: "GenericCache \<Rightarrow> nat \<times> nat \<Rightarrow> line_ptr option" where
  "evictAt c rc = evictData c ! fst rc ! snd rc"

definition setEvict :: "nat \<times> nat \<Rightarrow> line_ptr option \<Rightarrow> GenericCache \<Rightarrow> GenericCache" where
  "setEvict rc p c =
     c\<lparr>evictData := (evictData c)[fst rc := (evictData c ! fst rc)[snd rc := p]]\<rparr>"

definition getCacheLatency :: "IclConfig \<Rightarrow> u64" where
  "getCacheLatency ic = (if ic_coreICL ic = 0 then 0 else ic_cacheLatency ic div ic_coreICL ic)"

definition calcSetIndex :: "GenericCache \<Rightarrow> u64 \<Rightarrow> nat" where
  "calcSetIndex c lca = unat lca mod setSize c"

definition calcIOPosition :: "GenericCache \<Rightarrow> u64 \<Rightarrow> nat \<times> nat" where
  "calcIOPosition c lca =
     (let tmp = unat lca mod lineCountInMaxIO c
      in (tmp mod lineCountInSuperPage c, tmp div lineCountInSuperPage c))"

fun emptyWay :: "u64 \<Rightarrow> Line list \<Rightarrow> nat \<Rightarrow> nat \<times> tick \<times> tick \<Rightarrow> nat \<times> tick \<times> tick" where
  "emptyWay d [] i r = r"
| "emptyWay d (l # ls) i (ret, minAt, t) =
     emptyWay d ls (Suc i)
       (if ln_valid l then (ret, minAt, t)
        else if ln_insertedAt l < minAt then (i, ln_insertedAt l, t + d) else (ret, minAt, t + d))"

definition getEmptyWay :: "IclConfig \<Rightarrow> nat \<Rightarrow> tick \<Rightarrow> GenericCache \<Rightarrow> nat \<times> tick" where
  "getEmptyWay ic setIdx t c =
     (let (ret, minAt, t') = emptyWay (getCacheLatency ic * 8) (cacheData c ! setIdx) 0 (waySize c, - 1, t)
      in (ret, t'))"

fun validWay :: "u64 \<Rightarrow> u64 \<Rightarrow> Line list \<Rightarrow> nat \<Rightarrow> tick \<Rightarrow> nat \<times> tick" where
  "validWay d lca [] i t = (i, t)"
| "validWay d lca (l # ls) i t =
     (if ln_valid l \<and> ln_tag l = lca then (i, t + d) else validWay d lca ls (Suc i) (t + d))"

definition getValidWay :: "IclConfig \<Rightarrow> u64 \<Rightarrow> tick \<Rightarrow> GenericCache \<Rightarrow> nat \<times> tick" where
  "getValidWay ic lca t c =
     validWay (getCacheLatency ic * 8) lca (cacheData c ! calcSetIndex c lca) 0 t"

text \<open>The eviction policies: the way to evict from a set, and the better of two victims.\<close>

fun oldestWay :: "(Line \<Rightarrow> tick) \<Rightarrow> u64 \<Rightarrow> Line list \<Rightarrow> nat \<Rightarrow> nat \<times> tick \<times> tick \<Rightarrow> nat \<times> tick \<times> tick" where
  "oldestWay key d [] i r = r"
| "oldestWay key d (l # ls) i (ret, minAt, t) =
     oldestWay key d ls (Suc i)
       (if key l < minAt then (i, key l, t + d) else (ret, minAt, t + d))"

definition evictFunction :: "IclConfig \<Rightarrow> nat \<Rightarrow> tick \<Rightarrow> GenericCache \<Rightarrow> nat \<times> tick \<times> GenericCache" where
  "evictFunction ic setIdx t c =
     (let scan = (\<lambda>key. let (w, m, t') = oldestWay key (getCacheLatency ic * 8) (cacheData c ! setIdx) 0 (0, - 1, t)
                        in (w, t', c))
      in case policy c of
           ICL_POLICY_RANDOM \<Rightarrow> (ic_draw ic (nDraws c), t, c\<lparr>nDraws := Suc (nDraws c)\<rparr>)
         | ICL_POLICY_FIFO \<Rightarrow> scan ln_insertedAt
         | _ \<Rightarrow> scan ln_lastAccessed)"

definition compareFunction :: "IclConfig \<Rightarrow> line_ptr option \<Rightarrow> line_ptr option \<Rightarrow> GenericCache \<Rightarrow>
    line_ptr option \<times> GenericCache" where
  "compareFunction ic a b c =
     (case (a, b) of
        (Some p, Some q) \<Rightarrow>
          (case policy c of
             ICL_POLICY_RANDOM \<Rightarrow>
               (if waySize c div 2 < ic_draw ic (nDraws c) then a else b, c\<lparr>nDraws := Suc (nDraws c)\<rparr>)
           | ICL_POLICY_FIFO \<Rightarrow> (if ln_insertedAt (lineAt c p) < ln_insertedAt (lineAt c q) then a else b, c)
           | _ \<Rightarrow> (if ln_lastAccessed (lineAt c p) < ln_lastAccessed (lineAt c q) then a else b, c))
      | (Some p, None) \<Rightarrow> (a, c)
      | (None, _) \<Rightarrow> (b, c))"

definition checkSequential :: "IclRequest \<Rightarrow> GenericCache \<Rightarrow> GenericCache" where
  "checkSequential req c =
     (let d = readDetect c; lr = sd_lastRequest d; ls = of_nat (lineSize c)
      in if ireq_reqID lr = ireq_reqID req
         then c\<lparr>readDetect := d\<lparr>sd_lastRequest := lr\<lparr>ireq_range := ireq_range req,
                 ireq_offset := ireq_offset req, ireq_length := ireq_length req\<rparr>\<rparr>\<rparr>
         else
           (let d' =
              (if ireq_slpn lr * ls + ireq_offset lr + ireq_length lr = ireq_slpn req * ls + ireq_offset req
               then (if sd_enabled d then d
                     else (let hit = sd_hitCounter d + 1;
                               acc = sd_accessCounter d + ucast (ireq_offset lr + ireq_length lr);
                               d1 = d\<lparr>sd_hitCounter := hit, sd_accessCounter := acc\<rparr>;
                               q = f32_div (f32_of_nat (unat acc)) (f32_of_nat (superPageSize c))
                           in if prefetchIOCount c \<le> unat hit \<and>
                                 (f32_less (prefetchIORatio c) q \<or> prefetchIORatio c = q \<and> q \<noteq> F32NaN)
                              then d1\<lparr>sd_enabled := True\<rparr> else d1))
               else d\<lparr>sd_enabled := False, sd_hitCounter := 0, sd_accessCounter := 0\<rparr>)
            in c\<lparr>readDetect := d'\<lparr>sd_lastRequest := req\<rparr>\<rparr>))"

section \<open>Calls to the layers below\<close>

definition callFTL :: "(PageMapping \<Rightarrow> (tick \<times> PageMapping) res) \<Rightarrow> GenericCache \<Rightarrow> (tick \<times> GenericCache) res" where
  "callFTL f c = bindE (f (pFTL c)) (\<lambda>(t, s). Inr (t, c\<lparr>pFTL := s\<rparr>))"

definition below :: "(PageMapping \<Rightarrow> tick \<times> PageMapping) \<Rightarrow> GenericCache \<Rightarrow> tick \<times> GenericCache" where
  "below f c = (let (t, s) = f (pFTL c) in (t, c\<lparr>pFTL := s\<rparr>))"

definition setScheduling :: "bool \<Rightarrow> GenericCache \<Rightarrow> GenericCache" where
  "setScheduling b c = c\<lparr>pFTL := dramSetScheduling b (pFTL c)\<rparr>"


section \<open>Eviction\<close>

definition evictRequest :: "GenericCache \<Rightarrow> nat \<Rightarrow> u64 \<Rightarrow> FtlRequest" where
  "evictRequest c row tag =
     (let r = FtlRequest_new (lineCountInSuperPage c)
      in r\<lparr>freq_lpn := tag div of_nat (lineCountInSuperPage c),
           freq_ioFlag := bs_set (bs_reset_all (freq_ioFlag r)) row True\<rparr>)"

definition evictOne :: "env \<Rightarrow> tick \<Rightarrow> bool \<Rightarrow> nat \<times> nat \<Rightarrow> GenericCache \<Rightarrow> GenericCache res" where
  "evictOne e t flush rc c =
     (case evictAt c rc of
        None \<Rightarrow> Inr c
      | Some p \<Rightarrow>
          (let l = lineAt c p
           in bindE (if ln_valid l \<and> ln_dirty l then callFTL (FTL_write e (evictRequest c (fst rc) (ln_tag l)) t) c
                     else Inr (t, c))
              (\<lambda>(beginAt, c1).
                 let c2 = (if flush then updLine p (\<lambda>l. l\<lparr>ln_valid := False, ln_tag := 0\<rparr>) c1 else c1)
                 in Inr (setEvict rc None
                      (updLine p (\<lambda>l. l\<lparr>ln_insertedAt := beginAt, ln_lastAccessed := beginAt, ln_dirty := False\<rparr>) c2)))))"

definition ioPositions :: "GenericCache \<Rightarrow> (nat \<times> nat) list" where
  "ioPositions c = List.product [0..<lineCountInSuperPage c] [0..<parallelIO c]"

definition evictCache :: "env \<Rightarrow> tick \<Rightarrow> bool \<Rightarrow> GenericCache \<Rightarrow> GenericCache res" where
  "evictCache e t flush c = foldE (evictOne e t flush) (ioPositions c) c"

section \<open>Read\<close>

text \<open>The logical addresses of a read-ahead; the loop is empty when the end wraps around.\<close>

definition lcaRange :: "u64 \<Rightarrow> u64 \<Rightarrow> u64 list" where
  "lcaRange b en = (if b < en then map (\<lambda>i. b + of_nat i) [0..<unat (en - b)] else [])"

text \<open>
  The first loop of the miss path: find a line for every address that is not in the cache. The entry
  of \<open>readList\<close> packs set and way in one 64 bit number; here they are a pair.
\<close>

definition reserveLine :: "env \<Rightarrow> IclConfig \<Rightarrow> tick \<Rightarrow> u64 \<Rightarrow>
    (u64 \<times> line_ptr) list \<times> tick \<times> GenericCache \<Rightarrow> ((u64 \<times> line_ptr) list \<times> tick \<times> GenericCache) res" where
  "reserveLine e ic t lca st =
     (let (readList, fin, c) = st; (w, b1) = getValidWay ic lca t c
      in if w \<noteq> waySize c then Inr st
         else
           (let setIdx = calcSetIndex c lca; (w2, b2) = getEmptyWay ic setIdx b1 c
            in bindE
                 (if w2 = waySize c
                  then (let (w3, b3, c1) = evictFunction ic setIdx b2 c
                        in guardE (w3 < waySize c) (UB ''cache line out of range'')
                           (Inr (w3, b3,
                              if ln_dirty (lineAt c1 (setIdx, w3))
                              then setEvict (calcIOPosition c1 (ln_tag (lineAt c1 (setIdx, w3)))) (Some (setIdx, w3)) c1
                              else c1)))
                  else Inr (w2, b2, c))
                 (\<lambda>(way, b, c2).
                    Inr (readList @ [(lca, (setIdx, way))], max fin b,
                      updLine (setIdx, way)
                        (\<lambda>l. l\<lparr>ln_insertedAt := b, ln_lastAccessed := b, ln_valid := True, ln_dirty := False\<rparr>) c2))))"

text \<open>The second loop: read the data and give the line its tag.\<close>

definition readLine :: "env \<Rightarrow> IclRequest \<Rightarrow> u64 \<Rightarrow> tick \<Rightarrow> u64 \<times> line_ptr \<Rightarrow>
    tick \<times> GenericCache \<Rightarrow> (tick \<times> GenericCache) res" where
  "readLine e req target t x st =
     (let (fin, c) = st; (lca, p) = x; n = lineCountInSuperPage c; r = FtlRequest_of n req
      in bindE (callFTL (FTL_read e (r\<lparr>freq_lpn := lca div of_nat n,
                  freq_ioFlag := bs_set (bs_reset_all (freq_ioFlag r)) (unat lca mod n) True\<rparr>) t) c)
         (\<lambda>(b1, c1).
            let (dramAt, c2) = below (dramWrite e (lineSize c) (ln_insertedAt (lineAt c1 p))) c1;
                b = max b1 dramAt
            in Inr (if lca = target then b else fin,
                    updLine p (\<lambda>l. l\<lparr>ln_insertedAt := b, ln_lastAccessed := b, ln_tag := lca\<rparr>) c2)))"

text \<open>
  From the label \<open>ICL_GENERIC_CACHE_READ\<close>: \<open>ret\<close> tells a prefetch after a hit (which ended at
  \<open>arrived\<close>) from a miss. The request has the address of the prefetch in the first case.
\<close>

definition readMiss :: "env \<Rightarrow> IclConfig \<Rightarrow> IclRequest \<Rightarrow> bool \<Rightarrow> tick \<Rightarrow> tick \<Rightarrow> GenericCache \<Rightarrow> (tick \<times> GenericCache) res" where
  "readMiss e ic req ret arrived t c =
     (let beginLCA = ireq_slpn req; ahead = sd_enabled (readDetect c);
          n = (if \<not> ahead then 1
               else if prefetchMode c = MODE_ALL \<or> \<not> bSuperPage c then lineCountInMaxIO c else lineCountInSuperPage c);
          endLCA = beginLCA + of_nat n;
          c1 = (if ahead then (setScheduling False c)\<lparr>prefetchTrigger := beginLCA + of_nat (n div 2), lastPrefetched := endLCA\<rparr>
                else c)
      in bindE (foldE (reserveLine e ic t) (lcaRange beginLCA endLCA) ([], t, c1)) (\<lambda>(readList, t1, c2).
         bindE (evictCache e t1 True c2) (\<lambda>c3.
         bindE (foldE (readLine e req beginLCA t1) readList (t1, c3)) (\<lambda>(t2, c4).
           Inr (if ahead then (if ret then arrived else t2, setScheduling True c4) else (t2, c4))))))"

definition readCached :: "env \<Rightarrow> IclConfig \<Rightarrow> IclRequest \<Rightarrow> tick \<Rightarrow> GenericCache \<Rightarrow> (bool \<times> tick \<times> GenericCache) res" where
  "readCached e ic req t c =
     (let (w, t1) = getValidWay ic (ireq_slpn req) t c
      in if w \<noteq> waySize c then
           (let p = (calcSetIndex c (ireq_slpn req), w); t2 = max t1 (ln_insertedAt (lineAt c p));
                (t3, c1) = below (dramRead e (unat (ireq_length req)) t2) (updLine p (\<lambda>l. l\<lparr>ln_lastAccessed := t2\<rparr>) c)
            in if useReadPrefetch c1 \<and> ireq_slpn req = prefetchTrigger c1
               then bindE (readMiss e ic (req\<lparr>ireq_range := (ireq_range req)\<lparr>slpn := lastPrefetched c1\<rparr>\<rparr>) True t3 t1 c1)
                      (\<lambda>r. Inr (True, r))
               else Inr (True, t3, c1))
         else bindE (readMiss e ic req False t t1 c) (\<lambda>r. Inr (False, r)))"

definition readUncached :: "env \<Rightarrow> IclRequest \<Rightarrow> tick \<Rightarrow> GenericCache \<Rightarrow> (bool \<times> tick \<times> GenericCache) res" where
  "readUncached e req t c =
     (let (t1, c1) = below (dramWrite e (unat (ireq_length req)) t) c
      in bindE (callFTL (FTL_read e (FtlRequest_of (lineCountInSuperPage c) req) t1) c1) (\<lambda>r. Inr (False, r)))"

definition cacheRead :: "env \<Rightarrow> IclConfig \<Rightarrow> IclRequest \<Rightarrow> tick \<Rightarrow> GenericCache \<Rightarrow> (bool \<times> tick \<times> GenericCache) res" where
  "cacheRead e ic req t c =
     bindE
       (if useReadCaching c
        then bindE (readCached e ic req t (if useReadPrefetch c then checkSequential req c else c))
               (\<lambda>(ret, t1, c1). let (t2, c2) = below (addLatency e CpuCACHE_READ t1) c1 in Inr (ret, t2, c2))
        else readUncached e req t c)
       (\<lambda>(ret, t', c').
          Inr (ret, t', c'\<lparr>stat_request := (fst (stat_request c') + 1, snd (stat_request c')),
                 stat_cache := (if ret then (fst (stat_cache c') + 1, snd (stat_cache c')) else stat_cache c')\<rparr>))"

section \<open>Write\<close>

text \<open>
  The victims of a write into a full set: for every I/O position the best line of the whole cache,
  narrowed down to one line of every row in superpage mode, and at least one of the set.
\<close>

definition offerLine :: "IclConfig \<Rightarrow> line_ptr \<Rightarrow> GenericCache \<Rightarrow> GenericCache" where
  "offerLine ic p c =
     (if ln_valid (lineAt c p)
      then (let rc = calcIOPosition c (ln_tag (lineAt c p)); (q, c1) = compareFunction ic (evictAt c rc) (Some p) c
            in setEvict rc q c1)
      else c)"

definition linePtrs :: "GenericCache \<Rightarrow> line_ptr list" where
  "linePtrs c = List.product [0..<setSize c] [0..<waySize c]"

definition narrowRow :: "IclConfig \<Rightarrow> nat \<times> nat \<Rightarrow> GenericCache \<Rightarrow> GenericCache" where
  "narrowRow ic rc c =
     (let nx = (fst rc, Suc (snd rc)); (q, c1) = compareFunction ic (evictAt c rc) (evictAt c nx) c
      in setEvict rc None (setEvict nx q c1))"

definition haveSet :: "nat \<Rightarrow> GenericCache \<Rightarrow> bool" where
  "haveSet setIdx c \<longleftrightarrow>
     list_ex (\<lambda>rc. case evictAt c rc of None \<Rightarrow> False | Some p \<Rightarrow> calcSetIndex c (ln_tag (lineAt c p)) = setIdx)
       (ioPositions c)"

definition bestOfSet :: "IclConfig \<Rightarrow> nat \<Rightarrow> GenericCache \<Rightarrow> line_ptr option \<times> GenericCache" where
  "bestOfSet ic setIdx c =
     fold (\<lambda>w (q, c). if ln_valid (lineAt c (setIdx, w)) then compareFunction ic q (Some (setIdx, w)) c else (q, c))
       [0..<waySize c] (None, c)"

definition chooseVictims :: "IclConfig \<Rightarrow> nat \<Rightarrow> GenericCache \<Rightarrow> GenericCache" where
  "chooseVictims ic setToFlush c =
     (let c1 = fold (offerLine ic) (linePtrs c) c;
          c2 = (if evictMode c1 = MODE_SUPERPAGE
                then fold (narrowRow ic) (List.product [0..<lineCountInSuperPage c1] [0..<parallelIO c1 - 1]) c1
                else c1)
      in if haveSet setToFlush c2 then c2
         else (case bestOfSet ic setToFlush c2 of
                 (None, c3) \<Rightarrow> c3
               | (Some p, c3) \<Rightarrow> setEvict (calcIOPosition c3 (ln_tag (lineAt c3 p))) (Some p) c3))"

definition writeFlush :: "env \<Rightarrow> IclConfig \<Rightarrow> IclRequest \<Rightarrow> tick \<Rightarrow> GenericCache \<Rightarrow> (tick \<times> GenericCache) res" where
  "writeFlush e ic req t c =
     (let setIdx = calcSetIndex c (ireq_slpn req);
          t1 = t + getCacheLatency ic * of_nat (setSize c) * of_nat (waySize c) * 8
      in bindE (evictCache e t1 True (chooseVictims ic setIdx c)) (\<lambda>c1.
         let (w, t2) = getEmptyWay ic setIdx t1 c1
         in guardE (w \<noteq> waySize c1) (Panic ''Cache corrupted!'')
            (let (t3, c2) = below (dramWrite e (unat (ireq_length req)) t2) c1
             in Inr (t3, updLine (setIdx, w) (\<lambda>l. \<lparr>ln_tag = ireq_slpn req, ln_lastAccessed = t3, ln_insertedAt = t3,
                           ln_dirty = True, ln_valid = True\<rparr>) c2))))"

text \<open>The update of a line that is there or is free: \<open>stamp\<close> is its new time stamp.\<close>

definition writeLine :: "env \<Rightarrow> IclRequest \<Rightarrow> bool \<Rightarrow> tick \<Rightarrow> line_ptr \<Rightarrow> (Line \<Rightarrow> Line) \<Rightarrow> tick \<Rightarrow> GenericCache \<Rightarrow> tick \<times> GenericCache" where
  "writeLine e req dirty flash p f t c =
     (let t1 = max t (ln_insertedAt (lineAt c p)); stamp = (if dirty then t1 else flash)
      in below (dramWrite e (unat (ireq_length req)) t1)
           (updLine p (\<lambda>l. f (l\<lparr>ln_insertedAt := stamp, ln_lastAccessed := stamp, ln_dirty := dirty\<rparr>)) c))"

definition writeCached :: "env \<Rightarrow> IclConfig \<Rightarrow> IclRequest \<Rightarrow> bool \<Rightarrow> tick \<Rightarrow> tick \<Rightarrow> GenericCache \<Rightarrow> (bool \<times> tick \<times> GenericCache) res" where
  "writeCached e ic req dirty flash t c =
     (let lca = ireq_slpn req; setIdx = calcSetIndex c lca; (w, t1) = getValidWay ic lca t c
      in bindE
           (if w \<noteq> waySize c
            then Inr (True, writeLine e req dirty flash (setIdx, w) (\<lambda>l. l) t1 c)
            else (let (w2, t2) = getEmptyWay ic setIdx t1 c
                  in if w2 \<noteq> waySize c
                     then Inr (True, writeLine e req dirty flash (setIdx, w2)
                            (\<lambda>l. l\<lparr>ln_valid := True, ln_tag := lca\<rparr>) t2 c)
                     else bindE (writeFlush e ic req t2 c) (\<lambda>r. Inr (False, r))))
           (\<lambda>(ret, t3, c1). let (t4, c2) = below (addLatency e CpuCACHE_WRITE t3) c1 in Inr (ret, t4, c2)))"

definition writeUncached :: "env \<Rightarrow> IclRequest \<Rightarrow> bool \<Rightarrow> tick \<Rightarrow> tick \<Rightarrow> GenericCache \<Rightarrow> (bool \<times> tick \<times> GenericCache) res" where
  "writeUncached e req dirty flash t c =
     bindE (if dirty then callFTL (FTL_write e (FtlRequest_of (lineCountInSuperPage c) req) t) c else Inr (flash, c))
       (\<lambda>(t1, c1).
          let (t2, c2) = below (dramRead e (unat (ireq_length req)) t1) (setScheduling False c1)
          in Inr (False, t2, setScheduling True c2))"

definition cacheWrite :: "env \<Rightarrow> IclConfig \<Rightarrow> IclRequest \<Rightarrow> tick \<Rightarrow> GenericCache \<Rightarrow> (bool \<times> tick \<times> GenericCache) res" where
  "cacheWrite e ic req t c =
     (let dirty = (unat (ireq_length req) < lineSize c)
      in bindE (if dirty then Inr (t, c)
                else callFTL (FTL_write e (FtlRequest_of (lineCountInSuperPage c) req) t) c) (\<lambda>(flash, c0).
         bindE
           (if useWriteCaching c0 then writeCached e ic req dirty flash t c0 else writeUncached e req dirty flash t c0)
           (\<lambda>(ret, t', c').
              Inr (ret, t', c'\<lparr>stat_request := (fst (stat_request c'), snd (stat_request c') + 1),
                     stat_cache := (if ret then (fst (stat_cache c'), snd (stat_cache c') + 1) else stat_cache c')\<rparr>))))"

section \<open>Flush, trim and format\<close>

definition inLines :: "LPNRange \<Rightarrow> Line \<Rightarrow> bool" where
  "inLines rng l \<longleftrightarrow> slpn rng \<le> ln_tag l \<and> ln_tag l < slpn rng + nlp rng"

text \<open>
  One step of the loops of \<open>flush\<close> and \<open>trim\<close>; the state is the request, whose flags accumulate, the
  tick, the latest end and the cache.
\<close>

definition flushLine :: "env \<Rightarrow> IclConfig \<Rightarrow> LPNRange \<Rightarrow> line_ptr \<Rightarrow> FtlRequest \<times> tick \<times> tick \<times> GenericCache \<Rightarrow>
    (FtlRequest \<times> tick \<times> tick \<times> GenericCache) res" where
  "flushLine e ic rng p st =
     (let (r, t, fin, c) = st; l = lineAt c p; n = lineCountInSuperPage c; t1 = t + getCacheLatency ic * 8
      in if inLines rng l
         then bindE
                (if ln_dirty l
                 then (let r1 = r\<lparr>freq_lpn := ln_tag l div of_nat n,
                                  freq_ioFlag := bs_set (freq_ioFlag r) (unat (ln_tag l) mod n) True\<rparr>
                       in bindE (callFTL (FTL_write e r1 t1) c) (\<lambda>(t2, c1). Inr (r1, max fin t2, c1)))
                 else Inr (r, fin, c))
                (\<lambda>(r2, fin2, c2). Inr (r2, t1, fin2, updLine p (\<lambda>l. l\<lparr>ln_valid := False\<rparr>) c2))
         else Inr (r, t1, fin, c))"

definition cacheFlush :: "env \<Rightarrow> IclConfig \<Rightarrow> LPNRange \<Rightarrow> tick \<Rightarrow> GenericCache \<Rightarrow> (tick \<times> GenericCache) res" where
  "cacheFlush e ic rng t c =
     (if useReadCaching c \<or> useWriteCaching c
      then bindE (foldE (flushLine e ic rng) (linePtrs c) (FtlRequest_new (lineCountInSuperPage c), t, t, c))
             (\<lambda>(r, t1, fin, c1). Inr (below (addLatency e CpuCACHE_FLUSH (max t1 fin)) c1))
      else Inr (t, c))"

definition trimLine :: "env \<Rightarrow> IclConfig \<Rightarrow> LPNRange \<Rightarrow> line_ptr \<Rightarrow> FtlRequest \<times> tick \<times> tick \<times> GenericCache \<Rightarrow>
    (FtlRequest \<times> tick \<times> tick \<times> GenericCache) res" where
  "trimLine e ic rng p st =
     (let (r, t, fin, c) = st; l = lineAt c p; n = lineCountInSuperPage c; t1 = t + getCacheLatency ic * 8
      in if inLines rng l
         then (let r1 = r\<lparr>freq_lpn := ln_tag l div of_nat n,
                          freq_ioFlag := bs_set (freq_ioFlag r) (unat (ln_tag l) mod n) True\<rparr>
               in bindE (callFTL (FTL_trim e r1 t1) c) (\<lambda>(t2, c1).
                    Inr (r1, t1, max fin t2, updLine p (\<lambda>l. l\<lparr>ln_valid := False\<rparr>) c1)))
         else Inr (r, t1, fin, c))"

definition cacheTrim :: "env \<Rightarrow> IclConfig \<Rightarrow> LPNRange \<Rightarrow> tick \<Rightarrow> GenericCache \<Rightarrow> (tick \<times> GenericCache) res" where
  "cacheTrim e ic rng t c =
     (if useReadCaching c \<or> useWriteCaching c
      then bindE (foldE (trimLine e ic rng) (linePtrs c) (FtlRequest_new (lineCountInSuperPage c), t, t, c))
             (\<lambda>(r, t1, fin, c1). Inr (below (addLatency e CpuCACHE_TRIM (max t1 fin)) c1))
      else Inr (t, c))"

definition dropLine :: "IclConfig \<Rightarrow> LPNRange \<Rightarrow> nat \<Rightarrow> tick \<times> GenericCache \<Rightarrow> tick \<times> GenericCache" where
  "dropLine ic rng i st =
     (let (t, c) = st; lpn = slpn rng + of_nat i; (w, t1) = getValidWay ic lpn t c
      in (t1, if w \<noteq> waySize c then updLine (calcSetIndex c lpn, w) (\<lambda>l. l\<lparr>ln_valid := False\<rparr>) c else c))"

definition ftlRange :: "GenericCache \<Rightarrow> LPNRange \<Rightarrow> LPNRange" where
  "ftlRange c rng =
     (let n = of_nat (lineCountInSuperPage c) in \<lparr>slpn = slpn rng div n, nlp = (nlp rng - 1) div n + 1\<rparr>)"

definition cacheFormat :: "env \<Rightarrow> IclConfig \<Rightarrow> LPNRange \<Rightarrow> tick \<Rightarrow> GenericCache \<Rightarrow> (tick \<times> GenericCache) res" where
  "cacheFormat e ic rng t c =
     (let (t1, c1) = (if useReadCaching c \<or> useWriteCaching c
                      then fold (dropLine ic rng) [0..<unat (nlp rng)] (t, c) else (t, c))
      in bindE (callFTL (FTL_format e (ftlRange c1 rng) t1) c1)
           (\<lambda>(t2, c2). Inr (below (addLatency e CpuCACHE_FORMAT t2) c2)))"

definition cacheResetStatValues :: "GenericCache \<Rightarrow> GenericCache" where
  "cacheResetStatValues c = c\<lparr>stat_request := (0, 0), stat_cache := (0, 0)\<rparr>"

end
