(* ===== verification/CacheStore.thy ===== *)
theory CacheStore
  imports GenericCache
begin

text \<open>
  What the cache keeps: its geometry, the lines in the sets of their tags, the pointers of an
  eviction, and the units it stores (those that are live in the translation layer or dirty in
  a valid line). The translation layer enters through the interface \<open>unit_store\<close>, which is interpreted
  on the operations of \<open>FTL\<close>.
\<close>

section \<open>Interface: a store of units\<close>

locale unit_store =
  fixes stores :: "'u set \<Rightarrow> 's \<Rightarrow> bool"
    and wr :: "'r \<Rightarrow> tick \<Rightarrow> 's \<Rightarrow> (tick \<times> 's) res"
    and rd :: "'r \<Rightarrow> tick \<Rightarrow> 's \<Rightarrow> (tick \<times> 's) res"
    and tr :: "'r \<Rightarrow> tick \<Rightarrow> 's \<Rightarrow> (tick \<times> 's) res"
    and addresses :: "'r \<Rightarrow> 'u set"
    and page :: "'r \<Rightarrow> 'u set"
  assumes write_ok: "stores L s \<Longrightarrow> addresses r \<noteq> {} \<Longrightarrow> okE (\<lambda>(t', s'). stores (L \<union> addresses r) s') (wr r t s)"
    and read_ok: "stores L s \<Longrightarrow> okE (\<lambda>(t', s'). stores L s') (rd r t s)"
    and trim_ok: "stores L s \<Longrightarrow> okE (\<lambda>(t', s'). stores (L - page r) s') (tr r t s)"
begin

lemma write_covers:
  assumes "stores L s" and "u \<in> addresses r"
  shows "okE (\<lambda>(t', s'). \<exists>L'. stores L' s' \<and> L \<subseteq> L' \<and> u \<in> L') (wr r t s)"
proof -
  have a: "addresses r \<noteq> {}" using assms(2) by blast
  show ?thesis by (rule okE_mono [OF write_ok [OF assms(1) a]]) (use assms(2) in auto)
qed

lemma write_then_trim:
  assumes "stores L s" and "addresses r \<noteq> {}" and "addresses r \<subseteq> page r"
  shows "okE (\<lambda>(t', s'). okE (\<lambda>(t2, s2). stores (L - page r) s2) (tr r t' s')) (wr r t s)"
proof (rule okE_mono [OF write_ok [OF assms(1,2)]], clarify)
  fix t' s' assume "stores (L \<union> addresses r) s'"
  moreover have "L \<union> addresses r - page r = L - page r" using assms(3) by blast
  ultimately show "okE (\<lambda>(t2, s2). stores (L - page r) s2) (tr r t' s')" using trim_ok by metis
qed

end

text \<open>The units that a request for the translation layer addresses, when its flags are as wide as a page.\<close>

definition flaggedUnits :: "env \<Rightarrow> FtlRequest \<Rightarrow> (u64 \<times> nat) set" where
  "flaggedUnits e r =
     (if bs_sized (bitsetSize e) (freq_ioFlag r) \<and> bs_count (freq_ioFlag r) > 0 then unitsOf e r else {})"

definition pageUnits :: "env \<Rightarrow> FtlRequest \<Rightarrow> (u64 \<times> nat) set" where
  "pageUnits e r = {(l, i). l = freq_lpn r}"

lemma FTL_write_ok:
  assumes "env_ok e" and "serves e L s"
  shows "okE (\<lambda>(t', s'). serves e (if bs_count (freq_ioFlag r) > 0 then L \<union> unitsOf e r else L) s') (FTL_write e r t s)"
  unfolding FTL_write_def by (rule okE_latency [OF ftlWrite_ok [OF assms]])

interpretation ftl_store: unit_store "\<lambda>L s. env_ok e \<and> serves e L s" "FTL_write e" "FTL_read e" "FTL_trim e"
  "flaggedUnits e" "pageUnits e" for e
proof unfold_locales
  fix L s r t assume a: "env_ok e \<and> serves e L s"
  show "okE (\<lambda>(t', s'). env_ok e \<and> serves e (L \<union> flaggedUnits e r) s') (FTL_write e r t s)" if "flaggedUnits e r \<noteq> {}"
    using FTL_write_ok [of e L s r t] a that by (auto simp: flaggedUnits_def split: if_splits)
  show "okE (\<lambda>(t', s'). env_ok e \<and> serves e L s') (FTL_read e r t s)"
    using okE_latency [OF ftlRead_ok, of e L s r t] a by (auto simp: FTL_read_def)
  have "{(l, i) \<in> L. l \<noteq> freq_lpn r} = L - pageUnits e r" by (auto simp: pageUnits_def)
  then show "okE (\<lambda>(t', s'). env_ok e \<and> serves e (L - pageUnits e r) s') (FTL_trim e r t s)"
    using okE_latency [OF ftlTrim_ok, of e L s r t] a by (auto simp: FTL_trim_def)
qed

section \<open>Geometry\<close>

definition shape :: "GenericCache \<Rightarrow> (nat \<times> nat \<times> nat \<times> nat \<times> nat \<times> nat) \<times> bool \<times> bool \<times> bool" where
  "shape c = ((setSize c, waySize c, parallelIO c, lineCountInSuperPage c, lineCountInMaxIO c, lineSize c),
     useReadCaching c, useWriteCaching c, useReadPrefetch c)"

definition hasLine :: "GenericCache \<Rightarrow> line_ptr \<Rightarrow> bool" where
  "hasLine c p \<longleftrightarrow> fst p < setSize c \<and> snd p < waySize c"

definition inGrid :: "GenericCache \<Rightarrow> nat \<times> nat \<Rightarrow> bool" where
  "inGrid c rc \<longleftrightarrow> fst rc < lineCountInSuperPage c \<and> snd rc < parallelIO c"

definition cache_geom :: "env \<Rightarrow> GenericCache \<Rightarrow> bool" where
  "cache_geom e c \<longleftrightarrow> 0 < setSize c \<and> 0 < waySize c \<and> 0 < parallelIO c \<and> 0 < bitsetSize e \<and> bitsetSize e < 2 ^ 64 \<and>
     lineCountInSuperPage c = bitsetSize e \<and> lineCountInMaxIO c = parallelIO c * lineCountInSuperPage c \<and>
     length (cacheData c) = setSize c \<and> (\<forall>row\<in>set (cacheData c). length row = waySize c) \<and>
     length (evictData c) = lineCountInSuperPage c \<and> (\<forall>row\<in>set (evictData c). length row = parallelIO c)"

lemma shapeD:
  assumes "shape c' = shape c"
  shows "setSize c' = setSize c" "waySize c' = waySize c" "parallelIO c' = parallelIO c"
    "lineCountInSuperPage c' = lineCountInSuperPage c" "lineCountInMaxIO c' = lineCountInMaxIO c" "lineSize c' = lineSize c"
    "useReadCaching c' = useReadCaching c" "useWriteCaching c' = useWriteCaching c"
    "calcSetIndex c' = calcSetIndex c" "calcIOPosition c' = calcIOPosition c" "hasLine c' = hasLine c" "inGrid c' = inGrid c"
    "linePtrs c' = linePtrs c" "ioPositions c' = ioPositions c" "evictRequest c' = evictRequest c"
  using assms by (auto simp: shape_def calcSetIndex_def calcIOPosition_def hasLine_def inGrid_def linePtrs_def
      ioPositions_def evictRequest_def fun_eq_iff)

lemma below_eq: "below g c = (fst (g (pFTL c)), c\<lparr>pFTL := snd (g (pFTL c))\<rparr>)"
  by (simp add: below_def case_prod_unfold Let_def)

lemma shape_ops [simp]:
  "shape (updLine p f c) = shape c"
  "shape (setEvict rc q c) = shape c"
  "shape (c\<lparr>pFTL := s\<rparr>) = shape c"
  "shape (c\<lparr>nDraws := k\<rparr>) = shape c"
  "shape (c\<lparr>readDetect := d\<rparr>) = shape c"
  "shape (c\<lparr>prefetchTrigger := x\<rparr>) = shape c"
  "shape (c\<lparr>lastPrefetched := x\<rparr>) = shape c"
  "shape (c\<lparr>stat_request := r\<rparr>) = shape c"
  "shape (c\<lparr>stat_cache := r\<rparr>) = shape c"
  "shape (setScheduling b c) = shape c"
  "shape (snd (below g c)) = shape c"
  by (simp_all add: shape_def updLine_def setEvict_def setScheduling_def below_eq)

lemma cache_geom_eq:
  assumes "shape c' = shape c" and "length (cacheData c') = length (cacheData c)" "length (evictData c') = length (evictData c)"
    and "cache_geom e c"
    and "\<forall>row\<in>set (cacheData c'). length row = waySize c" "\<forall>row\<in>set (evictData c'). length row = parallelIO c"
  shows "cache_geom e c'"
  using assms shapeD [OF assms(1)] by (simp add: cache_geom_def)

lemma geom_row:
  assumes "cache_geom e c"
  shows "i < setSize c \<Longrightarrow> length (cacheData c ! i) = waySize c"
    and "j < lineCountInSuperPage c \<Longrightarrow> length (evictData c ! j) = parallelIO c"
  using assms by (auto simp: cache_geom_def)

lemma geom_ops [simp]:
  "cache_geom e c \<Longrightarrow> hasLine c p \<Longrightarrow> cache_geom e (updLine p f c)"
  "cache_geom e c \<Longrightarrow> inGrid c rc \<Longrightarrow> cache_geom e (setEvict rc q c)"
proof -
  assume g: "cache_geom e c"
  show "cache_geom e (updLine p f c)" if p: "hasLine c p"
  proof (rule cache_geom_eq [OF _ _ _ g])
    show "\<forall>row\<in>set (cacheData (updLine p f c)). length row = waySize c"
      using g p geom_row(1) [OF g] by (auto simp: updLine_def hasLine_def cache_geom_def dest!: set_update_subset_insert [THEN subsetD])
  qed (use g in \<open>auto simp: updLine_def cache_geom_def shape_def\<close>)
  show "cache_geom e (setEvict rc q c)" if p: "inGrid c rc"
  proof (rule cache_geom_eq [OF _ _ _ g])
    show "\<forall>row\<in>set (evictData (setEvict rc q c)). length row = parallelIO c"
      using g p geom_row(2) [OF g] by (auto simp: setEvict_def inGrid_def cache_geom_def dest!: set_update_subset_insert [THEN subsetD])
  qed (use g in \<open>auto simp: setEvict_def cache_geom_def shape_def\<close>)
qed

text \<open>The parts of the state the invariants speak of, and operations that touch none of them.\<close>

definition same_data :: "GenericCache \<Rightarrow> GenericCache \<Rightarrow> bool" where
  "same_data c c' \<longleftrightarrow> shape c' = shape c \<and> cacheData c' = cacheData c \<and> evictData c' = evictData c"

lemma same_dataD:
  assumes "same_data c c'"
  shows "shape c' = shape c" "lineAt c' = lineAt c" "evictAt c' = evictAt c" "cache_geom e c' = cache_geom e c"
  using assms shapeD [of c' c] by (auto simp: same_data_def lineAt_def evictAt_def cache_geom_def fun_eq_iff)

lemma same_data_ops [simp]:
  "same_data c (c\<lparr>pFTL := s\<rparr>)"
  "same_data c (c\<lparr>nDraws := k\<rparr>)"
  "same_data c (c\<lparr>readDetect := d\<rparr>)"
  "same_data c (setScheduling b c)"
  "same_data c (snd (below g c))"
  by (simp_all add: same_data_def) (simp_all add: setScheduling_def below_eq)

lemma same_data_trans: "same_data c c' \<Longrightarrow> same_data c' c'' \<Longrightarrow> same_data c c''"
  by (simp add: same_data_def)

lemma same_data_refl [simp]: "same_data c c"
  by (simp add: same_data_def)

lemma lineAt_updLine:
  assumes "cache_geom e c" and "hasLine c p"
  shows "lineAt (updLine p f c) q = (if q = p then f (lineAt c p) else lineAt c q)"
  using assms geom_row(1) [OF assms(1), of "fst p"]
  by (cases p; cases q) (auto simp: lineAt_def updLine_def hasLine_def cache_geom_def nth_list_update)

lemma evictAt_setEvict:
  assumes "cache_geom e c" and "inGrid c rc"
  shows "evictAt (setEvict rc q c) rc' = (if rc' = rc then q else evictAt c rc')"
  using assms geom_row(2) [OF assms(1), of "fst rc"]
  by (cases rc; cases rc') (auto simp: evictAt_def setEvict_def inGrid_def cache_geom_def nth_list_update)

lemma frame_ops [simp]:
  "lineAt (setEvict rc q c) = lineAt c"
  "evictAt (updLine p f c) = evictAt c"
  "pFTL (updLine p f c) = pFTL c"
  "pFTL (setEvict rc q c) = pFTL c"
  by (simp_all add: fun_eq_iff lineAt_def evictAt_def updLine_def setEvict_def)


section \<open>Units\<close>

text \<open>The unit of the translation layer that holds a logical cache address.\<close>

definition unitOf :: "env \<Rightarrow> u64 \<Rightarrow> u64 \<times> nat" where
  "unitOf e lca = (lca div of_nat (bitsetSize e), unat lca mod bitsetSize e)"

definition dirtyUnits :: "env \<Rightarrow> GenericCache \<Rightarrow> (u64 \<times> nat) set" where
  "dirtyUnits e c = {unitOf e (ln_tag (lineAt c p)) | p. hasLine c p \<and> ln_valid (lineAt c p) \<and> ln_dirty (lineAt c p)}"

lemma single_flag:
  assumes "bs_sized n b" and "i < n"
  shows "bs_sized n (bs_set (bs_reset_all b) i True)" and "0 < bs_count (bs_set (bs_reset_all b) i True)"
    and "j < n \<Longrightarrow> bs_test (bs_set (bs_reset_all b) i True) j = (j = i)"
proof -
  have s: "bs_sized n (bs_reset_all b)" by (rule bs_sized_ops(4) [OF assms(1)])
  show sz: "bs_sized n (bs_set (bs_reset_all b) i True)" by (rule bs_sized_ops(1) [OF s assms(2)])
  show t: "bs_test (bs_set (bs_reset_all b) i True) j = (j = i)" if "j < n" for j
    using bs_sized_test(1) [OF s assms(2)] bs_sized_test(4) [OF assms(1) that] by auto
  have "i \<in> {k. k < bs_size (bs_set (bs_reset_all b) i True) \<and> bs_test (bs_set (bs_reset_all b) i True) k}"
    using t [OF assms(2)] sz assms(2) by (simp add: bs_sized_def)
  then show "0 < bs_count (bs_set (bs_reset_all b) i True)"
    using bs_count_card [of "bs_set (bs_reset_all b) i True"] sz by (auto simp: bs_sized_def card_gt_0_iff)
qed

lemma flag_count:
  assumes "bs_sized n b" and "i < n"
  shows "0 < bs_count (bs_set b i True)"
proof -
  have sz: "bs_sized n (bs_set b i True)" by (rule bs_sized_ops(1) [OF assms])
  then have "i \<in> {k. k < bs_size (bs_set b i True) \<and> bs_test (bs_set b i True) k}"
    using bs_sized_test(1) [OF assms, of True i] assms(2) by (simp add: bs_sized_def)
  then show ?thesis using bs_count_card [of "bs_set b i True"] sz by (auto simp: bs_sized_def card_gt_0_iff)
qed

lemma evictRequest_units:
  assumes "cache_geom e c" and "row < bitsetSize e"
  shows "flaggedUnits e (evictRequest c row tag) = {(tag div of_nat (bitsetSize e), row)}"
proof -
  have n: "lineCountInSuperPage c = bitsetSize e" "0 < bitsetSize e" using assms(1) by (auto simp: cache_geom_def)
  have b: "bs_sized (bitsetSize e) (Bitset_new (bitsetSize e))" by (rule bs_sized_new [OF n(2)])
  note f = single_flag [OF b assms(2)]
  show ?thesis
    using f assms(2) by (auto simp: flaggedUnits_def evictRequest_def FtlRequest_new_def n(1) unitsOf_def addressed_def
      bitsetSize_def split: if_splits)
qed

lemma FtlRequest_of_units:
  assumes "cache_geom e c"
  shows "flaggedUnits e (FtlRequest_of (lineCountInSuperPage c) req) = {unitOf e (ireq_slpn req)}"
proof -
  have n: "lineCountInSuperPage c = bitsetSize e" "0 < bitsetSize e" using assms(1) by (auto simp: cache_geom_def)
  let ?i = "unat (ireq_slpn req) mod bitsetSize e"
  have b: "bs_sized (bitsetSize e) (Bitset_new (bitsetSize e))" by (rule bs_sized_new [OF n(2)])
  have i: "?i < bitsetSize e" using n(2) by simp
  have "\<not> bs_test (Bitset_new (bitsetSize e)) j" if "j < bitsetSize e" for j
    using bs_test_new [OF that] by simp
  then show ?thesis
    using bs_sized_ops(1) [OF b i, of True] bs_sized_test(1) [OF b i, of True] flag_count [OF b i] i
    by (auto simp: flaggedUnits_def FtlRequest_of_def n(1) unitsOf_def addressed_def unitOf_def bitsetSize_def split: if_splits)
qed

lemma dirtyUnits_frame: "same_data c c' \<Longrightarrow> dirtyUnits e c' = dirtyUnits e c"
  using same_dataD [of c c'] shapeD [of c' c] by (simp add: dirtyUnits_def)

lemma dirtyUnits_setEvict [simp]: "dirtyUnits e (setEvict rc q c) = dirtyUnits e c"
  using shapeD [OF shape_ops(2)] by (simp add: dirtyUnits_def)

lemma dirtyUnits_upd:
  assumes "cache_geom e c" and "hasLine c p"
  shows "dirtyUnits e (updLine p f c) \<subseteq> dirtyUnits e c \<union>
     (if ln_valid (f (lineAt c p)) \<and> ln_dirty (f (lineAt c p)) then {unitOf e (ln_tag (f (lineAt c p)))} else {})"
    and "dirtyUnits e c \<subseteq> dirtyUnits e (updLine p f c) \<union>
     (if ln_valid (lineAt c p) \<and> ln_dirty (lineAt c p) then {unitOf e (ln_tag (lineAt c p))} else {})"
    and "ln_valid (f (lineAt c p)) \<Longrightarrow> ln_dirty (f (lineAt c p)) \<Longrightarrow> unitOf e (ln_tag (f (lineAt c p))) \<in> dirtyUnits e (updLine p f c)"
proof -
  note u = lineAt_updLine [OF assms, of f] and h = shapeD(11) [OF shape_ops(1), of p f c]
  show "dirtyUnits e (updLine p f c) \<subseteq> dirtyUnits e c \<union>
     (if ln_valid (f (lineAt c p)) \<and> ln_dirty (f (lineAt c p)) then {unitOf e (ln_tag (f (lineAt c p)))} else {})"
    unfolding dirtyUnits_def h by (clarsimp simp: u split: if_splits) blast
  show "dirtyUnits e c \<subseteq> dirtyUnits e (updLine p f c) \<union>
     (if ln_valid (lineAt c p) \<and> ln_dirty (lineAt c p) then {unitOf e (ln_tag (lineAt c p))} else {})"
  proof
    fix x assume "x \<in> dirtyUnits e c"
    then obtain q where q: "hasLine c q" "ln_valid (lineAt c q)" "ln_dirty (lineAt c q)" "x = unitOf e (ln_tag (lineAt c q))"
      by (auto simp: dirtyUnits_def)
    show "x \<in> dirtyUnits e (updLine p f c) \<union>
      (if ln_valid (lineAt c p) \<and> ln_dirty (lineAt c p) then {unitOf e (ln_tag (lineAt c p))} else {})"
    proof (cases "q = p")
      case False
      then have "lineAt (updLine p f c) q = lineAt c q" by (simp add: u)
      then show ?thesis using q unfolding dirtyUnits_def h by (intro UnI1 CollectI exI [of _ q]) simp
    qed (use q in simp)
  qed
  show "unitOf e (ln_tag (f (lineAt c p))) \<in> dirtyUnits e (updLine p f c)"
    if "ln_valid (f (lineAt c p))" and "ln_dirty (f (lineAt c p))"
    unfolding dirtyUnits_def h using that assms(2) by (intro CollectI exI [of _ p]) (simp add: u)
qed

end
