(* ===== verification/CacheInv.thy ===== *)
theory CacheInv
  imports CacheStore
begin

text \<open>
  The invariant of the cache and the proofs that its operations keep it: \<open>holds e S c\<close> says that the
  cache c, together with its translation layer, stores exactly the units S.
\<close>

section \<open>The invariant\<close>

lemma dirtyUnitsI:
  "hasLine c p \<Longrightarrow> ln_valid (lineAt c p) \<Longrightarrow> ln_dirty (lineAt c p) \<Longrightarrow> unitOf e (ln_tag (lineAt c p)) \<in> dirtyUnits e c"
  unfolding dirtyUnits_def by blast

definition evict_ok :: "GenericCache \<Rightarrow> bool" where
  "evict_ok c \<longleftrightarrow> (\<forall>rc p. inGrid c rc \<and> evictAt c rc = Some p \<longrightarrow>
     hasLine c p \<and> (ln_valid (lineAt c p) \<longrightarrow> unat (ln_tag (lineAt c p)) mod lineCountInSuperPage c = fst rc))"

text \<open>X is the set of lines that are being filled and do not have their tag yet.\<close>

definition sets_ok :: "line_ptr set \<Rightarrow> GenericCache \<Rightarrow> bool" where
  "sets_ok X c \<longleftrightarrow> (\<forall>p. hasLine c p \<and> p \<notin> X \<and> ln_valid (lineAt c p) \<longrightarrow> calcSetIndex c (ln_tag (lineAt c p)) = fst p)"

lemma evict_okI:
  "(\<And>rc p. inGrid c rc \<Longrightarrow> evictAt c rc = Some p \<Longrightarrow>
     hasLine c p \<and> (ln_valid (lineAt c p) \<longrightarrow> unat (ln_tag (lineAt c p)) mod lineCountInSuperPage c = fst rc)) \<Longrightarrow> evict_ok c"
  unfolding evict_ok_def by blast

lemma evict_okD:
  assumes "evict_ok c" and "inGrid c rc" and "evictAt c rc = Some p"
  shows "hasLine c p" and "ln_valid (lineAt c p) \<Longrightarrow> unat (ln_tag (lineAt c p)) mod lineCountInSuperPage c = fst rc"
  using assms unfolding evict_ok_def by blast+

lemma sets_okI: "(\<And>p. hasLine c p \<Longrightarrow> p \<notin> X \<Longrightarrow> ln_valid (lineAt c p) \<Longrightarrow> calcSetIndex c (ln_tag (lineAt c p)) = fst p) \<Longrightarrow> sets_ok X c"
  unfolding sets_ok_def by blast

lemma sets_okD: "sets_ok X c \<Longrightarrow> hasLine c p \<Longrightarrow> p \<notin> X \<Longrightarrow> ln_valid (lineAt c p) \<Longrightarrow> calcSetIndex c (ln_tag (lineAt c p)) = fst p"
  unfolding sets_ok_def by blast

definition idle :: "GenericCache \<Rightarrow> bool" where
  "idle c \<longleftrightarrow> (\<forall>rc. inGrid c rc \<longrightarrow> evictAt c rc = None)"

definition stored :: "env \<Rightarrow> GenericCache \<Rightarrow> (u64 \<times> nat) set" where
  "stored e c = live e (pFTL c) \<union> dirtyUnits e c"

definition cache_invX :: "env \<Rightarrow> line_ptr set \<Rightarrow> GenericCache \<Rightarrow> bool" where
  "cache_invX e X c \<longleftrightarrow> env_ok e \<and> cache_geom e c \<and> evict_ok c \<and> sets_ok X c \<and> ftl_inv e {} (pFTL c)"

abbreviation cache_inv :: "env \<Rightarrow> GenericCache \<Rightarrow> bool" where
  "cache_inv e c \<equiv> cache_invX e {} c"

lemma cache_invD:
  assumes "cache_invX e X c"
  shows "env_ok e" "cache_geom e c" "evict_ok c" "sets_ok X c" "serves e (live e (pFTL c)) (pFTL c)"
  using assms by (auto simp: cache_invX_def serves_def)

lemma cache_inv_frame:
  assumes "cache_invX e X c" and "same_data c c'" and "serves e L (pFTL c')"
  shows "cache_invX e X c'" and "stored e c' = L \<union> dirtyUnits e c"
proof -
  note d = same_dataD [OF assms(2)] and h = shapeD [OF same_dataD(1) [OF assms(2)]]
  show "cache_invX e X c'" using assms(1,3) d h unfolding cache_invX_def evict_ok_def sets_ok_def serves_def by simp
  show "stored e c' = L \<union> dirtyUnits e c" using assms(3) dirtyUnits_frame [OF assms(2)] by (auto simp: stored_def serves_def)
qed

lemma serves_scheduling: "serves e L s \<Longrightarrow> serves e L (dramSetScheduling b s)"
  by (erule serves_core) (simp add: dramSetScheduling_def core_def)

text \<open>Calls that change neither the lines nor what the translation layer serves.\<close>

definition idle_call :: "(PageMapping \<Rightarrow> tick \<times> PageMapping) \<Rightarrow> bool" where
  "idle_call g \<longleftrightarrow> (\<forall>e L s. serves e L s \<longrightarrow> serves e L (snd (g s)))"

lemma idle_calls [simp]:
  "idle_call (dramRead e n t)" "idle_call (dramWrite e n t)" "idle_call (addLatency e f t)"
proof -
  have "serves e' L (snd (dramRead e n t s))" "serves e' L (snd (dramWrite e n t s))" "serves e' L (snd (addLatency e f t s))"
    if "serves e' L s" for e' L s
    using that by (auto intro: serves_core)
  then show "idle_call (dramRead e n t)" "idle_call (dramWrite e n t)" "idle_call (addLatency e f t)"
    by (simp_all add: idle_call_def)
qed

lemma idle_same: "idle c \<Longrightarrow> same_data c c' \<Longrightarrow> idle c'"
  using same_dataD [of c c'] shapeD [of c' c] by (simp add: idle_def)

lemma inv_below:
  assumes "cache_invX e X c" and "idle_call g"
  shows "cache_invX e X (snd (below g c))" and "stored e (snd (below g c)) = stored e c"
proof -
  have s: "serves e (live e (pFTL c)) (pFTL (snd (below g c)))"
    using cache_invD(5) [OF assms(1)] assms(2) by (simp add: below_eq idle_call_def)
  show "cache_invX e X (snd (below g c))" by (rule cache_inv_frame(1) [OF assms(1) _ s]) simp
  show "stored e (snd (below g c)) = stored e c"
    using cache_inv_frame(2) [OF assms(1) _ s] by (simp add: stored_def)
qed

lemma updLine_comp:
  assumes "cache_geom e c" and "hasLine c p"
  shows "updLine p g (updLine p f c) = updLine p (\<lambda>l. g (f l)) c"
  using assms geom_row(1) [OF assms(1), of "fst p"] by (simp add: updLine_def lineAt_def hasLine_def cache_geom_def)

text \<open>Changing a line: what the new line has to satisfy.\<close>

lemma inv_updLine:
  assumes inv: "cache_invX e X c" and p: "hasLine c p"
    and s: "p \<notin> X \<Longrightarrow> ln_valid (f (lineAt c p)) \<Longrightarrow> calcSetIndex c (ln_tag (f (lineAt c p))) = fst p"
    and ev: "\<And>rc. inGrid c rc \<Longrightarrow> evictAt c rc = Some p \<Longrightarrow> ln_valid (f (lineAt c p)) \<Longrightarrow>
      unat (ln_tag (f (lineAt c p))) mod lineCountInSuperPage c = fst rc"
  shows "cache_invX e X (updLine p f c)"
proof -
  note D = cache_invD [OF inv] and u = lineAt_updLine [OF cache_invD(2) [OF inv] p, of f]
    and h = shapeD [OF shape_ops(1) [of p f c]]
  have "evict_ok (updLine p f c)"
    by (rule evict_okI) (use evict_okD [OF D(3)] ev in \<open>auto simp: h u\<close>)
  moreover have "sets_ok X (updLine p f c)"
    by (rule sets_okI) (use sets_okD [OF D(4)] s in \<open>auto simp: h u split: if_splits\<close>)
  ultimately show ?thesis using inv p by (simp add: cache_invX_def)
qed

lemma inv_setEvict:
  assumes inv: "cache_invX e X c" and rc: "inGrid c rc"
    and q: "\<And>p. q = Some p \<Longrightarrow> hasLine c p \<and> (ln_valid (lineAt c p) \<longrightarrow> unat (ln_tag (lineAt c p)) mod lineCountInSuperPage c = fst rc)"
  shows "cache_invX e X (setEvict rc q c)" and "stored e (setEvict rc q c) = stored e c"
proof -
  note D = cache_invD [OF inv] and u = evictAt_setEvict [OF cache_invD(2) [OF inv] rc, of q]
    and h = shapeD [OF shape_ops(2) [of rc q c]]
  have "evict_ok (setEvict rc q c)"
    by (rule evict_okI) (use evict_okD [OF D(3)] q in \<open>auto simp: h u split: if_splits\<close>)
  moreover have "sets_ok X (setEvict rc q c)" using D(4) unfolding sets_ok_def h by simp
  ultimately show "cache_invX e X (setEvict rc q c)" using inv rc by (simp add: cache_invX_def)
  show "stored e (setEvict rc q c) = stored e c" by (simp add: stored_def)
qed

section \<open>Eviction\<close>

text \<open>Writing back one line.\<close>

lemma callFTL_write:
  assumes inv: "cache_invX e X c" and u: "flaggedUnits e r \<noteq> {}"
  shows "okE (\<lambda>(t', c'). cache_invX e X c' \<and> same_data c c' \<and> stored e c' = stored e c \<union> flaggedUnits e r \<and>
     live e (pFTL c') = live e (pFTL c) \<union> flaggedUnits e r) (callFTL (FTL_write e r t) c)"
proof -
  note D = cache_invD [OF inv]
  have "okE (\<lambda>(t', s'). serves e (live e (pFTL c) \<union> flaggedUnits e r) s') (FTL_write e r t (pFTL c))"
    using ftl_store.write_ok [of e "live e (pFTL c)" "pFTL c" r t] D(1,5) u by (auto simp: okE_iff)
  then show ?thesis
  proof (cases "FTL_write e r t (pFTL c)")
    case (Inr x)
    obtain t' s' where x: "x = (t', s')" by (cases x)
    assume "okE (\<lambda>(t', s'). serves e (live e (pFTL c) \<union> flaggedUnits e r) s') (FTL_write e r t (pFTL c))"
    then have s: "serves e (live e (pFTL c) \<union> flaggedUnits e r) (pFTL (c\<lparr>pFTL := s'\<rparr>))" by (simp add: Inr x)
    have sd: "same_data c (c\<lparr>pFTL := s'\<rparr>)" by simp
    show ?thesis
      using cache_inv_frame [OF inv sd s] s by (auto simp: callFTL_def Inr x stored_def serves_def)
  qed (simp add: callFTL_def)
qed

definition evicted :: "tick \<Rightarrow> Line \<Rightarrow> Line" where
  "evicted t l = l\<lparr>ln_valid := False, ln_tag := 0, ln_insertedAt := t, ln_lastAccessed := t, ln_dirty := False\<rparr>"

definition drained :: "GenericCache \<Rightarrow> GenericCache \<Rightarrow> (nat \<times> nat) set \<Rightarrow> bool" where
  "drained c c' R \<longleftrightarrow> shape c' = shape c \<and> (\<forall>rc\<in>R. evictAt c' rc = None) \<and>
     (\<forall>rc. inGrid c rc \<and> rc \<notin> R \<longrightarrow> evictAt c' rc = evictAt c rc) \<and>
     (\<forall>p. lineAt c' p = lineAt c p \<or> \<not> ln_valid (lineAt c' p)) \<and>
     (\<forall>rc\<in>R. \<forall>p. evictAt c rc = Some p \<longrightarrow> \<not> ln_valid (lineAt c' p))"

lemma evictOne_ok:
  assumes inv: "cache_invX e X c" and rc: "inGrid c rc"
  shows "okE (\<lambda>c'. cache_invX e X c' \<and> stored e c' = stored e c \<and> live e (pFTL c) \<subseteq> live e (pFTL c') \<and> drained c c' {rc})
     (evictOne e t True rc c)"
proof (cases "evictAt c rc")
  case None
  then show ?thesis using inv by (simp add: evictOne_def drained_def)
next
  case (Some p)
  note D = cache_invD [OF inv]
  let ?l = "lineAt c p"
  have p: "hasLine c p" and row: "ln_valid ?l \<Longrightarrow> unat (ln_tag ?l) mod lineCountInSuperPage c = fst rc"
    using evict_okD [OF D(3) rc Some] by auto
  have n: "lineCountInSuperPage c = bitsetSize e" using D(2) by (simp add: cache_geom_def)
  have r: "fst rc < bitsetSize e" using rc n by (simp add: inGrid_def)
  let ?m = "if ln_valid ?l \<and> ln_dirty ?l then callFTL (FTL_write e (evictRequest c (fst rc) (ln_tag ?l)) t) c else Inr (t, c)"
  let ?U = "if ln_valid ?l \<and> ln_dirty ?l then {unitOf e (ln_tag ?l)} else {}"
  have m: "okE (\<lambda>(b, c1). cache_invX e X c1 \<and> same_data c c1 \<and> live e (pFTL c1) = live e (pFTL c) \<union> ?U) ?m"
  proof (cases "ln_valid ?l \<and> ln_dirty ?l")
    case True
    then have u: "flaggedUnits e (evictRequest c (fst rc) (ln_tag ?l)) = {unitOf e (ln_tag ?l)}"
      using evictRequest_units [OF D(2) r] row n by (simp add: unitOf_def)
    then have "flaggedUnits e (evictRequest c (fst rc) (ln_tag ?l)) \<noteq> {}" by simp
    from callFTL_write [OF inv this, of t] show ?thesis
      using True unfolding u by (simp add: okE_iff case_prod_unfold)
  qed (use inv in auto)
  have post: "cache_invX e X c' \<and> stored e c' = stored e c \<and> live e (pFTL c) \<subseteq> live e (pFTL c') \<and> drained c c' {rc}"
    if i1: "cache_invX e X c1" and sd: "same_data c c1" and L1: "live e (pFTL c1) = live e (pFTL c) \<union> ?U"
      and c': "c' = setEvict rc None (updLine p (evicted b) c1)" for b c1 c'
  proof -
    note d = same_dataD [OF sd] and h = shapeD [OF same_dataD(1) [OF sd]]
    have p1: "hasLine c1 p" and rc1: "inGrid c1 rc" using p rc h by simp_all
    have i2: "cache_invX e X (updLine p (evicted b) c1)" by (rule inv_updLine [OF i1 p1]) (simp_all add: evicted_def)
    have rc2: "inGrid (updLine p (evicted b) c1) rc" using rc1 shapeD(12) [OF shape_ops(1)] by simp
    have i3: "cache_invX e X c'" unfolding c' by (rule inv_setEvict(1) [OF i2 rc2]) simp
    have g1: "cache_geom e c1" by (rule cache_invD(2) [OF i1])
    have e1: "lineAt c1 p = ?l" using d by simp
    have U: "?U \<subseteq> dirtyUnits e c1" using dirtyUnitsI [OF p1, of e] e1 by simp
    have "dirtyUnits e c' \<subseteq> dirtyUnits e c1" and "dirtyUnits e c1 \<subseteq> dirtyUnits e c' \<union> ?U"
      using dirtyUnits_upd(1,2) [OF g1 p1, of "evicted b"] unfolding c' e1 by (simp_all add: evicted_def)
    moreover have "dirtyUnits e c1 = dirtyUnits e c" by (rule dirtyUnits_frame [OF sd])
    moreover have "pFTL c' = pFTL c1" by (simp add: c')
    ultimately have "stored e c' = stored e c" using L1 U by (auto simp: stored_def)
    moreover have "drained c c' {rc}"
      using Some d h lineAt_updLine [OF g1 p1] evictAt_setEvict [OF cache_invD(2) [OF i2] rc2]
      by (auto simp: drained_def c' evicted_def)
    ultimately show ?thesis using i3 L1 by (simp add: c')
  qed
  show ?thesis
    unfolding evictOne_def Some Let_def option.case if_True
  proof (rule okE_bindI [OF m], clarify)
    fix b c1 assume a: "cache_invX e X c1" "same_data c c1" "live e (pFTL c1) = live e (pFTL c) \<union> ?U"
    have "hasLine c1 p" using p shapeD(11) [OF same_dataD(1) [OF a(2)]] by simp
    then have "updLine p (\<lambda>l. l\<lparr>ln_insertedAt := b, ln_lastAccessed := b, ln_dirty := False\<rparr>)
        (updLine p (\<lambda>l. l\<lparr>ln_valid := False, ln_tag := 0\<rparr>) c1) = updLine p (evicted b) c1"
      by (simp add: updLine_comp [OF cache_invD(2) [OF a(1)]] evicted_def [abs_def])
    with post [OF a refl, of b] show "okE (\<lambda>c'. cache_invX e X c' \<and> stored e c' = stored e c \<and> live e (pFTL c) \<subseteq> live e (pFTL c') \<and> drained c c' {rc})
      (Inr (setEvict rc None (updLine p (\<lambda>l. l\<lparr>ln_insertedAt := b, ln_lastAccessed := b, ln_dirty := False\<rparr>)
        (updLine p (\<lambda>l. l\<lparr>ln_valid := False, ln_tag := 0\<rparr>) c1))))" by simp
  qed
qed


lemma drainedD:
  assumes "drained c c' R"
  shows "shape c' = shape c" "rc \<in> R \<Longrightarrow> evictAt c' rc = None" "inGrid c rc \<Longrightarrow> rc \<notin> R \<Longrightarrow> evictAt c' rc = evictAt c rc"
    "lineAt c' p = lineAt c p \<or> \<not> ln_valid (lineAt c' p)" "rc \<in> R \<Longrightarrow> evictAt c rc = Some p \<Longrightarrow> \<not> ln_valid (lineAt c' p)"
  using assms unfolding drained_def by blast+

lemma drained_insert:
  assumes a: "drained c c1 R" and b: "drained c1 c2 {rc}" and R: "R \<subseteq> {rc. inGrid c rc}" and rc: "inGrid c rc"
  shows "drained c c2 (insert rc R)"
  unfolding drained_def
proof (intro conjI allI ballI impI)
  note A = drainedD [OF a] and B = drainedD [OF b]
  have h: "inGrid c1 = inGrid c" using shapeD [OF A(1)] by simp
  show "shape c2 = shape c" using A(1) B(1) by simp
  fix rc' assume rc': "rc' \<in> insert rc R"
  show "evictAt c2 rc' = None"
    using rc' R h B(2,3) [of rc'] A(2) [of rc'] by (cases "rc' = rc") auto
  fix p assume p: "evictAt c rc' = Some p"
  show "\<not> ln_valid (lineAt c2 p)"
    using A(5) [OF _ p] B(4) [of p] A(3) [of rc'] B(5) [of rc' p] rc' rc p by (cases "rc' \<in> R") auto
next
  note A = drainedD [OF a] and B = drainedD [OF b]
  fix rc' assume "inGrid c rc' \<and> rc' \<notin> insert rc R"
  then show "evictAt c2 rc' = evictAt c rc'" using A(3) [of rc'] B(3) [of rc'] shapeD(12) [OF A(1)] by simp
next
  fix p
  show "lineAt c2 p = lineAt c p \<or> \<not> ln_valid (lineAt c2 p)" using drainedD(4) [OF a, of p] drainedD(4) [OF b, of p] by auto
qed

lemma set_ioPositions: "set (ioPositions c) = {rc. inGrid c rc}"
  by (auto simp: ioPositions_def inGrid_def)

lemma set_linePtrs: "set (linePtrs c) = {p. hasLine c p}"
  by (auto simp: linePtrs_def hasLine_def)

lemma evictCache_ok:
  assumes inv: "cache_invX e X c"
  shows "okE (\<lambda>c'. cache_invX e X c' \<and> stored e c' = stored e c \<and> live e (pFTL c) \<subseteq> live e (pFTL c') \<and> drained c c' {rc. inGrid c rc})
     (evictCache e t True c)"
proof -
  let ?xs = "ioPositions c"
  let ?P = "\<lambda>R c'. cache_invX e X c' \<and> stored e c' = stored e c \<and> live e (pFTL c) \<subseteq> live e (pFTL c') \<and> drained c c' R"
  have "okE (?P (set (take (length ?xs) ?xs))) (foldE (evictOne e t True) ?xs c)"
  proof (rule foldE_okE_idx [of "\<lambda>i. ?P (set (take i ?xs))"])
    show "?P (set (take 0 ?xs)) c" using inv by (simp add: drained_def)
    fix i c1 assume i: "i < length ?xs" and P: "?P (set (take i ?xs)) c1"
    have x: "inGrid c (?xs ! i)" using nth_mem [OF i] by (simp add: set_ioPositions)
    have x1: "inGrid c1 (?xs ! i)" using x P shapeD [of c1 c] by (simp add: drained_def)
    have tk: "set (take i ?xs) \<subseteq> {rc. inGrid c rc}" using set_take_subset [of i ?xs] by (simp add: set_ioPositions)
    have "?P (set (take (Suc i) ?xs)) c2"
      if c2: "cache_invX e X c2" "stored e c2 = stored e c1" "live e (pFTL c1) \<subseteq> live e (pFTL c2)" "drained c1 c2 {?xs ! i}" for c2
    proof -
      have "drained c c2 (insert (?xs ! i) (set (take i ?xs)))" by (rule drained_insert [OF _ c2(4) tk x]) (use P in blast)
      then show ?thesis using c2(1-3) P i by (auto simp: take_Suc_conv_app_nth)
    qed
    then show "okE (?P (set (take (Suc i) ?xs))) (evictOne e t True (?xs ! i) c1)"
      by (rule okE_mono [OF evictOne_ok [OF conjunct1 [OF P] x1, of t]]) blast+
  qed
  then show ?thesis by (simp add: evictCache_def set_ioPositions)
qed

lemma drained_idle: "drained c c' {rc. inGrid c rc} \<Longrightarrow> idle c'"
  using shapeD [of c' c] drainedD [of c c' "{rc. inGrid c rc}"] unfolding idle_def by simp

section \<open>Searching a set\<close>

lemma emptyWay_fst:
  "fst (emptyWay d ls i (ret, mn, t)) = ret \<or>
     (\<exists>k<length ls. fst (emptyWay d ls i (ret, mn, t)) = i + k \<and> \<not> ln_valid (ls ! k))"
proof (induction ls arbitrary: i ret mn t)
  case (Cons l ls)
  have "\<exists>ret' mn' t'. emptyWay d (l # ls) i (ret, mn, t) = emptyWay d ls (Suc i) (ret', mn', t') \<and> (ret' = ret \<or> ret' = i \<and> \<not> ln_valid l)"
    by (cases "ln_valid l"; cases "ln_insertedAt l < mn") auto
  then obtain ret' mn' t' where e: "emptyWay d (l # ls) i (ret, mn, t) = emptyWay d ls (Suc i) (ret', mn', t')"
    and r: "ret' = ret \<or> ret' = i \<and> \<not> ln_valid l" by blast
  from Cons.IH [of "Suc i" ret' mn' t'] show ?case
  proof
    assume "fst (emptyWay d ls (Suc i) (ret', mn', t')) = ret'"
    then show ?thesis using r unfolding e by auto
  next
    assume "\<exists>k<length ls. fst (emptyWay d ls (Suc i) (ret', mn', t')) = Suc i + k \<and> \<not> ln_valid (ls ! k)"
    then obtain k where "k < length ls" "fst (emptyWay d ls (Suc i) (ret', mn', t')) = Suc i + k" "\<not> ln_valid (ls ! k)" by blast
    then show ?thesis unfolding e by (intro disjI2 exI [of _ "Suc k"]) simp
  qed
qed simp

lemma getEmptyWay_cases:
  assumes "cache_geom e c" and "s < setSize c" and "getEmptyWay ic s t c = (w, t')"
  shows "w = waySize c \<or> hasLine c (s, w) \<and> \<not> ln_valid (lineAt c (s, w))"
  using assms(3) geom_row(1) [OF assms(1,2)] assms(2)
    emptyWay_fst [of "getCacheLatency ic * 8" "cacheData c ! s" 0 "waySize c" "- 1" t]
  by (auto simp: getEmptyWay_def Let_def case_prod_unfold hasLine_def lineAt_def)

lemma validWay_fst:
  "fst (validWay d lca ls i t) = i + length ls \<and> (\<forall>l\<in>set ls. \<not> (ln_valid l \<and> ln_tag l = lca)) \<or>
     (\<exists>k<length ls. fst (validWay d lca ls i t) = i + k \<and> ln_valid (ls ! k) \<and> ln_tag (ls ! k) = lca)"
proof (induction ls arbitrary: i t)
  case (Cons l ls)
  show ?case
  proof (cases "ln_valid l \<and> ln_tag l = lca")
    case False
    from Cons.IH [of "Suc i" "t + d"] show ?thesis
    proof
      assume "\<exists>k<length ls. fst (validWay d lca ls (Suc i) (t + d)) = Suc i + k \<and> ln_valid (ls ! k) \<and> ln_tag (ls ! k) = lca"
      then obtain k where "k < length ls" "fst (validWay d lca ls (Suc i) (t + d)) = Suc i + k" "ln_valid (ls ! k)" "ln_tag (ls ! k) = lca"
        by blast
      then show ?thesis using False by (intro disjI2 exI [of _ "Suc k"]) auto
    qed (use False in auto)
  qed (auto intro!: exI [of _ 0])
qed simp

lemma getValidWay_cases:
  assumes "cache_geom e c" and "getValidWay ic lca t c = (w, t')"
  shows "w = waySize c \<and> (\<forall>k<waySize c. \<not> (ln_valid (lineAt c (calcSetIndex c lca, k)) \<and> ln_tag (lineAt c (calcSetIndex c lca, k)) = lca)) \<or>
     hasLine c (calcSetIndex c lca, w) \<and> ln_valid (lineAt c (calcSetIndex c lca, w)) \<and> ln_tag (lineAt c (calcSetIndex c lca, w)) = lca"
proof -
  have s: "calcSetIndex c lca < setSize c" using assms(1) by (simp add: cache_geom_def calcSetIndex_def)
  show ?thesis
    using assms(2) geom_row(1) [OF assms(1) s] s
      validWay_fst [of "getCacheLatency ic * 8" lca "cacheData c ! calcSetIndex c lca" 0 t]
    by (auto simp: getValidWay_def hasLine_def lineAt_def all_set_conv_all_nth)
qed


section \<open>Choosing victims\<close>

lemma compareFunction_ok:
  assumes "compareFunction ic a b c = (q, c')"
  shows "same_data c c'" and "pFTL c' = pFTL c" and "q = a \<or> q = b" and "a \<noteq> None \<or> b \<noteq> None \<Longrightarrow> q \<noteq> None"
  using assms by (auto simp: compareFunction_def split: option.splits ICL_EVICT_POLICY.splits if_splits)

lemma calcIOPosition_grid:
  assumes "cache_geom e c"
  shows "inGrid c (calcIOPosition c lca)" and "fst (calcIOPosition c lca) = unat lca mod lineCountInSuperPage c"
proof -
  let ?n = "lineCountInSuperPage c" and ?p = "parallelIO c"
  have n: "0 < ?n" "lineCountInMaxIO c = ?p * ?n" "0 < ?p" using assms by (auto simp: cache_geom_def)
  have "unat lca mod (?p * ?n) < ?p * ?n" using n by simp
  then have "unat lca mod (?p * ?n) div ?n < ?p" by (rule less_mult_imp_div_less)
  then show "inGrid c (calcIOPosition c lca)" using n by (simp add: inGrid_def calcIOPosition_def Let_def)
  show "fst (calcIOPosition c lca) = unat lca mod ?n" by (simp add: calcIOPosition_def Let_def n(2) mod_mod_cancel)
qed

definition victims :: "env \<Rightarrow> GenericCache \<Rightarrow> GenericCache \<Rightarrow> bool" where
  "victims e c0 c \<longleftrightarrow> cache_inv e c \<and> stored e c = stored e c0 \<and> pFTL c = pFTL c0 \<and> shape c = shape c0 \<and>
     lineAt c = lineAt c0 \<and> (\<forall>rc p. inGrid c rc \<and> evictAt c rc = Some p \<longrightarrow> ln_valid (lineAt c p))"

lemma victimsD:
  assumes "victims e c0 c"
  shows "cache_inv e c" "stored e c = stored e c0" "pFTL c = pFTL c0" "shape c = shape c0" "lineAt c = lineAt c0"
    "inGrid c rc \<Longrightarrow> evictAt c rc = Some p \<Longrightarrow> ln_valid (lineAt c p)"
  using assms unfolding victims_def by blast+

lemma victimsI:
  assumes "cache_inv e c" "stored e c = stored e c0" "pFTL c = pFTL c0" "shape c = shape c0" "lineAt c = lineAt c0"
    and "\<And>rc p. inGrid c rc \<Longrightarrow> evictAt c rc = Some p \<Longrightarrow> ln_valid (lineAt c p)"
  shows "victims e c0 c"
  using assms unfolding victims_def by blast

lemma idleD: "idle c \<Longrightarrow> inGrid c rc \<Longrightarrow> evictAt c rc = None"
  unfolding idle_def by blast

lemma victims_start: "cache_inv e c \<Longrightarrow> idle c \<Longrightarrow> victims e c c"
  by (rule victimsI) (auto dest: idleD)

lemma victims_same:
  assumes v: "victims e c0 c" and sd: "same_data c c'" and f: "pFTL c' = pFTL c"
  shows "victims e c0 c'"
proof -
  note D = victimsD [OF v] and d = same_dataD [OF sd] and h = shapeD [OF same_dataD(1) [OF sd]]
  have s: "serves e (live e (pFTL c)) (pFTL c')" using cache_invD(5) [OF D(1)] f by simp
  note i = cache_inv_frame [OF D(1) sd s]
  show ?thesis
    by (rule victimsI) (use i D d h f in \<open>simp_all add: stored_def\<close>)
qed

lemma victims_setEvict:
  assumes v: "victims e c0 c" and rc: "inGrid c rc"
    and q: "\<And>p. q = Some p \<Longrightarrow> hasLine c p \<and> ln_valid (lineAt c p) \<and> unat (ln_tag (lineAt c p)) mod lineCountInSuperPage c = fst rc"
  shows "victims e c0 (setEvict rc q c)"
proof -
  note D = victimsD [OF v] and i = inv_setEvict [OF victimsD(1) [OF v] rc, of q]
    and u = evictAt_setEvict [OF cache_invD(2) [OF victimsD(1) [OF v]] rc, of q]
  have "cache_inv e (setEvict rc q c)" "stored e (setEvict rc q c) = stored e c" using i q by auto
  moreover have "ln_valid (lineAt c p)" if "inGrid c rc'" "evictAt (setEvict rc q c) rc' = Some p" for rc' p
    using that q D(6) [of rc' p] by (auto simp: u split: if_splits)
  ultimately show ?thesis
    using D(2-5) shapeD(12) [OF shape_ops(2), of rc q c] by (intro victimsI) simp_all
qed

lemma victims_ptr:
  assumes "victims e c0 c" and "inGrid c rc" and "evictAt c rc = Some p"
  shows "hasLine c p" and "unat (ln_tag (lineAt c p)) mod lineCountInSuperPage c = fst rc"
  using evict_okD [OF cache_invD(3) [OF victimsD(1) [OF assms(1)]] assms(2,3)] victimsD(6) [OF assms] by auto

lemma offerLine_ok:
  assumes v: "victims e c0 c" and p: "hasLine c p"
  shows "victims e c0 (offerLine ic p c)"
proof (cases "ln_valid (lineAt c p)")
  case True
  let ?rc = "calcIOPosition c (ln_tag (lineAt c p))"
  note g = calcIOPosition_grid [OF cache_invD(2) [OF victimsD(1) [OF v]], of "ln_tag (lineAt c p)"]
  obtain q c1 where q: "compareFunction ic (evictAt c ?rc) (Some p) c = (q, c1)" by (cases "compareFunction ic (evictAt c ?rc) (Some p) c")
  note k = compareFunction_ok [OF q]
  note d = same_dataD [OF k(1)] and h = shapeD [OF same_dataD(1) [OF k(1)]]
  have "victims e c0 (setEvict ?rc q c1)"
  proof (rule victims_setEvict [OF victims_same [OF v k(1,2)]])
    show "inGrid c1 ?rc" using g(1) h by simp
    fix r assume r: "q = Some r"
    then consider "r = p" | "evictAt c ?rc = Some r" using k(3) by auto
    then show "hasLine c1 r \<and> ln_valid (lineAt c1 r) \<and> unat (ln_tag (lineAt c1 r)) mod lineCountInSuperPage c1 = fst ?rc"
      using p True g victims_ptr [OF v g(1)] victimsD(6) [OF v g(1)] by cases (simp_all add: d h)
  qed
  then show ?thesis using True q by (simp add: offerLine_def Let_def)
qed (use v in \<open>simp add: offerLine_def\<close>)

lemma narrowRow_ok:
  assumes v: "victims e c0 c" and rc: "inGrid c (r, Suc k)"
  shows "victims e c0 (narrowRow ic (r, k) c)"
proof -
  have rc0: "inGrid c (r, k)" using rc by (simp add: inGrid_def)
  obtain q c1 where q: "compareFunction ic (evictAt c (r, k)) (evictAt c (r, Suc k)) c = (q, c1)"
    by (cases "compareFunction ic (evictAt c (r, k)) (evictAt c (r, Suc k)) c")
  note w = compareFunction_ok [OF q]
  note d = same_dataD [OF w(1)] and h = shapeD [OF same_dataD(1) [OF w(1)]]
  have "victims e c0 (setEvict (r, Suc k) q c1)"
  proof (rule victims_setEvict [OF victims_same [OF v w(1,2)]])
    show "inGrid c1 (r, Suc k)" using rc h by simp
    fix x assume "q = Some x"
    then consider "evictAt c (r, k) = Some x" | "evictAt c (r, Suc k) = Some x" using w(3) by auto
    then show "hasLine c1 x \<and> ln_valid (lineAt c1 x) \<and> unat (ln_tag (lineAt c1 x)) mod lineCountInSuperPage c1 = fst (r, Suc k)"
      using victims_ptr [OF v rc0] victims_ptr [OF v rc] victimsD(6) [OF v rc0] victimsD(6) [OF v rc] by cases (simp_all add: d h)
  qed
  moreover have "inGrid (setEvict (r, Suc k) q c1) (r, k)" using rc0 h shapeD(12) [OF shape_ops(2)] by simp
  ultimately have "victims e c0 (setEvict (r, k) None (setEvict (r, Suc k) q c1))" by (rule victims_setEvict) simp
  then show ?thesis by (simp add: narrowRow_def q Let_def)
qed

lemma bestOfSet_ok:
  assumes v: "victims e c0 c" and s: "setIdx < setSize c" and b: "bestOfSet ic setIdx c = (q, c')"
  shows "victims e c0 c'" and "q = Some p \<Longrightarrow> hasLine c' p \<and> fst p = setIdx \<and> ln_valid (lineAt c' p)"
    and "k < waySize c \<Longrightarrow> ln_valid (lineAt c (setIdx, k)) \<Longrightarrow> q \<noteq> None"
proof -
  let ?f = "\<lambda>w (q, c). if ln_valid (lineAt c (setIdx, w)) then compareFunction ic q (Some (setIdx, w)) c else (q, c)"
  let ?I = "\<lambda>ws (q, c1). victims e c0 c1 \<and> (\<forall>p. q = Some p \<longrightarrow> hasLine c1 p \<and> fst p = setIdx \<and> ln_valid (lineAt c1 p)) \<and>
     (\<forall>k\<in>set ws. ln_valid (lineAt c (setIdx, k)) \<longrightarrow> q \<noteq> None)"
  have step: "?I (w # ws) (?f w x)" if I: "?I ws x" and w: "w < waySize c" for w ws x
  proof -
    obtain q1 c1 where x: "x = (q1, c1)" by (cases x)
    have v1: "victims e c0 c1" using I x by simp
    have l: "lineAt c1 = lineAt c" using victimsD(5) [OF v1] victimsD(5) [OF v] by simp
    have hl: "hasLine c1 (setIdx, w)"
      using shapeD [OF victimsD(4) [OF v1]] shapeD [OF victimsD(4) [OF v]] s w by (simp add: hasLine_def)
    obtain q2 c2 where q2: "compareFunction ic q1 (Some (setIdx, w)) c1 = (q2, c2)" by (cases "compareFunction ic q1 (Some (setIdx, w)) c1")
    note k = compareFunction_ok [OF q2]
    note d = same_dataD [OF k(1)] and h = shapeD [OF same_dataD(1) [OF k(1)]]
    show ?thesis
    proof (cases "ln_valid (lineAt c1 (setIdx, w))")
      case True
      have "victims e c0 c2" by (rule victims_same [OF v1 k(1,2)])
      moreover have "hasLine c2 p \<and> fst p = setIdx \<and> ln_valid (lineAt c2 p)" if "q2 = Some p" for p
        using that k(3) I hl True unfolding x d h by (cases p) auto
      ultimately show ?thesis using k(4) True q2 x by auto
    qed (use I x l in auto)
  qed
  have "?I (rev ws) (fold ?f ws (None, c))" if "\<forall>w\<in>set ws. w < waySize c" for ws
    using that
  proof (induction ws rule: rev_induct)
    case (snoc w ws)
    have "?I (w # rev ws) (?f w (fold ?f ws (None, c)))" by (rule step) (use snoc in auto)
    then show ?case by simp
  qed (simp add: v)
  from this [of "[0..<waySize c]"] b show "victims e c0 c'"
    and "q = Some p \<Longrightarrow> hasLine c' p \<and> fst p = setIdx \<and> ln_valid (lineAt c' p)"
    and "k < waySize c \<Longrightarrow> ln_valid (lineAt c (setIdx, k)) \<Longrightarrow> q \<noteq> None"
    unfolding bestOfSet_def by (cases p, force)+
qed


lemma chooseVictims_ok:
  assumes inv: "cache_inv e c" and idl: "idle c" and s: "setIdx < setSize c"
  shows "victims e c (chooseVictims ic setIdx c)"
    and "k < waySize c \<Longrightarrow> ln_valid (lineAt c (setIdx, k)) \<Longrightarrow>
      \<exists>rc p. inGrid c rc \<and> evictAt (chooseVictims ic setIdx c) rc = Some p \<and> hasLine c p \<and> fst p = setIdx"
proof -
  define c1 where "c1 = fold (offerLine ic) (linePtrs c) c"
  define c2 where "c2 = (if evictMode c1 = MODE_SUPERPAGE
    then fold (narrowRow ic) (List.product [0..<lineCountInSuperPage c1] [0..<parallelIO c1 - 1]) c1 else c1)"
  have v1: "victims e c c1"
    unfolding c1_def
  proof (rule fold_invariant [where Q = "hasLine c"])
    show "hasLine c p" if "p \<in> set (linePtrs c)" for p using that by (simp add: set_linePtrs)
    show "victims e c (offerLine ic p c')" if "hasLine c p" "victims e c c'" for p c'
      using offerLine_ok [OF that(2)] that(1) shapeD(11) [OF victimsD(4) [OF that(2)]] by simp
  qed (rule victims_start [OF inv idl])
  have v2: "victims e c c2"
  proof (cases "evictMode c1 = MODE_SUPERPAGE")
    case True
    have "victims e c (fold (narrowRow ic) (List.product [0..<lineCountInSuperPage c1] [0..<parallelIO c1 - 1]) c1)"
    proof (rule fold_invariant [where Q = "\<lambda>x. inGrid c (fst x, Suc (snd x))"])
      show "inGrid c (fst x, Suc (snd x))" if "x \<in> set (List.product [0..<lineCountInSuperPage c1] [0..<parallelIO c1 - 1])" for x
        using that shapeD [OF victimsD(4) [OF v1]] by (auto simp: inGrid_def)
      show "victims e c (narrowRow ic x c')" if "inGrid c (fst x, Suc (snd x))" "victims e c c'" for x c'
        using narrowRow_ok [OF that(2), of "fst x" "snd x"] that(1) shapeD(12) [OF victimsD(4) [OF that(2)]] by simp
    qed (rule v1)
    then show ?thesis using True by (simp add: c2_def)
  qed (simp add: c2_def v1)
  note h2 = shapeD [OF victimsD(4) [OF v2]] and l2 = victimsD(5) [OF v2]
  obtain q c3 where q: "bestOfSet ic setIdx c2 = (q, c3)" by (cases "bestOfSet ic setIdx c2")
  have s2: "setIdx < setSize c2" using s h2 by simp
  note b = bestOfSet_ok [OF v2 s2 q]
  note h3 = shapeD [OF victimsD(4) [OF b(1)]]
  have ch: "chooseVictims ic setIdx c = (if haveSet setIdx c2 then c2
      else case q of None \<Rightarrow> c3 | Some p \<Rightarrow> setEvict (calcIOPosition c3 (ln_tag (lineAt c3 p))) (Some p) c3)"
    unfolding chooseVictims_def c1_def [symmetric] Let_def unfolding c2_def [symmetric] q by (cases q) simp_all
  note gp = calcIOPosition_grid [OF cache_invD(2) [OF victimsD(1) [OF b(1)]]]
  have v4: "victims e c (setEvict (calcIOPosition c3 (ln_tag (lineAt c3 p))) (Some p) c3)" if "q = Some p" for p
    using b(2) [OF that] gp by (intro victims_setEvict [OF b(1)]) auto
  show "victims e c (chooseVictims ic setIdx c)" using v2 v4 b(1) by (auto simp: ch split: option.splits)
  assume k: "k < waySize c" "ln_valid (lineAt c (setIdx, k))"
  show "\<exists>rc p. inGrid c rc \<and> evictAt (chooseVictims ic setIdx c) rc = Some p \<and> hasLine c p \<and> fst p = setIdx"
  proof (cases "haveSet setIdx c2")
    case True
    then obtain rc where rc: "inGrid c2 rc" and "case evictAt c2 rc of None \<Rightarrow> False | Some p \<Rightarrow> calcSetIndex c2 (ln_tag (lineAt c2 p)) = setIdx"
      by (auto simp: haveSet_def list_ex_iff set_ioPositions)
    then obtain p where p: "evictAt c2 rc = Some p" and t: "calcSetIndex c2 (ln_tag (lineAt c2 p)) = setIdx" by (auto split: option.splits)
    have "fst p = setIdx"
      using sets_okD [OF cache_invD(4) [OF victimsD(1) [OF v2]] victims_ptr(1) [OF v2 rc p] _ victimsD(6) [OF v2 rc p]] t by simp
    then show ?thesis
      using rc p victims_ptr(1) [OF v2 rc p] True h2 by (intro exI [of _ rc] exI [of _ p]) (simp add: ch)
  next
    case False
    obtain p where p: "q = Some p" using b(3) [of k] k h2 l2 by auto
    let ?rc = "calcIOPosition c3 (ln_tag (lineAt c3 p))"
    have "evictAt (chooseVictims ic setIdx c) ?rc = Some p"
      using False p evictAt_setEvict [OF cache_invD(2) [OF victimsD(1) [OF b(1)]] gp(1), of "ln_tag (lineAt c3 p)" "Some p"] by (simp add: ch)
    then show ?thesis using gp(1) b(2) [OF p] h3 by (intro exI [of _ ?rc] exI [of _ p]) simp
  qed
qed

text \<open>After the eviction the set of the request has a line that is not valid.\<close>

lemma eviction_room:
  assumes inv: "cache_inv e c" and idl: "idle c" and s: "setIdx < setSize c"
    and ev: "evictCache e t True (chooseVictims ic setIdx c) = Inr c'"
  shows "\<exists>w<waySize c. \<not> ln_valid (lineAt c' (setIdx, w))"
proof -
  let ?c = "chooseVictims ic setIdx c"
  note v = chooseVictims_ok [OF inv idl s, where ic = ic]
  note h = shapeD [OF victimsD(4) [OF v(1)]]
  have d: "drained ?c c' {rc. inGrid ?c rc}" using evictCache_ok [OF victimsD(1) [OF v(1)], of t] ev by simp
  have w0: "0 < waySize c" using cache_invD(2) [OF inv] by (simp add: cache_geom_def)
  show ?thesis
  proof (cases "ln_valid (lineAt c (setIdx, 0))")
    case True
    then obtain rc p where p: "inGrid c rc" "evictAt ?c rc = Some p" "hasLine c p" "fst p = setIdx" using v(2) [OF w0] by blast
    have "\<not> ln_valid (lineAt c' p)" using drainedD(5) [OF d _ p(2)] p(1) h by simp
    moreover have "p = (setIdx, snd p)" using p(4) by (cases p) simp
    ultimately show ?thesis using p(3) unfolding hasLine_def by metis
  next
    case False
    then have "\<not> ln_valid (lineAt c' (setIdx, 0))"
      using drainedD(4) [OF d, of "(setIdx, 0)"] victimsD(5) [OF v(1)] by auto
    then show ?thesis using w0 by blast
  qed
qed


section \<open>Writing\<close>

text \<open>Putting an address into a line of its set that is free or already has it.\<close>

lemma fill_line:
  assumes inv: "cache_inv e c" and idl: "idle c" and p: "hasLine c p" and set: "fst p = calcSetIndex c lca"
    and old: "ln_valid (lineAt c p) \<Longrightarrow> ln_tag (lineAt c p) = lca"
    and new: "ln_valid (f (lineAt c p))" "ln_tag (f (lineAt c p)) = lca"
    and u: "ln_dirty (f (lineAt c p)) \<or> unitOf e lca \<in> live e (pFTL c)"
  shows "cache_inv e (updLine p f c)" and "idle (updLine p f c)" and "stored e (updLine p f c) = insert (unitOf e lca) (stored e c)"
proof -
  note g = cache_invD(2) [OF inv]
  show "cache_inv e (updLine p f c)" by (rule inv_updLine [OF inv p]) (use set new idleD [OF idl] in auto)
  show "idle (updLine p f c)" using idl shapeD(12) [OF shape_ops(1), of p f c] by (simp add: idle_def)
  have a: "dirtyUnits e (updLine p f c) \<subseteq> insert (unitOf e lca) (dirtyUnits e c)"
    using dirtyUnits_upd(1) [OF g p, of f] new by (auto split: if_splits)
  have b: "dirtyUnits e c \<subseteq> insert (unitOf e lca) (dirtyUnits e (updLine p f c))"
    using dirtyUnits_upd(2) [OF g p, of f] old by (auto split: if_splits)
  have "unitOf e lca \<in> stored e (updLine p f c)"
    using u dirtyUnits_upd(3) [OF g p, of f] new by (auto simp: stored_def)
  then show "stored e (updLine p f c) = insert (unitOf e lca) (stored e c)"
    using a b by (auto simp: stored_def)
qed

definition wrote_to :: "env \<Rightarrow> u64 \<Rightarrow> GenericCache \<Rightarrow> GenericCache \<Rightarrow> bool" where
  "wrote_to e lca c c' \<longleftrightarrow> cache_inv e c' \<and> idle c' \<and> shape c' = shape c \<and>
     stored e c' = insert (unitOf e lca) (stored e c) \<and> live e (pFTL c) \<subseteq> live e (pFTL c')"

lemma wrote_to_below:
  assumes "wrote_to e lca c c'" and "idle_call g"
  shows "wrote_to e lca c (snd (below g c'))"
proof -
  have i: "cache_inv e c'" "idle c'" using assms(1) by (auto simp: wrote_to_def)
  have "live e (pFTL c') = live e (pFTL (snd (below g c')))"
    using cache_invD(5) [OF i(1)] assms(2) by (auto simp: below_eq idle_call_def serves_def)
  then show ?thesis using assms inv_below [OF i(1) assms(2)] idle_same [OF i(2)] by (simp add: wrote_to_def)
qed

lemma writeLine_ok:
  assumes inv: "cache_inv e c" and idl: "idle c" and p: "hasLine c p" and set: "fst p = calcSetIndex c lca"
    and old: "ln_valid (lineAt c p) \<Longrightarrow> ln_tag (lineAt c p) = lca"
    and f: "\<And>l. l = (lineAt c p)\<lparr>ln_insertedAt := ln_insertedAt l, ln_lastAccessed := ln_lastAccessed l, ln_dirty := dirty\<rparr> \<Longrightarrow>
      ln_valid (f l) \<and> ln_tag (f l) = lca \<and> ln_dirty (f l) = ln_dirty l"
    and u: "dirty \<or> unitOf e lca \<in> live e (pFTL c)"
  shows "wrote_to e lca c (snd (writeLine e req dirty flash p f t c))"
proof -
  define st where "st = (if dirty then max t (ln_insertedAt (lineAt c p)) else flash)"
  let ?f = "\<lambda>l. f (l\<lparr>ln_insertedAt := st, ln_lastAccessed := st, ln_dirty := dirty\<rparr>)"
  have n: "ln_valid (?f (lineAt c p))" "ln_tag (?f (lineAt c p)) = lca" "ln_dirty (?f (lineAt c p)) = dirty"
    using f [of "(lineAt c p)\<lparr>ln_insertedAt := st, ln_lastAccessed := st, ln_dirty := dirty\<rparr>"] by simp_all
  have "wrote_to e lca c (updLine p ?f c)"
    using fill_line [OF inv idl p set old, of ?f] n u by (simp add: wrote_to_def)
  then show ?thesis unfolding writeLine_def Let_def st_def [symmetric] by (rule wrote_to_below) simp
qed

lemma writeFlush_ok:
  assumes inv: "cache_inv e c" and idl: "idle c"
  shows "okE (\<lambda>(t', c'). wrote_to e (ireq_slpn req) c c') (writeFlush e ic req t c)"
proof -
  let ?s = "calcSetIndex c (ireq_slpn req)"
  define t1 where "t1 = t + getCacheLatency ic * of_nat (setSize c) * of_nat (waySize c) * 8"
  have s: "?s < setSize c" using cache_invD(2) [OF inv] by (simp add: cache_geom_def calcSetIndex_def)
  note v = chooseVictims_ok(1) [OF inv idl s, of ic]
  note V = victimsD [OF v]
  show ?thesis
    unfolding writeFlush_def Let_def t1_def [symmetric]
  proof (rule okE_bindI [OF evictCache_ok [OF V(1)]], elim conjE)
    fix c1
    assume i1: "cache_inv e c1" and st: "stored e c1 = stored e (chooseVictims ic ?s c)"
      and L: "live e (pFTL (chooseVictims ic ?s c)) \<subseteq> live e (pFTL c1)"
      and d: "drained (chooseVictims ic ?s c) c1 {rc. inGrid (chooseVictims ic ?s c) rc}"
    have sh: "shape c1 = shape c" using drainedD(1) [OF d] V(4) by simp
    note h = shapeD [OF sh]
    have idl1: "idle c1" by (rule drained_idle [OF d])
    obtain w t2 where w: "getEmptyWay ic ?s t1 c1 = (w, t2)" by (cases "getEmptyWay ic ?s t1 c1")
    have s1: "?s < setSize c1" using s h by simp
    note gw = getEmptyWay_cases [OF cache_invD(2) [OF i1] s1 w]
    have "wrote_to e (ireq_slpn req) c (updLine (?s, w) (\<lambda>l. \<lparr>ln_tag = ireq_slpn req, ln_lastAccessed = t3, ln_insertedAt = t3,
        ln_dirty = True, ln_valid = True\<rparr>) (snd (below (dramWrite e k t2) c1)))" if "w \<noteq> waySize c1" for k t3
    proof -
      let ?c2 = "snd (below (dramWrite e k t2) c1)"
      have sd: "same_data c1 ?c2" by simp
      note b = inv_below [OF i1 idle_calls(2), of e k t2] and d2 = same_dataD [OF sd] and h2 = shapeD [OF same_dataD(1) [OF sd]]
      have lv: "live e (pFTL ?c2) = live e (pFTL c1)"
        using cache_invD(5) [OF i1] idle_calls(2) [of e k t2] by (auto simp: below_eq idle_call_def serves_def)
      have "hasLine ?c2 (?s, w)" "\<not> ln_valid (lineAt ?c2 (?s, w))" using gw that d2 h2 by simp_all
      note f = fill_line [OF b(1) idle_same [OF idl1 sd] this(1), of "ireq_slpn req"]
      show ?thesis
        using f [of "\<lambda>l. \<lparr>ln_tag = ireq_slpn req, ln_lastAccessed = t3, ln_insertedAt = t3, ln_dirty = True, ln_valid = True\<rparr>"]
          \<open>\<not> ln_valid (lineAt ?c2 (?s, w))\<close> sh st b(2) V(2,3) L lv h h2 d2(1) by (simp add: wrote_to_def)
    qed
    then show "okE (\<lambda>(t', c'). wrote_to e (ireq_slpn req) c c')
      (case getEmptyWay ic ?s t1 c1 of (w, t2) \<Rightarrow> guardE (w \<noteq> waySize c1) (Panic ''Cache corrupted!'')
        (case below (dramWrite e (unat (ireq_length req)) t2) c1 of (t3, c2) \<Rightarrow>
          Inr (t3, updLine (?s, w) (\<lambda>l. \<lparr>ln_tag = ireq_slpn req, ln_lastAccessed = t3, ln_insertedAt = t3,
            ln_dirty = True, ln_valid = True\<rparr>) c2)))"
      by (simp add: w case_prod_unfold)
  qed
qed


lemma wrote_to_scheduling: "wrote_to e lca c c' \<Longrightarrow> wrote_to e lca c (setScheduling b c')"
proof -
  assume w: "wrote_to e lca c c'"
  have i: "cache_inv e c'" "idle c'" using w by (auto simp: wrote_to_def)
  have s: "serves e (live e (pFTL c')) (pFTL (setScheduling b c'))"
    using serves_scheduling [OF cache_invD(5) [OF i(1)]] by (simp add: setScheduling_def)
  have "live e (pFTL (setScheduling b c')) = live e (pFTL c')" using s by (simp add: serves_def)
  then show ?thesis
    using w cache_inv_frame [OF i(1) same_data_ops(4) s] idle_same [OF i(2) same_data_ops(4)]
    by (simp add: wrote_to_def stored_def)
qed

lemma wrote_to_same:
  assumes w: "wrote_to e lca c c'" and sd: "same_data c' c''" and f: "pFTL c'' = pFTL c'"
  shows "wrote_to e lca c c''"
proof -
  have i: "cache_inv e c'" "idle c'" using w by (auto simp: wrote_to_def)
  have s: "serves e (live e (pFTL c')) (pFTL c'')" using cache_invD(5) [OF i(1)] f by simp
  show ?thesis
    using w cache_inv_frame [OF i(1) sd s] idle_same [OF i(2) sd] same_dataD(1) [OF sd] by (simp add: wrote_to_def stored_def f)
qed

lemma wrote_to_stat:
  "wrote_to e lca c c' \<Longrightarrow> wrote_to e lca c (c'\<lparr>stat_request := a\<rparr>)"
  "wrote_to e lca c c' \<Longrightarrow> wrote_to e lca c (c'\<lparr>stat_cache := b\<rparr>)"
  by (erule wrote_to_same; simp add: same_data_def)+

lemma write_through:
  assumes inv: "cache_inv e c" and idl: "idle c"
  shows "okE (\<lambda>(t', c'). wrote_to e (ireq_slpn req) c c' \<and> same_data c c' \<and> unitOf e (ireq_slpn req) \<in> live e (pFTL c'))
     (callFTL (FTL_write e (FtlRequest_of (lineCountInSuperPage c) req) t) c)"
proof -
  let ?r = "FtlRequest_of (lineCountInSuperPage c) req"
  have u: "flaggedUnits e ?r = {unitOf e (ireq_slpn req)}" by (rule FtlRequest_of_units [OF cache_invD(2) [OF inv]])
  then have ne: "flaggedUnits e ?r \<noteq> {}" by simp
  show ?thesis
  proof (rule okE_mono [OF callFTL_write [OF inv ne, of t]], clarify)
    fix t' c' assume a: "cache_inv e c'" "same_data c c'" "stored e c' = stored e c \<union> flaggedUnits e ?r"
      "live e (pFTL c') = live e (pFTL c) \<union> flaggedUnits e ?r"
    show "wrote_to e (ireq_slpn req) c c' \<and> same_data c c' \<and> unitOf e (ireq_slpn req) \<in> live e (pFTL c')"
      using a idle_same [OF idl a(2)] same_dataD(1) [OF a(2)] by (auto simp: wrote_to_def u)
  qed
qed

lemma wrote_to_trans:
  assumes "wrote_to e lca c c1 \<or> c1 = c" and "wrote_to e lca c1 c2"
  shows "wrote_to e lca c c2"
  using assms by (auto simp: wrote_to_def)

lemma writeCached_ok:
  assumes inv: "cache_inv e c" and idl: "idle c" and u: "dirty \<or> unitOf e (ireq_slpn req) \<in> live e (pFTL c)"
  shows "okE (\<lambda>(ret, t', c'). wrote_to e (ireq_slpn req) c c') (writeCached e ic req dirty flash t c)"
proof -
  let ?lca = "ireq_slpn req" and ?s = "calcSetIndex c (ireq_slpn req)"
  note g = cache_invD(2) [OF inv]
  obtain w t1 where w: "getValidWay ic ?lca t c = (w, t1)" by (cases "getValidWay ic ?lca t c")
  obtain w2 t2 where w2: "getEmptyWay ic ?s t1 c = (w2, t2)" by (cases "getEmptyWay ic ?s t1 c")
  note v = getValidWay_cases [OF g w]
  have s: "?s < setSize c" using g by (simp add: cache_geom_def calcSetIndex_def)
  note m = getEmptyWay_cases [OF g s w2]
  let ?m = "if w \<noteq> waySize c then Inr (True, writeLine e req dirty flash (?s, w) (\<lambda>l. l) t1 c)
    else if w2 \<noteq> waySize c then Inr (True, writeLine e req dirty flash (?s, w2) (\<lambda>l. l\<lparr>ln_valid := True, ln_tag := ?lca\<rparr>) t2 c)
    else bindE (writeFlush e ic req t2 c) (\<lambda>r. Inr (False, r))"
  have A: "okE (\<lambda>(ret, t', c'). wrote_to e ?lca c c') ?m"
  proof -
    consider "w \<noteq> waySize c" | "w = waySize c" "w2 \<noteq> waySize c" | "w = waySize c" "w2 = waySize c" by blast
    then show ?thesis
    proof cases
      case 1
      then have l: "hasLine c (?s, w)" "ln_valid (lineAt c (?s, w))" "ln_tag (lineAt c (?s, w)) = ?lca" using v by auto
      have "wrote_to e ?lca c (snd (writeLine e req dirty flash (?s, w) (\<lambda>l. l) t1 c))"
      proof (rule writeLine_ok [OF inv idl l(1)])
        fix x assume x: "x = (lineAt c (?s, w))\<lparr>ln_insertedAt := ln_insertedAt x, ln_lastAccessed := ln_lastAccessed x, ln_dirty := dirty\<rparr>"
        show "ln_valid x \<and> ln_tag x = ?lca \<and> ln_dirty x = ln_dirty x" by (subst x, subst (2) x) (simp add: l)
      qed (use u l in auto)
      then show ?thesis using 1 by (simp add: case_prod_unfold)
    next
      case 2
      then have l: "hasLine c (?s, w2)" "\<not> ln_valid (lineAt c (?s, w2))" using m by auto
      have "wrote_to e ?lca c (snd (writeLine e req dirty flash (?s, w2) (\<lambda>l. l\<lparr>ln_valid := True, ln_tag := ?lca\<rparr>) t2 c))"
        by (rule writeLine_ok [OF inv idl l(1)]) (use u l in auto)
      then show ?thesis using 2 by (simp add: case_prod_unfold)
    next
      case 3
      then show ?thesis using writeFlush_ok [OF inv idl, of req ic t2] by (auto intro: okE_bindI)
    qed
  qed
  have B: "okE (\<lambda>(ret, t', c'). wrote_to e ?lca c c') (case below (addLatency e CpuCACHE_WRITE t3) c1 of (t4, c2) \<Rightarrow> Inr (ret, t4, c2))"
    if "wrote_to e ?lca c c1" for ret :: bool and t3 c1
    using wrote_to_below [OF that idle_calls(3)] by (simp add: case_prod_unfold)
  show ?thesis unfolding writeCached_def Let_def w w2 prod.case by (rule okE_bindI [OF A]) (clarify, rule B)
qed

lemma writeUncached_ok:
  assumes inv: "cache_inv e c" and idl: "idle c" and u: "dirty \<or> unitOf e (ireq_slpn req) \<in> live e (pFTL c)"
  shows "okE (\<lambda>(ret, t', c'). wrote_to e (ireq_slpn req) c c') (writeUncached e req dirty flash t c)"
proof -
  let ?m = "if dirty then callFTL (FTL_write e (FtlRequest_of (lineCountInSuperPage c) req) t) c else Inr (flash, c)"
  have m: "okE (\<lambda>(t1, c1). wrote_to e (ireq_slpn req) c c1) ?m"
  proof (cases dirty)
    case True
    then show ?thesis using okE_mono [OF write_through [OF inv idl, of req t], of "\<lambda>(t1, c1). wrote_to e (ireq_slpn req) c c1"] by auto
  next
    case False
    then have "unitOf e (ireq_slpn req) \<in> stored e c" using u by (simp add: stored_def)
    then show ?thesis using False inv idl by (auto simp: wrote_to_def)
  qed
  show ?thesis
    unfolding writeUncached_def
    by (rule okE_bindI [OF m]) (auto simp: case_prod_unfold Let_def intro!: wrote_to_scheduling wrote_to_below)
qed

lemma cacheWrite_ok:
  assumes inv: "cache_inv e c" and idl: "idle c"
  shows "okE (\<lambda>(ret, t', c'). wrote_to e (ireq_slpn req) c c') (cacheWrite e ic req t c)"
proof -
  let ?lca = "ireq_slpn req" and ?W = "\<lambda>(ret :: bool, t' :: tick, c'). wrote_to e (ireq_slpn req) c c'"
  define dirty where "dirty = (unat (ireq_length req) < lineSize c)"
  let ?Q = "\<lambda>c0. cache_inv e c0 \<and> idle c0 \<and> (wrote_to e ?lca c c0 \<or> c0 = c) \<and> (dirty \<or> unitOf e ?lca \<in> live e (pFTL c0))"
  have m: "okE (\<lambda>(f, c0). ?Q c0) (if dirty then Inr (t, c) else callFTL (FTL_write e (FtlRequest_of (lineCountInSuperPage c) req) t) c)"
    using okE_mono [OF write_through [OF inv idl, of req t], of "\<lambda>(f, c0). ?Q c0"] inv idl by (auto simp: wrote_to_def)
  have "okE ?W (if useWriteCaching c0 then writeCached e ic req dirty flash t c0 else writeUncached e req dirty flash t c0)"
    if q: "?Q c0" for flash c0
  proof -
    have i: "cache_inv e c0" "idle c0" "dirty \<or> unitOf e ?lca \<in> live e (pFTL c0)" and w: "wrote_to e ?lca c c0 \<or> c0 = c" using q by auto
    have "okE ?W (writeCached e ic req dirty flash t c0)"
      by (rule okE_mono [OF writeCached_ok [OF i, of ic flash t]]) (auto intro: wrote_to_trans [OF w])
    moreover have "okE ?W (writeUncached e req dirty flash t c0)"
      by (rule okE_mono [OF writeUncached_ok [OF i, of flash t]]) (auto intro: wrote_to_trans [OF w])
    ultimately show ?thesis by simp
  qed
  then show ?thesis
    unfolding cacheWrite_def Let_def dirty_def [symmetric]
    by (intro okE_bindI [OF m]) (auto intro!: okE_bindI [of ?W] wrote_to_stat)
qed

end
