(* ===== verification/CacheRead.thy ===== *)
theory CacheRead
  imports CacheInv
begin

text \<open>
  Reading through the cache: the translation layer serves the same units afterwards, the invariant
  is kept, and no unit becomes dirty. (Dirty units can get lost: the line that a miss
  replaces is marked clean before it is written back.)
\<close>

section \<open>Reserving lines\<close>

lemma cache_invX_mono: "cache_invX e X c \<Longrightarrow> X \<subseteq> Y \<Longrightarrow> cache_invX e Y c"
  unfolding cache_invX_def sets_ok_def by blast

definition reserved :: "env \<Rightarrow> GenericCache \<Rightarrow> (u64 \<times> line_ptr) list \<Rightarrow> GenericCache \<Rightarrow> bool" where
  "reserved e c rl c' \<longleftrightarrow> cache_invX e (snd ` set rl) c' \<and> shape c' = shape c \<and> pFTL c' = pFTL c \<and>
     (\<forall>x\<in>set rl. hasLine c (snd x) \<and> fst (snd x) = calcSetIndex c (fst x)) \<and>
     (\<forall>p. p \<notin> snd ` set rl \<longrightarrow> lineAt c' p = lineAt c p) \<and>
     (\<forall>p\<in>snd ` set rl. ln_valid (lineAt c' p) \<and> \<not> ln_dirty (lineAt c' p)) \<and>
     (\<forall>rc p. inGrid c rc \<and> evictAt c' rc = Some p \<longrightarrow> p \<in> snd ` set rl)"

lemma reservedD:
  assumes "reserved e c rl c'"
  shows "cache_invX e (snd ` set rl) c'" "shape c' = shape c" "pFTL c' = pFTL c"
    "(lca, p) \<in> set rl \<Longrightarrow> hasLine c p \<and> fst p = calcSetIndex c lca"
    "p \<notin> snd ` set rl \<Longrightarrow> lineAt c' p = lineAt c p"
    "p \<in> snd ` set rl \<Longrightarrow> ln_valid (lineAt c' p) \<and> \<not> ln_dirty (lineAt c' p)"
    "inGrid c rc \<Longrightarrow> evictAt c' rc = Some p \<Longrightarrow> p \<in> snd ` set rl"
  using assms unfolding reserved_def by (blast | force)+

lemma reserved_start: "cache_inv e c \<Longrightarrow> idle c \<Longrightarrow> reserved e c [] c"
  by (auto simp: reserved_def dest: idleD)

lemma reserved_same:
  assumes r: "reserved e c rl c1" and sd: "same_data c1 c2" and f: "pFTL c2 = pFTL c1"
  shows "reserved e c rl c2"
proof -
  note R = reservedD [OF r] and d = same_dataD [OF sd]
  have s: "serves e (live e (pFTL c1)) (pFTL c2)" using cache_invD(5) [OF R(1)] f by simp
  show ?thesis
    using r cache_inv_frame(1) [OF R(1) sd s] unfolding reserved_def by (simp add: d f)
qed

definition fresh :: "tick \<Rightarrow> Line \<Rightarrow> Line" where
  "fresh b l = l\<lparr>ln_insertedAt := b, ln_lastAccessed := b, ln_valid := True, ln_dirty := False\<rparr>"

lemma reserved_fresh:
  assumes r: "reserved e c rl c1" and p: "hasLine c1 p" and set: "fst p = calcSetIndex c lca"
    and c2: "c2 = c1 \<or> c2 = setEvict (calcIOPosition c1 (ln_tag (lineAt c1 p))) (Some p) c1"
  shows "reserved e c (rl @ [(lca, p)]) (updLine p (fresh b) c2)"
proof -
  note R = reservedD [OF r]
  let ?X = "snd ` set rl" and ?rc = "calcIOPosition c1 (ln_tag (lineAt c1 p))"
  note g = cache_invD(2) [OF R(1)] and gp = calcIOPosition_grid [OF cache_invD(2) [OF R(1)], of "ln_tag (lineAt c1 p)"]
  have sh: "shape c2 = shape c1" and l: "lineAt c2 = lineAt c1" and f: "pFTL c2 = pFTL c1" using c2 by auto
  note h = shapeD [OF sh] and h1 = shapeD [OF R(2)]
  have e2: "evictAt c2 rc = Some q \<Longrightarrow> evictAt c1 rc = Some q \<or> rc = ?rc \<and> q = p" for rc q
    using c2 evictAt_setEvict [OF g gp(1), of "Some p" rc] by (auto split: if_splits)
  have i2: "cache_invX e (insert p ?X) c2"
    using c2 inv_setEvict(1) [OF R(1) gp(1), of "Some p"] p gp(2) R(1) by (auto intro: cache_invX_mono)
  have p2: "hasLine c2 p" using p h by simp
  have u: "lineAt (updLine p (fresh b) c2) q = (if q = p then fresh b (lineAt c1 p) else lineAt c1 q)" for q
    using lineAt_updLine [OF cache_invD(2) [OF i2] p2, of "fresh b" q] l by simp
  have "unat (ln_tag (lineAt c1 p)) mod lineCountInSuperPage c1 = fst rc" if rc: "inGrid c1 rc" "evictAt c2 rc = Some p" for rc
  proof (cases "evictAt c1 rc = Some p")
    case True
    then have "p \<in> ?X" using R(7) [of rc p] rc(1) h1 by simp
    then show ?thesis using evict_okD(2) [OF cache_invD(3) [OF R(1)] rc(1) True] R(6) by simp
  qed (use e2 [OF rc(2)] gp(2) in simp)
  then have "cache_invX e (insert p ?X) (updLine p (fresh b) c2)"
    using h l by (intro inv_updLine [OF i2 p2]) (simp_all add: fresh_def)
  moreover have "hasLine c p" using p h1 by simp
  moreover have "q \<in> insert p ?X" if "inGrid c rc" "evictAt c2 rc = Some q" for rc q
    using e2 [OF that(2)] R(7) [OF that(1), of q] by auto
  ultimately show ?thesis
    unfolding reserved_def using R(2-6) set sh f
    by (auto simp: u fresh_def)
qed


lemma evictFunction_same: "evictFunction ic s t c = (w, b, c') \<Longrightarrow> same_data c c' \<and> pFTL c' = pFTL c"
  by (auto simp: evictFunction_def Let_def case_prod_unfold split: ICL_EVICT_POLICY.splits)

lemma reserveLine_ok:
  assumes r: "reserved e c rl c1"
  shows "okE (\<lambda>(rl', fin', c'). reserved e c rl' c') (reserveLine e ic t lca (rl, fin, c1))"
proof -
  note R = reservedD [OF r]
  note g = cache_invD(2) [OF R(1)] and h1 = shapeD [OF R(2)]
  let ?s = "calcSetIndex c1 lca"
  have s: "?s < setSize c1" using g by (simp add: cache_geom_def calcSetIndex_def)
  have set: "fst (?s, w) = calcSetIndex c lca" for w :: nat using h1 by simp
  obtain w b1 where w: "getValidWay ic lca t c1 = (w, b1)" by (cases "getValidWay ic lca t c1")
  obtain w2 b2 where w2: "getEmptyWay ic ?s b1 c1 = (w2, b2)" by (cases "getEmptyWay ic ?s b1 c1")
  obtain w3 b3 c2 where w3: "evictFunction ic ?s b2 c1 = (w3, b3, c2)" by (metis prod_cases3)
  note e3 = evictFunction_same [OF w3]
  note r2 = reserved_same [OF r conjunct1 [OF e3] conjunct2 [OF e3]] and h2 = shapeD [OF same_dataD(1) [OF conjunct1 [OF e3]]]
  have f: "fresh b = (\<lambda>l. l\<lparr>ln_insertedAt := b, ln_lastAccessed := b, ln_valid := True, ln_dirty := False\<rparr>)" for b
    by (simp add: fun_eq_iff fresh_def)
  have A: "reserved e c (rl @ [(lca, (?s, w3))]) (updLine (?s, w3) (fresh b3)
      (if ln_dirty (lineAt c2 (?s, w3)) then setEvict (calcIOPosition c2 (ln_tag (lineAt c2 (?s, w3)))) (Some (?s, w3)) c2 else c2))"
    if "w3 < waySize c1"
    by (rule reserved_fresh [OF r2 _ set]) (use that s h2 in \<open>auto simp: hasLine_def\<close>)
  have B: "reserved e c (rl @ [(lca, (?s, w2))]) (updLine (?s, w2) (fresh b2) c1)" if "w2 \<noteq> waySize c1"
    by (rule reserved_fresh [OF r _ set]) (use that getEmptyWay_cases [OF g s w2] in auto)
  show ?thesis
    unfolding reserveLine_def Let_def w w2 w3 prod.case
    using A B r by (auto simp: f [symmetric] guardE_def)
qed

lemma reserveLoop_ok:
  assumes "reserved e c rl c1"
  shows "okE (\<lambda>(rl', fin', c'). reserved e c rl' c') (foldE (reserveLine e ic t) lcas (rl, fin, c1))"
proof (rule foldE_okE [of "\<lambda>(rl', fin', c'). reserved e c rl' c'"])
  show "okE (\<lambda>(rl', fin', c'). reserved e c rl' c') (reserveLine e ic t lca x)"
    if "case x of (rl', fin', c') \<Rightarrow> reserved e c rl' c'" for lca x
    using that reserveLine_ok by (cases x) auto
qed (use assms in simp)

section \<open>The eviction of a read\<close>

definition clean_victims :: "GenericCache \<Rightarrow> bool" where
  "clean_victims c \<longleftrightarrow> (\<forall>rc p. inGrid c rc \<and> evictAt c rc = Some p \<longrightarrow> hasLine c p \<and> \<not> ln_dirty (lineAt c p))"

lemma evictOne_clean:
  assumes g: "cache_geom e c" and cl: "clean_victims c" and rc: "inGrid c rc"
  shows "okE (\<lambda>c'. cache_geom e c' \<and> clean_victims c' \<and> shape c' = shape c \<and> pFTL c' = pFTL c) (evictOne e t True rc c)"
proof (cases "evictAt c rc")
  case None
  then show ?thesis using g cl by (simp add: evictOne_def)
next
  case (Some p)
  then have p: "hasLine c p" "\<not> ln_dirty (lineAt c p)" using cl rc unfolding clean_victims_def by blast+
  let ?c1 = "updLine p (evicted t) c"
  have g1: "cache_geom e ?c1" using g p by simp
  have rc1: "inGrid ?c1 rc" using rc shapeD(12) [OF shape_ops(1)] by simp
  have "clean_victims (setEvict rc None ?c1)"
    using cl lineAt_updLine [OF g p(1), of "evicted t"] evictAt_setEvict [OF g1 rc1]
      shapeD [OF shape_ops(1), of p "evicted t" c] shapeD [OF shape_ops(2), of rc None ?c1]
    unfolding clean_victims_def by (auto simp: evicted_def split: if_splits)
  moreover have "evictOne e t True rc c = Inr (setEvict rc None ?c1)"
    using Some p updLine_comp [OF g p(1)] by (simp add: evictOne_def evicted_def [abs_def])
  ultimately show ?thesis using g1 rc1 by simp
qed

lemma evictCache_clean:
  assumes "cache_geom e c" and "clean_victims c"
  shows "okE (\<lambda>c'. pFTL c' = pFTL c) (evictCache e t True c)"
proof -
  let ?P = "\<lambda>c'. cache_geom e c' \<and> clean_victims c' \<and> shape c' = shape c \<and> pFTL c' = pFTL c"
  have "okE ?P (foldE (evictOne e t True) (ioPositions c) c)"
  proof (rule foldE_okE)
    fix rc c1 assume rc: "rc \<in> set (ioPositions c)" and P: "?P c1"
    then have "inGrid c1 rc" using shapeD(12) [of c1 c] by (simp add: set_ioPositions)
    from evictOne_clean [OF _ _ this, of e t] P show "okE ?P (evictOne e t True rc c1)"
      by (auto simp: okE_iff)
  qed (use assms in simp)
  then show ?thesis unfolding evictCache_def by (rule okE_mono) simp
qed


section \<open>Reading\<close>

definition read_from :: "env \<Rightarrow> line_ptr set \<Rightarrow> GenericCache \<Rightarrow> GenericCache \<Rightarrow> bool" where
  "read_from e X c c' \<longleftrightarrow> cache_invX e X c' \<and> idle c' \<and> shape c' = shape c \<and>
     live e (pFTL c') = live e (pFTL c) \<and> dirtyUnits e c' \<subseteq> dirtyUnits e c"

lemma read_fromD:
  assumes "read_from e X c c'"
  shows "cache_invX e X c'" "idle c'" "shape c' = shape c" "live e (pFTL c') = live e (pFTL c)" "dirtyUnits e c' \<subseteq> dirtyUnits e c"
  using assms by (simp_all add: read_from_def)

lemma read_from_trans: "read_from e Y c c1 \<Longrightarrow> read_from e X c1 c2 \<Longrightarrow> read_from e X c c2"
  by (auto simp: read_from_def)

lemma read_from_same:
  assumes r: "read_from e X c c1" and sd: "same_data c1 c2" and s: "serves e (live e (pFTL c1)) (pFTL c2)"
  shows "read_from e X c c2"
  using read_fromD [OF r] cache_inv_frame(1) [OF read_fromD(1) [OF r] sd s] idle_same [OF read_fromD(2) [OF r] sd]
    same_dataD(1) [OF sd] dirtyUnits_frame [OF sd, of e] s by (simp add: read_from_def serves_def)

lemma read_from_below:
  assumes "read_from e X c c1" and "idle_call g"
  shows "read_from e X c (snd (below g c1))"
proof (rule read_from_same [OF assms(1)])
  show "serves e (live e (pFTL c1)) (pFTL (snd (below g c1)))"
    using cache_invD(5) [OF read_fromD(1) [OF assms(1)]] assms(2) unfolding idle_call_def by (simp add: below_eq)
qed simp

lemma read_from_scheduling:
  assumes "read_from e X c c1"
  shows "read_from e X c (setScheduling b c1)"
proof (rule read_from_same [OF assms])
  show "serves e (live e (pFTL c1)) (pFTL (setScheduling b c1))"
    using serves_scheduling [OF cache_invD(5) [OF read_fromD(1) [OF assms]]] by (simp add: setScheduling_def)
qed simp

lemma read_from_call:
  assumes r: "read_from e X c c1"
  shows "okE (\<lambda>(t', c2). read_from e X c c2 \<and> same_data c1 c2) (callFTL (FTL_read e q t) c1)"
proof (cases "FTL_read e q t (pFTL c1)")
  case (Inr x)
  note D = cache_invD [OF read_fromD(1) [OF r]]
  obtain t' s' where x: "x = (t', s')" by (cases x)
  have s: "serves e (live e (pFTL c1)) (pFTL (c1\<lparr>pFTL := s'\<rparr>))"
    using ftl_store.read_ok [of e "live e (pFTL c1)" "pFTL c1" q t] D(1,5) by (simp add: Inr x)
  show ?thesis using read_from_same [OF r same_data_ops(1) s] by (simp add: callFTL_def Inr x)
qed (simp add: callFTL_def)

text \<open>Giving a reserved line its tag takes it out of the lines that are being filled.\<close>

definition tagged :: "tick \<Rightarrow> u64 \<Rightarrow> Line \<Rightarrow> Line" where
  "tagged b lca l = l\<lparr>ln_insertedAt := b, ln_lastAccessed := b, ln_tag := lca\<rparr>"

lemma read_from_tagged:
  assumes r: "read_from e (insert p X) c c1" and p: "hasLine c1 p" "fst p = calcSetIndex c1 lca"
    and cl: "\<not> (ln_valid (lineAt c1 p) \<and> ln_dirty (lineAt c1 p))"
  shows "read_from e X c (updLine p (tagged b lca) c1)"
proof -
  note R = read_fromD [OF r] and D = cache_invD [OF read_fromD(1) [OF r]]
  have i: "cache_invX e (insert p X) (updLine p (tagged b lca) c1)"
    by (rule inv_updLine [OF R(1) p(1)]) (use idleD [OF R(2)] in auto)
  have "sets_ok X (updLine p (tagged b lca) c1)"
  proof (rule sets_okI)
    fix q assume q: "hasLine (updLine p (tagged b lca) c1) q" "q \<notin> X" "ln_valid (lineAt (updLine p (tagged b lca) c1) q)"
    note h = shapeD [OF shape_ops(1), of p "tagged b lca" c1] and u = lineAt_updLine [OF D(2) p(1), of "tagged b lca" q]
    show "calcSetIndex (updLine p (tagged b lca) c1) (ln_tag (lineAt (updLine p (tagged b lca) c1) q)) = fst q"
      using q p(2) sets_okD [OF D(4), of q] u h by (auto simp: tagged_def split: if_splits)
  qed
  then have "cache_invX e X (updLine p (tagged b lca) c1)" using i by (simp add: cache_invX_def)
  moreover have "dirtyUnits e (updLine p (tagged b lca) c1) \<subseteq> dirtyUnits e c1"
    using dirtyUnits_upd(1) [OF D(2) p(1), of "tagged b lca"] cl by (simp add: tagged_def)
  moreover have "idle (updLine p (tagged b lca) c1)" using R(2) shapeD(12) [OF shape_ops(1)] by (simp add: idle_def)
  ultimately show ?thesis using R(3-5) by (auto simp: read_from_def)
qed

lemma readLine_ok:
  assumes r: "read_from e (insert p X) c c1" and p: "hasLine c p" "fst p = calcSetIndex c lca"
    and cl: "\<forall>q\<in>P. \<not> (ln_valid (lineAt c1 q) \<and> ln_dirty (lineAt c1 q))" and pP: "p \<in> P"
  shows "okE (\<lambda>(fin', c2). read_from e X c c2 \<and> (\<forall>q\<in>P. \<not> (ln_valid (lineAt c2 q) \<and> ln_dirty (lineAt c2 q))))
     (readLine e req target t (lca, p) (fin, c1))"
  unfolding readLine_def Let_def prod.case
proof (rule okE_bindI [OF read_from_call [OF r]], clarify)
  fix b1 c2 assume r2: "read_from e (insert p X) c c2" and sd: "same_data c1 c2"
  let ?c3 = "snd (below (dramWrite e (lineSize c1) (ln_insertedAt (lineAt c2 p))) c2)"
  have sd3: "same_data c1 ?c3" by (rule same_data_trans [OF sd]) simp
  note d = same_dataD [OF sd3]
  have r3: "read_from e (insert p X) c ?c3" by (rule read_from_below [OF r2]) simp
  note h = shapeD [OF read_fromD(3) [OF r3]]
  have p3: "hasLine ?c3 p" "fst p = calcSetIndex ?c3 lca" using p h by simp_all
  have cl3: "\<not> (ln_valid (lineAt ?c3 p) \<and> ln_dirty (lineAt ?c3 p))" using cl pP d by simp
  have "read_from e X c (updLine p (tagged b lca) ?c3)" for b by (rule read_from_tagged [OF r3 p3 cl3])
  moreover have "\<forall>q\<in>P. \<not> (ln_valid (lineAt (updLine p (tagged b lca) ?c3) q) \<and> ln_dirty (lineAt (updLine p (tagged b lca) ?c3) q))" for b
    using cl d lineAt_updLine [OF cache_invD(2) [OF read_fromD(1) [OF r3]] p3(1)] by (auto simp: tagged_def)
  ultimately show "okE (\<lambda>(fin', c2). read_from e X c c2 \<and> (\<forall>q\<in>P. \<not> (ln_valid (lineAt c2 q) \<and> ln_dirty (lineAt c2 q))))
    (case below (dramWrite e (lineSize c1) (ln_insertedAt (lineAt c2 p))) c2 of (dramAt, c3) \<Rightarrow>
       Inr (if lca = target then max b1 dramAt else fin, updLine p
         (\<lambda>l. l\<lparr>ln_insertedAt := max b1 dramAt, ln_lastAccessed := max b1 dramAt, ln_tag := lca\<rparr>) c3))"
    by (simp add: case_prod_unfold tagged_def [abs_def])
qed


lemma readLoop_ok:
  assumes r: "read_from e (snd ` set rl) c c1" and p: "\<forall>x\<in>set rl. hasLine c (snd x) \<and> fst (snd x) = calcSetIndex c (fst x)"
    and cl: "\<forall>q\<in>snd ` set rl. \<not> (ln_valid (lineAt c1 q) \<and> ln_dirty (lineAt c1 q))"
  shows "okE (\<lambda>(fin', c2). read_from e {} c c2) (foldE (readLine e req target t) rl (fin, c1))"
proof -
  let ?P = "\<lambda>i (fin :: tick, c2). read_from e (snd ` set (drop i rl)) c c2 \<and> (\<forall>q\<in>snd ` set rl. \<not> (ln_valid (lineAt c2 q) \<and> ln_dirty (lineAt c2 q)))"
  have "okE (?P (length rl)) (foldE (readLine e req target t) rl (fin, c1))"
  proof (rule foldE_okE_idx)
    fix i and st :: "tick \<times> GenericCache" assume i: "i < length rl" and P: "?P i st"
    obtain f2 c2 where st: "st = (f2, c2)" by (cases st)
    obtain lca q where x: "rl ! i = (lca, q)" by (cases "rl ! i")
    have m: "(lca, q) \<in> set rl" using nth_mem [OF i] x by simp
    have d: "snd ` set (drop i rl) = insert q (snd ` set (drop (Suc i) rl))"
      using Cons_nth_drop_Suc [OF i] x by (metis image_insert list.simps(15) snd_conv)
    have q: "q \<in> snd ` set rl" using m by force
    show "okE (?P (Suc i)) (readLine e req target t (rl ! i) st)"
      unfolding x st by (rule readLine_ok) (use P p m q in \<open>auto simp: st d\<close>)
  qed (use r cl in simp)
  then show ?thesis by (rule okE_mono) auto
qed

text \<open>After the lines are reserved: evict, and read into them.\<close>

lemma missLoops_ok:
  assumes res: "reserved e c1 rl c2"
  shows "okE (\<lambda>(t2, c4). read_from e {} c1 c4)
    (bindE (evictCache e t1 True c2) (\<lambda>c3. foldE (readLine e req target t1) rl (t1, c3)))"
proof -
  note R = reservedD [OF res]
  note h = shapeD [OF R(2)]
  have "hasLine c2 p \<and> \<not> ln_dirty (lineAt c2 p)" if "inGrid c2 rc" "evictAt c2 rc = Some p" for rc p
    using that R(6) [OF R(7) [of rc p]] evict_okD(1) [OF cache_invD(3) [OF R(1)] that] h by simp
  then have cv: "clean_victims c2" unfolding clean_victims_def by blast
  have post: "okE (\<lambda>c3. (cache_invX e (snd ` set rl) c3 \<and> drained c2 c3 {rc. inGrid c2 rc}) \<and> pFTL c3 = pFTL c2) (evictCache e t1 True c2)"
    by (rule okE_conj [OF okE_mono [OF evictCache_ok [OF R(1)]] evictCache_clean [OF cache_invD(2) [OF R(1)] cv]]) simp
  show ?thesis
  proof (rule okE_bindI [OF post], elim conjE)
    fix c3 assume i3: "cache_invX e (snd ` set rl) c3" and d: "drained c2 c3 {rc. inGrid c2 rc}" and f: "pFTL c3 = pFTL c2"
    have sh: "shape c3 = shape c1" using drainedD(1) [OF d] R(2) by simp
    have cl: "\<not> (ln_valid (lineAt c3 q) \<and> ln_dirty (lineAt c3 q))" if "q \<in> snd ` set rl" for q
      using drainedD(4) [OF d, of q] R(6) [OF that] by auto
    have "x \<in> dirtyUnits e c1" if "x \<in> dirtyUnits e c3" for x
    proof -
      obtain q where q: "hasLine c3 q" "ln_valid (lineAt c3 q)" "ln_dirty (lineAt c3 q)" "x = unitOf e (ln_tag (lineAt c3 q))"
        using \<open>x \<in> dirtyUnits e c3\<close> unfolding dirtyUnits_def by blast
      then have "lineAt c3 q = lineAt c1 q" using cl [of q] drainedD(4) [OF d, of q] R(5) [of q] by auto
      then show ?thesis using q dirtyUnitsI [of c1 q e] shapeD(11) [OF sh] by simp
    qed
    then have "read_from e (snd ` set rl) c1 c3"
      using i3 drained_idle [OF d] sh f R(3) by (auto simp: read_from_def)
    moreover have "\<forall>x\<in>set rl. hasLine c1 (snd x) \<and> fst (snd x) = calcSetIndex c1 (fst x)" using R(4) by (metis prod.collapse)
    ultimately show "okE (\<lambda>(t2, c4). read_from e {} c1 c4) (foldE (readLine e req target t1) rl (t1, c3))"
      using cl by (intro readLoop_ok) blast+
  qed
qed

lemma readMiss_ok:
  assumes inv: "cache_inv e c" and idl: "idle c"
  shows "okE (\<lambda>(t', c'). read_from e {} c c') (readMiss e ic req ret arrived t c)"
proof -
  define n where "n = (if \<not> sd_enabled (readDetect c) then 1
    else if prefetchMode c = MODE_ALL \<or> \<not> bSuperPage c then lineCountInMaxIO c else lineCountInSuperPage c)"
  define c1 where "c1 = (if sd_enabled (readDetect c)
    then (setScheduling False c)\<lparr>prefetchTrigger := ireq_slpn req + of_nat (n div 2), lastPrefetched := ireq_slpn req + of_nat n\<rparr> else c)"
  have r0: "read_from e {} c c" using inv idl by (simp add: read_from_def)
  have r1: "read_from e {} c c1"
  proof (cases "sd_enabled (readDetect c)")
    case True
    have rs: "read_from e {} c (setScheduling False c)" by (rule read_from_scheduling [OF r0])
    have "same_data (setScheduling False c) c1" "pFTL c1 = pFTL (setScheduling False c)" using True by (simp_all add: c1_def same_data_def)
    then show ?thesis
      using read_from_same [OF rs] cache_invD(5) [OF read_fromD(1) [OF rs]] by simp
  qed (simp add: c1_def r0)
  note rs = reserveLoop_ok [OF reserved_start [OF read_fromD(1,2) [OF r1]], where fin = t and t = t]
  show ?thesis
    unfolding readMiss_def Let_def n_def [symmetric] c1_def [symmetric]
    by (rule okE_bindI [OF rs], clarify, simp only: bindE_assoc [symmetric], rule okE_bindI [OF missLoops_ok], assumption)
      (auto simp: read_from_scheduling [OF read_from_trans [OF r1]] read_from_trans [OF r1])
qed

text \<open>A hit changes the time stamp of a line only.\<close>

lemma read_from_touch:
  assumes r: "read_from e {} c c1" and p: "hasLine c1 p"
  shows "read_from e {} c (updLine p (\<lambda>l. l\<lparr>ln_lastAccessed := t\<rparr>) c1)"
proof -
  note R = read_fromD [OF r] and D = cache_invD [OF read_fromD(1) [OF r]]
  let ?f = "\<lambda>l. l\<lparr>ln_lastAccessed := t\<rparr>"
  have "cache_inv e (updLine p ?f c1)"
    by (rule inv_updLine [OF R(1) p]) (use sets_okD [OF D(4) p] idleD [OF R(2)] in auto)
  moreover have "dirtyUnits e (updLine p ?f c1) \<subseteq> dirtyUnits e c1"
    using dirtyUnits_upd(1) [OF D(2) p, of ?f] dirtyUnitsI [OF p, of e] by (auto split: if_splits)
  moreover have "idle (updLine p ?f c1)" using R(2) shapeD(12) [OF shape_ops(1)] by (simp add: idle_def)
  ultimately show ?thesis using R(3-5) by (auto simp: read_from_def)
qed


lemma checkSequential_same: "same_data c (checkSequential req c)" "pFTL (checkSequential req c) = pFTL c"
  by (simp_all add: checkSequential_def Let_def)

lemma readCached_ok:
  assumes r0: "read_from e {} c c0"
  shows "okE (\<lambda>(ret, t', c'). read_from e {} c c') (readCached e ic req t c0)"
proof -
  let ?R = "\<lambda>(ret :: bool, t' :: tick, c'). read_from e {} c c'" and ?s = "calcSetIndex c0 (ireq_slpn req)"
  obtain w t1 where w: "getValidWay ic (ireq_slpn req) t c0 = (w, t1)" by (cases "getValidWay ic (ireq_slpn req) t c0")
  have p: "hasLine c0 (?s, w)" if "w \<noteq> waySize c0"
    using getValidWay_cases [OF cache_invD(2) [OF read_fromD(1) [OF r0]] w] that by auto
  have miss: "okE ?R (bindE (readMiss e ic rq ret a b c1) (\<lambda>r. Inr (ret', r)))"
    if r: "read_from e {} c c1" for rq ret a b c1 ret'
    by (rule okE_bindI [OF readMiss_ok [OF read_fromD(1,2) [OF r]]]) (auto intro: read_from_trans [OF r])
  let ?t2 = "max t1 (ln_insertedAt (lineAt c0 (?s, w)))"
  let ?c1 = "snd (below (dramRead e (unat (ireq_length req)) ?t2) (updLine (?s, w) (\<lambda>l. l\<lparr>ln_lastAccessed := ?t2\<rparr>) c0))"
  have "read_from e {} c ?c1" if "w \<noteq> waySize c0" by (rule read_from_below [OF read_from_touch [OF r0 p [OF that]]]) simp
  then show ?thesis using miss r0 by (simp add: readCached_def w Let_def case_prod_unfold)
qed

lemma readUncached_ok:
  assumes r: "read_from e {} c c"
  shows "okE (\<lambda>(ret, t', c'). read_from e {} c c') (readUncached e req t c)"
  unfolding readUncached_def case_prod_unfold Let_def
  by (rule okE_bindI [OF read_from_call [OF read_from_below [OF r idle_calls(2)]]]) auto

lemma read_from_stat:
  assumes "read_from e {} c c'"
  shows "read_from e {} c (c'\<lparr>stat_request := a\<rparr>)" and "read_from e {} c (c'\<lparr>stat_cache := b\<rparr>)"
  using cache_invD(5) [OF read_fromD(1) [OF assms]]
  by (intro read_from_same [OF assms]; simp add: same_data_def)+

lemma cacheRead_ok:
  assumes inv: "cache_inv e c" and idl: "idle c"
  shows "okE (\<lambda>(ret, t', c'). read_from e {} c c') (cacheRead e ic req t c)"
proof -
  let ?R = "\<lambda>(ret :: bool, t' :: tick, c'). read_from e {} c c'"
  have r: "read_from e {} c c" using inv idl by (simp add: read_from_def)
  define c0 where "c0 = (if useReadPrefetch c then checkSequential req c else c)"
  have sd: "same_data c c0" and f: "pFTL c0 = pFTL c" by (simp_all add: c0_def checkSequential_same)
  have r0: "read_from e {} c c0" using read_from_same [OF r sd] cache_invD(5) [OF inv] f by simp
  have "okE ?R (bindE (readCached e ic req t c0) (\<lambda>(ret, t1, c1). let (t2, c2) = below (addLatency e CpuCACHE_READ t1) c1 in Inr (ret, t2, c2)))"
    by (rule okE_bindI [OF readCached_ok [OF r0]]) (auto simp: case_prod_unfold intro: read_from_below)
  then have "okE ?R (if useReadCaching c
      then bindE (readCached e ic req t c0) (\<lambda>(ret, t1, c1). let (t2, c2) = below (addLatency e CpuCACHE_READ t1) c1 in Inr (ret, t2, c2))
      else readUncached e req t c)" using readUncached_ok [OF r] by simp
  then show ?thesis
    unfolding cacheRead_def c0_def [symmetric] by (rule okE_bindI) (auto intro!: read_from_stat)
qed

end
