(* ===== verification/CacheFlush.thy ===== *)
theory CacheFlush
  imports CacheRead
begin

text \<open>
  Flush, trim and format: loops over all lines of the cache. What a loop has done so far is stated
  for the lines it has passed; the lines still to come are those of the start.
\<close>

section \<open>Loops over the lines\<close>

lemma distinct_linePtrs: "distinct (linePtrs c)"
  by (simp add: linePtrs_def distinct_product)

lemma nth_notin_take: "distinct xs \<Longrightarrow> i < length xs \<Longrightarrow> xs ! i \<notin> set (take i xs)"
  by (simp add: in_set_conv_nth nth_eq_iff_index_eq)

text \<open>The state after the lines in R: those with a tag in the range are invalid, all others are as they were.\<close>

definition swept :: "LPNRange \<Rightarrow> line_ptr set \<Rightarrow> GenericCache \<Rightarrow> GenericCache \<Rightarrow> bool" where
  "swept rng R c c' \<longleftrightarrow> shape c' = shape c \<and> idle c' \<and>
     (\<forall>p. lineAt c' p = (if p \<in> R \<and> inLines rng (lineAt c p) then (lineAt c p)\<lparr>ln_valid := False\<rparr> else lineAt c p))"

lemma sweptD:
  assumes "swept rng R c c'"
  shows "shape c' = shape c" "idle c'"
    "lineAt c' p = (if p \<in> R \<and> inLines rng (lineAt c p) then (lineAt c p)\<lparr>ln_valid := False\<rparr> else lineAt c p)"
  using assms unfolding swept_def by blast+

lemma swept_skip: "swept rng R c c1 \<Longrightarrow> \<not> inLines rng (lineAt c p) \<Longrightarrow> swept rng (insert p R) c c1"
  unfolding swept_def by auto

lemma swept_same:
  assumes "swept rng R c c1" and "same_data c1 c2"
  shows "swept rng R c c2"
  using assms(1) same_dataD [OF assms(2)] idle_same [OF _ assms(2)] unfolding swept_def by simp

lemma swept_step:
  assumes s: "swept rng R c c1" and g: "cache_geom e c1" and p: "hasLine c1 p" "inLines rng (lineAt c p)"
  shows "swept rng (insert p R) c (updLine p (\<lambda>l. l\<lparr>ln_valid := False\<rparr>) c1)"
proof -
  let ?c = "updLine p (\<lambda>l. l\<lparr>ln_valid := False\<rparr>) c1"
  have "lineAt ?c q = (if q \<in> insert p R \<and> inLines rng (lineAt c q) then (lineAt c q)\<lparr>ln_valid := False\<rparr> else lineAt c q)" for q
    using lineAt_updLine [OF g p(1), of "\<lambda>l. l\<lparr>ln_valid := False\<rparr>" q] sweptD(3) [OF s, of q] sweptD(3) [OF s, of p] p(2)
    by (cases "q = p") auto
  moreover have "idle ?c" using sweptD(2) [OF s] shapeD(12) [OF shape_ops(1), of p _ c1] unfolding idle_def by simp
  ultimately show ?thesis using sweptD(1) [OF s] unfolding swept_def by simp
qed

lemma inv_invalidate:
  assumes "cache_inv e c" and "hasLine c p"
  shows "cache_inv e (updLine p (\<lambda>l. l\<lparr>ln_valid := False\<rparr>) c)"
  by (rule inv_updLine [OF assms]) simp_all

lemma swept_all:
  assumes "swept rng {p. hasLine c p} c c'" and "hasLine c p" and "ln_valid (lineAt c' p)"
  shows "\<not> inLines rng (lineAt c' p)" and "lineAt c' p = lineAt c p"
  using sweptD(3) [OF assms(1), of p] assms(2,3) by (auto split: if_splits)

section \<open>Flush\<close>

lemma setFlag_units:
  assumes g: "cache_geom e c" and b: "bs_sized (bitsetSize e) (freq_ioFlag r)"
  shows "unitOf e tag \<in> flaggedUnits e (r\<lparr>freq_lpn := tag div of_nat (lineCountInSuperPage c),
      freq_ioFlag := bs_set (freq_ioFlag r) (unat tag mod lineCountInSuperPage c) True\<rparr>)"
proof -
  have n: "lineCountInSuperPage c = bitsetSize e" "0 < bitsetSize e" using g by (auto simp: cache_geom_def)
  have i: "unat tag mod bitsetSize e < bitsetSize e" using n(2) by simp
  show ?thesis
    using bs_sized_ops(1) [OF b i, of True] flag_count [OF b i] bs_sized_test(1) [OF b i, of True] i
    by (simp add: flaggedUnits_def unitsOf_def addressed_def n(1) unitOf_def)
qed

definition flushing :: "env \<Rightarrow> LPNRange \<Rightarrow> line_ptr set \<Rightarrow> GenericCache \<Rightarrow> FtlRequest \<Rightarrow> GenericCache \<Rightarrow> bool" where
  "flushing e rng R c r c' \<longleftrightarrow> cache_inv e c' \<and> swept rng R c c' \<and> bs_sized (bitsetSize e) (freq_ioFlag r) \<and>
     live e (pFTL c) \<subseteq> live e (pFTL c') \<and>
     (\<forall>p\<in>R. inLines rng (lineAt c p) \<and> ln_dirty (lineAt c p) \<longrightarrow> unitOf e (ln_tag (lineAt c p)) \<in> live e (pFTL c'))"

lemma flushingD:
  assumes "flushing e rng R c r c'"
  shows "cache_inv e c'" "swept rng R c c'" "bs_sized (bitsetSize e) (freq_ioFlag r)" "live e (pFTL c) \<subseteq> live e (pFTL c')"
    "p \<in> R \<Longrightarrow> inLines rng (lineAt c p) \<Longrightarrow> ln_dirty (lineAt c p) \<Longrightarrow> unitOf e (ln_tag (lineAt c p)) \<in> live e (pFTL c')"
  using assms unfolding flushing_def by blast+

lemma flushLine_ok:
  assumes f: "flushing e rng R c r c1" and p: "hasLine c p" "p \<notin> R"
  shows "okE (\<lambda>(r', t', fin', c2). flushing e rng (insert p R) c r' c2) (flushLine e ic rng p (r, t, fin, c1))"
proof -
  note F = flushingD [OF f]
  note g = cache_invD(2) [OF F(1)]
  have l: "lineAt c1 p = lineAt c p" using sweptD(3) [OF F(2), of p] p(2) by simp
  have p1: "hasLine c1 p" using p(1) shapeD(11) [OF sweptD(1) [OF F(2)]] by simp
  let ?l = "lineAt c p" and ?n = "lineCountInSuperPage c1"
  let ?r = "r\<lparr>freq_lpn := ln_tag ?l div of_nat ?n, freq_ioFlag := bs_set (freq_ioFlag r) (unat (ln_tag ?l) mod ?n) True\<rparr>"
  have n: "?n = bitsetSize e" "0 < bitsetSize e" using g by (auto simp: cache_geom_def)
  have sz: "bs_sized (bitsetSize e) (freq_ioFlag ?r)" using bs_sized_ops(1) [OF F(3), of "unat (ln_tag ?l) mod ?n" True] n by simp
  have u: "unitOf e (ln_tag ?l) \<in> flaggedUnits e ?r" by (rule setFlag_units [OF g F(3)])
  have step: "flushing e rng (insert p R) c r' (updLine p (\<lambda>l. l\<lparr>ln_valid := False\<rparr>) c2)"
    if i2: "cache_inv e c2" and sd: "same_data c1 c2" and L: "live e (pFTL c1) \<subseteq> live e (pFTL c2)" and b: "bs_sized (bitsetSize e) (freq_ioFlag r')"
      and w: "ln_dirty ?l \<Longrightarrow> unitOf e (ln_tag ?l) \<in> live e (pFTL c2)" and rg: "inLines rng ?l" for r' c2
  proof -
    have p2: "hasLine c2 p" using p1 shapeD(11) [OF same_dataD(1) [OF sd]] by simp
    have "swept rng (insert p R) c (updLine p (\<lambda>l. l\<lparr>ln_valid := False\<rparr>) c2)"
      by (rule swept_step [OF swept_same [OF F(2) sd] cache_invD(2) [OF i2] p2 rg])
    then show ?thesis using inv_invalidate [OF i2 p2] b L F(4,5) w unfolding flushing_def by auto
  qed
  show ?thesis
  proof (cases "inLines rng ?l")
    case False
    then show ?thesis using swept_skip [OF F(2) False] F unfolding flushing_def by (auto simp: flushLine_def Let_def l)
  next
    case rg: True
    show ?thesis
    proof (cases "ln_dirty ?l")
      case True
      have "flaggedUnits e ?r \<noteq> {}" using u by blast
      from callFTL_write [OF F(1) this] have
        "okE (\<lambda>(t2, c2). flushing e rng (insert p R) c ?r (updLine p (\<lambda>l. l\<lparr>ln_valid := False\<rparr>) c2)) (callFTL (FTL_write e ?r t1) c1)" for t1
        by (rule okE_mono) (use step [OF _ _ _ sz _ rg] u in auto)
      then show ?thesis
        using rg True by (simp add: flushLine_def Let_def l okE_bind case_prod_unfold)
    next
      case False
      then show ?thesis using rg step [OF F(1) same_data_refl _ F(3) _ rg] by (auto simp: flushLine_def Let_def l)
    qed
  qed
qed


lemma flushLoop_ok:
  assumes inv: "cache_inv e c" and idl: "idle c"
  shows "okE (\<lambda>(r', t', fin', c'). flushing e rng {p. hasLine c p} c r' c')
    (foldE (flushLine e ic rng) (linePtrs c) (FtlRequest_new (lineCountInSuperPage c), t, t, c))"
proof -
  let ?xs = "linePtrs c"
  let ?P = "\<lambda>i (r', t' :: tick, fin' :: tick, c'). flushing e rng (set (take i ?xs)) c r' c'"
  have n: "lineCountInSuperPage c = bitsetSize e" "0 < bitsetSize e" using cache_invD(2) [OF inv] by (auto simp: cache_geom_def)
  have "okE (?P (length ?xs)) (foldE (flushLine e ic rng) ?xs (FtlRequest_new (lineCountInSuperPage c), t, t, c))"
  proof (rule foldE_okE_idx)
    show "?P 0 (FtlRequest_new (lineCountInSuperPage c), t, t, c)"
      using inv idl bs_sized_new [OF n(2)] by (simp add: flushing_def swept_def FtlRequest_new_def n(1))
    fix i and st :: "FtlRequest \<times> tick \<times> tick \<times> GenericCache" assume i: "i < length ?xs" and P: "?P i st"
    obtain r' t' fin' c' where st: "st = (r', t', fin', c')" by (metis prod_cases4)
    have p: "hasLine c (?xs ! i)" using nth_mem [OF i] by (simp add: set_linePtrs)
    have "?xs ! i \<notin> set (take i ?xs)" by (rule nth_notin_take [OF distinct_linePtrs i])
    from flushLine_ok [OF _ p this] P show "okE (?P (Suc i)) (flushLine e ic rng (?xs ! i) st)"
      using i by (simp add: st take_Suc_conv_app_nth)
  qed
  then show ?thesis by (simp add: set_linePtrs)
qed

lemma flushed_stored:
  assumes f: "flushing e rng {p. hasLine c p} c r c'"
  shows "stored e c \<subseteq> stored e c'"
proof
  note F = flushingD [OF f]
  fix u assume "u \<in> stored e c"
  then consider "u \<in> live e (pFTL c)" | p where "hasLine c p" "ln_valid (lineAt c p)" "ln_dirty (lineAt c p)" "u = unitOf e (ln_tag (lineAt c p))"
    by (auto simp: stored_def dirtyUnits_def)
  then show "u \<in> stored e c'"
  proof cases
    case 1
    then show ?thesis using F(4) by (auto simp: stored_def)
  next
    case (2 p)
    show ?thesis
    proof (cases "inLines rng (lineAt c p)")
      case True
      then show ?thesis using F(5) [of p] 2 by (simp add: stored_def)
    next
      case False
      then have "lineAt c' p = lineAt c p" using sweptD(3) [OF F(2), of p] by simp
      then show ?thesis using dirtyUnitsI [of c' p e] 2 shapeD(11) [OF sweptD(1) [OF F(2)]] by (simp add: stored_def)
    qed
  qed
qed

section \<open>Trim\<close>

text \<open>The pages that a trim of the range removes after the lines in R: those of the lines with a tag in it.\<close>

definition trimmedPages :: "env \<Rightarrow> LPNRange \<Rightarrow> line_ptr set \<Rightarrow> GenericCache \<Rightarrow> u64 set" where
  "trimmedPages e rng R c = (\<lambda>p. fst (unitOf e (ln_tag (lineAt c p)))) ` {p \<in> R. inLines rng (lineAt c p)}"

definition trimming :: "env \<Rightarrow> LPNRange \<Rightarrow> line_ptr set \<Rightarrow> GenericCache \<Rightarrow> GenericCache \<Rightarrow> bool" where
  "trimming e rng R c c' \<longleftrightarrow> cache_inv e c' \<and> swept rng R c c' \<and>
     live e (pFTL c') = {(l, i) \<in> live e (pFTL c). l \<notin> trimmedPages e rng R c}"

lemma trimLine_ok:
  assumes f: "trimming e rng R c c1" and p: "hasLine c p" "p \<notin> R"
  shows "okE (\<lambda>(r', t', fin', c2). trimming e rng (insert p R) c c2) (trimLine e ic rng p (r, t, fin, c1))"
proof -
  have i1: "cache_inv e c1" and s1: "swept rng R c c1" and L1: "live e (pFTL c1) = {(l, i) \<in> live e (pFTL c). l \<notin> trimmedPages e rng R c}"
    using f unfolding trimming_def by blast+
  have l: "lineAt c1 p = lineAt c p" using sweptD(3) [OF s1, of p] p(2) by simp
  have p1: "hasLine c1 p" using p(1) shapeD(11) [OF sweptD(1) [OF s1]] by simp
  let ?l = "lineAt c p" and ?n = "lineCountInSuperPage c1"
  let ?r = "r\<lparr>freq_lpn := ln_tag ?l div of_nat ?n, freq_ioFlag := bs_set (freq_ioFlag r) (unat (ln_tag ?l) mod ?n) True\<rparr>"
  have n: "?n = bitsetSize e" using cache_invD(2) [OF i1] by (simp add: cache_geom_def)
  show ?thesis
  proof (cases "inLines rng ?l")
    case False
    then have "{q \<in> insert p R. inLines rng (lineAt c q)} = {q \<in> R. inLines rng (lineAt c q)}" by auto
    then have "trimmedPages e rng (insert p R) c = trimmedPages e rng R c" by (simp add: trimmedPages_def)
    then show ?thesis using False swept_skip [OF s1 False] i1 L1 by (simp add: trimLine_def Let_def l trimming_def)
  next
    case True
    have tp: "trimmedPages e rng (insert p R) c = insert (ln_tag ?l div of_nat ?n) (trimmedPages e rng R c)"
    proof -
      have "{q \<in> insert p R. inLines rng (lineAt c q)} = insert p {q \<in> R. inLines rng (lineAt c q)}" using True by auto
      then show ?thesis by (simp add: trimmedPages_def unitOf_def n)
    qed
    have "okE (\<lambda>(t2, c2). trimming e rng (insert p R) c (updLine p (\<lambda>l. l\<lparr>ln_valid := False\<rparr>) c2)) (callFTL (FTL_trim e ?r t1) c1)" for t1
    proof (cases "FTL_trim e ?r t1 (pFTL c1)")
      case (Inr x)
      obtain t2 s2 where x: "x = (t2, s2)" by (cases x)
      let ?c2 = "c1\<lparr>pFTL := s2\<rparr>"
      have s: "serves e (live e (pFTL c1) - pageUnits e ?r) (pFTL ?c2)"
        using ftl_store.trim_ok [of e "live e (pFTL c1)" "pFTL c1" ?r t1] cache_invD(1,5) [OF i1] by (simp add: Inr x)
      have sd: "same_data c1 ?c2" by simp
      have i2: "cache_inv e ?c2" by (rule cache_inv_frame(1) [OF i1 sd s])
      have p2: "hasLine ?c2 p" using p1 shapeD(11) [OF same_dataD(1) [OF sd]] by simp
      have "swept rng (insert p R) c (updLine p (\<lambda>l. l\<lparr>ln_valid := False\<rparr>) ?c2)"
        by (rule swept_step [OF swept_same [OF s1 sd] cache_invD(2) [OF i2] p2 True])
      moreover have "live e s2 = {(l, i) \<in> live e (pFTL c). l \<notin> trimmedPages e rng (insert p R) c}"
        using s by (auto simp: serves_def L1 tp pageUnits_def)
      ultimately show ?thesis using inv_invalidate [OF i2 p2] by (simp add: callFTL_def Inr x trimming_def)
    qed (simp add: callFTL_def)
    then show ?thesis using True by (simp add: trimLine_def Let_def l okE_bind case_prod_unfold)
  qed
qed

lemma trimLoop_ok:
  assumes inv: "cache_inv e c" and idl: "idle c"
  shows "okE (\<lambda>(r', t', fin', c'). trimming e rng {p. hasLine c p} c c')
    (foldE (trimLine e ic rng) (linePtrs c) (r, t, t, c))"
proof -
  let ?xs = "linePtrs c"
  let ?P = "\<lambda>i (r' :: FtlRequest, t' :: tick, fin' :: tick, c'). trimming e rng (set (take i ?xs)) c c'"
  have "okE (?P (length ?xs)) (foldE (trimLine e ic rng) ?xs (r, t, t, c))"
  proof (rule foldE_okE_idx)
    show "?P 0 (r, t, t, c)" using inv idl by (simp add: trimming_def swept_def trimmedPages_def)
    fix i and st :: "FtlRequest \<times> tick \<times> tick \<times> GenericCache" assume i: "i < length ?xs" and P: "?P i st"
    obtain r' t' fin' c' where st: "st = (r', t', fin', c')" by (metis prod_cases4)
    have p: "hasLine c (?xs ! i)" using nth_mem [OF i] by (simp add: set_linePtrs)
    have "?xs ! i \<notin> set (take i ?xs)" by (rule nth_notin_take [OF distinct_linePtrs i])
    from trimLine_ok [OF _ p this] P show "okE (?P (Suc i)) (trimLine e ic rng (?xs ! i) st)"
      using i by (simp add: st take_Suc_conv_app_nth)
  qed
  then show ?thesis by (simp add: set_linePtrs)
qed


section \<open>Format\<close>

lemma read_from_invalidate:
  assumes r: "read_from e {} c c1" and p: "hasLine c1 p"
  shows "read_from e {} c (updLine p (\<lambda>l. l\<lparr>ln_valid := False\<rparr>) c1)"
proof -
  note R = read_fromD [OF r]
  have "dirtyUnits e (updLine p (\<lambda>l. l\<lparr>ln_valid := False\<rparr>) c1) \<subseteq> dirtyUnits e c1"
    using dirtyUnits_upd(1) [OF cache_invD(2) [OF R(1)] p, of "\<lambda>l. l\<lparr>ln_valid := False\<rparr>"] by simp
  moreover have "idle (updLine p (\<lambda>l. l\<lparr>ln_valid := False\<rparr>) c1)" using R(2) shapeD(12) [OF shape_ops(1)] by (simp add: idle_def)
  ultimately show ?thesis using R inv_invalidate [OF R(1) p] by (auto simp: read_from_def)
qed

lemma dropLoop_ok:
  assumes "read_from e {} c c"
  shows "read_from e {} c (snd (fold (dropLine ic rng) is (t, c)))"
proof (rule fold_invariant [where P = "\<lambda>st. read_from e {} c (snd st)" and Q = "\<lambda>_. True"])
  fix i :: nat and st :: "tick \<times> GenericCache" assume r: "read_from e {} c (snd st)"
  let ?lpn = "slpn rng + of_nat i"
  obtain w t1 where w: "getValidWay ic ?lpn (fst st) (snd st) = (w, t1)" by (cases "getValidWay ic ?lpn (fst st) (snd st)")
  have "w = waySize (snd st) \<or> hasLine (snd st) (calcSetIndex (snd st) ?lpn, w)"
    using getValidWay_cases [OF cache_invD(2) [OF read_fromD(1) [OF r]] w] by auto
  then show "read_from e {} c (snd (dropLine ic rng i st))"
    using r read_from_invalidate [OF r] w by (cases st) (auto simp: dropLine_def Let_def)
qed (use assms in auto)

lemma cacheFormat_ok:
  assumes inv: "cache_inv e c" and idl: "idle c"
  shows "okE (\<lambda>(t', c'). cache_inv e c' \<and> idle c' \<and> dirtyUnits e c' \<subseteq> dirtyUnits e c \<and>
     live e (pFTL c') = {(l, i) \<in> live e (pFTL c). \<not> inRange (ftlRange c rng) l}) (cacheFormat e ic rng t c)"
proof -
  let ?st = "if useReadCaching c \<or> useWriteCaching c then fold (dropLine ic rng) [0..<unat (nlp rng)] (t, c) else (t, c)"
  have r: "read_from e {} c c" using inv idl by (simp add: read_from_def)
  have r1: "read_from e {} c (snd ?st)" using dropLoop_ok [OF r] r by simp
  obtain t1 c1 where st: "?st = (t1, c1)" by (cases ?st)
  note R = read_fromD [OF r1 [unfolded st snd_conv]]
  have rg: "ftlRange c1 rng = ftlRange c rng" using shapeD [OF R(3)] by (simp add: ftlRange_def)
  have "okE (\<lambda>(t2, s2). serves e {(l, i) \<in> live e (pFTL c). \<not> inRange (ftlRange c rng) l} s2) (FTL_format e (ftlRange c1 rng) t1 (pFTL c1))"
    using okE_latency [OF ftlFormat_ok [OF cache_invD(1,5) [OF R(1)]], of "ftlRange c1 rng" t1 CpuFTL_FORMAT] R(4)
    by (simp add: FTL_format_def rg)
  then show ?thesis
    unfolding cacheFormat_def Let_def st prod.case callFTL_def bindE_assoc
  proof (rule okE_bindI, clarify)
    fix t2 s2 assume s: "serves e {(l, i) \<in> live e (pFTL c). \<not> inRange (ftlRange c rng) l} s2"
    let ?c2 = "snd (below (addLatency e CpuCACHE_FORMAT t2) (c1\<lparr>pFTL := s2\<rparr>))"
    have sd: "same_data c1 ?c2" using same_data_trans [OF same_data_ops(1) same_data_ops(5)] .
    have s2: "serves e {(l, i) \<in> live e (pFTL c). \<not> inRange (ftlRange c rng) l} (pFTL ?c2)"
      using s by (simp add: below_eq) (auto intro: serves_core)
    show "okE (\<lambda>(t', c'). cache_inv e c' \<and> idle c' \<and> dirtyUnits e c' \<subseteq> dirtyUnits e c \<and>
        live e (pFTL c') = {(l, i) \<in> live e (pFTL c). \<not> inRange (ftlRange c rng) l})
      (bindE (Inr (t2, c1\<lparr>pFTL := s2\<rparr>)) (\<lambda>(t2, c2). Inr (below (addLatency e CpuCACHE_FORMAT t2) c2)))"
      using cache_inv_frame(1) [OF R(1) sd s2] idle_same [OF R(2) sd] dirtyUnits_frame [OF sd, of e] R(5) s2
      by (simp add: case_prod_unfold serves_def)
  qed
qed

end
