(* ===== verification/Icl.thy ===== *)
theory Icl
  imports CacheFlush
begin

text \<open>
  The internal cache layer (\<open>src/simplessd/icl/icl.cc\<close>): it owns the translation layer and the cache,
  splits a request into requests for single cache lines and passes flush, trim and
  format on. The record of the object holds the cache, which holds the translation layer.
\<close>

section \<open>Model\<close>

datatype DRAM_MODEL = SIMPLE_MODEL | DRAM_OTHER

record ICL =
  totalLogicalPages :: u64
  logicalPageSize :: nat
  pCache :: GenericCache

definition ICL_new :: "env \<Rightarrow> PalParameter \<Rightarrow> DRAM_MODEL \<Rightarrow> IclConfig \<Rightarrow> GenericCache \<Rightarrow> tick \<Rightarrow> (env \<times> ICL) res" where
  "ICL_new e0 pp dram ic raw now =
     guardE (dram = SIMPLE_MODEL) (Panic ''Undefined DRAM model'')
       (bindE (FTL_new e0 pp now) (\<lambda>(e, s).
          let p = param e in
          guardE (\<not> randomIOTweak (conf e) \<or> ioUnitInPage p \<noteq> 0) (UB ''division by zero'')
          (bindE (GenericCache_new e ic (raw\<lparr>pFTL := s\<rparr>)) (\<lambda>c.
             Inr (e, if randomIOTweak (conf e)
                     then \<lparr>totalLogicalPages = of_nat (totalLogicalBlocks p * pagesInBlock p * ioUnitInPage p),
                           logicalPageSize = pageSize p div ioUnitInPage p, pCache = c\<rparr>
                     else \<lparr>totalLogicalPages = of_nat (totalLogicalBlocks p * pagesInBlock p),
                           logicalPageSize = pageSize p, pCache = c\<rparr>)))))"

text \<open>
  The requests of the loops of \<open>read\<close> and \<open>write\<close>: the i-th has the address of the i-th page, the
  first starts at the offset of the request, and each is as long as what remains and what fits.
\<close>

fun subRequests :: "nat \<Rightarrow> IclRequest \<Rightarrow> nat \<Rightarrow> nat \<Rightarrow> u64 \<Rightarrow> u64 \<Rightarrow> IclRequest list" where
  "subRequests lps req 0 i off rem = []"
| "subRequests lps req (Suc n) i off rem =
     (let len = (if rem > of_nat lps - off then of_nat lps - off else rem)
      in \<lparr>ireq_reqID = ireq_reqID req, ireq_reqSubID = of_nat i + 1, ireq_offset = off, ireq_length = len,
          ireq_range = \<lparr>slpn = ireq_slpn req + of_nat i, nlp = 0\<rparr>\<rparr>
         # subRequests lps req n (Suc i) 0 (rem - len))"

definition splitRequest :: "nat \<Rightarrow> IclRequest \<Rightarrow> IclRequest list" where
  "splitRequest lps req = subRequests lps req (unat (nlp (ireq_range req))) 0 (ireq_offset req) (ireq_length req)"

definition iclStep :: "(IclRequest \<Rightarrow> tick \<Rightarrow> GenericCache \<Rightarrow> (bool \<times> tick \<times> GenericCache) res) \<Rightarrow> tick \<Rightarrow>
    IclRequest \<Rightarrow> tick \<times> GenericCache \<Rightarrow> (tick \<times> GenericCache) res" where
  "iclStep f t req st = bindE (f req t (snd st)) (\<lambda>(ret, b, c). Inr (max (fst st) b, c))"

definition onCache :: "ICL \<Rightarrow> (tick \<times> GenericCache) res \<Rightarrow> (tick \<times> ICL) res" where
  "onCache icl m = bindE m (\<lambda>(t, c). Inr (t, icl\<lparr>pCache := c\<rparr>))"

definition iclRead :: "env \<Rightarrow> IclConfig \<Rightarrow> IclRequest \<Rightarrow> tick \<Rightarrow> ICL \<Rightarrow> (tick \<times> ICL) res" where
  "iclRead e ic req t icl =
     onCache icl (bindE (foldE (iclStep (cacheRead e ic) t) (splitRequest (logicalPageSize icl) req) (t, pCache icl))
       (\<lambda>(fin, c). Inr (below (addLatency e CpuICL_READ fin) c)))"

definition iclWrite :: "env \<Rightarrow> IclConfig \<Rightarrow> IclRequest \<Rightarrow> tick \<Rightarrow> ICL \<Rightarrow> (tick \<times> ICL) res" where
  "iclWrite e ic req t icl =
     onCache icl (bindE (foldE (iclStep (cacheWrite e ic) t) (splitRequest (logicalPageSize icl) req) (t, pCache icl))
       (\<lambda>(fin, c). Inr (below (addLatency e CpuICL_WRITE fin) c)))"

definition iclFlush :: "env \<Rightarrow> IclConfig \<Rightarrow> LPNRange \<Rightarrow> tick \<Rightarrow> ICL \<Rightarrow> (tick \<times> ICL) res" where
  "iclFlush e ic rng t icl =
     onCache icl (bindE (cacheFlush e ic rng t (pCache icl)) (\<lambda>(t1, c). Inr (below (addLatency e CpuICL_FLUSH t1) c)))"

definition iclTrim :: "env \<Rightarrow> IclConfig \<Rightarrow> LPNRange \<Rightarrow> tick \<Rightarrow> ICL \<Rightarrow> (tick \<times> ICL) res" where
  "iclTrim e ic rng t icl =
     onCache icl (bindE (cacheTrim e ic rng t (pCache icl)) (\<lambda>(t1, c). Inr (below (addLatency e CpuICL_TRIM t1) c)))"

definition iclFormat :: "env \<Rightarrow> IclConfig \<Rightarrow> LPNRange \<Rightarrow> tick \<Rightarrow> ICL \<Rightarrow> (tick \<times> ICL) res" where
  "iclFormat e ic rng t icl =
     onCache icl (bindE (cacheFormat e ic rng t (pCache icl)) (\<lambda>(t1, c). Inr (below (addLatency e CpuICL_FORMAT t1) c)))"

definition getLPNInfo :: "ICL \<Rightarrow> u64 \<times> nat" where
  "getLPNInfo icl = (totalLogicalPages icl, logicalPageSize icl)"

definition iclGetUsedPageCount :: "env \<Rightarrow> nat \<Rightarrow> nat \<Rightarrow> ICL \<Rightarrow> nat" where
  "iclGetUsedPageCount e lcaBegin lcaEnd icl =
     (let ratio = ioUnitInPage (param e)
      in FTL_getUsedPageCount e (lcaBegin div ratio) (lcaEnd div ratio) (pFTL (pCache icl)) * ratio mod 2 ^ 64)"

definition iclResetStatValues :: "ICL \<Rightarrow> ICL" where
  "iclResetStatValues icl =
     (let c = cacheResetStatValues (pCache icl) in icl\<lparr>pCache := c\<lparr>pFTL := resetStatValues (pFTL c)\<rparr>\<rparr>)"

section \<open>Splitting\<close>

lemma subRequests_slpn:
  "map ireq_slpn (subRequests lps req n i off rem) = map (\<lambda>k. ireq_slpn req + of_nat k) [i..<i + n]"
proof (induction n arbitrary: i off rem)
  case (Suc n)
  then show ?case using upt_conv_Cons [of i "i + Suc n"] by (simp add: Let_def)
qed simp

text \<open>The lengths, in natural numbers: all of the request, or as much as its pages hold.\<close>

lemma subRequests_length:
  assumes "unat off < lps" and "lps < 2 ^ 64"
  shows "sum_list (map (\<lambda>r. unat (ireq_length r)) (subRequests lps req n i off rem)) = min (unat rem) (n * lps - unat off)"
    and "\<forall>r\<in>set (subRequests lps req n i off rem). unat (ireq_offset r) + unat (ireq_length r) \<le> lps"
proof -
  have "sum_list (map (\<lambda>r. unat (ireq_length r)) (subRequests lps req n i off rem)) = min (unat rem) (n * lps - unat off) \<and>
    (\<forall>r\<in>set (subRequests lps req n i off rem). unat (ireq_offset r) + unat (ireq_length r) \<le> lps)"
    using assms(1)
  proof (induction n arbitrary: i off rem)
    case (Suc n)
    let ?len = "if rem > of_nat lps - off then of_nat lps - off else rem"
    have lp: "unat (of_nat lps :: u64) = lps" using assms(2) by (simp add: unsigned_of_nat take_bit_nat_eq_self)
    have room: "unat (of_nat lps - off) = lps - unat off"
      using Suc.prems lp by (subst unat_sub) (simp_all add: word_le_nat_alt)
    have len: "unat ?len = min (unat rem) (lps - unat off)" using room by (simp add: word_less_nat_alt min_def)
    have le: "?len \<le> rem" using len by (simp add: word_le_nat_alt)
    have rest: "unat (rem - ?len) = unat rem - unat ?len" by (rule unat_sub [OF le])
    have z: "unat (0 :: u64) < lps" using Suc.prems by simp
    have "min (unat rem) (lps - unat off) + min (unat rem - min (unat rem) (lps - unat off)) (n * lps) = min (unat rem) (Suc n * lps - unat off)"
      using Suc.prems by (auto simp: min_def)
    moreover have "unat off + min (unat rem) (lps - unat off) \<le> lps" using Suc.prems by simp
    ultimately show ?case using Suc.IH [OF z, of "Suc i" "rem - ?len"] len rest by (simp add: Let_def)
  qed simp
  then show "sum_list (map (\<lambda>r. unat (ireq_length r)) (subRequests lps req n i off rem)) = min (unat rem) (n * lps - unat off)"
    and "\<forall>r\<in>set (subRequests lps req n i off rem). unat (ireq_offset r) + unat (ireq_length r) \<le> lps" by blast+
qed


section \<open>Reads and writes of the layer\<close>

text \<open>The cache with the translation layer below it is a service for single-line writes and reads.\<close>

datatype cache_cmd = CacheRead IclRequest tick | CacheWrite IclRequest tick

fun cache_exec :: "env \<Rightarrow> IclConfig \<Rightarrow> cache_cmd \<Rightarrow> GenericCache \<Rightarrow> GenericCache res" where
  "cache_exec e ic (CacheRead req t) c = bindE (cacheRead e ic req t c) (\<lambda>(ret, t', c'). Inr c')"
| "cache_exec e ic (CacheWrite req t) c = bindE (cacheWrite e ic req t c) (\<lambda>(ret, t', c'). Inr c')"

fun cache_spec :: "env \<Rightarrow> cache_cmd \<Rightarrow> (u64 \<times> nat) set \<Rightarrow> (u64 \<times> nat) set" where
  "cache_spec e (CacheRead req t) U = U"
| "cache_spec e (CacheWrite req t) U = insert (unitOf e (ireq_slpn req)) U"

text \<open>Never more than the units of the filling and of the writes; the translation layer never loses one.\<close>

interpretation cache_service: service "cache_exec e ic" "\<lambda>U c. cache_inv e c \<and> idle c \<and> stored e c \<subseteq> U" "cache_spec e" for e ic
proof unfold_locales
  fix U c cmd assume a: "cache_inv e c \<and> idle c \<and> stored e c \<subseteq> U"
  show "okE (\<lambda>c'. cache_inv e c' \<and> idle c' \<and> stored e c' \<subseteq> cache_spec e cmd U) (cache_exec e ic cmd c)"
  proof (cases cmd)
    case (CacheRead req t)
    have "okE (\<lambda>c'. cache_inv e c' \<and> idle c' \<and> stored e c' \<subseteq> U) (bindE (cacheRead e ic req t c) (\<lambda>(ret, t', c'). Inr c'))"
      by (rule okE_bindI [OF cacheRead_ok [of e c ic req t]]) (use a in \<open>auto simp: read_from_def stored_def\<close>)
    then show ?thesis by (simp add: CacheRead)
  next
    case (CacheWrite req t)
    have "okE (\<lambda>c'. cache_inv e c' \<and> idle c' \<and> stored e c' \<subseteq> insert (unitOf e (ireq_slpn req)) U) (bindE (cacheWrite e ic req t c) (\<lambda>(ret, t', c'). Inr c'))"
      by (rule okE_bindI [OF cacheWrite_ok [of e c req ic t]]) (use a in \<open>auto simp: wrote_to_def\<close>)
    then show ?thesis by (simp add: CacheWrite)
  qed
qed

definition wrote_all :: "env \<Rightarrow> u64 set \<Rightarrow> GenericCache \<Rightarrow> GenericCache \<Rightarrow> bool" where
  "wrote_all e A c c' \<longleftrightarrow> cache_inv e c' \<and> idle c' \<and> shape c' = shape c \<and> stored e c' = stored e c \<union> unitOf e ` A \<and>
     live e (pFTL c) \<subseteq> live e (pFTL c')"

lemma writeSteps_ok:
  assumes "cache_inv e c" and "idle c"
  shows "okE (\<lambda>(fin', c'). wrote_all e (ireq_slpn ` set rs) c c') (foldE (iclStep (cacheWrite e ic) t) rs (fin, c))"
  using assms
proof (induction rs arbitrary: c fin)
  case Nil
  then show ?case by (simp add: wrote_all_def)
next
  case (Cons r rs)
  have "okE (\<lambda>st. wrote_to e (ireq_slpn r) c (snd st)) (iclStep (cacheWrite e ic) t r (fin, c))"
    unfolding iclStep_def snd_conv by (rule okE_bindI [OF cacheWrite_ok [OF Cons.prems]]) auto
  then show ?case
    unfolding foldE.simps
  proof (rule okE_bindI)
    fix st :: "tick \<times> GenericCache" assume w: "wrote_to e (ireq_slpn r) c (snd st)"
    then have i: "cache_inv e (snd st)" "idle (snd st)" by (simp_all add: wrote_to_def)
    have "okE (\<lambda>(fin', c'). wrote_all e (ireq_slpn ` set rs) (snd st) c') (foldE (iclStep (cacheWrite e ic) t) rs st)"
      using Cons.IH [OF i, of "fst st"] by simp
    then show "okE (\<lambda>(fin', c'). wrote_all e (ireq_slpn ` set (r # rs)) c c') (foldE (iclStep (cacheWrite e ic) t) rs st)"
      by (rule okE_mono) (use w in \<open>auto simp: wrote_all_def wrote_to_def\<close>)
  qed
qed

lemma readSteps_ok:
  assumes "read_from e {} c c1"
  shows "okE (\<lambda>(fin', c'). read_from e {} c c') (foldE (iclStep (cacheRead e ic) t) rs (fin, c1))"
proof (rule foldE_okE [of "\<lambda>(fin', c'). read_from e {} c c'"])
  fix r and st :: "tick \<times> GenericCache" assume "case st of (fin', c') \<Rightarrow> read_from e {} c c'"
  then have r: "read_from e {} c (snd st)" by (cases st) simp
  show "okE (\<lambda>(fin', c'). read_from e {} c c') (iclStep (cacheRead e ic) t r st)"
    unfolding iclStep_def
    by (rule okE_bindI [OF cacheRead_ok [OF read_fromD(1,2) [OF r]]]) (auto intro: read_from_trans [OF r])
qed (use assms in simp)

definition lcasOf :: "IclRequest \<Rightarrow> u64 set" where
  "lcasOf req = (\<lambda>i. ireq_slpn req + of_nat i) ` {0..<unat (nlp (ireq_range req))}"

lemma splitRequest_slpn: "ireq_slpn ` set (splitRequest lps req) = lcasOf req"
proof -
  have "ireq_slpn ` set (splitRequest lps req) = set (map ireq_slpn (splitRequest lps req))" by simp
  also have "\<dots> = lcasOf req" by (simp add: splitRequest_def subRequests_slpn lcasOf_def del: set_map) (simp add: image_def)
  finally show ?thesis .
qed

lemma iclWrite_ok:
  assumes "cache_inv e (pCache icl)" and "idle (pCache icl)"
  shows "okE (\<lambda>(t', icl'). wrote_all e (lcasOf req) (pCache icl) (pCache icl')) (iclWrite e ic req t icl)"
proof -
  let ?W = "\<lambda>c'. wrote_all e (lcasOf req) (pCache icl) c'"
  have b: "?W (snd (below g c))" if w: "?W c" and g: "idle_call g" for g c
  proof -
    have i: "cache_inv e c" "idle c" using w by (simp_all add: wrote_all_def)
    have "live e (pFTL (snd (below g c))) = live e (pFTL c)"
      using cache_invD(5) [OF i(1)] g by (auto simp: below_eq idle_call_def serves_def)
    then show ?thesis using w inv_below [OF i(1) g] idle_same [OF i(2)] by (simp add: wrote_all_def)
  qed
  have "okE (\<lambda>(fin, c). ?W c) (foldE (iclStep (cacheWrite e ic) t) (splitRequest (logicalPageSize icl) req) (t, pCache icl))"
    using writeSteps_ok [OF assms, where rs = "splitRequest (logicalPageSize icl) req"] by (simp add: splitRequest_slpn)
  then show ?thesis
    unfolding iclWrite_def onCache_def bindE_assoc by (rule okE_bindI) (auto simp: case_prod_unfold intro: b)
qed

lemma iclRead_ok:
  assumes "cache_inv e (pCache icl)" and "idle (pCache icl)"
  shows "okE (\<lambda>(t', icl'). read_from e {} (pCache icl) (pCache icl')) (iclRead e ic req t icl)"
proof -
  have "read_from e {} (pCache icl) (pCache icl)" using assms by (simp add: read_from_def)
  from readSteps_ok [OF this] show ?thesis
    unfolding iclRead_def onCache_def bindE_assoc by (rule okE_bindI) (auto simp: case_prod_unfold intro: read_from_below)
qed

section \<open>Construction\<close>

lemma GenericCache_new_fields:
  assumes "GenericCache_new e ic raw = Inr c" and "ic_readCaching ic \<or> ic_writeCaching ic"
  shows "parallelIO c = pageCountToMaxPerf (param e)"
    and "lineCountInSuperPage c = (if randomIOTweak (conf e) then ioUnitInPage (param e) else 1)"
    and "lineCountInMaxIO c = (if randomIOTweak (conf e) then wrap32 (pageCountToMaxPerf (param e) * ioUnitInPage (param e))
           else pageCountToMaxPerf (param e))"
    and "cacheData c = replicate (setSize c) (replicate (waySize c) Line_new)"
    and "evictData c = replicate (lineCountInSuperPage c) (replicate (parallelIO c) None)"
    and "pFTL c = pFTL raw"
    and "setSize c = (if wrap32 (ic_cacheWaySize ic) = 0 then 1
           else wrap32 (max (ic_cacheSize ic div lineSize c div wrap32 (ic_cacheWaySize ic)) 1))"
    and "waySize c = (if wrap32 (ic_cacheWaySize ic) = 0 then wrap32 (max (ic_cacheSize ic div lineSize c) 1)
           else wrap32 (ic_cacheWaySize ic))"
    and "useReadCaching c = ic_readCaching ic" and "useWriteCaching c = ic_writeCaching ic"
proof -
  have "useReadCaching (cacheLineSize e (cacheMembers e ic raw)) = ic_readCaching ic"
    "useWriteCaching (cacheLineSize e (cacheMembers e ic raw)) = ic_writeCaching ic"
    by (simp_all add: cacheLineSize_def cacheMembers_def Let_def)
  then have c: "c = (cacheArrays ic (cacheSets ic (cacheLineSize e (cacheMembers e ic raw))))\<lparr>stat_request := (0, 0), stat_cache := (0, 0)\<rparr>"
    using assms by (auto simp: GenericCache_new_def Let_def)
  define b where "b = cacheLineSize e (cacheMembers e ic raw)"
  have b: "parallelIO b = pageCountToMaxPerf (param e)" "lineCountInSuperPage b = (if randomIOTweak (conf e) then ioUnitInPage (param e) else 1)"
    "lineCountInMaxIO b = (if randomIOTweak (conf e) then wrap32 (pageCountToMaxPerf (param e) * ioUnitInPage (param e)) else pageCountToMaxPerf (param e))"
    "pFTL b = pFTL raw" "waySize b = wrap32 (ic_cacheWaySize ic)"
    "useReadCaching b = ic_readCaching ic" "useWriteCaching b = ic_writeCaching ic"
    by (simp_all add: b_def cacheLineSize_def cacheMembers_def Let_def)
  note c = c [folded b_def] and d = cacheArrays_def cacheSets_def Let_def b
  show "parallelIO c = pageCountToMaxPerf (param e)" by (simp add: c d)
  show "lineCountInSuperPage c = (if randomIOTweak (conf e) then ioUnitInPage (param e) else 1)" by (simp add: c d)
  show "lineCountInMaxIO c = (if randomIOTweak (conf e) then wrap32 (pageCountToMaxPerf (param e) * ioUnitInPage (param e))
      else pageCountToMaxPerf (param e))" by (simp add: c d)
  show "cacheData c = replicate (setSize c) (replicate (waySize c) Line_new)" by (simp add: c cacheArrays_def)
  show "evictData c = replicate (lineCountInSuperPage c) (replicate (parallelIO c) None)" by (simp add: c cacheArrays_def)
  show "pFTL c = pFTL raw" by (simp add: c d)
  show "setSize c = (if wrap32 (ic_cacheWaySize ic) = 0 then 1
      else wrap32 (max (ic_cacheSize ic div lineSize c div wrap32 (ic_cacheWaySize ic)) 1))" by (simp add: c d)
  show "waySize c = (if wrap32 (ic_cacheWaySize ic) = 0 then wrap32 (max (ic_cacheSize ic div lineSize c) 1)
      else wrap32 (ic_cacheWaySize ic))" by (simp add: c d)
  show "useReadCaching c = ic_readCaching ic" and "useWriteCaching c = ic_writeCaching ic" by (simp_all add: c d)
qed

lemma GenericCache_new_ok:
  assumes new: "GenericCache_new e ic raw = Inr c" and env: "env_ok e" and sv: "serves e L (pFTL raw)" and pk: "param_ok e"
    and on: "ic_readCaching ic \<or> ic_writeCaching ic" and sz: "ic_cacheSize ic < 2 ^ 32"
    and par: "0 < pageCountToMaxPerf (param e)" "pageCountToMaxPerf (param e) * ioUnitInPage (param e) < 2 ^ 32"
  shows "cache_inv e c" and "idle c" and "stored e c = L"
proof -
  let ?n = "ioUnitInPage (param e)" and ?par = "pageCountToMaxPerf (param e)"
  note F = GenericCache_new_fields [OF new on]
  have n: "0 < ?n" using pk by (simp add: param_ok_def)
  have k: "0 < wrap32 (max k 1)" if "k \<le> ic_cacheSize ic" for k using that sz by (simp add: max_def)
  have bs: "bitsetSize e = (if randomIOTweak (conf e) then ?n else 1)" by (simp add: bitsetSize_def bRandomTweak_def)
  have "1 * ?n \<le> ?par * ?n" using par(1) by (intro mult_le_mono1) simp
  from le_less_trans [OF this par(2)] have le: "?n < 2 ^ 64" by simp
  have "ic_cacheSize ic div a div b \<le> ic_cacheSize ic" for a b using div_le_dividend le_trans by blast
  then have "0 < setSize c" "0 < waySize c" using F(7,8) k by auto
  then have geom: "cache_geom e c"
    using F(1-5) n par le by (auto simp: cache_geom_def bs)
  have lines: "\<not> ln_valid (lineAt c p)" if "hasLine c p" for p
    using that by (simp add: lineAt_def F(4) hasLine_def Line_new_def)
  have none: "evictAt c rc = None" if "inGrid c rc" for rc
    using that by (simp add: evictAt_def F(5) inGrid_def)
  have "evict_ok c" by (rule evict_okI) (use none in simp)
  moreover have "sets_ok {} c" by (rule sets_okI) (use lines in simp)
  ultimately show "cache_inv e c" using env geom sv F(6) by (simp add: cache_invX_def serves_def)
  show "idle c" using none unfolding idle_def by blast
  have "dirtyUnits e c = {}" using lines by (auto simp: dirtyUnits_def)
  then show "stored e c = L" using sv F(6) by (simp add: stored_def serves_def)
qed

end
