(* ===== verification/IclProps.thy ===== *)
theory IclProps
  imports Icl FtlDemo
begin

text \<open>
  The properties of the cache layer, and a small device with a fully associative cache of one line on
  which they are applied.
\<close>

section \<open>A small device\<close>

definition demo_ic :: IclConfig where
  "demo_ic = \<lparr>ic_readCaching = True, ic_writeCaching = True, ic_readPrefetch = False, ic_prefetchCount = 1,
     ic_prefetchRatio = F32 (1 / 2), ic_prefetchMode = MODE_ALL, ic_evictMode = MODE_ALL,
     ic_evictPolicy = ICL_POLICY_LEAST_RECENTLY_USED, ic_cacheSize = 4096, ic_cacheWaySize = 0,
     ic_cacheLatency = 0, ic_coreICL = 1, ic_draw = (\<lambda>_. 0)\<rparr>"

text \<open>The memory in which the object is built; nothing below depends on its contents.\<close>

definition demo_raw :: "PageMapping \<Rightarrow> GenericCache" where
  "demo_raw s = \<lparr>superPageSize = 0, parallelIO = 0, lineCountInSuperPage = 0, lineCountInMaxIO = 0, lineSize = 0,
     setSize = 0, waySize = 0, prefetchIOCount = 0, prefetchIORatio = F32 0, useReadCaching = False,
     useWriteCaching = False, useReadPrefetch = False, bSuperPage = False, readDetect = SequentialDetect_new,
     prefetchTrigger = 0, lastPrefetched = 0, prefetchMode = MODE_ALL, evictMode = MODE_ALL,
     policy = ICL_POLICY_RANDOM, nDraws = 0, cacheData = [], evictData = [], stat_request = (0, 0),
     stat_cache = (0, 0), pFTL = s\<rparr>"

definition demo_io :: "u64 \<Rightarrow> u64 \<Rightarrow> IclRequest" where
  "demo_io lca len = \<lparr>ireq_reqID = 7, ireq_reqSubID = 0, ireq_offset = 0, ireq_length = len,
     ireq_range = \<lparr>slpn = lca, nlp = 1\<rparr>\<rparr>"

text \<open>
  A new device, on a translation layer before or after its initialisation, and a short write of
  address 0, which stays in the cache.
\<close>

definition pm_start :: "PageMapping res" where
  "pm_start = PageMapping_new demo_env 0"

definition ftl_start :: "PageMapping res" where
  "ftl_start = bindE (FTL_new demo_env demo_pal 0) (\<lambda>(e, s). Inr s)"

definition demo_icl :: "PageMapping res \<Rightarrow> ICL res" where
  "demo_icl m = bindE m (\<lambda>s. bindE (GenericCache_new demo_env demo_ic (demo_raw s)) (\<lambda>c.
     Inr \<lparr>totalLogicalPages = 4, logicalPageSize = 4096, pCache = c\<rparr>))"

definition demo_written :: "PageMapping res \<Rightarrow> ICL res" where
  "demo_written m = bindE (demo_icl m) (\<lambda>icl. bindE (iclWrite demo_env demo_ic (demo_io 0 100) 0 icl) (\<lambda>(t, icl'). Inr icl'))"

lemma starts:
  "pm_start = Inr s \<Longrightarrow> \<exists>L. serves demo_env L s"
  "ftl_start = Inr s \<Longrightarrow> \<exists>L. serves demo_env L s"
proof -
  assume "pm_start = Inr s"
  then show "\<exists>L. serves demo_env L s"
    using PageMapping_new_ok [OF demo_env_ok(1) demo_param_ok(1) small_pools_fit(1), of 0] by (auto simp: pm_start_def)
next
  assume "ftl_start = Inr s"
  then obtain e where "FTL_new demo_env demo_pal 0 = Inr (e, s)" by (auto simp: ftl_start_def)
  from demo_new_serves(2) [OF this] show "\<exists>L. serves demo_env L s" .
qed

lemma demo_cache_new:
  assumes "GenericCache_new demo_env demo_ic (demo_raw s) = Inr c" and "serves demo_env L s"
  shows "cache_inv demo_env c" and "idle c" and "stored demo_env c = L"
proof -
  have a: "ic_readCaching demo_ic \<or> ic_writeCaching demo_ic" "ic_cacheSize demo_ic < 2 ^ 32" by (simp_all add: demo_ic_def)
  have b: "0 < pageCountToMaxPerf (param demo_env)" "pageCountToMaxPerf (param demo_env) * ioUnitInPage (param demo_env) < 2 ^ 32"
    by (simp_all add: demo_param_def)
  have r: "serves demo_env L (pFTL (demo_raw s))" using assms(2) by (simp add: demo_raw_def)
  note n = GenericCache_new_ok [OF assms(1) demo_env_ok(1) r demo_param_ok(1) a b]
  show "cache_inv demo_env c" and "idle c" and "stored demo_env c = L" by (rule n)+
qed

lemma demo_icl_ok:
  assumes "demo_icl m = Inr icl" and "\<And>s. m = Inr s \<Longrightarrow> \<exists>L. serves demo_env L s"
  shows "cache_inv demo_env (pCache icl)" and "idle (pCache icl)" and "useWriteCaching (pCache icl)"
proof -
  obtain s where m: "m = Inr s" and c: "GenericCache_new demo_env demo_ic (demo_raw s) = Inr (pCache icl)"
    using assms(1) by (auto simp: demo_icl_def)
  obtain L where "serves demo_env L s" using assms(2) [OF m] by blast
  from demo_cache_new [OF c this] show "cache_inv demo_env (pCache icl)" and "idle (pCache icl)" by auto
  show "useWriteCaching (pCache icl)"
    using GenericCache_new_fields(10) [OF c] by (simp add: demo_ic_def)
qed

lemma demo_written_ok:
  assumes "demo_written m = Inr icl" and "\<And>s. m = Inr s \<Longrightarrow> \<exists>L. serves demo_env L s"
  shows "cache_inv demo_env (pCache icl)" and "idle (pCache icl)" and "unitOf demo_env 0 \<in> stored demo_env (pCache icl)"
    and "useReadCaching (pCache icl) \<or> useWriteCaching (pCache icl)"
proof -
  obtain icl0 t where i: "demo_icl m = Inr icl0" and w: "iclWrite demo_env demo_ic (demo_io 0 100) 0 icl0 = Inr (t, icl)"
    using assms(1) by (auto simp: demo_written_def)
  note d = demo_icl_ok [OF i assms(2)]
  have "wrote_all demo_env (lcasOf (demo_io 0 100)) (pCache icl0) (pCache icl)"
    using iclWrite_ok [OF d(1,2), of "demo_io 0 100" demo_ic 0] w by simp
  moreover have "0 \<in> lcasOf (demo_io 0 100)" by (auto simp: lcasOf_def demo_io_def image_iff)
  ultimately show "cache_inv demo_env (pCache icl)" and "idle (pCache icl)" and "unitOf demo_env 0 \<in> stored demo_env (pCache icl)"
    and "useReadCaching (pCache icl) \<or> useWriteCaching (pCache icl)"
    using d(3) by (auto simp: wrote_all_def shape_def)
qed

lemma demo_read_runs:
  "totE (\<lambda>icl. totE (\<lambda>(t, icl'). findMapping (pFTL (pCache icl')) 0 = None \<and> list_all (list_all (\<lambda>l. \<not> ln_dirty l)) (cacheData (pCache icl')))
     (iclRead demo_env demo_ic (demo_io 1 4096) 0 icl)) (demo_written pm_start)"
  by code_simp

lemma demo_trim_runs: "totE (\<lambda>icl. totE (\<lambda>_. True) (cacheTrim demo_env demo_ic \<lparr>slpn = 0, nlp = 4\<rparr> 0 (pCache icl))) (demo_written pm_start)"
  by code_simp

lemma demo_flush_runs: "totE (\<lambda>icl. totE (\<lambda>_. True) (cacheFlush demo_env demo_ic \<lparr>slpn = 0, nlp = 4\<rparr> 0 (pCache icl))) (demo_written ftl_start)"
  by code_simp

lemma demo_evict_runs:
  "totE (\<lambda>icl. totE (\<lambda>_. True) (evictCache demo_env 0 True (chooseVictims demo_ic (calcSetIndex (pCache icl) 5) (pCache icl)))) (demo_written ftl_start)"
  by code_simp

section \<open>Properties\<close>

text \<open>
  C18. Functional behaviour of a write. A write that returns stores exactly the units it stored before
  and those of its pages, in the translation layer or as a dirty line; evictions on the way only move
  units from the cache to the translation layer, which loses none; the invariant is kept.
\<close>

theorem icl_write_stores:
  assumes "cache_inv e (pCache icl)" and "idle (pCache icl)" and "iclWrite e ic req t icl = Inr (t', icl')"
  shows "cache_inv e (pCache icl') \<and> idle (pCache icl') \<and>
     stored e (pCache icl') = stored e (pCache icl) \<union> unitOf e ` lcasOf req \<and>
     live e (pFTL (pCache icl)) \<subseteq> live e (pFTL (pCache icl'))"
  using iclWrite_ok [OF assms(1,2), of req ic t] assms(3) by (simp add: wrote_all_def)

theorem icl_write_stores_witness:
  "\<exists>icl t' icl'. iclWrite demo_env demo_ic (demo_io 0 100) 0 icl = Inr (t', icl') \<and>
     stored demo_env (pCache icl') = stored demo_env (pCache icl) \<union> unitOf demo_env ` lcasOf (demo_io 0 100)"
proof -
  obtain icl0 t icl where i: "demo_icl pm_start = Inr icl0" and w: "iclWrite demo_env demo_ic (demo_io 0 100) 0 icl0 = Inr (t, icl)"
    using demo_read_runs by (auto simp: totE_iff demo_written_def)
  show ?thesis using icl_write_stores [OF demo_icl_ok(1,2) [OF i starts(1)] w] w by blast
qed

text \<open>
  C19. A flush that returns makes the range durable: every dirty line with an address in the range has
  been written to the translation layer, no such line is left in the cache, and no unit is lost.
\<close>

theorem flush_durable:
  assumes "cache_inv e c" and "idle c" and "useReadCaching c \<or> useWriteCaching c" and "cacheFlush e ic rng t c = Inr (t', c')"
  shows "stored e c \<subseteq> stored e c' \<and>
     (\<forall>p. hasLine c p \<longrightarrow> \<not> (ln_valid (lineAt c' p) \<and> inLines rng (lineAt c' p)) \<and>
        (inLines rng (lineAt c p) \<and> ln_dirty (lineAt c p) \<longrightarrow> unitOf e (ln_tag (lineAt c p)) \<in> live e (pFTL c')))"
proof -
  obtain r t1 fin c1 where l: "foldE (flushLine e ic rng) (linePtrs c) (FtlRequest_new (lineCountInSuperPage c), t, t, c) = Inr (r, t1, fin, c1)"
    and c': "c' = snd (below (addLatency e CpuCACHE_FLUSH (max t1 fin)) c1)"
    using assms(3,4) by (auto simp: cacheFlush_def)
  have f: "flushing e rng {p. hasLine c p} c r c1" using flushLoop_ok [OF assms(1,2), of rng ic t] l by simp
  note F = flushingD [OF f] and b = inv_below [OF flushingD(1) [OF f] idle_calls(3), of e CpuCACHE_FLUSH "max t1 fin", folded c']
  have sd: "same_data c1 c'" by (simp add: c')
  have lv: "live e (pFTL c') = live e (pFTL c1)"
    using cache_invD(5) [OF F(1)] idle_calls(3) [of e CpuCACHE_FLUSH "max t1 fin"] unfolding c' by (auto simp: below_eq idle_call_def serves_def)
  have "\<not> (ln_valid (lineAt c' p) \<and> inLines rng (lineAt c' p))" if "hasLine c p" for p
    using swept_all [OF F(2) that] same_dataD(2) [OF sd] by auto
  then show ?thesis using flushed_stored [OF f] b(2) F(5) lv by auto
qed

theorem flush_durable_witness:
  "\<exists>c t' c'. unitOf demo_env 0 \<in> stored demo_env c \<and> cacheFlush demo_env demo_ic \<lparr>slpn = 0, nlp = 4\<rparr> 0 c = Inr (t', c') \<and>
     unitOf demo_env 0 \<in> stored demo_env c'"
proof -
  obtain icl t' c' where w: "demo_written ftl_start = Inr icl" and f: "cacheFlush demo_env demo_ic \<lparr>slpn = 0, nlp = 4\<rparr> 0 (pCache icl) = Inr (t', c')"
    using demo_flush_runs by (auto simp: totE_iff)
  note i = demo_written_ok [OF w starts(2)]
  from flush_durable [OF i(1,2,4) f] show ?thesis using i(3) f by blast
qed

text \<open>
  C20. Safety of a write into a full set: when the eviction it starts returns, the set of the request
  has a line that is not valid. So the panic "Cache corrupted!" is reached at most when the time stamp
  of that line is the largest 64 bit number, which \<open>getEmptyWay\<close> overlooks.
\<close>

theorem eviction_makes_room:
  assumes "cache_inv e c" and "idle c" and "evictCache e t True (chooseVictims ic (calcSetIndex c lca) c) = Inr c'"
  shows "\<exists>w<waySize c. \<not> ln_valid (lineAt c' (calcSetIndex c lca, w))"
proof -
  have "calcSetIndex c lca < setSize c" using cache_invD(2) [OF assms(1)] by (simp add: cache_geom_def calcSetIndex_def)
  from eviction_room [OF assms(1,2) this assms(3)] show ?thesis .
qed

theorem eviction_makes_room_witness:
  "\<exists>c c'. evictCache demo_env 0 True (chooseVictims demo_ic (calcSetIndex c 5) c) = Inr c' \<and>
     (\<exists>w<waySize c. \<not> ln_valid (lineAt c' (calcSetIndex c 5, w)))"
proof -
  obtain icl c' where w: "demo_written ftl_start = Inr icl"
    and f: "evictCache demo_env 0 True (chooseVictims demo_ic (calcSetIndex (pCache icl) 5) (pCache icl)) = Inr c'"
    using demo_evict_runs by (auto simp: totE_iff)
  show ?thesis using eviction_makes_room [OF demo_written_ok(1,2) [OF w starts(2)] f] f by blast
qed

text \<open>
  C21. A read that returns leaves what the translation layer serves as it was, makes no unit dirty and
  keeps the invariant.
\<close>

theorem icl_read_keeps:
  assumes "cache_inv e (pCache icl)" and "idle (pCache icl)" and "iclRead e ic req t icl = Inr (t', icl')"
  shows "cache_inv e (pCache icl') \<and> idle (pCache icl') \<and> live e (pFTL (pCache icl')) = live e (pFTL (pCache icl)) \<and>
     dirtyUnits e (pCache icl') \<subseteq> dirtyUnits e (pCache icl)"
  using iclRead_ok [OF assms(1,2), of ic req t] assms(3) by (simp add: read_from_def)

theorem icl_read_keeps_witness:
  "\<exists>icl t' icl'. iclRead demo_env demo_ic (demo_io 1 4096) 0 icl = Inr (t', icl') \<and> cache_inv demo_env (pCache icl')"
proof -
  obtain icl t' icl' where w: "demo_written pm_start = Inr icl" and r: "iclRead demo_env demo_ic (demo_io 1 4096) 0 icl = Inr (t', icl')"
    using demo_read_runs by (auto simp: totE_iff)
  show ?thesis using icl_read_keeps [OF demo_written_ok(1,2) [OF w starts(1)] r] r by blast
qed

text \<open>
  C22. What a trim does: it removes from the translation layer exactly the pages of those lines of the
  cache, valid or not, whose tag is in the range. Pages of the range that are not in the cache stay
  mapped.
\<close>

theorem trim_exact:
  assumes "cache_inv e c" and "idle c" and "useReadCaching c \<or> useWriteCaching c" and "cacheTrim e ic rng t c = Inr (t', c')"
  shows "live e (pFTL c') = {(l, i) \<in> live e (pFTL c). l \<notin> trimmedPages e rng {p. hasLine c p} c}"
proof -
  obtain r t1 fin c1 where l: "foldE (trimLine e ic rng) (linePtrs c) (FtlRequest_new (lineCountInSuperPage c), t, t, c) = Inr (r, t1, fin, c1)"
    and c': "c' = snd (below (addLatency e CpuCACHE_TRIM (max t1 fin)) c1)"
    using assms(3,4) by (auto simp: cacheTrim_def)
  have f: "trimming e rng {p. hasLine c p} c c1"
    using trimLoop_ok [OF assms(1,2), of rng ic "FtlRequest_new (lineCountInSuperPage c)" t] l by simp
  then have i: "cache_inv e c1" by (simp add: trimming_def)
  have "live e (pFTL c') = live e (pFTL c1)"
    using cache_invD(5) [OF i] idle_calls(3) [of e CpuCACHE_TRIM "max t1 fin"] unfolding c' by (auto simp: below_eq idle_call_def serves_def)
  then show ?thesis using f by (simp add: trimming_def)
qed

theorem trim_exact_witness:
  "\<exists>c t' c'. cacheTrim demo_env demo_ic \<lparr>slpn = 0, nlp = 4\<rparr> 0 c = Inr (t', c') \<and>
     live demo_env (pFTL c') = {(l, i) \<in> live demo_env (pFTL c). l \<notin> trimmedPages demo_env \<lparr>slpn = 0, nlp = 4\<rparr> {p. hasLine c p} c}"
proof -
  obtain icl t' c' where w: "demo_written pm_start = Inr icl" and f: "cacheTrim demo_env demo_ic \<lparr>slpn = 0, nlp = 4\<rparr> 0 (pCache icl) = Inr (t', c')"
    using demo_trim_runs by (auto simp: totE_iff)
  note i = demo_written_ok [OF w starts(1)]
  show ?thesis using trim_exact [OF i(1,2,4) f] f by blast
qed


text \<open>
  C24. Bounds of the splitting: the lengths of the requests for single lines add up to the length of the
  request, or to what its pages hold, and none of them reaches beyond its page.
\<close>

theorem split_lengths:
  assumes "unat (ireq_offset req) < lps" and "lps < 2 ^ 64"
  shows "sum_list (map (\<lambda>r. unat (ireq_length r)) (splitRequest lps req)) =
       min (unat (ireq_length req)) (unat (nlp (ireq_range req)) * lps - unat (ireq_offset req)) \<and>
     (\<forall>r\<in>set (splitRequest lps req). unat (ireq_offset r) + unat (ireq_length r) \<le> lps)"
  unfolding splitRequest_def using subRequests_length [OF assms] by blast

theorem split_lengths_witness:
  "sum_list (map (\<lambda>r. unat (ireq_length r)) (splitRequest 4096 (demo_io 1 100))) = 100"
  using split_lengths [of "demo_io 1 100" 4096] by (simp add: demo_io_def)

end
