(* ===== verification/NvmeQueue.thy ===== *)
theory NvmeQueue
  imports Prelude
begin

text \<open>
  The queues through which the NVMe driver and the controller talk: the controller's side
  (\<open>hil/nvme/queue.cc\<close>), the driver's side (\<open>sil/nvme/queue.cc\<close>) and the part of the driver
  (\<open>sil/nvme/nvme.cc\<close>) that submits commands and collects completions. A queue is a ring in host
  memory with 16 bit positions; both sides keep their own head and tail. The memory of a queue is
  a function from the byte offset of an entry to the entry, and what the controller writes by DMA
  is applied to it when it is posted (the order of the posts; the timing of DMA is not part of this
  model).
  The completion ring works with a phase tag: the controller inverts it every time it wraps, and
  the driver takes an entry as new when its tag has the value it expects. What is shown is that this
  handshake loses nothing, duplicates nothing and keeps the order, for any interleaving of posts and
  polls without an overflow.
\<close>

section \<open>Positions in a ring\<close>

definition ringNext :: "u16 \<Rightarrow> u16 \<Rightarrow> u16" where
  "ringNext n i = (if i + 1 = n then 0 else i + 1)"

text \<open>The position a counter of all entries ever put into the ring stands for.\<close>

definition ringPos :: "u16 \<Rightarrow> nat \<Rightarrow> u16" where
  "ringPos n k = of_nat (k mod unat n)"

lemma u16_bound: "unat (n::u16) < 2 ^ 16"
  using unsigned_less [of n] by simp

lemma unat_ringPos:
  assumes "n \<noteq> 0"
  shows "unat (ringPos n k) = k mod unat n"
proof -
  have "k mod unat n < unat n" using assms by (simp add: unat_gt_0)
  then have "k mod unat n < 2 ^ 16" using u16_bound [of n] by simp
  then show ?thesis by (simp add: ringPos_def unat_of_nat)
qed

lemma ringPos_wrap:
  assumes "n \<noteq> 0"
  shows "ringPos n k + 1 = n \<longleftrightarrow> Suc k mod unat n = 0"
    and "Suc k mod unat n \<noteq> 0 \<Longrightarrow> ringPos n k + 1 = ringPos n (Suc k)"
proof -
  have lt: "k mod unat n < unat n" using assms by (simp add: unat_gt_0)
  have "unat (ringPos n k + 1) = Suc (k mod unat n) mod 2 ^ 16"
    using unat_ringPos [OF assms, of k] by (simp add: unat_word_ariths)
  then have s: "unat (ringPos n k + 1) = Suc (k mod unat n)" using lt u16_bound [of n] by simp
  show "ringPos n k + 1 = n \<longleftrightarrow> Suc k mod unat n = 0"
    unfolding word_unat_eq_iff [of _ n] s by (simp add: mod_Suc)
  show "ringPos n k + 1 = ringPos n (Suc k)" if "Suc k mod unat n \<noteq> 0"
    unfolding word_unat_eq_iff [of "ringPos n k + 1"] s unat_ringPos [OF assms] using that by (simp add: mod_Suc split: if_splits)
qed

lemma ringNext_ringPos: "n \<noteq> 0 \<Longrightarrow> ringNext n (ringPos n k) = ringPos n (Suc k)"
  using ringPos_wrap [of n k] by (auto simp: ringNext_def ringPos_def)

lemma ringPos_zero: "n \<noteq> 0 \<Longrightarrow> ringPos n k = 0 \<longleftrightarrow> k mod unat n = 0"
  using unat_ringPos [of n k] by (metis unat_eq_zero)

lemma mod_eq_near: "c \<le> p \<Longrightarrow> p < c + n \<Longrightarrow> p mod n = c mod n \<longleftrightarrow> p = (c::nat)"
  using mod_eq_dvd_iff_nat [of c p n] nat_dvd_not_less [of "p - c" n] by fastforce

lemma ringPos_eq: "n \<noteq> 0 \<Longrightarrow> c \<le> p \<Longrightarrow> p < c + unat n \<Longrightarrow> ringPos n p = ringPos n c \<longleftrightarrow> p = c"
  by (metis mod_eq_near unat_ringPos)

section \<open>The controller's side\<close>

record CQEntry =
  cqe_dword0 :: u32
  cqe_reserved :: u32
  cqe_sqHead :: u16
  cqe_sqID :: u16
  cqe_commandID :: u16
  cqe_status :: u16

definition CQEntry_new :: CQEntry where
  "CQEntry_new = \<lparr>cqe_dword0 = 0, cqe_reserved = 0, cqe_sqHead = 0, cqe_sqID = 0, cqe_commandID = 0, cqe_status = 0\<rparr>"

text \<open>\<open>CQEntryWrapper::makeStatus\<close>; the shifts are done on \<open>int\<close> and cut to 16 bits.\<close>

definition makeStatus :: "bool \<Rightarrow> bool \<Rightarrow> nat \<Rightarrow> nat \<Rightarrow> u16" where
  "makeStatus dnr mor sct sc =
     push_bit 15 (if dnr then 1 else 0) OR push_bit 14 (if mor then 1 else 0) OR
     push_bit 9 (of_nat sct AND 0x07) OR push_bit 1 (of_nat sc AND 0xFF)"

record NQueue =
  nq_id :: u16
  nq_head :: u16
  nq_tail :: u16
  nq_size :: u16
  nq_stride :: u64

definition getItemCount :: "'a NQueue_scheme \<Rightarrow> u16" where
  "getItemCount q =
     (if nq_head q \<le> nq_tail q then nq_tail q - nq_head q else (nq_size q - nq_head q) + nq_tail q)"

definition setBase :: "u64 \<Rightarrow> 'a NQueue_scheme \<Rightarrow> 'a NQueue_scheme" where
  "setBase stride q = q\<lparr>nq_stride := stride\<rparr>"

record CQueue = NQueue +
  cq_ien :: bool
  cq_phase :: bool
  cq_interruptVector :: u16

record SQueue = NQueue +
  sq_cqID :: u16
  sq_priority :: u8

definition CQueue_new :: "u16 \<Rightarrow> bool \<Rightarrow> u16 \<Rightarrow> u16 \<Rightarrow> CQueue" where
  "CQueue_new iv en qid sz = \<lparr>nq_id = qid, nq_head = 0, nq_tail = 0, nq_size = sz, nq_stride = 0,
     cq_ien = en, cq_phase = True, cq_interruptVector = iv\<rparr>"

definition SQueue_new :: "u16 \<Rightarrow> u8 \<Rightarrow> u16 \<Rightarrow> u16 \<Rightarrow> SQueue" where
  "SQueue_new cqid pri qid sz = \<lparr>nq_id = qid, nq_head = 0, nq_tail = 0, nq_size = sz, nq_stride = 0,
     sq_cqID = cqid, sq_priority = pri\<rparr>"

text \<open>The phase tag of an entry is bit 0 of its status.\<close>

definition setPhase :: "bool \<Rightarrow> CQEntry \<Rightarrow> CQEntry" where
  "setPhase ph x = x\<lparr>cqe_status := (cqe_status x AND 0xFFFE) OR (if ph then 1 else 0)\<rparr>"

text \<open>
  \<open>CQueue::setData\<close> gives the DMA write it issues (offset and entry, 16 bytes) and the queue
  afterwards; the check for an overflow is the last thing it does.
\<close>

definition CQueue_setData :: "CQEntry \<Rightarrow> CQueue \<Rightarrow> ((u64 \<times> CQEntry) \<times> CQueue) res" where
  "CQueue_setData x q =
     (let dma = (ucast (nq_tail q) * nq_stride q, setPhase (cq_phase q) x);
          q1 = q\<lparr>nq_tail := nq_tail q + 1\<rparr>;
          q2 = (if nq_tail q1 = nq_size q1 then q1\<lparr>nq_tail := 0, cq_phase := \<not> cq_phase q1\<rparr> else q1)
      in guardE (nq_head q2 \<noteq> nq_tail q2) (Panic ''Completion queue overflow'') (Inr (dma, q2)))"

definition CQueue_incHead :: "CQueue \<Rightarrow> u16 \<times> CQueue" where
  "CQueue_incHead q =
     (let q1 = q\<lparr>nq_head := nq_head q + 1\<rparr>;
          q2 = (if nq_head q1 = nq_size q1 then q1\<lparr>nq_head := 0\<rparr> else q1)
      in (nq_head q2, q2))"

definition CQueue_setHead :: "u16 \<Rightarrow> CQueue \<Rightarrow> CQueue" where
  "CQueue_setHead newHead q = q\<lparr>nq_head := newHead\<rparr>"

definition SQueue_setTail :: "u16 \<Rightarrow> SQueue \<Rightarrow> SQueue" where
  "SQueue_setTail newTail q = q\<lparr>nq_tail := newTail\<rparr>"

text \<open>\<open>SQueue::getData\<close> gives the offset of the DMA read it issues, if any.\<close>

definition SQueue_getData :: "SQueue \<Rightarrow> u64 option \<times> SQueue" where
  "SQueue_getData q =
     (if nq_head q \<noteq> nq_tail q
      then (let q1 = q\<lparr>nq_head := nq_head q + 1\<rparr>
            in (Some (ucast (nq_head q) * nq_stride q),
                if nq_head q1 = nq_size q1 then q1\<lparr>nq_head := 0\<rparr> else q1))
      else (None, q))"

section \<open>The driver's side\<close>

record 'e HostQueue =
  hq_memory :: "u64 \<Rightarrow> 'e"
  hq_stride :: u16
  hq_entries :: u16
  hq_head :: u16
  hq_tail :: u16

definition HostQueue_new :: "'e \<Rightarrow> u16 \<Rightarrow> u16 \<Rightarrow> 'e HostQueue" where
  "HostQueue_new zero n s = \<lparr>hq_memory = (\<lambda>_. zero), hq_stride = s, hq_entries = n, hq_head = 0, hq_tail = 0\<rparr>"

definition hostOffset :: "'e HostQueue \<Rightarrow> u16 \<Rightarrow> u64" where
  "hostOffset h i = ucast i * ucast (hq_stride h)"

definition peekData :: "'e HostQueue \<Rightarrow> 'e" where
  "peekData h = hq_memory h (hostOffset h (hq_head h))"

definition incrHead :: "'e HostQueue \<Rightarrow> 'e HostQueue" where
  "incrHead h = (let h1 = h\<lparr>hq_head := hq_head h + 1\<rparr> in if hq_head h1 = hq_entries h1 then h1\<lparr>hq_head := 0\<rparr> else h1)"

definition incrTail :: "'e HostQueue \<Rightarrow> 'e HostQueue" where
  "incrTail h = (let h1 = h\<lparr>hq_tail := hq_tail h + 1\<rparr> in if hq_tail h1 = hq_entries h1 then h1\<lparr>hq_tail := 0\<rparr> else h1)"

definition HostQueue_getData :: "'e HostQueue \<Rightarrow> 'e \<times> 'e HostQueue" where
  "HostQueue_getData h = (peekData h, incrHead h)"

definition HostQueue_setData :: "'e \<Rightarrow> 'e HostQueue \<Rightarrow> 'e HostQueue" where
  "HostQueue_setData x h = incrTail (h\<lparr>hq_memory := (hq_memory h)(hostOffset h (hq_tail h) := x)\<rparr>)"

lemma ring_steps [simp]:
  "incrHead h = h\<lparr>hq_head := ringNext (hq_entries h) (hq_head h)\<rparr>"
  "incrTail h = h\<lparr>hq_tail := ringNext (hq_entries h) (hq_tail h)\<rparr>"
  "CQueue_incHead q = (ringNext (nq_size q) (nq_head q), q\<lparr>nq_head := ringNext (nq_size q) (nq_head q)\<rparr>)"
  by (simp_all add: incrHead_def incrTail_def CQueue_incHead_def ringNext_def Let_def)

lemma CQueue_setData_eq:
  "CQueue_setData x q =
     (let t = ringNext (nq_size q) (nq_tail q)
      in guardE (nq_head q \<noteq> t) (Panic ''Completion queue overflow'')
           (Inr ((ucast (nq_tail q) * nq_stride q, setPhase (cq_phase q) x),
                 q\<lparr>nq_tail := t, cq_phase := (if nq_tail q + 1 = nq_size q then \<not> cq_phase q else cq_phase q)\<rparr>)))"
  by (simp add: CQueue_setData_def ringNext_def Let_def)

lemma SQueue_getData_eq:
  "SQueue_getData q = (if nq_head q = nq_tail q then (None, q)
     else (Some (ucast (nq_head q) * nq_stride q), q\<lparr>nq_head := ringNext (nq_size q) (nq_head q)\<rparr>))"
  by (simp add: SQueue_getData_def ringNext_def Let_def)

section \<open>The driver\<close>

record SQEntry =
  sqe_opcode :: u8
  sqe_fuse :: u8
  sqe_commandID :: u16
  sqe_namespaceID :: u32
  sqe_reserved1 :: u32
  sqe_reserved2 :: u32
  sqe_metadata :: u64
  sqe_data1 :: u64
  sqe_data2 :: u64
  sqe_dword10 :: u32
  sqe_dword11 :: u32
  sqe_dword12 :: u32
  sqe_dword13 :: u32
  sqe_dword14 :: u32
  sqe_dword15 :: u32

definition SQEntry_new :: SQEntry where
  "SQEntry_new = \<lparr>sqe_opcode = 0, sqe_fuse = 0, sqe_commandID = 0, sqe_namespaceID = 0, sqe_reserved1 = 0,
     sqe_reserved2 = 0, sqe_metadata = 0, sqe_data1 = 0, sqe_data2 = 0, sqe_dword10 = 0, sqe_dword11 = 0, sqe_dword12 = 0,
     sqe_dword13 = 0, sqe_dword14 = 0, sqe_dword15 = 0\<rparr>"

text \<open>A pending command; \<open>ce_callback\<close> stands for the callback with its context.\<close>

record 'c CommandEntry =
  ce_iv :: u16
  ce_opcode :: u16
  ce_cid :: u16
  ce_callback :: 'c

record 'c NvmeDriver =
  drv_adminCommandID :: u16
  drv_ioCommandID :: u16
  drv_phase :: bool
  drv_adminSQ :: "SQEntry HostQueue option"
  drv_adminCQ :: "CQEntry HostQueue option"
  drv_ioSQ :: "SQEntry HostQueue option"
  drv_ioCQ :: "CQEntry HostQueue option"
  drv_pending :: "'c CommandEntry list"

definition increaseCommandID :: "u16 \<Rightarrow> u16" where
  "increaseCommandID i = (if i + 1 > 32767 then 1 else i + 1)"

text \<open>
  \<open>Driver::submitCommand\<close> gives the tail it rings the doorbell of the controller with. The head of
  the driver's queue follows at once: nothing is known of what the controller has fetched.
\<close>

definition pushCommand :: "SQEntry \<Rightarrow> SQEntry HostQueue \<Rightarrow> u16 \<times> SQEntry HostQueue" where
  "pushCommand cmd h = (let h1 = HostQueue_setData cmd h in (hq_tail h1, incrHead h1))"

definition submitCommand :: "u16 \<Rightarrow> SQEntry \<Rightarrow> 'c \<Rightarrow> 'c NvmeDriver \<Rightarrow> (u16 \<times> 'c NvmeDriver) res" where
  "submitCommand iv cmd cb d =
     (if iv = 0
      then (case drv_adminSQ d of
              None \<Rightarrow> Inl (UB ''null pointer'')
            | Some h \<Rightarrow>
                (let cid = increaseCommandID (drv_adminCommandID d);
                     (tail, h1) = pushCommand (cmd\<lparr>sqe_commandID := cid\<rparr>) h
                 in Inr (tail, d\<lparr>drv_adminCommandID := cid, drv_adminSQ := Some h1,
                      drv_pending := drv_pending d @ [\<lparr>ce_iv = iv, ce_opcode = ucast (sqe_opcode cmd), ce_cid = cid, ce_callback = cb\<rparr>]\<rparr>)))
      else (case if iv = 1 then drv_ioSQ d else None of
              None \<Rightarrow> Inl (Panic ''I/O Submission Queue is not initialized'')
            | Some h \<Rightarrow>
                (let cid = increaseCommandID (drv_ioCommandID d);
                     (tail, h1) = pushCommand (cmd\<lparr>sqe_commandID := cid\<rparr>) h
                 in Inr (tail, d\<lparr>drv_ioCommandID := cid, drv_ioSQ := Some h1,
                      drv_pending := drv_pending d @ [\<lparr>ce_iv = iv, ce_opcode = ucast (sqe_opcode cmd), ce_cid = cid, ce_callback = cb\<rparr>]\<rparr>))))"

text \<open>
  \<open>Driver::updateInterrupt\<close>: the loop over new completions. Every iteration consumes one entry; the
  calls of the callbacks are recorded with what they are given (status without the phase tag,
  first double word). The loop is given \<open>2 ^ 17\<close> iterations, twice as many as a ring has entries.
\<close>

type_synonym 'c call = "'c CommandEntry \<times> u16 \<times> u32"

fun takeCommand :: "u16 \<Rightarrow> u16 \<Rightarrow> 'c CommandEntry list \<Rightarrow> ('c CommandEntry \<times> 'c CommandEntry list) option" where
  "takeCommand iv cid [] = None"
| "takeCommand iv cid (c # cs) =
     (if ce_iv c = iv \<and> ce_cid c = cid then Some (c, cs)
      else map_option (\<lambda>(x, r). (x, c # r)) (takeCommand iv cid cs))"

record 'c poll =
  pl_queue :: "CQEntry HostQueue"
  pl_phase :: bool
  pl_pending :: "'c CommandEntry list"
  pl_calls :: "'c call list"

definition isNew :: "bool \<Rightarrow> CQEntry \<Rightarrow> bool" where
  "isNew ph x \<longleftrightarrow> odd (cqe_status x) = ph"

fun pollCQ :: "nat \<Rightarrow> u16 \<Rightarrow> 'c poll \<Rightarrow> 'c poll res" where
  "pollCQ 0 iv s = Inl Diverge"
| "pollCQ (Suc n) iv s =
     (let x = peekData (pl_queue s)
      in if isNew (pl_phase s) x
         then (case takeCommand iv (cqe_commandID x) (pl_pending s) of
                 None \<Rightarrow> Inl (Panic ''Invalid interrupt'')
               | Some (c, pend) \<Rightarrow>
                   (let q = incrHead (incrTail (pl_queue s))
                    in pollCQ n iv (s\<lparr>pl_queue := q, pl_pending := pend,
                         pl_phase := (if hq_head q = 0 then \<not> pl_phase s else pl_phase s),
                         pl_calls := pl_calls s @ [(c, drop_bit 1 (cqe_status x), cqe_dword0 x)]\<rparr>)))
         else Inr s)"

definition driverCQ :: "u16 \<Rightarrow> 'c NvmeDriver \<Rightarrow> CQEntry HostQueue res" where
  "driverCQ iv d =
     (if iv = 0 then (case drv_adminCQ d of None \<Rightarrow> Inl (UB ''null pointer'') | Some h \<Rightarrow> Inr h)
      else (case if iv = 1 then drv_ioCQ d else None of
              None \<Rightarrow> Inl (Panic ''I/O Completion Queue is not initialized'') | Some h \<Rightarrow> Inr h))"

definition setDriverCQ :: "u16 \<Rightarrow> CQEntry HostQueue \<Rightarrow> 'c NvmeDriver \<Rightarrow> 'c NvmeDriver" where
  "setDriverCQ iv h d = (if iv = 0 then d\<lparr>drv_adminCQ := Some h\<rparr> else d\<lparr>drv_ioCQ := Some h\<rparr>)"

definition updateInterrupt :: "u16 \<Rightarrow> bool \<Rightarrow> 'c NvmeDriver \<Rightarrow> ('c call list \<times> u16 option \<times> 'c NvmeDriver) res" where
  "updateInterrupt iv post d =
     (if post
      then bindE (driverCQ iv d) (\<lambda>h.
           bindE (pollCQ (2 ^ 17) iv \<lparr>pl_queue = h, pl_phase = drv_phase d, pl_pending = drv_pending d, pl_calls = []\<rparr>) (\<lambda>s.
             Inr (pl_calls s, if pl_calls s = [] then None else Some (hq_head (pl_queue s)),
               (setDriverCQ iv (pl_queue s) d)\<lparr>drv_phase := pl_phase s, drv_pending := pl_pending s\<rparr>)))
      else Inr ([], None, d))"

section \<open>The completion handshake\<close>

text \<open>
  \<open>xs\<close> are all entries posted so far. The memory of the ring holds the last of them, each with the
  phase of the lap in which it was written; slots that were never written have the tag 0.
\<close>

definition lapPhase :: "u16 \<Rightarrow> nat \<Rightarrow> bool" where
  "lapPhase n k = even (k div unat n)"

definition slotAt :: "u16 \<Rightarrow> u16 \<Rightarrow> nat \<Rightarrow> u64" where
  "slotAt n st k = ucast (ringPos n k) * ucast st"

definition ring_mem :: "u16 \<Rightarrow> u16 \<Rightarrow> CQEntry list \<Rightarrow> (u64 \<Rightarrow> CQEntry) \<Rightarrow> bool" where
  "ring_mem n st xs m \<longleftrightarrow>
     (\<forall>i<length xs. length xs \<le> i + unat n \<longrightarrow> m (slotAt n st i) = setPhase (lapPhase n i) (xs ! i)) \<and>
     (\<forall>i<unat n. length xs \<le> i \<longrightarrow> \<not> odd (cqe_status (m (slotAt n st i))))"

lemma slotAt_inj:
  assumes "n \<noteq> 0" and "st \<noteq> 0"
  shows "slotAt n st i = slotAt n st j \<longleftrightarrow> i mod unat n = j mod unat n"
proof -
  have u: "unat (slotAt n st k) = (k mod unat n) * unat st" for k
  proof -
    have "k mod unat n < 2 ^ 16" 
      using mod_less_divisor [of "unat n" k] assms(1) u16_bound [of n] unat_gt_0 [of n] by linarith
    then have "(k mod unat n) * unat st < 2 ^ 32"
      using mult_le_mono [of "k mod unat n" "2 ^ 16 - 1" "unat st" "2 ^ 16 - 1"] u16_bound [of st] by simp
    moreover have "take_bit 64 (k mod unat n) = k mod unat n" "take_bit 64 (unat st) = unat st"
      using \<open>k mod unat n < 2 ^ 16\<close> u16_bound [of st] by (simp_all add: take_bit_nat_eq_self)
    ultimately show ?thesis by (simp add: slotAt_def unat_word_ariths unat_ringPos [OF assms(1)] unsigned_ucast_eq)
  qed
  show ?thesis unfolding word_unat_eq_iff [of "slotAt n st i"] u using assms(2) unat_gt_0 [of st] by simp
qed

lemma even_setPhase [simp]: "even (cqe_status (setPhase ph x)) = (\<not> ph)"
  by (simp add: setPhase_def even_or_iff even_and_iff)

lemma drop_phase: "drop_bit 1 ((w AND 0xFFFE) OR (if ph then 1 else 0)) = drop_bit 1 (w :: u16)"
proof (rule bit_eqI)
  fix k
  have m: "(0xFFFE :: u16) = NOT 1" by simp
  have "bit (w AND NOT 1) (Suc k) = bit w (Suc k)"
    by (simp only: bit_and_iff bit_not_iff bit_1_iff) (auto dest: bit_imp_possible_bit)
  moreover have "\<not> bit (if ph then 1 else 0 :: u16) (Suc k)" by (simp add: bit_1_iff)
  ultimately show "bit (drop_bit 1 ((w AND 0xFFFE) OR (if ph then 1 else 0))) k = bit (drop_bit 1 w) k"
    unfolding m by (simp only: bit_drop_bit_eq bit_or_iff comp_def plus_1_eq_Suc) simp
qed

lemma setPhase_fields [simp]:
  "cqe_commandID (setPhase ph x) = cqe_commandID x" "cqe_dword0 (setPhase ph x) = cqe_dword0 x"
  "cqe_sqHead (setPhase ph x) = cqe_sqHead x" "cqe_sqID (setPhase ph x) = cqe_sqID x"
  "drop_bit 1 (cqe_status (setPhase ph x)) = drop_bit 1 (cqe_status x)"
  using drop_phase by (simp_all add: setPhase_def)

lemma lapPhase_add: "n \<noteq> 0 \<Longrightarrow> lapPhase n (i + unat n) = (\<not> lapPhase n i)"
  by (simp add: lapPhase_def unat_gt_0)

lemma lapPhase_Suc: "lapPhase n (Suc k) = (if Suc k mod unat n = 0 then \<not> lapPhase n k else lapPhase n k)"
  by (simp add: lapPhase_def div_Suc)

lemma ring_mem_post:
  assumes "n \<noteq> 0" and "st \<noteq> 0" and "ring_mem n st xs m"
  shows "ring_mem n st (xs @ [x]) (m(slotAt n st (length xs) := setPhase (lapPhase n (length xs)) x))"
  unfolding ring_mem_def
proof (intro conjI allI impI)
  fix i
  let ?m = "m(slotAt n st (length xs) := setPhase (lapPhase n (length xs)) x)"
  show "?m (slotAt n st i) = setPhase (lapPhase n i) ((xs @ [x]) ! i)"
    if "i < length (xs @ [x])" and "length (xs @ [x]) \<le> i + unat n"
  proof (cases "i = length xs")
    case False
    then have "slotAt n st i \<noteq> slotAt n st (length xs)"
      using slotAt_inj [OF assms(1,2)] mod_eq_near [of i "length xs" "unat n"] that by auto
    then show ?thesis using assms(3) that False by (simp add: ring_mem_def nth_append)
  qed simp
  show "\<not> odd (cqe_status (?m (slotAt n st i)))" if "i < unat n" and "length (xs @ [x]) \<le> i"
  proof -
    have "slotAt n st i \<noteq> slotAt n st (length xs)" using slotAt_inj [OF assms(1,2)] that by simp
    then show ?thesis using assms(3) that by (simp add: ring_mem_def)
  qed
qed

text \<open>The driver sees a new entry exactly when there is one, and then it is the oldest.\<close>

lemma poll_slot:
  assumes n: "n \<noteq> 0" and st: "st \<noteq> 0" and m: "ring_mem n st xs m" and c: "c \<le> length xs" "length xs \<le> c + unat n"
  shows "isNew (lapPhase n c) (m (slotAt n st c)) \<longleftrightarrow> c < length xs"
    and "c < length xs \<Longrightarrow> m (slotAt n st c) = setPhase (lapPhase n c) (xs ! c)"
proof -
  show e: "m (slotAt n st c) = setPhase (lapPhase n c) (xs ! c)" if "c < length xs"
    using m c that by (simp add: ring_mem_def)
  show "isNew (lapPhase n c) (m (slotAt n st c)) \<longleftrightarrow> c < length xs"
  proof (cases "c < length xs")
    case False
    then have l: "length xs = c" using c(1) by simp
    show ?thesis
    proof (cases "unat n \<le> c")
      case True
      then have "slotAt n st c = slotAt n st (c - unat n)" using slotAt_inj [OF n st] by (simp add: le_mod_geq)
      moreover have "c - unat n < c" using True n unat_gt_0 [of n] by linarith
      then have "m (slotAt n st (c - unat n)) = setPhase (lapPhase n (c - unat n)) (xs ! (c - unat n))"
        using m l True by (simp add: ring_mem_def)
      moreover have "lapPhase n c = (\<not> lapPhase n (c - unat n))" using lapPhase_add [OF n, of "c - unat n"] True by simp
      ultimately show ?thesis using l by (simp add: isNew_def)
    next
      case False
      then show ?thesis using m l by (simp add: ring_mem_def isNew_def lapPhase_def)
    qed
  qed (simp add: e isNew_def)
qed

fun takeAll :: "u16 \<Rightarrow> u16 list \<Rightarrow> 'c CommandEntry list \<Rightarrow> ('c CommandEntry list \<times> 'c CommandEntry list) option" where
  "takeAll iv [] pend = Some ([], pend)"
| "takeAll iv (cid # cids) pend =
     (case takeCommand iv cid pend of
        None \<Rightarrow> None
      | Some (c, r) \<Rightarrow> map_option (\<lambda>(cs, r'). (c # cs, r')) (takeAll iv cids r))"

definition callsOf :: "'c CommandEntry list \<Rightarrow> CQEntry list \<Rightarrow> 'c call list" where
  "callsOf cs xs = map2 (\<lambda>c x. (c, drop_bit 1 (cqe_status x), cqe_dword0 x)) cs xs"

lemma pollCQ_run:
  fixes pend :: "'c CommandEntry list"
  assumes n: "n \<noteq> 0" and st: "st \<noteq> 0" and m: "ring_mem n st xs (hq_memory h)" and h: "hq_entries h = n" "hq_stride h = st"
    and "c \<le> length xs" and "length xs \<le> c + unat n" and "hq_head h = ringPos n c" and "length xs - c < fuel"
  shows "pollCQ fuel iv \<lparr>pl_queue = h, pl_phase = lapPhase n c, pl_pending = pend, pl_calls = calls\<rparr> =
     (case takeAll iv (map cqe_commandID (drop c xs)) pend of
        None \<Rightarrow> Inl (Panic ''Invalid interrupt'')
      | Some (cs, rest) \<Rightarrow>
          Inr \<lparr>pl_queue = h\<lparr>hq_head := ringPos n (length xs), hq_tail := (ringNext n ^^ (length xs - c)) (hq_tail h)\<rparr>,
               pl_phase = lapPhase n (length xs), pl_pending = rest, pl_calls = calls @ callsOf cs (drop c xs)\<rparr>)"
  using assms(3-9)
proof (induction fuel arbitrary: c h pend calls)
  case (Suc fuel)
  have slot: "peekData h = hq_memory h (slotAt n st c)"
    using Suc.prems by (simp add: peekData_def hostOffset_def slotAt_def)
  note P = poll_slot [OF n st Suc.prems(1,4,5)]
  show ?case
  proof (cases "c < length xs")
    case False
    then have "length xs = c" using Suc.prems(4) by simp
    moreover have "h\<lparr>hq_head := ringPos n c, hq_tail := hq_tail h\<rparr> = h" using Suc.prems(6) by simp
    ultimately show ?thesis using P(1) by (simp add: slot callsOf_def)
  next
    case True
    let ?h = "h\<lparr>hq_head := ringPos n (Suc c), hq_tail := ringNext n (hq_tail h)\<rparr>"
    have q: "incrHead (incrTail h) = ?h" using Suc.prems(2,6) ringNext_ringPos [OF n] by simp
    have ph: "(if hq_head ?h = 0 then \<not> lapPhase n c else lapPhase n c) = lapPhase n (Suc c)"
      by (simp add: lapPhase_Suc ringPos_zero [OF n])
    have d: "drop c xs = xs ! c # drop (Suc c) xs" using True by (simp add: Cons_nth_drop_Suc)
    have IH: "pollCQ fuel iv \<lparr>pl_queue = ?h, pl_phase = lapPhase n (Suc c), pl_pending = pe, pl_calls = ca\<rparr> =
       (case takeAll iv (map cqe_commandID (drop (Suc c) xs)) pe of
          None \<Rightarrow> Inl (Panic ''Invalid interrupt'')
        | Some (cs, rest) \<Rightarrow>
            Inr \<lparr>pl_queue = ?h\<lparr>hq_head := ringPos n (length xs), hq_tail := (ringNext n ^^ (length xs - Suc c)) (hq_tail ?h)\<rparr>,
                 pl_phase = lapPhase n (length xs), pl_pending = rest, pl_calls = ca @ callsOf cs (drop (Suc c) xs)\<rparr>)"
      for pe :: "'c CommandEntry list" and ca
      using Suc.prems True by (intro Suc.IH) auto
    have t: "(ringNext n ^^ (length xs - Suc c)) (ringNext n x) = (ringNext n ^^ (length xs - c)) x" for x
      using True by (simp add: Suc_diff_Suc [symmetric] funpow_swap1)
    show ?thesis
    proof (cases "takeCommand iv (cqe_commandID (xs ! c)) pend")
      case None
      then show ?thesis using P True by (simp add: slot d)
    next
      case (Some cr)
      obtain x r where cr: "cr = (x, r)" by (cases cr)
      have "pollCQ (Suc fuel) iv \<lparr>pl_queue = h, pl_phase = lapPhase n c, pl_pending = pend, pl_calls = calls\<rparr> =
          pollCQ fuel iv \<lparr>pl_queue = ?h, pl_phase = lapPhase n (Suc c), pl_pending = r,
            pl_calls = calls @ [(x, drop_bit 1 (cqe_status (xs ! c)), cqe_dword0 (xs ! c))]\<rparr>"
        using P True Some ph by (simp add: slot cr q Let_def del: ring_steps One_nat_def split del: if_split cong: if_cong)
      then show ?thesis unfolding IH d using Some
        by (auto simp: cr t callsOf_def simp del: One_nat_def split: option.split)
    qed
  qed
qed simp

subsection \<open>Controller and driver together\<close>

datatype 'c link_cmd = Post CQEntry | Poll | Submit SQEntry 'c

type_synonym 'c link = "CQueue \<times> 'c NvmeDriver \<times> 'c call list"

text \<open>
  The completion queue \<open>iv\<close> of the controller, the driver, and the calls of callbacks so far. A post
  puts its entry into the memory of the driver's queue; a poll that found something rings the
  doorbell that sets the head of the controller's queue.
\<close>

fun link_exec :: "u16 \<Rightarrow> 'c link_cmd \<Rightarrow> 'c link \<Rightarrow> 'c link res" where
  "link_exec iv (Post x) (q, d, tr) =
     bindE (CQueue_setData x q) (\<lambda>((off, y), q1).
     bindE (driverCQ iv d) (\<lambda>h.
       Inr (q1, setDriverCQ iv (h\<lparr>hq_memory := (hq_memory h)(off := y)\<rparr>) d, tr)))"
| "link_exec iv Poll (q, d, tr) =
     bindE (updateInterrupt iv True d) (\<lambda>(calls, bell, d1).
       Inr (case bell of None \<Rightarrow> q | Some p \<Rightarrow> CQueue_setHead p q, d1, tr @ calls))"
| "link_exec iv (Submit cmd cb) (q, d, tr) =
     bindE (submitCommand iv cmd cb d) (\<lambda>(_, d1). Inr (q, d1, tr))"

text \<open>The specification: completions wait in a queue, and a poll delivers them all.\<close>

fun link_spec :: "'c link_cmd \<Rightarrow> CQEntry list \<times> CQEntry list \<Rightarrow> CQEntry list \<times> CQEntry list" where
  "link_spec (Post x) (w, dl) = (w @ [x], dl)"
| "link_spec Poll (w, dl) = ([], dl @ w)"
| "link_spec (Submit _ _) (w, dl) = (w, dl)"

definition entryInfo :: "CQEntry \<Rightarrow> u16 \<times> u16 \<times> u32" where
  "entryInfo x = (cqe_commandID x, drop_bit 1 (cqe_status x), cqe_dword0 x)"

definition callInfo :: "'c call \<Rightarrow> u16 \<times> u16 \<times> u32" where
  "callInfo c = (ce_cid (fst c), snd c)"

definition link_inv :: "u16 \<Rightarrow> CQEntry list \<Rightarrow> nat \<Rightarrow> CQueue \<Rightarrow> 'c NvmeDriver \<Rightarrow> bool" where
  "link_inv iv xs c q d \<longleftrightarrow> (\<exists>h. driverCQ iv d = Inr h \<and> nq_size q \<noteq> 0 \<and> hq_stride h \<noteq> 0 \<and>
     hq_entries h = nq_size q \<and> nq_stride q = ucast (hq_stride h) \<and>
     ring_mem (nq_size q) (hq_stride h) xs (hq_memory h) \<and> c \<le> length xs \<and> length xs < c + unat (nq_size q) \<and>
     nq_tail q = ringPos (nq_size q) (length xs) \<and> cq_phase q = lapPhase (nq_size q) (length xs) \<and>
     nq_head q = ringPos (nq_size q) c \<and> hq_head h = ringPos (nq_size q) c \<and> drv_phase d = lapPhase (nq_size q) c)"

definition link_rel :: "u16 \<Rightarrow> CQEntry list \<times> CQEntry list \<Rightarrow> 'c link \<Rightarrow> bool" where
  "link_rel iv a s = (case (a, s) of ((w, dl), (q, d, tr)) \<Rightarrow>
     (\<exists>xs c. link_inv iv xs c q d \<and> drop c xs = w) \<and> map callInfo tr = map entryInfo dl)"

lemma driverCQ_set: "driverCQ iv d = Inr h \<Longrightarrow> driverCQ iv (setDriverCQ iv h' d) = Inr h'"
  by (auto simp: driverCQ_def setDriverCQ_def split: if_splits option.splits)

lemma setDriverCQ_fields [simp]:
  "drv_phase (setDriverCQ iv h d) = drv_phase d" "drv_pending (setDriverCQ iv h d) = drv_pending d"
  by (simp_all add: setDriverCQ_def)

lemma driverCQ_cong:
  "drv_adminCQ d = drv_adminCQ d' \<Longrightarrow> drv_ioCQ d = drv_ioCQ d' \<Longrightarrow> driverCQ iv d = driverCQ iv d'"
  by (simp add: driverCQ_def)

lemma takeCommand_cid: "takeCommand iv cid pend = Some (c, r) \<Longrightarrow> ce_cid c = cid \<and> ce_iv c = iv"
  by (induction pend arbitrary: r) (auto split: if_splits)

lemma takeAll_cids: "takeAll iv cids pend = Some (cs, r) \<Longrightarrow> map ce_cid cs = cids"
  by (induction cids arbitrary: pend cs) (auto dest: takeCommand_cid split: option.splits)

lemma callInfo_callsOf: "map ce_cid cs = map cqe_commandID xs \<Longrightarrow> map callInfo (callsOf cs xs) = map entryInfo xs"
proof (induction xs arbitrary: cs)
  case (Cons x xs)
  then show ?case by (cases cs) (auto simp: callsOf_def callInfo_def entryInfo_def)
qed (simp add: callsOf_def)

text \<open>Posting: an overflow is reported exactly when the ring is full, and the entry is appended otherwise.\<close>

lemma post_full:
  assumes "link_inv iv xs c q d"
  shows "CQueue_setData x q = Inl (Panic ''Completion queue overflow'') \<longleftrightarrow> Suc (length xs) = c + unat (nq_size q)"
    and "Suc (length xs) \<noteq> c + unat (nq_size q) \<Longrightarrow> \<exists>r. CQueue_setData x q = Inr r"
proof -
  let ?n = "nq_size q"
  have I: "?n \<noteq> 0" "c \<le> length xs" "length xs < c + unat ?n" "nq_tail q = ringPos ?n (length xs)" "nq_head q = ringPos ?n c"
    using assms by (auto simp: link_inv_def)
  have t: "ringNext ?n (nq_tail q) = ringPos ?n (Suc (length xs))" using ringNext_ringPos [OF I(1)] I(4) by simp
  have "ringPos ?n c = ringPos ?n (Suc (length xs)) \<longleftrightarrow> Suc (length xs) = c + unat ?n"
  proof (cases "Suc (length xs) = c + unat ?n")
    case True
    then show ?thesis by (simp add: ringPos_def)
  next
    case False
    then show ?thesis using ringPos_eq [OF I(1), of c "Suc (length xs)"] I(2,3) by auto
  qed
  then show "CQueue_setData x q = Inl (Panic ''Completion queue overflow'') \<longleftrightarrow> Suc (length xs) = c + unat ?n"
    and "Suc (length xs) \<noteq> c + unat ?n \<Longrightarrow> \<exists>r. CQueue_setData x q = Inr r"
    by (auto simp: CQueue_setData_eq t I(5) Let_def guardE_def)
qed

lemma post_ok:
  assumes inv: "link_inv iv xs c q d" and r: "link_exec iv (Post x) (q, d, tr) = Inr (q', d', tr')"
  shows "link_inv iv (xs @ [x]) c q' d'" and "tr' = tr" and "drv_pending d' = drv_pending d"
proof -
  let ?n = "nq_size q"
  obtain h where h: "driverCQ iv d = Inr h" "hq_stride h \<noteq> 0" "hq_entries h = ?n" "nq_stride q = ucast (hq_stride h)"
      "ring_mem ?n (hq_stride h) xs (hq_memory h)" "hq_head h = ringPos ?n c"
    and I: "?n \<noteq> 0" "c \<le> length xs" "length xs < c + unat ?n" "nq_tail q = ringPos ?n (length xs)"
      "cq_phase q = lapPhase ?n (length xs)" "nq_head q = ringPos ?n c" "drv_phase d = lapPhase ?n c"
    using inv by (auto simp: link_inv_def)
  let ?y = "setPhase (lapPhase ?n (length xs)) x" and ?slot = "slotAt ?n (hq_stride h) (length xs)"
  let ?m = "(hq_memory h)(?slot := ?y)"
  have full: "Suc (length xs) \<noteq> c + unat ?n" using post_full [OF inv, of x] r by auto
  have off: "ucast (nq_tail q) * nq_stride q = ?slot" using I(4) h(4) by (simp add: slotAt_def)
  have ph: "(if nq_tail q + 1 = ?n then \<not> cq_phase q else cq_phase q) = lapPhase ?n (Suc (length xs))"
    using ringPos_wrap(1) [OF I(1), of "length xs"] I(4,5) lapPhase_Suc by simp
  have res: "q' = q\<lparr>nq_tail := ringPos ?n (Suc (length xs)), cq_phase := lapPhase ?n (Suc (length xs))\<rparr>"
      "d' = setDriverCQ iv (h\<lparr>hq_memory := ?m\<rparr>) d" "tr' = tr"
    using r h(1) ringNext_ringPos [OF I(1), of "length xs"] unfolding CQueue_setData_eq link_exec.simps off ph
    by (auto simp: Let_def I(4,5))
  have "ring_mem ?n (hq_stride h) (xs @ [x]) ?m" by (rule ring_mem_post [OF I(1) h(2,5)])
  moreover have "driverCQ iv d' = Inr (h\<lparr>hq_memory := ?m\<rparr>)" unfolding res(2) by (rule driverCQ_set [OF h(1)])
  ultimately show "link_inv iv (xs @ [x]) c q' d'"
    using h(2-4,6) I full by (auto simp: link_inv_def res)
  show "tr' = tr" and "drv_pending d' = drv_pending d" by (simp_all add: res)
qed

text \<open>Polling delivers all waiting entries, or reports a completion nobody has asked for.\<close>

lemma poll_eq:
  assumes inv: "link_inv iv xs c q d"
  shows "case takeAll iv (map cqe_commandID (drop c xs)) (drv_pending d) of
      None \<Rightarrow> link_exec iv Poll (q, d, tr) = Inl (Panic ''Invalid interrupt'')
    | Some (cs, rest) \<Rightarrow> \<exists>q' d'. link_exec iv Poll (q, d, tr) = Inr (q', d', tr @ callsOf cs (drop c xs)) \<and>
        link_inv iv xs (length xs) q' d' \<and> drv_pending d' = rest"
proof -
  let ?n = "nq_size q"
  obtain h where h: "driverCQ iv d = Inr h" "hq_stride h \<noteq> 0" "hq_entries h = ?n" "nq_stride q = ucast (hq_stride h)"
      "ring_mem ?n (hq_stride h) xs (hq_memory h)" "hq_head h = ringPos ?n c"
    and I: "?n \<noteq> 0" "c \<le> length xs" "length xs < c + unat ?n" "nq_tail q = ringPos ?n (length xs)"
      "cq_phase q = lapPhase ?n (length xs)" "nq_head q = ringPos ?n c" "drv_phase d = lapPhase ?n c"
    using inv by (auto simp: link_inv_def)
  have fuel: "length xs - c < 2 ^ 17" using I(3) u16_bound [of ?n] by simp
  note run = pollCQ_run [OF I(1) h(2,5,3) refl I(2) less_imp_le [OF I(3)] h(6) fuel, of iv "drv_pending d" "[]"]
  show ?thesis
  proof (cases "takeAll iv (map cqe_commandID (drop c xs)) (drv_pending d)")
    case None
    then show ?thesis using run by (simp add: updateInterrupt_def h(1) I(7))
  next
    case (Some cr)
    obtain cs rest where cr: "cr = (cs, rest)" by (cases cr)
    let ?h = "h\<lparr>hq_head := ringPos ?n (length xs), hq_tail := (ringNext ?n ^^ (length xs - c)) (hq_tail h)\<rparr>"
    let ?d = "(setDriverCQ iv ?h d)\<lparr>drv_phase := lapPhase ?n (length xs), drv_pending := rest\<rparr>"
    let ?q = "q\<lparr>nq_head := ringPos ?n (length xs)\<rparr>"
    have cids: "map ce_cid cs = map cqe_commandID (drop c xs)" using takeAll_cids Some cr by blast
    then have "length cs = length (drop c xs)" by (metis length_map)
    then have e: "callsOf cs (drop c xs) = [] \<longleftrightarrow> c = length xs" using I(2) by (auto simp: callsOf_def)
    have "q = ?q" if "c = length xs" using that I(6) by simp
    then have "link_exec iv Poll (q, d, tr) = Inr (?q, ?d, tr @ callsOf cs (drop c xs))"
      using run e by (auto simp: updateInterrupt_def h(1) I(7) Some cr CQueue_setHead_def)
    moreover have "driverCQ iv ?d = Inr ?h"
      using driverCQ_set [OF h(1), of ?h] driverCQ_cong [of ?d "setDriverCQ iv ?h d"] by simp
    then have "link_inv iv xs (length xs) ?q ?d" using h(2-5) I unat_gt_0 [of ?n] by (auto simp: link_inv_def)
    ultimately show ?thesis using Some cr by auto
  qed
qed

lemma submit_fields:
  assumes "submitCommand iv cmd cb d = Inr (t, d')"
  shows "driverCQ k d' = driverCQ k d" and "drv_phase d' = drv_phase d"
    and "\<exists>cid. drv_pending d' = drv_pending d @ [\<lparr>ce_iv = iv, ce_opcode = ucast (sqe_opcode cmd), ce_cid = cid, ce_callback = cb\<rparr>]"
  using assms by (auto simp: submitCommand_def driverCQ_def Let_def split: if_splits option.splits prod.splits)

interpretation link_service: service "link_exec iv" "link_rel iv" link_spec for iv :: u16
proof
  fix a :: "CQEntry list \<times> CQEntry list" and s :: "'c link" and cmd :: "'c link_cmd"
  assume rel: "link_rel iv a s"
  obtain w dl q d tr where a: "a = (w, dl)" and s: "s = (q, d, tr)" by (cases a, cases s)
  obtain xs c where inv: "link_inv iv xs c q d" and w: "drop c xs = w" and tr: "map callInfo tr = map entryInfo dl"
    using rel by (auto simp: link_rel_def a s)
  have c: "c \<le> length xs" using inv by (auto simp: link_inv_def)
  show "okE (link_rel iv (link_spec cmd a)) (link_exec iv cmd s)"
  proof (cases cmd)
    case (Post x)
    have "link_rel iv (w @ [x], dl) (q', d', tr')" if r: "link_exec iv (Post x) (q, d, tr) = Inr (q', d', tr')" for q' d' tr'
    proof -
      have "drop c (xs @ [x]) = w @ [x]" using c w by simp
      then have "\<exists>xs c. link_inv iv xs c q' d' \<and> drop c xs = w @ [x]" using post_ok(1) [OF inv r] by blast
      then show ?thesis using post_ok(2) [OF inv r] tr by (simp add: link_rel_def)
    qed
    then show ?thesis by (auto simp: Post a s okE_iff simp del: link_exec.simps)
  next
    case Poll
    have "link_rel iv ([], dl @ w) (q', d', tr')" if r: "link_exec iv Poll (q, d, tr) = Inr (q', d', tr')" for q' d' tr'
    proof -
      obtain cs rest where t: "takeAll iv (map cqe_commandID (drop c xs)) (drv_pending d) = Some (cs, rest)"
        and i: "link_inv iv xs (length xs) q' d'" and tr': "tr' = tr @ callsOf cs (drop c xs)"
        using poll_eq [OF inv, of tr] r by (auto split: option.splits simp del: link_exec.simps)
      show ?thesis
        using i tr callInfo_callsOf [OF takeAll_cids [OF t]] unfolding link_rel_def tr' w by auto
    qed
    then show ?thesis by (auto simp: Poll a s okE_iff simp del: link_exec.simps)
  next
    case (Submit sq cb)
    have "link_rel iv (w, dl) (q, d', tr)" if "submitCommand iv sq cb d = Inr (t, d')" for t d'
      using inv w tr submit_fields(1,2) [OF that] unfolding link_rel_def link_inv_def by auto
    then show ?thesis by (auto simp: Submit a s okE_iff)
  qed
qed

lemma mod_near:
  fixes k n c :: nat
  assumes "k < n"
  shows "(c + k) mod n = (if c mod n + k < n then c mod n + k else c mod n + k - n)"
proof -
  have "(c + k) mod n = (c mod n + k) mod n" by (simp add: mod_add_left_eq)
  moreover have "c mod n < n" using assms by simp
  ultimately show ?thesis using assms le_mod_geq [of n "c mod n + k"] by (cases "c mod n + k < n") simp_all
qed

lemma getItemCount_ring:
  assumes "n \<noteq> 0" and "c \<le> p" and "p < c + unat n" and "nq_size q = n" and "nq_head q = ringPos n c" and "nq_tail q = ringPos n p"
  shows "unat (getItemCount q) = p - c"
proof -
  define k where "k = p - c"
  let ?h = "c mod unat n" and ?t = "p mod unat n"
  have k: "k < unat n" and p: "p = c + k" using assms(2,3) by (simp_all add: k_def)
  have h: "?h < unat n" using k by simp
  have t: "?t = (if ?h + k < unat n then ?h + k else ?h + k - unat n)" unfolding p by (rule mod_near [OF k])
  have le: "nq_head q \<le> nq_tail q \<longleftrightarrow> ?h + k < unat n"
    using assms(5,6) k h by (auto simp: word_le_nat_alt unat_ringPos [OF assms(1)] t)
  have "getItemCount q = of_nat k"
  proof (cases "?h + k < unat n")
    case True
    then show ?thesis using le assms(5,6) t by (simp add: getItemCount_def ringPos_def)
  next
    case False
    have "n - of_nat ?h + of_nat (?h + k - unat n) = (of_nat k :: u16)"
      using False h by (simp add: of_nat_diff)
    then show ?thesis using False le assms(4-6) t by (simp add: getItemCount_def ringPos_def)
  qed
  moreover have "k < 2 ^ 16" using k u16_bound [of n] by simp
  ultimately show ?thesis by (simp add: unat_of_nat k_def)
qed

section \<open>Properties\<close>

definition link_new :: "u16 \<Rightarrow> u16 \<Rightarrow> 'c link" where
  "link_new n st =
     (let cq = HostQueue_new CQEntry_new n st; sq = HostQueue_new SQEntry_new n 64
      in (setBase (ucast st) (CQueue_new 0 True 0 n),
          \<lparr>drv_adminCommandID = 0, drv_ioCommandID = 0, drv_phase = True, drv_adminSQ = Some sq, drv_adminCQ = Some cq,
           drv_ioSQ = Some sq, drv_ioCQ = Some cq, drv_pending = []\<rparr>, []))"

lemma link_new_rel:
  assumes "n \<noteq> 0" and "st \<noteq> 0" and "iv \<in> {0, 1}"
  shows "link_rel iv ([], []) (link_new n st :: 'c link)"
proof -
  obtain q d where l: "(link_new n st :: 'c link) = (q, d, [])" by (simp add: link_new_def Let_def)
  have "link_inv iv [] 0 q d"
    using l assms by (auto simp: link_inv_def link_new_def Let_def driverCQ_def CQueue_new_def setBase_def HostQueue_new_def
      ring_mem_def CQEntry_new_def ringPos_def lapPhase_def unat_gt_0)
  then have "\<exists>xs c. link_inv iv xs c q d \<and> drop c xs = []" by fastforce
  then show ?thesis by (simp add: link_rel_def l)
qed

lemma link_rel_count:
  assumes "link_rel iv (w, dl) (q, d, tr)"
  shows "unat (getItemCount q) = length w"
proof -
  obtain xs c where inv: "link_inv iv xs c q d" and w: "drop c xs = w" using assms by (auto simp: link_rel_def)
  have "unat (getItemCount q) = length xs - c"
    using inv by (intro getItemCount_ring [where n = "nq_size q"]) (auto simp: link_inv_def)
  then show ?thesis using w by auto
qed

text \<open>
  C27. Refinement. Starting with empty rings of any size, whatever completions the controller posts,
  commands the driver submits and polls it makes, in any order and over any number of laps of the
  ring: as long as nothing panics, the callbacks called so far were called for exactly the
  completions posted before the last poll, once each and in their order, with their command
  number, status and result, and the controller counts exactly the others as waiting.
\<close>

theorem cq_handshake:
  assumes "n \<noteq> 0" and "st \<noteq> 0" and "iv \<in> {0, 1}" and "foldE (link_exec iv) cs (link_new n st) = Inr (q, d, tr)"
    and "fold link_spec cs ([], []) = (w, dl)"
  shows "map callInfo tr = map entryInfo dl \<and> unat (getItemCount q) = length w"
proof -
  have "link_rel iv (w, dl) (q, d, tr)"
    using link_service.run_result [OF link_new_rel [OF assms(1-3)] assms(4)] assms(5) by simp
  from this link_rel_count [OF this] show ?thesis by (simp add: link_rel_def)
qed

definition demo_done :: CQEntry where
  "demo_done = CQEntry_new\<lparr>cqe_commandID := 1, cqe_status := makeStatus False False 0 2\<rparr>"

lemma demo_two:
  obtains q d where "foldE (link_exec 1) [Submit SQEntry_new (), Post demo_done] (link_new 4 16) = Inr (q, d, [])"
    and "takeAll 1 [1] (drv_pending d) = Some ([\<lparr>ce_iv = 1, ce_opcode = 0, ce_cid = 1, ce_callback = ()\<rparr>], [])"
  by (simp add: link_new_def Let_def submitCommand_def pushCommand_def HostQueue_setData_def HostQueue_new_def hostOffset_def
    increaseCommandID_def SQEntry_new_def CQueue_setData_eq CQueue_new_def setBase_def ringNext_def driverCQ_def setDriverCQ_def)

lemma demo_two_rel:
  "foldE (link_exec 1) [Submit SQEntry_new (), Post demo_done] (link_new 4 16) = Inr s \<Longrightarrow> link_rel 1 ([demo_done], []) s"
  using link_service.run_result [OF link_new_rel [of 4 16 1], of "[Submit SQEntry_new (), Post demo_done]" s]
  by (simp del: link_exec.simps foldE.simps)

theorem cq_handshake_witness:
  "\<exists>q d tr. foldE (link_exec 1) [Submit SQEntry_new (), Post demo_done, Poll] (link_new 4 16) = Inr (q, d, tr) \<and>
     map callInfo tr = [(1, 2, 0)] \<and> unat (getItemCount q) = 0"
proof -
  obtain q d where r: "foldE (link_exec 1) [Submit SQEntry_new (), Post demo_done] (link_new 4 16) = Inr (q, d, [])"
    and t: "takeAll 1 [1] (drv_pending d) = Some ([\<lparr>ce_iv = 1, ce_opcode = 0, ce_cid = 1, ce_callback = ()\<rparr>], [])"
    by (rule demo_two)
  obtain xs c where i: "link_inv 1 xs c q d" "drop c xs = [demo_done]" using demo_two_rel [OF r] by (auto simp: link_rel_def)
  obtain q' d' tr where p: "link_exec 1 Poll (q, d, []) = Inr (q', d', tr)"
    using poll_eq [OF i(1), of "[]"] t unfolding i(2) by (auto simp: demo_done_def CQEntry_new_def simp del: link_exec.simps)
  have run: "foldE (link_exec 1) ([Submit SQEntry_new (), Post demo_done] @ [Poll]) (link_new 4 16) = Inr (q', d', tr)"
    unfolding foldE_append r using p by simp
  have "makeStatus False False 0 2 = 4" by (simp add: makeStatus_def)
  then have "entryInfo demo_done = (1, 2, 0)" by (simp add: entryInfo_def demo_done_def CQEntry_new_def)
  then show ?thesis using cq_handshake [OF _ _ _ run, of "[]" "[demo_done]"] run by auto
qed

text \<open>
  C28. Error behaviour. With \<open>w\<close> waiting completions, posting another one panics with an overflow
  exactly when the ring holds one entry less than its size; a poll ends, and panics with
  "Invalid interrupt" exactly when some waiting completion is for a command that is not pending.
\<close>

theorem cq_outcomes:
  assumes "link_rel iv (w, dl) (q, d, tr)"
  shows "(if Suc (length w) = unat (nq_size q)
          then link_exec iv (Post x) (q, d, tr) = Inl (Panic ''Completion queue overflow'')
          else \<exists>s'. link_exec iv (Post x) (q, d, tr) = Inr s') \<and>
    (case takeAll iv (map cqe_commandID w) (drv_pending d) of
       None \<Rightarrow> link_exec iv Poll (q, d, tr) = Inl (Panic ''Invalid interrupt'')
     | Some (cs, rest) \<Rightarrow> \<exists>q' d'. link_exec iv Poll (q, d, tr) = Inr (q', d', tr @ callsOf cs w) \<and> drv_pending d' = rest)"
proof -
  obtain xs c where inv: "link_inv iv xs c q d" and w: "drop c xs = w" using assms by (auto simp: link_rel_def)
  have c: "c \<le> length xs" and h: "\<exists>h. driverCQ iv d = Inr h" using inv by (auto simp: link_inv_def)
  have len: "Suc (length w) = unat (nq_size q) \<longleftrightarrow> Suc (length xs) = c + unat (nq_size q)" using w c by auto
  have "if Suc (length w) = unat (nq_size q)
      then link_exec iv (Post x) (q, d, tr) = Inl (Panic ''Completion queue overflow'')
      else \<exists>s'. link_exec iv (Post x) (q, d, tr) = Inr s'"
    unfolding len using post_full [OF inv, of x] h by fastforce
  moreover have "case takeAll iv (map cqe_commandID w) (drv_pending d) of
       None \<Rightarrow> link_exec iv Poll (q, d, tr) = Inl (Panic ''Invalid interrupt'')
     | Some (cs, rest) \<Rightarrow> \<exists>q' d'. link_exec iv Poll (q, d, tr) = Inr (q', d', tr @ callsOf cs w) \<and> drv_pending d' = rest"
    using poll_eq [OF inv, of tr] unfolding w by (auto simp del: link_exec.simps split: option.splits)
  ultimately show ?thesis by blast
qed

theorem cq_outcomes_witness:
  "\<exists>q (d :: unit NvmeDriver). link_rel 1 ([demo_done], []) (q, d, []) \<and> (\<exists>s'. link_exec 1 (Post demo_done) (q, d, []) = Inr s') \<and>
     (\<exists>q' d' tr. link_exec 1 Poll (q, d, []) = Inr (q', d', tr))"
proof -
  obtain q d where r: "foldE (link_exec 1) [Submit SQEntry_new (), Post demo_done] (link_new 4 16) = Inr (q, d, [])"
    and t: "takeAll 1 [1] (drv_pending d) = Some ([\<lparr>ce_iv = 1, ce_opcode = 0, ce_cid = 1, ce_callback = ()\<rparr>], [])"
    by (rule demo_two)
  have rel: "link_rel 1 ([demo_done], []) (q, d, [])" by (rule demo_two_rel [OF r])
  have "nq_size q = 4" using r
    by (auto simp: link_new_def Let_def CQueue_setData_eq CQueue_new_def setBase_def)
  moreover have "map cqe_commandID [demo_done] = [1]" by (simp add: demo_done_def)
  ultimately have "(\<exists>s'. link_exec 1 (Post demo_done) (q, d, []) = Inr s') \<and> (\<exists>q' d' tr. link_exec 1 Poll (q, d, []) = Inr (q', d', tr))"
    using cq_outcomes [OF rel, of demo_done] t by (auto simp del: link_exec.simps)
  then show ?thesis using rel by blast
qed

subsection \<open>The submission ring\<close>

text \<open>What the controller fetches: \<open>checkQueue\<close> calls \<open>getData\<close> as long as there is something.\<close>

fun fetch :: "nat \<Rightarrow> (u64 \<Rightarrow> 'e) \<Rightarrow> SQueue \<Rightarrow> 'e list \<times> SQueue" where
  "fetch 0 m q = ([], q)"
| "fetch (Suc k) m q =
     (case SQueue_getData q of
        (None, q1) \<Rightarrow> ([], q1)
      | (Some off, q1) \<Rightarrow> (let (xs, q2) = fetch k m q1 in (m off # xs, q2)))"

definition pushAll :: "SQEntry list \<Rightarrow> u16 \<Rightarrow> SQEntry HostQueue" where
  "pushAll cmds n = fold (\<lambda>c h. snd (pushCommand c h)) cmds (HostQueue_new SQEntry_new n 64)"

lemma pushAll_fields:
  assumes "n \<noteq> 0"
  shows "hq_entries (pushAll cmds n) = n" "hq_stride (pushAll cmds n) = 64" "hq_tail (pushAll cmds n) = ringPos n (length cmds)"
  using assms
proof (induction cmds rule: rev_induct)
  case Nil
  { case 1 show ?case by (simp add: pushAll_def HostQueue_new_def) }
  { case 2 show ?case by (simp add: pushAll_def HostQueue_new_def) }
  { case 3 show ?case by (simp add: pushAll_def HostQueue_new_def ringPos_def) }
next
  case (snoc c cmds)
  have e: "pushAll (cmds @ [c]) n = snd (pushCommand c (pushAll cmds n))" by (simp add: pushAll_def)
  { case 1 then show ?case using snoc.IH by (simp add: e pushCommand_def HostQueue_setData_def Let_def) }
  { case 2 then show ?case using snoc.IH by (simp add: e pushCommand_def HostQueue_setData_def Let_def) }
  { case 3 then show ?case using snoc.IH ringNext_ringPos
      by (simp add: e pushCommand_def HostQueue_setData_def Let_def) }
qed

lemma pushAll_memory:
  assumes "n \<noteq> 0"
  shows "i < length cmds \<Longrightarrow> length cmds \<le> i + unat n \<Longrightarrow> hq_memory (pushAll cmds n) (slotAt n 64 i) = cmds ! i"
proof (induction cmds rule: rev_induct)
  case (snoc c cmds)
  note F = pushAll_fields [OF assms, of cmds]
  have e: "pushAll (cmds @ [c]) n = snd (pushCommand c (pushAll cmds n))" by (simp add: pushAll_def)
  have m: "hq_memory (pushAll (cmds @ [c]) n) = (hq_memory (pushAll cmds n))(slotAt n 64 (length cmds) := c)"
    using F by (simp add: e pushCommand_def HostQueue_setData_def Let_def hostOffset_def slotAt_def)
  show ?case
  proof (cases "i = length cmds")
    case False
    then have "slotAt n 64 i \<noteq> slotAt n 64 (length cmds)"
      using slotAt_inj [OF assms, of 64] mod_eq_near [of i "length cmds" "unat n"] snoc.prems by auto
    then show ?thesis using snoc False by (simp add: m nth_append)
  qed (simp add: m)
qed simp

lemma fetch_run:
  assumes "n \<noteq> 0" and "nq_size q = n" and "nq_stride q = 64" and "nq_head q = ringPos n c" and "nq_tail q = ringPos n p"
    and "c \<le> p" and "p < c + unat n" and "p - c \<le> fuel"
  shows "fetch fuel m q = (map (\<lambda>i. m (slotAt n 64 i)) [c..<p], q\<lparr>nq_head := ringPos n p\<rparr>)"
  using assms
proof (induction fuel arbitrary: c q)
  case (Suc fuel)
  show ?case
  proof (cases "c = p")
    case False
    have "ringPos n c \<noteq> ringPos n p" using ringPos_eq [OF assms(1) Suc.prems(6,7)] False by simp
    then have g: "SQueue_getData q = (Some (slotAt n 64 c), q\<lparr>nq_head := ringPos n (Suc c)\<rparr>)"
      using Suc.prems ringNext_ringPos [OF assms(1), of c] by (simp add: SQueue_getData_eq slotAt_def)
    have "fetch fuel m (q\<lparr>nq_head := ringPos n (Suc c)\<rparr>) =
        (map (\<lambda>i. m (slotAt n 64 i)) [Suc c..<p], q\<lparr>nq_head := ringPos n p\<rparr>)"
      using Suc.IH [of "q\<lparr>nq_head := ringPos n (Suc c)\<rparr>" "Suc c"] Suc.prems False by simp
    moreover have "[c..<p] = c # [Suc c..<p]" using False Suc.prems(6) by (simp add: upt_conv_Cons)
    ultimately show ?thesis by (simp add: g)
  next
    case True
    have "q\<lparr>nq_head := ringPos n p\<rparr> = q" using True Suc.prems(4) by simp
    then show ?thesis using True Suc.prems by (simp add: SQueue_getData_eq)
  qed
next
  case 0
  moreover have "q\<lparr>nq_head := ringPos n p\<rparr> = q" using 0 by simp
  ultimately show ?case by simp
qed

text \<open>
  C29. Round trip through the submission ring. After the driver has submitted fewer commands than the
  ring has entries, the controller counts them and fetches exactly them, in order. But the driver
  never checks for room: after as many submissions as the ring has entries the controller counts
  none and fetches nothing.
\<close>

theorem sq_roundtrip:
  assumes "n \<noteq> 0" and "q = SQueue_setTail (hq_tail (pushAll cmds n)) (setBase 64 (SQueue_new cqid pri qid n))"
  shows "(length cmds < unat n \<longrightarrow> unat (getItemCount q) = length cmds \<and>
       fst (fetch (length cmds) (hq_memory (pushAll cmds n)) q) = cmds) \<and>
     (length cmds = unat n \<longrightarrow> getItemCount q = 0 \<and> fetch k (hq_memory (pushAll cmds n)) q = ([], q))"
proof -
  note F = pushAll_fields [OF assms(1), of cmds]
  have q: "nq_size q = n" "nq_stride q = 64" "nq_head q = ringPos n 0" "nq_tail q = ringPos n (length cmds)"
    using F(3) by (simp_all add: assms(2) SQueue_setTail_def setBase_def SQueue_new_def ringPos_def)
  have "unat (getItemCount q) = length cmds \<and> fst (fetch (length cmds) (hq_memory (pushAll cmds n)) q) = cmds"
    if l: "length cmds < unat n"
  proof -
    have "map (\<lambda>i. hq_memory (pushAll cmds n) (slotAt n 64 i)) [0..<length cmds] = map ((!) cmds) [0..<length cmds]"
      using pushAll_memory [OF assms(1)] l by simp
    then have "map (\<lambda>i. hq_memory (pushAll cmds n) (slotAt n 64 i)) [0..<length cmds] = cmds" by (simp only: map_nth)
    moreover have "fetch (length cmds) (hq_memory (pushAll cmds n)) q =
        (map (\<lambda>i. hq_memory (pushAll cmds n) (slotAt n 64 i)) [0..<length cmds], q\<lparr>nq_head := ringPos n (length cmds)\<rparr>)"
      using l by (intro fetch_run [OF assms(1) q]) simp_all
    ultimately show ?thesis using getItemCount_ring [OF assms(1), of 0 "length cmds" q] l q by simp
  qed
  moreover have "getItemCount q = 0 \<and> fetch k (hq_memory (pushAll cmds n)) q = ([], q)" if "length cmds = unat n"
  proof -
    have "nq_head q = nq_tail q" using q that by (simp add: ringPos_def)
    then show ?thesis by (cases k) (simp_all add: getItemCount_def SQueue_getData_eq)
  qed
  ultimately show ?thesis by blast
qed

theorem sq_roundtrip_witness:
  "fst (fetch 1 (hq_memory (pushAll [SQEntry_new\<lparr>sqe_opcode := 9\<rparr>] 2))
      (SQueue_setTail (hq_tail (pushAll [SQEntry_new\<lparr>sqe_opcode := 9\<rparr>] 2)) (setBase 64 (SQueue_new 1 0 1 2)))) =
     [SQEntry_new\<lparr>sqe_opcode := 9\<rparr>] \<and>
   getItemCount (SQueue_setTail (hq_tail (pushAll [SQEntry_new, SQEntry_new] 2)) (setBase 64 (SQueue_new 1 0 1 2))) = 0"
  using sq_roundtrip [OF _ refl, of 2 "[SQEntry_new\<lparr>sqe_opcode := 9\<rparr>]" 1 0 1]
    sq_roundtrip [OF _ refl, of 2 "[SQEntry_new, SQEntry_new]" 1 0 1] by simp

text \<open>
  C30. A flaw of the driver: it keeps one phase flag for the admin and the I/O completion queue. While
  the I/O ring is in an odd lap, an admin completion in the first lap of its ring is not recognised:
  the interrupt handler returns without calling anything and without ringing the doorbell.
\<close>

theorem admin_completion_ignored:
  assumes "link_inv 1 xs c q d" and "odd (c div unat (nq_size q))" and "drv_adminCQ d = Some h" and "peekData h = setPhase True x"
  shows "updateInterrupt 0 True d = Inr ([], None, d)"
proof -
  have "\<not> drv_phase d" using assms(1,2) by (auto simp: link_inv_def lapPhase_def)
  then have "pollCQ (Suc k) 0 \<lparr>pl_queue = h, pl_phase = drv_phase d, pl_pending = drv_pending d, pl_calls = []\<rparr> =
      Inr \<lparr>pl_queue = h, pl_phase = drv_phase d, pl_pending = drv_pending d, pl_calls = []\<rparr>" for k
    using assms(4) by (simp add: isNew_def Let_def)
  from this [of "2 ^ 17 - 1"] show ?thesis
    using assms(3) by (cases d) (simp add: updateInterrupt_def driverCQ_def setDriverCQ_def)
qed

definition demo_lap :: "unit NvmeDriver" where
  "demo_lap =
     (let h = HostQueue_new (setPhase True demo_done) 2 16
      in \<lparr>drv_adminCommandID = 0, drv_ioCommandID = 0, drv_phase = False, drv_adminSQ = None, drv_adminCQ = Some h,
          drv_ioSQ = None, drv_ioCQ = Some h, drv_pending = []\<rparr>)"

theorem admin_completion_ignored_witness: "updateInterrupt 0 True demo_lap = Inr ([], None, demo_lap)"
proof (rule admin_completion_ignored)
  let ?q = "(setBase 16 (CQueue_new 1 True 1 2))\<lparr>cq_phase := False\<rparr>"
  show "link_inv 1 [demo_done, demo_done] 2 ?q demo_lap"
    by (auto simp: link_inv_def demo_lap_def Let_def driverCQ_def CQueue_new_def setBase_def HostQueue_new_def
      ring_mem_def ringPos_def lapPhase_def less_Suc_eq)
  show "odd (2 div unat (nq_size ?q))" by (simp add: setBase_def CQueue_new_def)
  show "drv_adminCQ demo_lap = Some (HostQueue_new (setPhase True demo_done) 2 16)" by (simp add: demo_lap_def Let_def)
  show "peekData (HostQueue_new (setPhase True demo_done) 2 16) = setPhase True demo_done"
    by (simp add: peekData_def HostQueue_new_def)
qed

end
