(* ===== verification/NvmeController.thy ===== *)
theory NvmeController
  imports NvmeQueue
begin

text \<open>
  The NVMe controller (\<open>hil/nvme/controller.cc\<close>): its registers, the tables of queues with the
  commands that create and delete them, arbitration over the submission queues
  (\<open>collectSQueue\<close>), the internal FIFOs, and completion with interrupt coalescing.
  What is asynchronous in the code is split where the code splits it: \<open>collectSQueue\<close> gives the DMA
  reads it issues, \<open>doRead\<close> is what happens when one of them is done; \<open>completion\<close> gives the DMA
  writes and the vectors it has collected, \<open>completionSend\<close> is what runs after the last of these
  writes. Calls of \<open>schedule\<close> and \<open>deschedule\<close> are logged in \<open>nc_calls\<close>. The arrays of queues have
  at most 65535 entries, the number of queues NVMe allows.
\<close>

section \<open>State\<close>

record SQEntryWrapper =
  sqw_entry :: SQEntry
  sqw_sqID :: u16
  sqw_cqID :: u16
  sqw_sqHead :: u16
  sqw_sqUID :: u16
  sqw_useSGL :: bool

definition SQEntryWrapper_new :: "SQEntry \<Rightarrow> u16 \<Rightarrow> u16 \<Rightarrow> u16 \<Rightarrow> u16 \<Rightarrow> SQEntryWrapper" where
  "SQEntryWrapper_new x sqid cqid sqhead squid =
     \<lparr>sqw_entry = x, sqw_sqID = sqid, sqw_cqID = cqid, sqw_sqHead = sqhead, sqw_sqUID = squid,
      sqw_useSGL = (drop_bit 6 (sqe_fuse x) \<noteq> 0)\<rparr>"

record CQEntryWrapper =
  cqw_entry :: CQEntry
  cqw_submitAt :: tick
  cqw_cqID :: u16
  cqw_sqUID :: u16

text \<open>The constructor leaves \<open>submitAt\<close> unset; \<open>submit\<close> assigns it before it is read.\<close>

definition CQEntryWrapper_new :: "SQEntryWrapper \<Rightarrow> CQEntryWrapper" where
  "CQEntryWrapper_new w =
     \<lparr>cqw_entry = CQEntry_new\<lparr>cqe_sqHead := sqw_sqHead w, cqe_sqID := sqw_sqID w, cqe_commandID := sqe_commandID (sqw_entry w)\<rparr>,
      cqw_submitAt = 0, cqw_cqID = sqw_cqID w, cqw_sqUID = sqw_sqUID w\<rparr>"

record Registers =
  rg_capabilities :: u64
  rg_version :: u32
  rg_interruptMaskSet :: u32
  rg_interruptMaskClear :: u32
  rg_configuration :: u32
  rg_reserved :: u32
  rg_status :: u32
  rg_subsystemReset :: u32
  rg_adminQueueAttributes :: u32
  rg_adminSQueueBaseAddress :: u64
  rg_adminCQueueBaseAddress :: u64
  rg_memoryBufferLocation :: u32
  rg_memoryBufferSize :: u32

record AggregationInfo =
  ai_nextTime :: tick
  ai_requestCount :: u32
  ai_valid :: bool
  ai_pending :: bool

datatype CtrlEvent = WorkEvent | RequestEvent | CompletionEvent

text \<open>An interrupt as it is given to \<open>Interface::updateInterrupt\<close>: the vector, and whether it is raised.\<close>

type_synonym Interrupt = "u16 \<times> bool"

record Controller =
  nc_registers :: Registers
  nc_sqstride :: u64
  nc_cqstride :: u64
  nc_adminQueueInited :: u8
  nc_arbitration :: u16
  nc_interruptMask :: u32
  nc_ppCQueue :: "CQueue option list"
  nc_ppSQueue :: "SQueue option list"
  nc_lSQFIFO :: "SQEntryWrapper list"
  nc_lCQFIFO :: "CQEntryWrapper list"
  nc_shutdownReserved :: bool
  nc_aggregationTime :: tick
  nc_aggregationThreshold :: u32
  nc_aggregationMap :: "(u16 \<times> AggregationInfo) list"
  nc_memoryPageSizeOrder :: u64
  nc_memoryPageSize :: u64
  nc_requestCounter :: u32
  nc_maxRequest :: u32
  nc_requestInterval :: tick
  nc_workInterval :: tick
  nc_lastWorkAt :: tick
  nc_calls :: "(CtrlEvent \<times> tick option) list"

definition Registers_new :: Registers where
  "Registers_new = \<lparr>rg_capabilities = 0x0020002028010FFF, rg_version = 0x00010201, rg_interruptMaskSet = 0,
     rg_interruptMaskClear = 0, rg_configuration = 0, rg_reserved = 0, rg_status = 0, rg_subsystemReset = 0,
     rg_adminQueueAttributes = 0, rg_adminSQueueBaseAddress = 0, rg_adminCQueueBaseAddress = 0,
     rg_memoryBufferLocation = 0, rg_memoryBufferSize = 0\<rparr>"

text \<open>
  The constructor, from the configured numbers of I/O queues, the request limit and the work
  interval. The members it does not set (strides, arbitration, page size, \<open>lastWorkAt\<close>) start as
  zero here; a register write sets them before they are used.
\<close>

definition Controller_new :: "nat \<Rightarrow> nat \<Rightarrow> u32 \<Rightarrow> tick \<Rightarrow> Controller res" where
  "Controller_new maxCQ maxSQ maxReq interval =
     guardE (maxReq \<noteq> 0) (UB ''division by zero'')
     (Inr \<lparr>nc_registers = Registers_new, nc_sqstride = 0, nc_cqstride = 0, nc_adminQueueInited = 0, nc_arbitration = 0,
        nc_interruptMask = 0, nc_ppCQueue = replicate (maxCQ + 1) None, nc_ppSQueue = replicate (maxSQ + 1) None,
        nc_lSQFIFO = [], nc_lCQFIFO = [], nc_shutdownReserved = False, nc_aggregationTime = 0, nc_aggregationThreshold = 0,
        nc_aggregationMap = [], nc_memoryPageSizeOrder = 0, nc_memoryPageSize = 0, nc_requestCounter = 0,
        nc_maxRequest = maxReq, nc_requestInterval = interval div ucast maxReq, nc_workInterval = interval,
        nc_lastWorkAt = 0, nc_calls = []\<rparr>)"

definition schedule :: "CtrlEvent \<Rightarrow> tick option \<Rightarrow> Controller \<Rightarrow> Controller" where
  "schedule e t c = c\<lparr>nc_calls := nc_calls c @ [(e, t)]\<rparr>"

definition setSQ :: "nat \<Rightarrow> SQueue option \<Rightarrow> Controller \<Rightarrow> Controller" where
  "setSQ i q c = c\<lparr>nc_ppSQueue := (nc_ppSQueue c)[i := q]\<rparr>"

definition setCQ :: "nat \<Rightarrow> CQueue option \<Rightarrow> Controller \<Rightarrow> Controller" where
  "setCQ i q c = c\<lparr>nc_ppCQueue := (nc_ppCQueue c)[i := q]\<rparr>"

text \<open>Reading an entry of an array of pointers; outside of the array this is undefined.\<close>

definition ptrAt :: "'q option list \<Rightarrow> u16 \<Rightarrow> 'q option res" where
  "ptrAt qs i = guardE (unat i < length qs) (UB ''array index'') (Inr (qs ! unat i))"

section \<open>Registers\<close>

text \<open>The register table as the union overlays it: 64 bytes, little endian.\<close>

definition bytesLE :: "nat \<Rightarrow> 'a::len word \<Rightarrow> u8 list" where
  "bytesLE n w = map (\<lambda>i. ucast (drop_bit (8 * i) w)) [0..<n]"

definition registersData :: "Registers \<Rightarrow> u8 list" where
  "registersData r = bytesLE 8 (rg_capabilities r) @ bytesLE 4 (rg_version r) @ bytesLE 4 (rg_interruptMaskSet r) @
     bytesLE 4 (rg_interruptMaskClear r) @ bytesLE 4 (rg_configuration r) @ bytesLE 4 (rg_reserved r) @
     bytesLE 4 (rg_status r) @ bytesLE 4 (rg_subsystemReset r) @ bytesLE 4 (rg_adminQueueAttributes r) @
     bytesLE 8 (rg_adminSQueueBaseAddress r) @ bytesLE 8 (rg_adminCQueueBaseAddress r) @
     bytesLE 4 (rg_memoryBufferLocation r) @ bytesLE 4 (rg_memoryBufferSize r)"

definition readRegister :: "nat \<Rightarrow> nat \<Rightarrow> Controller \<Rightarrow> (u8 list \<times> Controller) res" where
  "readRegister offset sz c =
     (let r = (nc_registers c)\<lparr>rg_interruptMaskSet := nc_interruptMask c, rg_interruptMaskClear := nc_interruptMask c\<rparr>
      in guardE (offset + sz \<le> 64) (UB ''read past the registers'')
           (Inr (take sz (drop offset (registersData r)), c\<lparr>nc_registers := r\<rparr>)))"

text \<open>The write of \<open>CC\<close>; \<open>now\<close> is \<open>getTick()\<close>. The powers are of exponents up to 27, so \<open>powf\<close> is exact.\<close>

definition rebase :: "u64 \<Rightarrow> 'a NQueue_scheme option list \<Rightarrow> 'a NQueue_scheme option list" where
  "rebase stride qs = (case qs of [] \<Rightarrow> [] | q # r \<Rightarrow> map_option (setBase stride) q # r)"

definition writeConfiguration :: "tick \<Rightarrow> u32 \<Rightarrow> Controller \<Rightarrow> Controller" where
  "writeConfiguration now v c =
     (let cc = (rg_configuration (nc_registers c) AND 0xFF00000E) OR (v AND 0x00FFFFF1);
          sqs = 2 ^ unat (drop_bit 16 (cc AND 0x000F0000));
          cqs = 2 ^ unat (drop_bit 20 (cc AND 0x00F00000));
          ord = ucast (drop_bit 7 (cc AND 0x780)) + 11;
          c1 = c\<lparr>nc_registers := (nc_registers c)\<lparr>rg_configuration := cc\<rparr>, nc_sqstride := sqs, nc_cqstride := cqs,
                 nc_memoryPageSizeOrder := ord, nc_memoryPageSize := 2 ^ unat (ord + 1),
                 nc_arbitration := ucast (drop_bit 11 (cc AND 0x00003800)),
                 nc_ppCQueue := rebase cqs (nc_ppCQueue c), nc_ppSQueue := rebase sqs (nc_ppSQueue c)\<rparr>;
          st = rg_status (nc_registers c1)
      in if cc AND 0x0000C000 \<noteq> 0
         then c1\<lparr>nc_registers := (nc_registers c1)\<lparr>rg_status := (st AND 0xFFFFFFF2) OR 0x00000005\<rparr>, nc_shutdownReserved := True\<rparr>
         else if cc AND 0x00000001 \<noteq> 0
         then schedule WorkEvent (Some (now + nc_workInterval c1)) (c1\<lparr>nc_registers := (nc_registers c1)\<lparr>rg_status := st OR 0x00000001\<rparr>\<rparr>)
         else schedule WorkEvent None (c1\<lparr>nc_registers := (nc_registers c1)\<lparr>rg_status := st AND 0xFFFFFFFE\<rparr>\<rparr>))"

definition setLow :: "u32 \<Rightarrow> u64 \<Rightarrow> u64" where
  "setLow v x = (x AND 0xFFFFFFFF00000000) OR ucast v"

definition setHigh :: "u32 \<Rightarrow> u64 \<Rightarrow> u64" where
  "setHigh v x = (x AND 0x00000000FFFFFFFF) OR push_bit 32 (ucast v)"

definition writeRegister4 :: "tick \<Rightarrow> nat \<Rightarrow> u32 \<Rightarrow> Controller \<Rightarrow> Controller res" where
  "writeRegister4 now offset v c =
     (let r = nc_registers c
      in if offset = 0x0C then Inr (c\<lparr>nc_interruptMask := nc_interruptMask c OR v\<rparr>)
         else if offset = 0x10 then Inr (c\<lparr>nc_interruptMask := nc_interruptMask c AND NOT v\<rparr>)
         else if offset = 0x14 then Inr (writeConfiguration now v c)
         else if offset = 0x1C
         then Inr (if v AND 0x00000010 \<noteq> 0 then c\<lparr>nc_registers := r\<lparr>rg_status := rg_status r AND 0xFFFFFFEF\<rparr>\<rparr> else c)
         else if offset = 0x20 then Inr (c\<lparr>nc_registers := r\<lparr>rg_subsystemReset := v\<rparr>\<rparr>)
         else if offset = 0x24
         then Inr (c\<lparr>nc_registers := r\<lparr>rg_adminQueueAttributes := (rg_adminQueueAttributes r AND 0xF000F000) OR (v AND 0x0FFF0FFF)\<rparr>\<rparr>)
         else if offset = 0x30
         then Inr (c\<lparr>nc_registers := r\<lparr>rg_adminCQueueBaseAddress := setLow v (rg_adminCQueueBaseAddress r)\<rparr>,
                     nc_adminQueueInited := nc_adminQueueInited c + 1\<rparr>)
         else if offset = 0x34
         then Inr (c\<lparr>nc_registers := r\<lparr>rg_adminCQueueBaseAddress := setHigh v (rg_adminCQueueBaseAddress r)\<rparr>,
                     nc_adminQueueInited := nc_adminQueueInited c + 1\<rparr>)
         else if offset = 0x28
         then Inr (c\<lparr>nc_registers := r\<lparr>rg_adminSQueueBaseAddress := setLow v (rg_adminSQueueBaseAddress r)\<rparr>,
                     nc_adminQueueInited := nc_adminQueueInited c + 1\<rparr>)
         else if offset = 0x2C
         then Inr (c\<lparr>nc_registers := r\<lparr>rg_adminSQueueBaseAddress := setHigh v (rg_adminSQueueBaseAddress r)\<rparr>,
                     nc_adminQueueInited := nc_adminQueueInited c + 1\<rparr>)
         else Inl (Panic ''Write on read only register''))"

definition writeRegister8 :: "nat \<Rightarrow> u64 \<Rightarrow> Controller \<Rightarrow> Controller res" where
  "writeRegister8 offset v c =
     (let r = nc_registers c
      in if offset = 0x30
         then Inr (c\<lparr>nc_registers := r\<lparr>rg_adminCQueueBaseAddress := v\<rparr>, nc_adminQueueInited := nc_adminQueueInited c + 2\<rparr>)
         else if offset = 0x28
         then Inr (c\<lparr>nc_registers := r\<lparr>rg_adminSQueueBaseAddress := v\<rparr>, nc_adminQueueInited := nc_adminQueueInited c + 2\<rparr>)
         else Inl (Panic ''Write on read only register''))"

definition adminInit :: "Controller \<Rightarrow> Controller" where
  "adminInit c =
     (if nc_adminQueueInited c = 4
      then (let aqa = rg_adminQueueAttributes (nc_registers c)
            in setSQ 0 (Some (SQueue_new 0 0 0 (ucast ((aqa AND 0x0FFF) + 1))))
                 (setCQ 0 (Some (CQueue_new 0 True 0 (ucast (drop_bit 16 (aqa AND 0x0FFF0000) + 1))))
                    (c\<lparr>nc_adminQueueInited := 0\<rparr>)))
      else c)"

definition writeRegister :: "tick \<Rightarrow> nat \<Rightarrow> nat \<Rightarrow> u64 \<Rightarrow> Controller \<Rightarrow> Controller res" where
  "writeRegister now offset sz v c =
     bindE (if sz = 4 then writeRegister4 now offset (ucast v) c
            else if sz = 8 then writeRegister8 offset v c
            else Inl (Panic ''Invalid read size on controller register''))
       (\<lambda>c. Inr (adminInit c))"

section \<open>Doorbells\<close>

definition clearInterrupt :: "u16 \<Rightarrow> Controller \<Rightarrow> Interrupt" where
  "clearInterrupt iv c =
     (iv, (\<Sum>q\<leftarrow>nc_ppCQueue c. case q of None \<Rightarrow> 0 | Some q \<Rightarrow> if cq_interruptVector q = iv then getItemCount q else 0) > 0)"

definition ringCQHeadDoorbell :: "u16 \<Rightarrow> u16 \<Rightarrow> Controller \<Rightarrow> (Interrupt list \<times> Controller) res" where
  "ringCQHeadDoorbell qid newHead c =
     bindE (ptrAt (nc_ppCQueue c) qid) (\<lambda>p.
       case p of
         None \<Rightarrow> Inr ([], c)
       | Some q \<Rightarrow>
           (let c1 = setCQ (unat qid) (Some (CQueue_setHead newHead q)) c
            in Inr (if cq_ien q then [clearInterrupt (cq_interruptVector q) c1] else [], c1)))"

definition ringSQTailDoorbell :: "u16 \<Rightarrow> u16 \<Rightarrow> Controller \<Rightarrow> Controller res" where
  "ringSQTailDoorbell qid newTail c =
     bindE (ptrAt (nc_ppSQueue c) qid) (\<lambda>p.
       Inr (case p of None \<Rightarrow> c | Some q \<Rightarrow> setSQ (unat qid) (Some (SQueue_setTail newTail q)) c))"

section \<open>Completion events\<close>

text \<open>\<open>reserveCompletion\<close>: the earliest of the first entry of the FIFO and the pending coalesced interrupts.\<close>

definition earliest :: "tick option \<Rightarrow> tick \<Rightarrow> tick option" where
  "earliest best t = (case best of None \<Rightarrow> Some t | Some b \<Rightarrow> Some (if b > t then t else b))"

definition completionTick :: "Controller \<Rightarrow> tick option" where
  "completionTick c =
     foldl (\<lambda>best (iv, a). if ai_valid a \<and> ai_pending a then earliest best (ai_nextTime a) else best)
       (case nc_lCQFIFO c of [] \<Rightarrow> None | e # _ \<Rightarrow> Some (cqw_submitAt e)) (nc_aggregationMap c)"

definition reserveCompletion :: "Controller \<Rightarrow> Controller" where
  "reserveCompletion c =
     (case completionTick c of None \<Rightarrow> c | Some t \<Rightarrow> schedule CompletionEvent (Some t) c)"

fun insertCQ :: "CQEntryWrapper \<Rightarrow> CQEntryWrapper list \<Rightarrow> CQEntryWrapper list" where
  "insertCQ e [] = [e]"
| "insertCQ e (x # xs) = (if cqw_submitAt x > cqw_submitAt e then e # x # xs else x # insertCQ e xs)"

definition submit :: "tick \<Rightarrow> CQEntryWrapper \<Rightarrow> Controller \<Rightarrow> Controller res" where
  "submit now e c =
     bindE (ptrAt (nc_ppCQueue c) (cqw_cqID e)) (\<lambda>p.
       case p of
         None \<Rightarrow> Inl (Panic ''Completion Queue not created'')
       | Some _ \<Rightarrow> Inr (reserveCompletion (c\<lparr>nc_lCQFIFO := insertCQ (e\<lparr>cqw_submitAt := now\<rparr>) (nc_lCQFIFO c)\<rparr>)))"

section \<open>Creation and deletion of queues\<close>

text \<open>
  The codes are those of the source: 0 done, 1 invalid queue, 2 invalid completion queue or
  deletion. \<open>AggregationInfo::pending\<close> is not initialised by \<open>createCQueue\<close>; \<open>junk\<close> is what the
  memory held.
\<close>

definition createCQueue :: "bool \<Rightarrow> u16 \<Rightarrow> u16 \<Rightarrow> u16 \<Rightarrow> bool \<Rightarrow> Controller \<Rightarrow> (nat \<times> Controller) res" where
  "createCQueue junk cqid sz iv ien c =
     bindE (ptrAt (nc_ppCQueue c) cqid) (\<lambda>p.
       case p of
         Some _ \<Rightarrow> Inr (1, c)
       | None \<Rightarrow>
           (let c1 = setCQ (unat cqid) (Some (setBase (nc_cqstride c) (CQueue_new iv ien cqid sz))) c;
                info = \<lparr>ai_nextTime = 0, ai_requestCount = 0, ai_valid = False, ai_pending = junk\<rparr>
            in Inr (0, c1\<lparr>nc_aggregationMap := AList.update iv info (nc_aggregationMap c1)\<rparr>)))"

definition createSQueue :: "u16 \<Rightarrow> u16 \<Rightarrow> u16 \<Rightarrow> u8 \<Rightarrow> Controller \<Rightarrow> (nat \<times> Controller) res" where
  "createSQueue sqid cqid sz priority c =
     bindE (ptrAt (nc_ppSQueue c) sqid) (\<lambda>p.
       case p of
         Some _ \<Rightarrow> Inr (1, c)
       | None \<Rightarrow>
           bindE (ptrAt (nc_ppCQueue c) cqid) (\<lambda>cq.
             case cq of
               None \<Rightarrow> Inr (2, c)
             | Some _ \<Rightarrow>
                 Inr (0, setSQ (unat sqid) (Some (setBase (nc_sqstride c) (SQueue_new cqid priority sqid sz))) c)))"

text \<open>
  \<open>deleteCQueue\<close> looks for users of the queue in \<open>ppSQueue\<close>, with the bound of \<open>ppCQueue\<close>. The loop
  ends at the first user.
\<close>

fun usesCQ :: "u16 \<Rightarrow> SQueue option list \<Rightarrow> nat list \<Rightarrow> bool res" where
  "usesCQ cqid sqs [] = Inr False"
| "usesCQ cqid sqs (i # js) =
     guardE (i < length sqs) (UB ''array index'')
       (if (case sqs ! i of None \<Rightarrow> False | Some q \<Rightarrow> sq_cqID q = cqid) then Inr True else usesCQ cqid sqs js)"

definition deleteCQueue :: "u16 \<Rightarrow> Controller \<Rightarrow> (nat \<times> Controller) res" where
  "deleteCQueue cqid c =
     bindE (ptrAt (nc_ppCQueue c) cqid) (\<lambda>p.
       case p of
         None \<Rightarrow> Inr (1, c)
       | Some q \<Rightarrow>
           if cqid = 0 then Inr (1, c)
           else bindE (usesCQ cqid (nc_ppSQueue c) [1..<length (nc_ppCQueue c)]) (\<lambda>used.
             if used then Inr (2, c)
             else (let c1 = setCQ (unat cqid) None c; iv = cq_interruptVector q;
                       sameIV = (\<exists>x\<in>set (drop 1 (nc_ppCQueue c1)). case x of None \<Rightarrow> False | Some y \<Rightarrow> cq_interruptVector y = iv)
                   in if sameIV then Inr (0, c1)
                      else guardE (map_of (nc_aggregationMap c1) iv \<noteq> None) (UB ''erase of the end iterator'')
                             (Inr (0, c1\<lparr>nc_aggregationMap := AList.delete iv (nc_aggregationMap c1)\<rparr>)))))"

definition abortEntry :: "SQEntryWrapper \<Rightarrow> u16 \<Rightarrow> u16 \<Rightarrow> CQEntryWrapper" where
  "abortEntry w sqHead status =
     (let r = CQEntryWrapper_new w
      in r\<lparr>cqw_entry := (cqw_entry r)\<lparr>cqe_sqHead := sqHead, cqe_status := status\<rparr>\<rparr>)"

text \<open>
  \<open>deleteSQueue\<close>: \<open>erase\<close> gives the entry after the erased one and the loop's \<open>iter++\<close> passes over
  it; after the last entry it increments the end iterator. The status is \<open>0x8000\<close> with the code
  \<open>STATUS_ABORT_DUE_TO_SQ_DELETE\<close>, 8, from bit 1.
\<close>

fun abortAll :: "tick \<Rightarrow> u16 \<Rightarrow> u16 \<Rightarrow> SQEntryWrapper list \<Rightarrow> Controller \<Rightarrow> (SQEntryWrapper list \<times> Controller) res" where
  "abortAll now sqid sqHead [] c = Inr ([], c)"
| "abortAll now sqid sqHead (w # ws) c =
     (if sqw_sqID w = sqid
      then bindE (submit now (abortEntry w sqHead 0x8010) c) (\<lambda>c1.
             case ws of
               [] \<Rightarrow> Inl (UB ''increment of the end iterator'')
             | v # vs \<Rightarrow> bindE (abortAll now sqid sqHead vs c1) (\<lambda>(rest, c2). Inr (v # rest, c2)))
      else bindE (abortAll now sqid sqHead ws c) (\<lambda>(rest, c2). Inr (w # rest, c2)))"

definition deleteSQueue :: "tick \<Rightarrow> u16 \<Rightarrow> Controller \<Rightarrow> (nat \<times> Controller) res" where
  "deleteSQueue now sqid c =
     bindE (ptrAt (nc_ppSQueue c) sqid) (\<lambda>p.
       case p of
         None \<Rightarrow> Inr (1, c)
       | Some q \<Rightarrow>
           if sqid = 0 then Inr (1, c)
           else bindE (abortAll now sqid (nq_head q) (nc_lSQFIFO c) c) (\<lambda>(rest, c1).
                  Inr (0, setSQ (unat sqid) None (c1\<lparr>nc_lSQFIFO := rest\<rparr>))))"

text \<open>\<open>abort\<close> ends at the first match; \<open>STATUS_ABORT_REQUESTED\<close> is 7.\<close>

fun takeEntry :: "u16 \<Rightarrow> u16 \<Rightarrow> SQEntryWrapper list \<Rightarrow> (SQEntryWrapper \<times> SQEntryWrapper list) option" where
  "takeEntry sqid cid [] = None"
| "takeEntry sqid cid (w # ws) =
     (if sqw_sqID w = sqid \<and> sqe_commandID (sqw_entry w) = cid then Some (w, ws)
      else map_option (\<lambda>(x, r). (x, w # r)) (takeEntry sqid cid ws))"

definition abort :: "tick \<Rightarrow> u16 \<Rightarrow> u16 \<Rightarrow> Controller \<Rightarrow> (nat \<times> Controller) res" where
  "abort now sqid cid c =
     (case takeEntry sqid cid (nc_lSQFIFO c) of
        None \<Rightarrow> Inr (0, c)
      | Some (w, rest) \<Rightarrow>
          bindE (ptrAt (nc_ppSQueue c) sqid) (\<lambda>p.
            case p of
              None \<Rightarrow> Inl (UB ''null pointer'')
            | Some q \<Rightarrow>
                bindE (submit now (abortEntry w (nq_head q) 0x800E) c) (\<lambda>c1.
                  Inr (1, c1\<lparr>nc_lSQFIFO := rest\<rparr>))))"

section \<open>Interrupt coalescing\<close>

text \<open>
  The aggregation time is computed in \<open>int\<close>: from 22 units of 100 microseconds on the product leaves its range.
\<close>

definition setCoalescingParameter :: "u8 \<Rightarrow> u8 \<Rightarrow> Controller \<Rightarrow> Controller res" where
  "setCoalescingParameter time thres c =
     guardE (unat time * 100000000 < 2 ^ 31) (UB ''signed overflow'')
       (Inr (c\<lparr>nc_aggregationTime := ucast time * 100000000, nc_aggregationThreshold := ucast thres\<rparr>))"

definition getCoalescingParameter :: "Controller \<Rightarrow> u8 \<times> u8" where
  "getCoalescingParameter c = (ucast (nc_aggregationTime c div 100000000), ucast (nc_aggregationThreshold c))"

definition setCoalescing :: "u16 \<Rightarrow> bool \<Rightarrow> Controller \<Rightarrow> Controller" where
  "setCoalescing iv enable c =
     (case map_of (nc_aggregationMap c) iv of
        None \<Rightarrow> c
      | Some a \<Rightarrow> c\<lparr>nc_aggregationMap := AList.update iv
          \<lparr>ai_nextTime = 0, ai_requestCount = 0, ai_valid = enable, ai_pending = False\<rparr> (nc_aggregationMap c)\<rparr>)"

definition getCoalescing :: "u16 \<Rightarrow> Controller \<Rightarrow> bool" where
  "getCoalescing iv c = (case map_of (nc_aggregationMap c) iv of None \<Rightarrow> False | Some a \<Rightarrow> ai_valid a)"

section \<open>Arbitration\<close>

text \<open>
  A DMA read issued by \<open>checkQueue\<close>: the queue it is for, the head before the read and the offset
  \<open>SQueue::getData\<close> reads from (if it issues the read).
\<close>

record fetch =
  fe_queue :: nat
  fe_oldhead :: u16
  fe_offset :: "u64 option"

definition checkQueue :: "nat \<Rightarrow> SQueue \<Rightarrow> (fetch \<times> SQueue) option" where
  "checkQueue i q =
     (if getItemCount q > 0
      then Some (\<lparr>fe_queue = i, fe_oldhead = nq_head q, fe_offset = fst (SQueue_getData q)\<rparr>, snd (SQueue_getData q))
      else None)"

text \<open>The variables of \<open>collectSQueue\<close>; the counter of the DMA context is the number of reads issued.\<close>

record collect =
  co_queues :: "SQueue option list"
  co_fetches :: "fetch list"
  co_updated :: u16
  co_total_updated :: u32

text \<open>
  One pass over the queues that satisfy \<open>sel\<close>. \<open>hit\<close> is what the pass does with its counters when a
  queue gave a command, and whether it then leaves the loop.
\<close>

fun sweep :: "(SQueue \<Rightarrow> bool) \<Rightarrow> (collect \<Rightarrow> collect \<times> bool) \<Rightarrow> nat list \<Rightarrow> collect \<Rightarrow> collect" where
  "sweep sel hit [] c = c"
| "sweep sel hit (i # js) c =
     (case co_queues c ! i of
        None \<Rightarrow> sweep sel hit js c
      | Some q \<Rightarrow>
          (if sel q
           then (case checkQueue i q of
                   None \<Rightarrow> sweep sel hit js c
                 | Some (f, q') \<Rightarrow>
                     (let (c', leave) = hit (c\<lparr>co_queues := (co_queues c)[i := Some q'], co_fetches := co_fetches c @ [f]\<rparr>)
                      in if leave then c' else sweep sel hit js c'))
           else sweep sel hit js c))"

definition countUpdate :: "collect \<Rightarrow> collect \<times> bool" where
  "countUpdate c = (c\<lparr>co_updated := co_updated c + 1\<rparr>, False)"

definition countWeighted :: "u16 \<Rightarrow> collect \<Rightarrow> collect \<times> bool" where
  "countWeighted w c =
     (let c1 = c\<lparr>co_updated := co_updated c + 1, co_total_updated := co_total_updated c + 1\<rparr>
      in if co_updated c1 = w then (c1\<lparr>co_updated := 0\<rparr>, True) else (c1, False))"

definition countOne :: "collect \<Rightarrow> collect \<times> bool" where
  "countOne c = (c\<lparr>co_total_updated := co_total_updated c + 1\<rparr>, True)"

text \<open>The round robin loop, used for all queues and for the urgent ones.\<close>

fun roundRobin :: "nat \<Rightarrow> (SQueue \<Rightarrow> bool) \<Rightarrow> nat list \<Rightarrow> collect \<Rightarrow> collect res" where
  "roundRobin 0 sel js c = Inl Diverge"
| "roundRobin (Suc n) sel js c =
     (let c1 = sweep sel countUpdate js c
      in if co_updated c1 = 0 then Inr c1 else roundRobin n sel js (c1\<lparr>co_updated := 0\<rparr>))"

fun adminLoop :: "nat \<Rightarrow> collect \<Rightarrow> collect res" where
  "adminLoop 0 c = Inl Diverge"
| "adminLoop (Suc n) c =
     (case co_queues c ! 0 of
        None \<Rightarrow> Inl (UB ''null pointer'')
      | Some q \<Rightarrow>
          (case checkQueue 0 q of
             None \<Rightarrow> Inr c
           | Some (f, q') \<Rightarrow> adminLoop n (c\<lparr>co_queues := (co_queues c)[0 := Some q'], co_fetches := co_fetches c @ [f]\<rparr>)))"

definition PRIORITY_URGENT :: u8 where "PRIORITY_URGENT = 0"
definition PRIORITY_HIGH :: u8 where "PRIORITY_HIGH = 1"
definition PRIORITY_MEDIUM :: u8 where "PRIORITY_MEDIUM = 2"
definition PRIORITY_LOW :: u8 where "PRIORITY_LOW = 3"

text \<open>The third pass of the weighted loop is for low priorities; it tests \<open>PRIORITY_MEDIUM\<close> as the code does.\<close>

fun weightedLoop :: "nat \<Rightarrow> u16 \<Rightarrow> u16 \<Rightarrow> nat list \<Rightarrow> collect \<Rightarrow> collect res" where
  "weightedLoop 0 wrrHigh wrrMedium js c = Inl Diverge"
| "weightedLoop (Suc n) wrrHigh wrrMedium js c =
     (let c1 = sweep (\<lambda>q. sq_priority q = PRIORITY_HIGH) (countWeighted wrrHigh) js c;
          c2 = sweep (\<lambda>q. sq_priority q = PRIORITY_MEDIUM) (countWeighted wrrMedium) js c1;
          c3 = sweep (\<lambda>q. sq_priority q = PRIORITY_MEDIUM) countOne js c2
      in if co_total_updated c3 = 0 then Inr c3
         else weightedLoop n wrrHigh wrrMedium js (c3\<lparr>co_total_updated := 0\<rparr>))"

text \<open>
  Every iteration of a loop that is not its last takes at least one command, so one more iteration
  than there are commands is enough for all of them (\<open>collect_rr\<close> and \<open>collect_wrr\<close> show that).
\<close>

definition queueItems :: "SQueue option \<Rightarrow> nat" where
  "queueItems q = (case q of None \<Rightarrow> 0 | Some q \<Rightarrow> unat (getItemCount q))"

definition collectFuel :: "SQueue option list \<Rightarrow> nat" where
  "collectFuel qs = Suc (\<Sum>q\<leftarrow>qs. queueItems q)"

definition arbitrate :: "nat \<Rightarrow> u16 \<Rightarrow> u16 \<Rightarrow> u16 \<Rightarrow> collect \<Rightarrow> collect res" where
  "arbitrate fuel arb wrrHigh wrrMedium c =
     (let n = length (co_queues c)
      in if arb = 0 then roundRobin fuel (\<lambda>_. True) [0..<n] c
         else if arb = 1
         then bindE (adminLoop fuel c) (\<lambda>c.
              bindE (roundRobin fuel (\<lambda>q. sq_priority q = PRIORITY_URGENT) [1..<n] c) (\<lambda>c.
              weightedLoop fuel wrrHigh wrrMedium [1..<n] c))
         else Inl (Panic ''Invalid arbitration method''))"

definition collectSQueue :: "u16 \<Rightarrow> u16 \<Rightarrow> Controller \<Rightarrow> (fetch list \<times> Controller) res" where
  "collectSQueue wrrHigh wrrMedium c =
     (if rg_status (nc_registers c) AND 0x00000001 = 0 then Inr ([], c)
      else bindE (arbitrate (collectFuel (nc_ppSQueue c)) (nc_arbitration c) wrrHigh wrrMedium
                    \<lparr>co_queues = nc_ppSQueue c, co_fetches = [], co_updated = 0, co_total_updated = 0\<rparr>) (\<lambda>r.
             Inr (co_fetches r, c\<lparr>nc_ppSQueue := co_queues r\<rparr>)))"

text \<open>What happens when a read is done: the head is the head of the queue at that time.\<close>

definition doRead :: "fetch \<Rightarrow> SQEntry \<Rightarrow> Controller \<Rightarrow> Controller res" where
  "doRead f x c =
     guardE (fe_queue f < length (nc_ppSQueue c)) (UB ''array index'')
       (case nc_ppSQueue c ! fe_queue f of
          None \<Rightarrow> Inl (UB ''use after free'')
        | Some q \<Rightarrow> Inr (c\<lparr>nc_lSQFIFO := nc_lSQFIFO c @ [SQEntryWrapper_new x (nq_id q) (sq_cqID q) (nq_head q) (fe_oldhead f)]\<rparr>))"

text \<open>
  \<open>work\<close>: a controller that is not ready returns, and nothing follows (\<open>None\<close>). Otherwise the reads
  are issued; \<open>workCollected\<close> runs when they are done (at once if there are none), and then the
  requests are handled one by one.
\<close>

definition work :: "u16 \<Rightarrow> u16 \<Rightarrow> Controller \<Rightarrow> (fetch list option \<times> Controller) res" where
  "work wrrHigh wrrMedium c =
     (if rg_status (nc_registers c) AND 0x00000001 = 0 then Inr (None, c)
      else bindE (collectSQueue wrrHigh wrrMedium c) (\<lambda>(fs, c'). Inr (Some fs, c')))"


definition workCollected :: "tick \<Rightarrow> Controller \<Rightarrow> Controller" where
  "workCollected now c =
     (let c1 = c\<lparr>nc_lastWorkAt := now\<rparr>;
          c2 = (if nc_shutdownReserved c1
                then (schedule WorkEvent None c1)\<lparr>nc_registers := (nc_registers c1)\<lparr>rg_status := (rg_status (nc_registers c1) AND 0xFFFFFFF2) OR 0x00000008\<rparr>,
                        nc_shutdownReserved := False, nc_lSQFIFO := []\<rparr>
                else c1)
      in c2\<lparr>nc_requestCounter := 0\<rparr>)"

definition handleRequest :: "tick \<Rightarrow> Controller \<Rightarrow> SQEntryWrapper option \<times> Controller" where
  "handleRequest now c =
     (let (front, c1) = (case nc_lSQFIFO c of [] \<Rightarrow> (None, c) | w # ws \<Rightarrow> (Some w, c\<lparr>nc_lSQFIFO := ws\<rparr>));
          c2 = c1\<lparr>nc_requestCounter := nc_requestCounter c1 + 1\<rparr>;
          t = now + nc_requestInterval c2
      in (front,
          if nc_lSQFIFO c2 \<noteq> [] \<and> nc_requestCounter c2 < nc_maxRequest c2 then schedule RequestEvent (Some t) c2
          else schedule WorkEvent (Some (let u = nc_lastWorkAt c2 + nc_workInterval c2 in if t > u then t else u)) c2))"

section \<open>Completion\<close>

record Completion =
  cp_posts :: "(u16 \<times> u64 \<times> CQEntry) list"
  cp_ivToPost :: "u16 list"

text \<open>Whether the completion of an entry raises the interrupt at once, and the coalescing state after it.\<close>

definition coalesce :: "tick \<Rightarrow> tick \<Rightarrow> u32 \<Rightarrow> CQEntryWrapper \<Rightarrow> AggregationInfo \<Rightarrow> bool \<times> AggregationInfo" where
  "coalesce now time thres e a =
     (if ai_valid a
      then (let a1 = a\<lparr>ai_requestCount := ai_requestCount a + 1\<rparr>
            in if cqw_submitAt e < ai_nextTime a1 \<and> ai_requestCount a1 \<le> thres
               then (False, a1\<lparr>ai_pending := True\<rparr>)
               else (True, a1\<lparr>ai_nextTime := now + time, ai_requestCount := 0\<rparr>))
      else (True, a))"

definition collectVector :: "tick \<Rightarrow> CQEntryWrapper \<Rightarrow> CQueue \<Rightarrow> Completion \<times> Controller \<Rightarrow> Completion \<times> Controller" where
  "collectVector now e q s =
     (case s of (d, c) \<Rightarrow>
        (if cq_ien q
         then (let iv = cq_interruptVector q;
                   (post, m) = (if cqw_cqID e > 0
                                then (case map_of (nc_aggregationMap c) iv of
                                        None \<Rightarrow> (True, nc_aggregationMap c)
                                      | Some a \<Rightarrow> (case coalesce now (nc_aggregationTime c) (nc_aggregationThreshold c) e a of
                                          (p, a') \<Rightarrow> (p, AList.update iv a' (nc_aggregationMap c))))
                                else (True, nc_aggregationMap c))
               in (if post then d\<lparr>cp_ivToPost := cp_ivToPost d @ [iv]\<rparr> else d, c\<lparr>nc_aggregationMap := m\<rparr>))
         else (d, c)))"

definition postEntry :: "tick \<Rightarrow> CQEntryWrapper \<Rightarrow> Completion \<times> Controller \<Rightarrow> (Completion \<times> Controller) res" where
  "postEntry now e s =
     (case s of (d, c) \<Rightarrow>
        bindE (ptrAt (nc_ppCQueue c) (cqw_cqID e)) (\<lambda>p.
          case p of
            None \<Rightarrow> Inl (UB ''null pointer'')
          | Some q \<Rightarrow>
              bindE (CQueue_setData (cqw_entry e) q) (\<lambda>((off, x), q').
                Inr (collectVector now e q'
                  (d\<lparr>cp_posts := cp_posts d @ [(cqw_cqID e, off, x)]\<rparr>, setCQ (unat (cqw_cqID e)) (Some q') c)))))"

definition expired :: "tick \<Rightarrow> AggregationInfo \<Rightarrow> bool" where
  "expired now a \<longleftrightarrow> ai_valid a \<and> ai_nextTime a \<le> now \<and> ai_pending a"

definition expire :: "tick \<Rightarrow> Completion \<times> Controller \<Rightarrow> Completion \<times> Controller" where
  "expire now s =
     (case s of (d, c) \<Rightarrow>
        (d\<lparr>cp_ivToPost := cp_ivToPost d @ map fst (filter (expired now \<circ> snd) (nc_aggregationMap c))\<rparr>,
         c\<lparr>nc_aggregationMap := map (\<lambda>(iv, a).
              (iv, if expired now a then a\<lparr>ai_nextTime := now + nc_aggregationTime c, ai_requestCount := 0, ai_pending := False\<rparr> else a))
            (nc_aggregationMap c)\<rparr>))"

text \<open>
  \<open>completion\<close>: without a single DMA write the collected data is deleted, and nothing runs after it.
\<close>

definition completion :: "tick \<Rightarrow> Controller \<Rightarrow> (Completion option \<times> Controller) res" where
  "completion now c =
     bindE (foldE (postEntry now) (filter (\<lambda>e. cqw_submitAt e \<le> now) (nc_lCQFIFO c))
              (\<lparr>cp_posts = [], cp_ivToPost = []\<rparr>, c\<lparr>nc_lCQFIFO := filter (\<lambda>e. \<not> cqw_submitAt e \<le> now) (nc_lCQFIFO c)\<rparr>)) (\<lambda>s.
       case expire now s of (d, c') \<Rightarrow> Inr (if cp_posts d = [] then None else Some d, c'))"

definition completionSend :: "Completion \<Rightarrow> Controller \<Rightarrow> Interrupt list \<times> Controller" where
  "completionSend d c = (map (\<lambda>iv. (iv, True)) (remdups_adj (sort (cp_ivToPost d))), reserveCompletion c)"

end
