(* ===== verification/NvmeAdmin.thy ===== *)
theory NvmeAdmin
  imports NvmeController
begin

text \<open>
  The commands on queues and features that \<open>hil/nvme/subsystem.cc\<close> decodes and passes to the
  controller, the register writes of the driver's start-up (\<open>sil/nvme/nvme.cc\<close>), and what holds of
  the controller along any sequence of operations: the typing of its tables of queues, and what
  becomes of completions and of interrupts.
\<close>

section \<open>Decoding of queue and feature commands\<close>

text \<open>
  What a command answers: at once, or from the callback that runs when the PRP list of the new
  queue has been read (the copy of the response made before the call).
\<close>

record Answer =
  an_now :: "CQEntryWrapper option"
  an_later :: "CQEntryWrapper option"

definition setStatus :: "bool \<Rightarrow> nat \<Rightarrow> nat \<Rightarrow> CQEntryWrapper \<Rightarrow> CQEntryWrapper" where
  "setStatus dnr sct sc r = r\<lparr>cqw_entry := (cqw_entry r)\<lparr>cqe_status := makeStatus dnr False sct sc\<rparr>\<rparr>"

definition setResult :: "u32 \<Rightarrow> CQEntryWrapper \<Rightarrow> CQEntryWrapper" where
  "setResult v r = r\<lparr>cqw_entry := (cqw_entry r)\<lparr>cqe_dword0 := v\<rparr>\<rparr>"

definition lo16 :: "u32 \<Rightarrow> u16" where
  "lo16 x = ucast (x AND 0xFFFF)"

definition hi16 :: "u32 \<Rightarrow> u16" where
  "hi16 x = ucast (drop_bit 16 (x AND 0xFFFF0000))"

text \<open>
  The entry size is kept in 16 bits; the limit is that of the capability register. The constants
  of \<open>NVME_ERROR_CODE\<close>: 0 invalid completion queue, 1 invalid queue id, 2 invalid queue size,
  12 invalid queue deletion, 13 feature not saveable.
\<close>

definition maxQueueEntry :: "Controller \<Rightarrow> u16" where
  "maxQueueEntry c = ucast (rg_capabilities (nc_registers c) AND 0xFFFF) + 1"

definition subDeleteSQ :: "tick \<Rightarrow> SQEntryWrapper \<Rightarrow> Controller \<Rightarrow> (Answer \<times> Controller) res" where
  "subDeleteSQ now req c =
     (let resp = CQEntryWrapper_new req
      in bindE (deleteSQueue now (lo16 (sqe_dword10 (sqw_entry req))) c) (\<lambda>(ret, c').
           Inr (\<lparr>an_now = Some (if ret = 1 then setStatus False 1 1 resp else resp), an_later = None\<rparr>, c')))"

definition subCreateSQ :: "SQEntryWrapper \<Rightarrow> Controller \<Rightarrow> (Answer \<times> Controller) res" where
  "subCreateSQ req c =
     (let resp = CQEntryWrapper_new req; e = sqw_entry req;
          sqid = lo16 (sqe_dword10 e); entrySize = hi16 (sqe_dword10 e) + 1;
          cqid = hi16 (sqe_dword11 e); priority = ucast (drop_bit 1 (sqe_dword11 e AND 0x06))
      in if entrySize > maxQueueEntry c
         then Inr (\<lparr>an_now = Some (setStatus False 1 2 resp), an_later = None\<rparr>, c)
         else bindE (createSQueue sqid cqid entrySize priority c) (\<lambda>(ret, c').
                Inr (\<lparr>an_now = None, an_later = (if ret = 0 then Some resp else None)\<rparr>, c')))"

definition subDeleteCQ :: "SQEntryWrapper \<Rightarrow> Controller \<Rightarrow> (Answer \<times> Controller) res" where
  "subDeleteCQ req c =
     (let resp = CQEntryWrapper_new req
      in bindE (deleteCQueue (lo16 (sqe_dword10 (sqw_entry req))) c) (\<lambda>(ret, c').
           Inr (\<lparr>an_now = Some (if ret = 1 then setStatus False 1 1 resp else if ret = 2 then setStatus False 1 12 resp else resp),
                 an_later = None\<rparr>, c')))"

definition subCreateCQ :: "bool \<Rightarrow> SQEntryWrapper \<Rightarrow> Controller \<Rightarrow> (Answer \<times> Controller) res" where
  "subCreateCQ junk req c =
     (let resp = CQEntryWrapper_new req; e = sqw_entry req;
          cqid = lo16 (sqe_dword10 e); entrySize = hi16 (sqe_dword10 e) + 1;
          iv = hi16 (sqe_dword11 e); ien = (sqe_dword11 e AND 0x02 \<noteq> 0)
      in if entrySize > maxQueueEntry c
         then Inr (\<lparr>an_now = Some (setStatus False 1 2 resp), an_later = None\<rparr>, c)
         else bindE (createCQueue junk cqid entrySize iv ien c) (\<lambda>(ret, c').
                Inr (\<lparr>an_now = None, an_later = (if ret = 0 then Some resp else None)\<rparr>, c')))"

definition subAbort :: "tick \<Rightarrow> SQEntryWrapper \<Rightarrow> Controller \<Rightarrow> (Answer \<times> Controller) res" where
  "subAbort now req c =
     (let d = sqe_dword10 (sqw_entry req)
      in bindE (abort now (lo16 d) (hi16 d) c) (\<lambda>(ret, c').
           Inr (\<lparr>an_now = Some (setResult (if ret = 0 then 1 else 0) (setStatus True 0 0 (CQEntryWrapper_new req))), an_later = None\<rparr>, c')))"

text \<open>
  Set Features, with the configured numbers of I/O queues: \<open>Inl\<close>-free except for the overflow of the
  coalescing time. The number of queues the subsystem remembers is given and returned.
\<close>

definition queueNumber :: "u32 \<Rightarrow> u32 \<Rightarrow> u32 \<Rightarrow> u32" where
  "queueNumber cqsize sqsize d =
     (let d1 = (if d AND 0xFFFF \<ge> sqsize then (d AND 0xFFFF0000) OR (sqsize - 1) else d)
      in if drop_bit 16 (d1 AND 0xFFFF0000) \<ge> cqsize then (d1 AND 0xFFFF) OR push_bit 16 (cqsize - 1) else d1)"

definition subSetFeatures :: "u32 \<Rightarrow> u32 \<Rightarrow> SQEntryWrapper \<Rightarrow> u32 \<Rightarrow> Controller \<Rightarrow> (Answer \<times> u32 \<times> Controller) res" where
  "subSetFeatures cqsize sqsize req queueAllocated c =
     (let resp = CQEntryWrapper_new req; fid = sqe_dword10 (sqw_entry req) AND 0x00FF; d = sqe_dword11 (sqw_entry req);
          answer = (\<lambda>r. \<lparr>an_now = Some r, an_later = None\<rparr>)
      in if sqe_dword10 (sqw_entry req) AND 0x80000000 \<noteq> 0 then Inr (answer (setStatus False 1 13 resp), queueAllocated, c)
         else if fid = 0x07
         then (if d AND 0xFFFF = 0xFFFF \<or> d AND 0xFFFF0000 = 0xFFFF0000
               then Inr (answer (setStatus False 0 2 resp), queueAllocated, c)
               else (let n = queueNumber cqsize sqsize d in Inr (answer (setResult n resp), n, c)))
         else if fid = 0x08
         then bindE (setCoalescingParameter (ucast (drop_bit 8 d AND 0xFF)) (ucast (d AND 0xFF)) c) (\<lambda>c'.
                Inr (answer resp, queueAllocated, c'))
         else if fid = 0x09
         then Inr (answer resp, queueAllocated, setCoalescing (lo16 d) (d AND 0x10000 \<noteq> 0) c)
         else Inr (answer (setStatus True 0 2 resp), queueAllocated, c))"

text \<open>Get Features, from the configured weights of the arbitration and whether there is a write cache.\<close>

definition subGetFeatures :: "u64 \<Rightarrow> u64 \<Rightarrow> bool \<Rightarrow> SQEntryWrapper \<Rightarrow> u32 \<Rightarrow> Controller \<Rightarrow> Answer" where
  "subGetFeatures wrrHigh wrrMedium useWriteCache req queueAllocated c =
     (let resp = CQEntryWrapper_new req; fid = sqe_dword10 (sqw_entry req) AND 0x00FF; d = sqe_dword11 (sqw_entry req);
          answer = (\<lambda>r. \<lparr>an_now = Some r, an_later = None\<rparr>)
      in if fid = 0x01
         then answer (setResult (ucast ((push_bit 24 (ucast (ucast (wrrHigh * wrrMedium - 1) :: u8)) :: u64) OR push_bit 16 (wrrMedium - 1) OR 0x03)) resp)
         else if fid = 0x06 then answer (setResult (if useWriteCache then 1 else 0) resp)
         else if fid = 0x07 then answer (setResult queueAllocated resp)
         else if fid = 0x08
         then (case getCoalescingParameter c of (time, thres) \<Rightarrow> answer (setResult (ucast thres OR push_bit 8 (ucast time)) resp))
         else if fid = 0x09
         then answer (setResult ((d AND 0xFFFF) OR (if getCoalescing (lo16 d) c then 0x10000 else 0)) resp)
         else answer (setStatus True 0 2 resp))"

section \<open>Start-up by the driver\<close>

text \<open>
  \<open>Driver::init\<close> up to the first command: the capabilities are read, the admin queues are announced
  with \<open>QUEUE_ENTRY_ADMIN\<close> entries (at most what the controller supports), then the controller is
  configured and enabled. \<open>sqBase\<close> and \<open>cqBase\<close> are the addresses of the driver's queues.
\<close>

definition leWord :: "u8 list \<Rightarrow> u64" where
  "leWord bs = foldr (\<lambda>b acc. ucast b OR push_bit 8 acc) bs 0"

definition driverInit :: "u16 \<Rightarrow> u64 \<Rightarrow> u64 \<Rightarrow> Controller \<Rightarrow> (u16 \<times> Controller) res" where
  "driverInit adminEntries sqBase cqBase c =
     bindE (readRegister 0x00 8 c) (\<lambda>(cap, c).
       let maxQueueEntries = ucast (leWord cap AND 0xFFFF) + 1 :: u16;
           entries = (if adminEntries > maxQueueEntries then maxQueueEntries else adminEntries);
           aqa = (ucast entries - 1) OR push_bit 16 (ucast entries - 1) :: u64
       in bindE (writeRegister 0 0x24 4 aqa c) (\<lambda>c.
          bindE (writeRegister 0 0x28 8 sqBase c) (\<lambda>c.
          bindE (writeRegister 0 0x30 8 cqBase c) (\<lambda>c.
          bindE (writeRegister 0 0x14 4 0x00460001 c) (\<lambda>c. Inr (maxQueueEntries, c))))))"

section \<open>The tables of queues\<close>

text \<open>
  The typing of the tables: as many completion as submission queues can exist, a queue carries the
  identifier of its place, the admin queues exist, every submission queue is bound to a completion
  queue that exists, and the vector of every I/O completion queue has an entry in the coalescing
  table.
\<close>

definition sqShape :: "Controller \<Rightarrow> (u16 \<times> u16) option list" where
  "sqShape c = map (map_option (\<lambda>q. (nq_id q, sq_cqID q))) (nc_ppSQueue c)"

definition cqShape :: "Controller \<Rightarrow> (u16 \<times> u16) option list" where
  "cqShape c = map (map_option (\<lambda>q. (nq_id q, cq_interruptVector q))) (nc_ppCQueue c)"

definition shape_ok :: "(u16 \<times> u16) option list \<Rightarrow> (u16 \<times> u16) option list \<Rightarrow> u16 set \<Rightarrow> bool" where
  "shape_ok sq cq ivs \<longleftrightarrow>
     length sq = length cq \<and> 0 < length cq \<and> sq ! 0 = Some (0, 0) \<and> cq ! 0 \<noteq> None \<and>
     (\<forall>i j d. i < length sq \<longrightarrow> sq ! i = Some (j, d) \<longrightarrow> unat j = i \<and> unat d < length cq \<and> cq ! unat d \<noteq> None) \<and>
     (\<forall>i j v. i < length cq \<longrightarrow> cq ! i = Some (j, v) \<longrightarrow> unat j = i \<and> (i \<noteq> 0 \<longrightarrow> v \<in> ivs))"

definition ctrl_wf :: "Controller \<Rightarrow> bool" where
  "ctrl_wf c \<longleftrightarrow> shape_ok (sqShape c) (cqShape c) (fst ` set (nc_aggregationMap c)) \<and>
     sorted (map cqw_submitAt (nc_lCQFIFO c)) \<and> distinct (map fst (nc_aggregationMap c))"

lemma ptrAt_ok: "ptrAt qs i = Inr p \<longleftrightarrow> unat i < length qs \<and> p = qs ! unat i"
  by (auto simp: ptrAt_def)

lemma sorted_insertCQ: "sorted (map cqw_submitAt xs) \<Longrightarrow> sorted (map cqw_submitAt (insertCQ e xs))"
proof (induction xs)
  case (Cons x xs)
  have "set (insertCQ e xs) = insert e (set xs)" for xs by (induction xs) auto
  then show ?case using Cons by (auto simp: not_less) 
qed simp

text \<open>What the tables show is left as it is by everything that does not create or delete a queue.\<close>

lemma ctrl_wf_same:
  assumes "ctrl_wf c" and "sqShape d = sqShape c" and "cqShape d = cqShape c"
    and "map fst (nc_aggregationMap d) = map fst (nc_aggregationMap c)" and "sorted (map cqw_submitAt (nc_lCQFIFO d))"
  shows "ctrl_wf d"
proof -
  have "fst ` set (nc_aggregationMap d) = fst ` set (nc_aggregationMap c)" using arg_cong [OF assms(4), of set] by simp
  then show ?thesis using assms by (simp add: ctrl_wf_def)
qed

lemma shape_simps [simp]:
  "sqShape (schedule e t c) = sqShape c" "cqShape (schedule e t c) = cqShape c"
  "nc_aggregationMap (schedule e t c) = nc_aggregationMap c" "nc_lCQFIFO (schedule e t c) = nc_lCQFIFO c"
  "sqShape (reserveCompletion c) = sqShape c" "cqShape (reserveCompletion c) = cqShape c"
  "nc_aggregationMap (reserveCompletion c) = nc_aggregationMap c" "nc_lCQFIFO (reserveCompletion c) = nc_lCQFIFO c"
  by (auto simp: sqShape_def cqShape_def schedule_def reserveCompletion_def split: option.split)

lemma submit_wf: "ctrl_wf c \<Longrightarrow> okE (\<lambda>d. ctrl_wf d \<and> nc_ppSQueue d = nc_ppSQueue c) (submit now e c)"
  unfolding submit_def
  by (cases "ptrAt (nc_ppCQueue c) (cqw_cqID e)")
     (auto simp: ctrl_wf_def sqShape_def cqShape_def reserveCompletion_def schedule_def sorted_insertCQ split: option.split)

lemma shape_lists:
  "length (sqShape c) = length (nc_ppSQueue c)" "length (cqShape c) = length (nc_ppCQueue c)"
  "i < length (nc_ppSQueue c) \<Longrightarrow> sqShape c ! i = map_option (\<lambda>q. (nq_id q, sq_cqID q)) (nc_ppSQueue c ! i)"
  "i < length (nc_ppCQueue c) \<Longrightarrow> cqShape c ! i = map_option (\<lambda>q. (nq_id q, cq_interruptVector q)) (nc_ppCQueue c ! i)"
  by (simp_all add: sqShape_def cqShape_def)

lemma shape_okD:
  assumes "shape_ok sq cq ivs"
  shows "i < length sq \<Longrightarrow> sq ! i = Some (j, d) \<Longrightarrow> unat j = i \<and> unat d < length cq \<and> cq ! unat d \<noteq> None"
    and "i < length cq \<Longrightarrow> cq ! i = Some (j, v) \<Longrightarrow> unat j = i \<and> (i \<noteq> 0 \<longrightarrow> v \<in> ivs)"
    and "length sq = length cq" and "0 < length cq" and "sq ! 0 = Some (0, 0)" and "cq ! 0 \<noteq> None"
  using assms unfolding shape_ok_def by blast+

lemma update_Some:
  "xs[i := Some (a, b)] ! k = Some (x, y) \<Longrightarrow> i < length xs \<Longrightarrow> (k = i \<and> x = a \<and> y = b) \<or> (k \<noteq> i \<and> xs ! k = Some (x, y))"
  by (cases "k = i") auto

lemma shape_add_cq:
  assumes "shape_ok sq cq ivs" and "unat i < length cq"
  shows "shape_ok sq (cq[unat i := Some (i, v)]) (insert v ivs)"
  unfolding shape_ok_def
proof (intro conjI allI impI)
  fix k j d assume k: "k < length sq" "sq ! k = Some (j, d)"
  note w = shape_okD(1) [OF assms(1) k]
  then show "unat j = k" "unat d < length (cq[unat i := Some (i, v)])" by simp_all
  show "cq[unat i := Some (i, v)] ! unat d \<noteq> None" using w assms(2) by (cases "unat d = unat i") simp_all
next
  fix k j w assume k: "k < length (cq[unat i := Some (i, v)])" "cq[unat i := Some (i, v)] ! k = Some (j, w)"
  have "unat j = k \<and> (k \<noteq> 0 \<longrightarrow> w \<in> insert v ivs)"
    using update_Some [OF k(2) assms(2)]
  proof
    assume "k \<noteq> unat i \<and> cq ! k = Some (j, w)"
    then show ?thesis using shape_okD(2) [OF assms(1), of k j w] k(1) by simp
  qed simp
  then show "unat j = k" "k \<noteq> 0 \<Longrightarrow> w \<in> insert v ivs" by blast+
next
  show "cq[unat i := Some (i, v)] ! 0 \<noteq> None"
    using shape_okD(6) [OF assms(1)] assms(2) by (cases "unat i = 0") simp_all
qed (use shape_okD(3-) [OF assms(1)] in simp_all)

lemma shape_add_sq:
  assumes "shape_ok sq cq ivs" and "unat i < length sq" and "unat i \<noteq> 0" and "unat d < length cq" and "cq ! unat d \<noteq> None"
  shows "shape_ok (sq[unat i := Some (i, d)]) cq ivs"
  unfolding shape_ok_def
proof (intro conjI allI impI)
  fix k j e assume k: "k < length (sq[unat i := Some (i, d)])" "sq[unat i := Some (i, d)] ! k = Some (j, e)"
  have "unat j = k \<and> unat e < length cq \<and> cq ! unat e \<noteq> None"
    using update_Some [OF k(2) assms(2)]
  proof
    assume "k \<noteq> unat i \<and> sq ! k = Some (j, e)"
    then show ?thesis using shape_okD(1) [OF assms(1), of k j e] k(1) by simp
  qed (use assms(4,5) in simp)
  then show "unat j = k" "unat e < length cq" "cq ! unat e \<noteq> None" by blast+
next
  fix k j v assume "k < length cq" "cq ! k = Some (j, v)"
  then show "unat j = k" "k \<noteq> 0 \<Longrightarrow> v \<in> ivs" using shape_okD(2) [OF assms(1)] by blast+
qed (use shape_okD(3-) [OF assms(1)] assms(3) in simp_all)

lemma createCQueue_wf:
  assumes "ctrl_wf c"
  shows "okE (\<lambda>(r, d). ctrl_wf d) (createCQueue junk cqid sz iv ien c)"
proof (cases "unat cqid < length (nc_ppCQueue c) \<and> nc_ppCQueue c ! unat cqid = None")
  case True
  obtain d where r: "createCQueue junk cqid sz iv ien c = Inr (0, d)" and sh: "sqShape d = sqShape c"
    "cqShape d = (cqShape c)[unat cqid := Some (cqid, iv)]" "nc_lCQFIFO d = nc_lCQFIFO c"
    and m: "\<exists>info. nc_aggregationMap d = AList.update iv info (nc_aggregationMap c)"
    using True by (auto simp: createCQueue_def ptrAt_def sqShape_def cqShape_def setCQ_def map_update CQueue_new_def setBase_def Let_def)
  have k: "fst ` set (nc_aggregationMap d) = insert iv (fst ` set (nc_aggregationMap c))"
    using m by (elim exE) (simp add: dom_update)
  have "distinct (map fst (nc_aggregationMap d))" using m assms by (auto simp: ctrl_wf_def distinct_update)
  moreover have "shape_ok (sqShape d) (cqShape d) (fst ` set (nc_aggregationMap d))"
    using assms True shape_add_cq [of "sqShape c" "cqShape c"] unfolding ctrl_wf_def sh k by (simp add: shape_lists)
  ultimately show ?thesis using r sh(3) assms by (simp add: ctrl_wf_def)
next
  case False
  then show ?thesis using assms by (auto simp: createCQueue_def ptrAt_def guardE_def split: option.split)
qed

lemma createSQueue_wf:
  assumes "ctrl_wf c"
  shows "okE (\<lambda>(r, d). ctrl_wf d) (createSQueue sqid cqid sz pri c)"
proof (cases "unat sqid < length (nc_ppSQueue c) \<and> nc_ppSQueue c ! unat sqid = None \<and>
    unat cqid < length (nc_ppCQueue c) \<and> nc_ppCQueue c ! unat cqid \<noteq> None")
  case True
  obtain d where r: "createSQueue sqid cqid sz pri c = Inr (0, d)" and sh: "cqShape d = cqShape c"
    "sqShape d = (sqShape c)[unat sqid := Some (sqid, cqid)]" "nc_lCQFIFO d = nc_lCQFIFO c" "nc_aggregationMap d = nc_aggregationMap c"
    using True by (auto simp: createSQueue_def ptrAt_def sqShape_def cqShape_def setSQ_def map_update SQueue_new_def setBase_def Let_def)
  have "sqShape c ! unat sqid = None" using True by (simp add: shape_lists)
  then have "unat sqid \<noteq> 0" using assms unfolding ctrl_wf_def shape_ok_def by (metis option.distinct(1))
  then have "shape_ok (sqShape d) (cqShape d) (fst ` set (nc_aggregationMap d))"
    using assms True shape_add_sq [of "sqShape c" "cqShape c" _ sqid cqid] unfolding ctrl_wf_def sh by (simp add: shape_lists)
  then show ?thesis using r sh(3,4) assms by (simp add: ctrl_wf_def)
next
  case False
  then show ?thesis using assms by (auto simp: createSQueue_def ptrAt_def guardE_def split: option.split)
qed

lemma usesCQ_False:
  "usesCQ cqid sqs js = Inr False \<Longrightarrow> i \<in> set js \<Longrightarrow> i < length sqs \<and> (\<forall>q. sqs ! i = Some q \<longrightarrow> sq_cqID q \<noteq> cqid)"
  by (induction js) (auto split: if_splits option.splits)

lemma deleteCQueue_wf:
  assumes "ctrl_wf c"
  shows "okE (\<lambda>(r, d). ctrl_wf d) (deleteCQueue cqid c)"
proof (cases "\<exists>d. deleteCQueue cqid c = Inr (0, d)")
  case True
  then obtain d where r: "deleteCQueue cqid c = Inr (0, d)" by blast
  obtain q where i: "unat cqid < length (nc_ppCQueue c)" "nc_ppCQueue c ! unat cqid = Some q" "cqid \<noteq> 0"
    and u: "usesCQ cqid (nc_ppSQueue c) [1..<length (nc_ppCQueue c)] = Inr False"
    using r by (auto simp: deleteCQueue_def ptrAt_ok split: option.splits if_splits)
  have sh: "sqShape d = sqShape c" "cqShape d = (cqShape c)[unat cqid := None]" "nc_lCQFIFO d = nc_lCQFIFO c"
    and iv: "nc_aggregationMap d = nc_aggregationMap c \<or>
        (\<not> (\<exists>x\<in>set (drop 1 (nc_ppCQueue d)). case x of None \<Rightarrow> False | Some y \<Rightarrow> cq_interruptVector y = cq_interruptVector q) \<and>
         nc_aggregationMap d = AList.delete (cq_interruptVector q) (nc_aggregationMap c))"
    using r i u by (auto simp: deleteCQueue_def ptrAt_def Let_def setCQ_def sqShape_def cqShape_def map_update split: if_splits)
  have nouse: "j \<noteq> cqid" if "k < length (nc_ppSQueue c)" "sqShape c ! k = Some (n, j)" for k n j
  proof (cases "k = 0")
    case True
    then show ?thesis using assms that i(3) by (simp add: ctrl_wf_def shape_ok_def)
  next
    case False
    then have "k \<in> set [1..<length (nc_ppCQueue c)]" using that assms by (simp add: ctrl_wf_def shape_ok_def shape_lists)
    then show ?thesis using usesCQ_False [OF u] that by (auto simp: shape_lists)
  qed
  have d: "distinct (map fst (nc_aggregationMap d))" using iv assms by (auto simp: ctrl_wf_def distinct_delete)
  have other: "v \<in> fst ` set (nc_aggregationMap d)" if k: "k < length (cqShape c)" "k \<noteq> unat cqid" "k \<noteq> 0" "cqShape c ! k = Some (n, v)" for k n v
  proof -
    have v: "v \<in> fst ` set (nc_aggregationMap c)" using assms k by (auto simp: ctrl_wf_def shape_ok_def)
    have len: "length (nc_ppCQueue d) = length (nc_ppCQueue c)" using sh(2) by (metis length_list_update shape_lists(2))
    have "cqShape d ! k = Some (n, v)" using sh(2) k by simp
    then obtain y where y: "nc_ppCQueue d ! k = Some y" "cq_interruptVector y = v" using k len by (auto simp: shape_lists)
    have "drop 1 (nc_ppCQueue d) ! (k - 1) = Some y" "k - 1 < length (drop 1 (nc_ppCQueue d))"
      using y(1) k len by (simp_all add: shape_lists)
    then have "Some y \<in> set (drop 1 (nc_ppCQueue d))" by (metis nth_mem)
    then have "nc_aggregationMap d = nc_aggregationMap c \<or>
        v \<noteq> cq_interruptVector q \<and> nc_aggregationMap d = AList.delete (cq_interruptVector q) (nc_aggregationMap c)"
      using iv y(2) by fastforce
    then show ?thesis using v delete_keys [of "cq_interruptVector q" "nc_aggregationMap c"] by (metis Diff_iff empty_iff insert_iff set_map set_removeAll)
  qed
  have "shape_ok (sqShape d) (cqShape d) (fst ` set (nc_aggregationMap d))"
    unfolding shape_ok_def sh
  proof (intro conjI allI impI)
    fix k n j assume k: "k < length (sqShape c)" "sqShape c ! k = Some (n, j)"
    have w: "unat n = k \<and> unat j < length (cqShape c) \<and> cqShape c ! unat j \<noteq> None" using assms k by (auto simp: ctrl_wf_def shape_ok_def)
    then show "unat n = k" by blast
    show "unat j < length ((cqShape c)[unat cqid := None])" using w by simp
    have "j \<noteq> cqid" using nouse [of k n j] k shape_lists(1) [of c] by simp
    then have "unat j \<noteq> unat cqid" by (metis word_unat_eq_iff)
    then show "(cqShape c)[unat cqid := None] ! unat j \<noteq> None" using w by simp
  next
    fix k n v assume k: "k < length ((cqShape c)[unat cqid := None])" "(cqShape c)[unat cqid := None] ! k = Some (n, v)"
    then have k': "k \<noteq> unat cqid \<and> cqShape c ! k = Some (n, v)" by (cases "k = unat cqid") simp_all
    then show "unat n = k" using assms k by (auto simp: ctrl_wf_def shape_ok_def)
    show "v \<in> fst ` set (nc_aggregationMap d)" if "k \<noteq> 0" using other k k' that by simp
  qed (use assms i(3) in \<open>auto simp: ctrl_wf_def shape_ok_def unat_eq_zero\<close>)
  then show ?thesis using r sh(3) assms d by (simp add: ctrl_wf_def)
next
  case False
  then show ?thesis using assms by (auto simp: okE_iff deleteCQueue_def ptrAt_ok Let_def split: option.splits if_splits)
qed

lemma abortAll_wf: "ctrl_wf c \<Longrightarrow> okE (\<lambda>(r, d). ctrl_wf d \<and> nc_ppSQueue d = nc_ppSQueue c) (abortAll now sqid h ws c)"
proof (induction "length ws" arbitrary: ws c rule: less_induct)
  case less
  have tl: "okE (\<lambda>(r, d). ctrl_wf d \<and> nc_ppSQueue d = nc_ppSQueue c)
      (bindE (abortAll now sqid h vs c1) (\<lambda>(rest, c2). Inr (v # rest, c2)))"
    if "length vs < length ws" "ctrl_wf c1" "nc_ppSQueue c1 = nc_ppSQueue c" for vs c1 v
    using less(1) [OF that(1,2)] that(3) by (cases "abortAll now sqid h vs c1") auto
  show ?case
  proof (cases ws)
    case (Cons w us)
    show ?thesis
    proof (cases "sqw_sqID w = sqid")
      case True
      have step: "okE (\<lambda>(r, d). ctrl_wf d \<and> nc_ppSQueue d = nc_ppSQueue c)
          (case us of [] \<Rightarrow> Inl (UB ''increment of the end iterator'')
           | v # vs \<Rightarrow> bindE (abortAll now sqid h vs c1) (\<lambda>(rest, c2). Inr (v # rest, c2)))"
        if "ctrl_wf c1 \<and> nc_ppSQueue c1 = nc_ppSQueue c" for c1
        using tl [of _ c1] that Cons by (cases us) simp_all
      show ?thesis
        by (simp add: Cons True) (rule okE_bindI [OF submit_wf [OF less(2)]], erule step)
    next
      case False
      then show ?thesis using Cons tl [OF _ less(2)] by simp
    qed
  qed (use less(2) in simp)
qed

lemma shape_drop_sq:
  assumes "shape_ok sq cq ivs" and "i \<noteq> 0"
  shows "shape_ok (sq[i := None]) cq ivs"
  unfolding shape_ok_def
proof (intro conjI allI impI)
  fix k j e assume k: "k < length (sq[i := None])" "sq[i := None] ! k = Some (j, e)"
  then have "sq ! k = Some (j, e)" by (cases "k = i") simp_all
  then show "unat j = k" "unat e < length cq" "cq ! unat e \<noteq> None" using shape_okD(1) [OF assms(1), of k j e] k(1) by simp_all
next
  fix k j v assume "k < length cq" "cq ! k = Some (j, v)"
  then show "unat j = k" "k \<noteq> 0 \<Longrightarrow> v \<in> ivs" using shape_okD(2) [OF assms(1)] by blast+
qed (use shape_okD(3-) [OF assms(1)] assms(2) in simp_all)

lemma deleteSQueue_wf:
  assumes "ctrl_wf c"
  shows "okE (\<lambda>(r, d). ctrl_wf d) (deleteSQueue now sqid c)"
proof -
  have "ctrl_wf (setSQ (unat sqid) None (d\<lparr>nc_lSQFIFO := r\<rparr>))" if "ctrl_wf d" "sqid \<noteq> 0" for d r
  proof -
    have "unat sqid \<noteq> 0" using that(2) by (simp add: unat_eq_zero)
    then show ?thesis using that(1) shape_drop_sq [of "sqShape d" "cqShape d" _ "unat sqid"]
      by (simp add: ctrl_wf_def setSQ_def sqShape_def cqShape_def map_update)
  qed
  then show ?thesis
    using assms abortAll_wf [OF assms, of now sqid _ "nc_lSQFIFO c"] unfolding deleteSQueue_def okE_iff
    by (fastforce simp: ptrAt_ok split: option.splits if_splits)
qed

lemma ctrl_wf_lSQFIFO [simp]: "ctrl_wf (c\<lparr>nc_lSQFIFO := x\<rparr>) = ctrl_wf c"
  by (simp add: ctrl_wf_def sqShape_def cqShape_def)

lemma abort_wf: "ctrl_wf c \<Longrightarrow> okE (\<lambda>(r, d). ctrl_wf d) (abort now sqid cid c)"
  using submit_wf unfolding abort_def okE_iff
  by (fastforce simp: ptrAt_ok split: option.splits)

lemma setCoalescing_wf: "ctrl_wf c \<Longrightarrow> ctrl_wf (setCoalescing iv en c)"
proof -
  assume wf: "ctrl_wf c"
  have "map fst (AList.update iv v m) = map fst m" if "map_of m iv = Some a" for m v and a :: AggregationInfo
    using that by (induction m) (auto split: if_splits)
  then show ?thesis using wf
    by (cases "map_of (nc_aggregationMap c) iv")
       (auto intro!: ctrl_wf_same [OF wf] simp: setCoalescing_def sqShape_def cqShape_def ctrl_wf_def [of c])
qed

text \<open>Arbitration moves heads only.\<close>

definition coShape :: "collect \<Rightarrow> (u16 \<times> u16) option list" where
  "coShape c = map (map_option (\<lambda>q. (nq_id q, sq_cqID q))) (co_queues c)"

lemma coShape_simps [simp]:
  "coShape (c\<lparr>co_updated := u\<rparr>) = coShape c" "coShape (c\<lparr>co_total_updated := t\<rparr>) = coShape c"
  "coShape (fst (countUpdate c)) = coShape c" "coShape (fst (countWeighted w c)) = coShape c" "coShape (fst (countOne c)) = coShape c"
  by (simp_all add: coShape_def countUpdate_def countWeighted_def countOne_def Let_def)

lemma checkQueue_shape:
  assumes "checkQueue i q = Some (f, q')" and "co_queues c ! i = Some q"
  shows "coShape (c\<lparr>co_queues := (co_queues c)[i := Some q'], co_fetches := fs\<rparr>) = coShape c"
proof -
  have "nq_id q' = nq_id q \<and> sq_cqID q' = sq_cqID q"
    using assms(1) by (auto simp: checkQueue_def SQueue_getData_eq split: if_splits)
  then have "map_option (\<lambda>q. (nq_id q, sq_cqID q)) (Some q') = coShape c ! i" if "i < length (co_queues c)"
    using assms(2) that by (simp add: coShape_def)
  then show ?thesis
    by (cases "i < length (co_queues c)") (auto simp: coShape_def map_update list_update_same_conv list_update_beyond)
qed

lemma sweep_shape: "(\<And>c. coShape (fst (hit c)) = coShape c) \<Longrightarrow> coShape (sweep sel hit js c) = coShape c"
proof (induction js arbitrary: c)
  case (Cons i js)
  have "coShape d = coShape c" if "co_queues c ! i = Some q" "checkQueue i q = Some (f, q')"
    "hit (c\<lparr>co_queues := (co_queues c)[i := Some q'], co_fetches := co_fetches c @ [f]\<rparr>) = (d, l)" for q f q' d l
    using Cons.prems checkQueue_shape [OF that(2,1)] that(3) by (metis fst_conv)
  then show ?case using Cons by (auto split: option.split prod.split)
qed simp

lemma roundRobin_shape: "okE (\<lambda>d. coShape d = coShape c) (roundRobin n sel js c)"
proof (induction n arbitrary: c)
  case (Suc n)
  show ?case using Suc [of "(sweep sel countUpdate js c)\<lparr>co_updated := 0\<rparr>"] by (simp add: Let_def sweep_shape)
qed simp

lemma adminLoop_shape: "okE (\<lambda>d. coShape d = coShape c) (adminLoop n c)"
proof (induction n arbitrary: c)
  case (Suc n)
  have "okE (\<lambda>d. coShape d = coShape c) (adminLoop n (c\<lparr>co_queues := (co_queues c)[0 := Some q'], co_fetches := fs\<rparr>))"
    if "co_queues c ! 0 = Some q" "checkQueue 0 q = Some (f, q')" for q f q' fs
    using Suc [of "c\<lparr>co_queues := (co_queues c)[0 := Some q'], co_fetches := fs\<rparr>"] checkQueue_shape [OF that(2,1)] by simp
  then show ?case by (auto split: option.split)
qed simp

lemma weightedLoop_shape: "okE (\<lambda>d. coShape d = coShape c) (weightedLoop n wh wm js c)"
proof (induction n arbitrary: c)
  case (Suc n)
  let ?c3 = "sweep (\<lambda>q. sq_priority q = PRIORITY_MEDIUM) countOne js
    (sweep (\<lambda>q. sq_priority q = PRIORITY_MEDIUM) (countWeighted wm) js (sweep (\<lambda>q. sq_priority q = PRIORITY_HIGH) (countWeighted wh) js c))"
  have "coShape ?c3 = coShape c" by (simp add: sweep_shape)
  then show ?case using Suc [of "?c3\<lparr>co_total_updated := 0\<rparr>"] by (simp add: Let_def)
qed simp

lemma arbitrate_shape: "okE (\<lambda>d. coShape d = coShape c) (arbitrate n arb wh wm c)"
proof -
  have trans: "okE (\<lambda>d. coShape d = coShape a) m" if "okE (\<lambda>d. coShape d = coShape b) m" "coShape b = coShape a" for a b m
    using that by simp
  show ?thesis
    unfolding arbitrate_def Let_def
    by (auto intro!: okE_bindI [OF adminLoop_shape] okE_bindI [OF trans [OF roundRobin_shape]] trans [OF weightedLoop_shape] roundRobin_shape)
qed

lemma collectSQueue_wf: "ctrl_wf c \<Longrightarrow> okE (\<lambda>(fs, d). ctrl_wf d) (collectSQueue wh wm c)"
proof -
  assume wf: "ctrl_wf c"
  let ?s = "\<lparr>co_queues = nc_ppSQueue c, co_fetches = [], co_updated = 0, co_total_updated = 0\<rparr>"
  have "ctrl_wf (c\<lparr>nc_ppSQueue := co_queues d\<rparr>)" if "coShape d = coShape ?s" for d
    using wf that by (simp add: ctrl_wf_def coShape_def sqShape_def cqShape_def)
  then show ?thesis
    using wf by (auto simp: collectSQueue_def intro!: okE_bindI [OF arbitrate_shape])
qed

lemma work_wf: "ctrl_wf c \<Longrightarrow> okE (\<lambda>(fs, d). ctrl_wf d) (work wh wm c)"
  by (auto simp: work_def intro!: okE_bindI [OF collectSQueue_wf])

text \<open>Completion keeps the tables; a queue that is written has its identifier and vector as before.\<close>

lemma setCQ_shape:
  assumes "nc_ppCQueue c ! i = Some q" and "nq_id q' = nq_id q" and "cq_interruptVector q' = cq_interruptVector q"
  shows "cqShape (setCQ i (Some q') c) = cqShape c"
  using assms by (cases "i < length (nc_ppCQueue c)") (simp_all add: cqShape_def setCQ_def map_update list_update_same_conv list_update_beyond)

lemma setSQ_shape:
  assumes "nc_ppSQueue c ! i = Some q" and "nq_id q' = nq_id q" and "sq_cqID q' = sq_cqID q"
  shows "sqShape (setSQ i (Some q') c) = sqShape c"
  using assms by (cases "i < length (nc_ppSQueue c)") (simp_all add: sqShape_def setSQ_def map_update list_update_same_conv list_update_beyond)

lemma set_fields [simp]:
  "sqShape (setCQ i p c) = sqShape c" "cqShape (setSQ i p' c) = cqShape c"
  "nc_aggregationMap (setCQ i p c) = nc_aggregationMap c" "nc_aggregationMap (setSQ i p' c) = nc_aggregationMap c"
  "nc_lCQFIFO (setCQ i p c) = nc_lCQFIFO c" "nc_lCQFIFO (setSQ i p' c) = nc_lCQFIFO c"
  by (simp_all add: sqShape_def cqShape_def setCQ_def setSQ_def)

lemma update_keys: "map_of m iv = Some a \<Longrightarrow> map fst (AList.update iv b m) = map fst m"
  by (induction m) (auto split: if_splits)

lemma collectVector_wf:
  assumes "ctrl_wf c" and "collectVector now e q (d, c) = (d', c')"
  shows "ctrl_wf c'"
  using assms unfolding collectVector_def
  by (auto simp: Let_def sqShape_def cqShape_def update_keys ctrl_wf_def [of c] split: if_splits option.splits prod.splits
      intro!: ctrl_wf_same [OF assms(1)])

lemma postEntry_wf: "ctrl_wf (snd s) \<Longrightarrow> okE (\<lambda>s'. ctrl_wf (snd s')) (postEntry now e s)"
proof -
  assume wf: "ctrl_wf (snd s)"
  obtain d c where s: "s = (d, c)" by (cases s)
  have "ctrl_wf b"
    if q: "nc_ppCQueue c ! unat (cqw_cqID e) = Some q" and w: "CQueue_setData (cqw_entry e) q = Inr ((off, x), q')"
      and v: "collectVector now e q' (d1, setCQ (unat (cqw_cqID e)) (Some q') c) = (a, b)" for q q' off x d1 a b
  proof -
    have "nq_id q' = nq_id q \<and> cq_interruptVector q' = cq_interruptVector q"
      using w by (auto simp: CQueue_setData_eq Let_def)
    then have "ctrl_wf (setCQ (unat (cqw_cqID e)) (Some q') c)"
      using wf s setCQ_shape [OF q, of q'] by (simp add: ctrl_wf_def)
    then show ?thesis using collectVector_wf v by blast
  qed
  then show ?thesis unfolding postEntry_def s okE_iff by (auto simp: ptrAt_ok split: option.splits)
qed

lemma completion_wf: "ctrl_wf c \<Longrightarrow> okE (\<lambda>(d, c'). ctrl_wf c') (completion now c)"
proof -
  assume wf: "ctrl_wf c"
  let ?c = "c\<lparr>nc_lCQFIFO := filter (\<lambda>e. \<not> cqw_submitAt e \<le> now) (nc_lCQFIFO c)\<rparr>"
  have "sorted (map cqw_submitAt (filter P (nc_lCQFIFO c)))" for P
    using wf sorted_wrt_filter [of "\<lambda>x y. cqw_submitAt x \<le> cqw_submitAt y" "nc_lCQFIFO c" P] by (simp add: ctrl_wf_def sorted_map)
  then have c: "ctrl_wf ?c" using wf by (simp add: ctrl_wf_def sqShape_def cqShape_def)
  have e: "ctrl_wf c'" if "ctrl_wf (snd s)" "expire now s = (d, c')" for s d c'
    using that by (auto simp: expire_def sqShape_def cqShape_def ctrl_wf_def [of "snd s"] comp_def case_prod_unfold
        split: prod.splits intro!: ctrl_wf_same [OF that(1)])
  have "okE (\<lambda>s. ctrl_wf (snd s)) (foldE (postEntry now) xs (\<lparr>cp_posts = [], cp_ivToPost = []\<rparr>, ?c))" for xs
    using foldE_okE [where P = "\<lambda>s. ctrl_wf (snd s)", of _ xs "postEntry now"] c postEntry_wf by simp
  then show ?thesis using e unfolding completion_def okE_iff by (fastforce split: prod.splits)
qed

section \<open>Sequences of operations\<close>

datatype ctrl_cmd =
    WriteRegister tick nat nat u64
  | ReadRegister nat nat
  | RingCQ u16 u16
  | RingSQ u16 u16
  | CreateCQ bool SQEntryWrapper
  | CreateSQ SQEntryWrapper
  | DeleteCQ SQEntryWrapper
  | DeleteSQ tick SQEntryWrapper
  | AbortCmd tick SQEntryWrapper
  | SetFeatures u32 u32 SQEntryWrapper u32
  | Work u16 u16
  | DoRead fetch SQEntry
  | WorkCollected tick
  | HandleRequest tick
  | Submit tick CQEntryWrapper
  | Completion tick
  | CompletionSend Completion

text \<open>One step of the controller, by the component that calls it: driver, subsystem or engine.\<close>

fun ctrl_exec :: "ctrl_cmd \<Rightarrow> Controller \<Rightarrow> Controller res" where
  "ctrl_exec (WriteRegister now off sz v) c = writeRegister now off sz v c"
| "ctrl_exec (ReadRegister off sz) c = bindE (readRegister off sz c) (\<lambda>(bs, d). Inr d)"
| "ctrl_exec (RingCQ qid h) c = bindE (ringCQHeadDoorbell qid h c) (\<lambda>(ints, d). Inr d)"
| "ctrl_exec (RingSQ qid t) c = ringSQTailDoorbell qid t c"
| "ctrl_exec (CreateCQ junk req) c = bindE (subCreateCQ junk req c) (\<lambda>(a, d). Inr d)"
| "ctrl_exec (CreateSQ req) c = bindE (subCreateSQ req c) (\<lambda>(a, d). Inr d)"
| "ctrl_exec (DeleteCQ req) c = bindE (subDeleteCQ req c) (\<lambda>(a, d). Inr d)"
| "ctrl_exec (DeleteSQ now req) c = bindE (subDeleteSQ now req c) (\<lambda>(a, d). Inr d)"
| "ctrl_exec (AbortCmd now req) c = bindE (subAbort now req c) (\<lambda>(a, d). Inr d)"
| "ctrl_exec (SetFeatures cqs sqs req n) c = bindE (subSetFeatures cqs sqs req n c) (\<lambda>(a, k, d). Inr d)"
| "ctrl_exec (Work wh wm) c = bindE (work wh wm c) (\<lambda>(fs, d). Inr d)"
| "ctrl_exec (DoRead f x) c = doRead f x c"
| "ctrl_exec (WorkCollected now) c = Inr (workCollected now c)"
| "ctrl_exec (HandleRequest now) c = Inr (snd (handleRequest now c))"
| "ctrl_exec (Submit now e) c = submit now e c"
| "ctrl_exec (Completion now) c = bindE (completion now c) (\<lambda>(d, c'). Inr c')"
| "ctrl_exec (CompletionSend d) c = Inr (snd (completionSend d c))"

lemma wf_by_fields:
  assumes "ctrl_wf c" and "nc_ppCQueue d = nc_ppCQueue c" and "nc_ppSQueue d = nc_ppSQueue c"
    and "nc_aggregationMap d = nc_aggregationMap c" and "nc_lCQFIFO d = nc_lCQFIFO c"
  shows "ctrl_wf d"
  using assms by (simp add: ctrl_wf_def sqShape_def cqShape_def)

lemma rebase_shape:
  assumes "\<And>q. f (setBase st q) = f q"
  shows "map (map_option f) (rebase st qs) = map (map_option f) qs"
  using assms by (cases qs) (auto simp: rebase_def option.map_comp comp_def)

lemma writeConfiguration_wf: "ctrl_wf c \<Longrightarrow> ctrl_wf (writeConfiguration now v c)"
  by (rule ctrl_wf_same [where c = c])
     (simp_all add: writeConfiguration_def Let_def schedule_def sqShape_def cqShape_def rebase_shape setBase_def ctrl_wf_def)

lemma adminInit_wf:
  assumes "ctrl_wf c"
  shows "ctrl_wf (adminInit c)"
proof (cases "nc_adminQueueInited c = 4")
  case True
  let ?S = "sqShape c" and ?C = "cqShape c" and ?I = "fst ` set (nc_aggregationMap c)"
  note ok = assms [unfolded ctrl_wf_def]
  have C: "shape_ok ?S (?C[0 := Some (0, 0)]) ?I"
    unfolding shape_ok_def
  proof (intro conjI allI impI)
    fix k j d assume "k < length ?S" "?S ! k = Some (j, d)"
    note w = shape_okD(1) [OF conjunct1 [OF ok] this]
    then show "unat j = k" "unat d < length (?C[0 := Some (0, 0)])" by simp_all
    show "?C[0 := Some (0, 0)] ! unat d \<noteq> None" using w by (cases "unat d = 0") simp_all
  next
    fix k j v assume k: "k < length (?C[0 := Some (0, 0)])" "?C[0 := Some (0, 0)] ! k = Some (j, v)"
    then show "unat j = k" using shape_okD(2) [OF conjunct1 [OF ok], of k j v] by (cases "k = 0") auto
    show "v \<in> ?I" if "k \<noteq> 0" using k that shape_okD(2) [OF conjunct1 [OF ok], of k j v] by simp
  qed (use shape_okD(3-) [OF conjunct1 [OF ok]] in simp_all)
  have S: "?S[0 := Some (0, 0)] = ?S"
    using shape_okD(5) [OF conjunct1 [OF ok]] list_update_id [of ?S 0] by simp
  have "sqShape (adminInit c) = ?S[0 := Some (0, 0)]" "cqShape (adminInit c) = ?C[0 := Some (0, 0)]"
    "nc_aggregationMap (adminInit c) = nc_aggregationMap c" "nc_lCQFIFO (adminInit c) = nc_lCQFIFO c"
    using True by (simp_all add: adminInit_def Let_def sqShape_def cqShape_def setSQ_def setCQ_def map_update SQueue_new_def CQueue_new_def)
  then show ?thesis using C S ok by (simp add: ctrl_wf_def)
next
  case False
  then show ?thesis using assms by (simp add: adminInit_def)
qed

lemma writeRegister_wf: "ctrl_wf c \<Longrightarrow> okE ctrl_wf (writeRegister now off sz v c)"
proof -
  assume wf: "ctrl_wf c"
  have "okE ctrl_wf (writeRegister4 now off w c)" for w
    using writeConfiguration_wf [OF wf, of now w] wf_by_fields [OF wf] by (simp add: writeRegister4_def Let_def)
  moreover have "okE ctrl_wf (writeRegister8 off v c)"
    using wf_by_fields [OF wf] by (simp add: writeRegister8_def Let_def)
  ultimately show ?thesis unfolding writeRegister_def
    by (intro okE_bindI [where P = ctrl_wf]) (auto simp: adminInit_wf)
qed

lemma ringDoorbell_wf:
  assumes "ctrl_wf c"
  shows "okE (\<lambda>(i, d). ctrl_wf d) (ringCQHeadDoorbell qid h c)" and "okE ctrl_wf (ringSQTailDoorbell qid t c)"
proof -
  have "ctrl_wf (setCQ (unat qid) (Some (CQueue_setHead h q)) c)" if "nc_ppCQueue c ! unat qid = Some q" for q
    using assms setCQ_shape [OF that, of "CQueue_setHead h q"] by (simp add: ctrl_wf_def CQueue_setHead_def)
  then show "okE (\<lambda>(i, d). ctrl_wf d) (ringCQHeadDoorbell qid h c)"
    using assms by (auto simp: ringCQHeadDoorbell_def okE_iff ptrAt_ok Let_def split: option.splits)
  have "ctrl_wf (setSQ (unat qid) (Some (SQueue_setTail t q)) c)" if "nc_ppSQueue c ! unat qid = Some q" for q
    using assms setSQ_shape [OF that, of "SQueue_setTail t q"] by (simp add: ctrl_wf_def SQueue_setTail_def)
  then show "okE ctrl_wf (ringSQTailDoorbell qid t c)"
    using assms by (auto simp: ringSQTailDoorbell_def okE_iff ptrAt_ok split: option.splits)
qed

lemma okE_snd: "okE (\<lambda>(a, d). P d) m \<Longrightarrow> okE P (bindE m (\<lambda>(a, d). Inr d))"
  by (cases m) auto

lemma sub_wf:
  assumes "ctrl_wf c"
  shows "okE (\<lambda>(a, d). ctrl_wf d) (subCreateCQ junk req c)" and "okE (\<lambda>(a, d). ctrl_wf d) (subCreateSQ req c)"
    and "okE (\<lambda>(a, d). ctrl_wf d) (subDeleteCQ req c)" and "okE (\<lambda>(a, d). ctrl_wf d) (subDeleteSQ now req c)"
    and "okE (\<lambda>(a, d). ctrl_wf d) (subAbort now req c)" and "okE (\<lambda>(a, k, d). ctrl_wf d) (subSetFeatures cqs sqs req n c)"
proof -
  have keep: "okE (\<lambda>(a, d). ctrl_wf d) (bindE m (\<lambda>(ret, c'). Inr (f ret, c')))" if "okE (\<lambda>(r, d). ctrl_wf d) m" for m and f :: "nat \<Rightarrow> Answer"
    using that by (cases m) auto
  show "okE (\<lambda>(a, d). ctrl_wf d) (subCreateCQ junk req c)" "okE (\<lambda>(a, d). ctrl_wf d) (subCreateSQ req c)"
    "okE (\<lambda>(a, d). ctrl_wf d) (subDeleteCQ req c)" "okE (\<lambda>(a, d). ctrl_wf d) (subDeleteSQ now req c)"
    "okE (\<lambda>(a, d). ctrl_wf d) (subAbort now req c)"
    using assms keep [OF createCQueue_wf [OF assms]] keep [OF createSQueue_wf [OF assms]] keep [OF deleteCQueue_wf [OF assms]]
      keep [OF deleteSQueue_wf [OF assms]] keep [OF abort_wf [OF assms]]
    by (simp_all add: subCreateCQ_def subCreateSQ_def subDeleteCQ_def subDeleteSQ_def subAbort_def Let_def)
  show "okE (\<lambda>(a, k, d). ctrl_wf d) (subSetFeatures cqs sqs req n c)"
    using assms wf_by_fields [OF assms] setCoalescing_wf [OF assms]
    by (simp add: subSetFeatures_def Let_def setCoalescingParameter_def guardE_def)
qed

lemma ctrl_exec_wf: "ctrl_wf c \<Longrightarrow> okE ctrl_wf (ctrl_exec cmd c)"
proof (cases cmd)
  fix cqs sqs req n assume "ctrl_wf c" "cmd = SetFeatures cqs sqs req n"
  then show ?thesis using sub_wf(6) [of c cqs sqs req n] by (cases "subSetFeatures cqs sqs req n c") auto
qed (auto intro!: okE_snd writeRegister_wf ringDoorbell_wf sub_wf(1-5) work_wf submit_wf [THEN okE_mono] completion_wf
    intro: wf_by_fields simp: readRegister_def doRead_def workCollected_def handleRequest_def schedule_def Let_def
    completionSend_def reserveCompletion_def guardE_def split: option.split list.split)

lemma adminInit_fresh:
  assumes "nc_ppCQueue c = replicate (n + 1) None" and "nc_ppSQueue c = replicate (n + 1) None" and "nc_adminQueueInited c = 4"
    and "nc_aggregationMap c = []" and "nc_lCQFIFO c = []"
  shows "ctrl_wf (adminInit c)"
proof -
  have "shape_ok (Some (0, 0) # replicate n None) (Some (0, 0) # replicate n None) {}"
    unfolding shape_ok_def by (auto simp: nth_Cons split: nat.splits)
  then show ?thesis
    using assms by (simp add: ctrl_wf_def adminInit_def Let_def sqShape_def cqShape_def setSQ_def setCQ_def SQueue_new_def CQueue_new_def)
qed

abbreviation caps :: "Controller \<Rightarrow> u64" where
  "caps c \<equiv> rg_capabilities (nc_registers c)"

lemma writeRegister_caps: "writeRegister now off sz v c = Inr d \<Longrightarrow> caps d = caps c"
proof -
  have "caps (adminInit e) = caps e" for e by (simp add: adminInit_def setSQ_def setCQ_def Let_def)
  moreover have "caps (writeConfiguration now w c) = caps c" for w by (simp add: writeConfiguration_def schedule_def Let_def)
  ultimately show "writeRegister now off sz v c = Inr d \<Longrightarrow> caps d = caps c"
    by (auto simp: writeRegister_def writeRegister4_def writeRegister8_def Let_def split: if_splits)
qed

lemma driverInit_caps: "driverInit adm sqb cqb c = Inr (k, d) \<Longrightarrow> caps d = caps c"
  by (auto simp: driverInit_def readRegister_def Let_def dest!: writeRegister_caps)

lemma driverInit_steps:
  assumes "nc_adminQueueInited c = 0"
  shows "\<exists>k r. driverInit adm sqb cqb c = Inr (k, writeConfiguration 0 0x00460001 (adminInit (c\<lparr>nc_registers := r, nc_adminQueueInited := 4\<rparr>)))"
proof -
  have adm: "adminInit (writeConfiguration 0 v (adminInit (c\<lparr>nc_registers := r, nc_adminQueueInited := 4\<rparr>))) =
      writeConfiguration 0 v (adminInit (c\<lparr>nc_registers := r, nc_adminQueueInited := 4\<rparr>))" for v r
  proof -
    have "nc_adminQueueInited (writeConfiguration 0 v e) = nc_adminQueueInited e" for e
      by (simp add: writeConfiguration_def schedule_def Let_def)
    moreover have "nc_adminQueueInited (adminInit (c\<lparr>nc_registers := r, nc_adminQueueInited := 4\<rparr>)) = 0"
      by (simp add: adminInit_def setSQ_def setCQ_def Let_def)
    moreover have "adminInit e = e" if "nc_adminQueueInited e = 0" for e using that by (simp add: adminInit_def)
    ultimately show ?thesis by metis
  qed
  have "\<exists>k r. driverInit adm sqb cqb c = bindE (writeRegister 0 0x14 4 0x00460001 (adminInit (c\<lparr>nc_registers := r, nc_adminQueueInited := 4\<rparr>))) (\<lambda>d. Inr (k, d))"
    using assms by (auto simp: driverInit_def readRegister_def writeRegister_def [of _ 36] writeRegister_def [of _ 40] writeRegister_def [of _ 48]
        writeRegister4_def writeRegister8_def adminInit_def [of "_\<lparr>nc_adminQueueInited := 0\<rparr>"] adminInit_def [of "c\<lparr>nc_registers := _\<rparr>"]
        adminInit_def [of "c\<lparr>nc_registers := _, nc_adminQueueInited := 2\<rparr>"] Let_def)
  then obtain k r where "driverInit adm sqb cqb c = bindE (writeRegister 0 0x14 4 0x00460001 (adminInit (c\<lparr>nc_registers := r, nc_adminQueueInited := 4\<rparr>))) (\<lambda>d. Inr (k, d))"
    by blast
  moreover have "writeRegister 0 0x14 4 0x00460001 (adminInit (c\<lparr>nc_registers := r, nc_adminQueueInited := 4\<rparr>)) =
      Inr (writeConfiguration 0 0x00460001 (adminInit (c\<lparr>nc_registers := r, nc_adminQueueInited := 4\<rparr>)))"
    using adm [of "0x00460001" r] by (simp add: writeRegister_def writeRegister4_def)
  ultimately show ?thesis by (simp only: bindE_simps) blast
qed

lemma empty_places: "tl xs = replicate n None \<Longrightarrow> xs \<noteq> [] \<Longrightarrow> length xs = n + 1 \<and> (\<forall>i. 0 < i \<and> i \<le> n \<longrightarrow> xs ! i = None)"
  by (cases xs) (auto simp: nth_Cons split: nat.split)

lemma rebase_tl: "tl (rebase st qs) = tl qs" "rebase st qs = [] \<longleftrightarrow> qs = []"
  by (cases qs; simp add: rebase_def)+

lemma driverInit_wf:
  assumes "Controller_new n n m iv = Inr c"
  shows "\<exists>k d. driverInit adm sqb cqb c = Inr (k, d) \<and> ctrl_wf d \<and> maxQueueEntry d = 4096 \<and>
           length (nc_ppCQueue d) = n + 1 \<and> length (nc_ppSQueue d) = n + 1 \<and>
           (\<forall>i. 0 < i \<and> i \<le> n \<longrightarrow> nc_ppCQueue d ! i = None \<and> nc_ppSQueue d ! i = None)"
proof -
  have c: "nc_ppCQueue c = replicate (n + 1) None" "nc_ppSQueue c = replicate (n + 1) None" "nc_adminQueueInited c = 0"
    "nc_aggregationMap c = []" "nc_lCQFIFO c = []" "caps c = 0x0020002028010FFF"
    using assms by (auto simp: Controller_new_def Registers_new_def)
  obtain k r where r: "driverInit adm sqb cqb c = Inr (k, writeConfiguration 0 0x00460001 (adminInit (c\<lparr>nc_registers := r, nc_adminQueueInited := 4\<rparr>)))"
    using driverInit_steps [OF c(3)] by blast
  let ?a = "adminInit (c\<lparr>nc_registers := r, nc_adminQueueInited := 4\<rparr>)"
  let ?d = "writeConfiguration 0 0x00460001 ?a"
  have a: "tl (nc_ppCQueue ?a) = replicate n None" "tl (nc_ppSQueue ?a) = replicate n None" "nc_ppCQueue ?a \<noteq> []" "nc_ppSQueue ?a \<noteq> []"
    using c by (simp_all add: adminInit_def setSQ_def setCQ_def Let_def)
  have d: "tl (nc_ppCQueue ?d) = replicate n None" "tl (nc_ppSQueue ?d) = replicate n None" "nc_ppCQueue ?d \<noteq> []" "nc_ppSQueue ?d \<noteq> []"
    using a by (simp_all add: writeConfiguration_def schedule_def rebase_tl Let_def)
  have "ctrl_wf ?d" using c by (intro writeConfiguration_wf adminInit_fresh) simp_all
  moreover have "maxQueueEntry ?d = 4096" using driverInit_caps [OF r] c(6) by (simp add: maxQueueEntry_def)
  ultimately show ?thesis using r empty_places [OF d(1,3)] empty_places [OF d(2,4)] by blast
qed

text \<open>
  C36. The tables of the controller stay well formed: after the start-up by the driver of a
  controller with as many completion as submission queues, whatever sequence of register writes,
  doorbells, queue commands (valid or not), feature commands, arbitration, requests and completions
  follows, if it runs through then every queue carries the identifier of its place, the admin queues
  exist, every submission queue names a completion queue that exists, the vector of every I/O
  completion queue is in the coalescing table, whose vectors are distinct, and the completion FIFO is
  in the order of submission times.
\<close>

theorem controller_typing:
  assumes "Controller_new n n maxRequest interval = Inr c" and "driverInit adminEntries sqBase cqBase c = Inr (k, d)"
    and "foldE ctrl_exec cmds d = Inr d'"
  shows "ctrl_wf d'"
proof -
  have "ctrl_wf d" using driverInit_wf [OF assms(1), of adminEntries sqBase cqBase] assms(2) by auto
  then have "okE ctrl_wf (foldE ctrl_exec cmds d)" by (rule foldE_okE) (rule ctrl_exec_wf)
  then show ?thesis using assms(3) by simp
qed

definition demoReq :: "u32 \<Rightarrow> u32 \<Rightarrow> SQEntryWrapper" where
  "demoReq d10 d11 = SQEntryWrapper_new (SQEntry_new\<lparr>sqe_dword10 := d10, sqe_dword11 := d11\<rparr>) 0 0 1 0"

lemma demoReq_simps [simp]: "sqe_dword10 (sqw_entry (demoReq a b)) = a" "sqe_dword11 (sqw_entry (demoReq a b)) = b"
  by (simp_all add: demoReq_def SQEntryWrapper_new_def)

lemmas create_defs = subCreateCQ_def subCreateSQ_def createCQueue_def createSQueue_def ptrAt_def lo16_def hi16_def Let_def

lemma demo_create:
  assumes "length (nc_ppCQueue d) = 2" and "length (nc_ppSQueue d) = 2" and "nc_ppCQueue d ! 1 = None" and "nc_ppSQueue d ! 1 = None"
    and "maxQueueEntry d = 4096"
  shows "\<exists>d'. foldE ctrl_exec [CreateCQ False (demoReq 0x00070001 0x00010003), CreateSQ (demoReq 0x00070001 0x00010001), RingSQ 1 2] d = Inr d' \<and>
      map_option sq_cqID (nc_ppSQueue d' ! 1) = Some 1"
  using assms by (simp add: create_defs ringSQTailDoorbell_def setCQ_def setSQ_def maxQueueEntry_def SQueue_new_def setBase_def SQueue_setTail_def)

theorem controller_typing_witness:
  "\<exists>c k d d'. Controller_new 1 1 4 100 = Inr c \<and> driverInit 256 0x1000 0x2000 c = Inr (k, d) \<and>
     foldE ctrl_exec [CreateCQ False (demoReq 0x00070001 0x00010003), CreateSQ (demoReq 0x00070001 0x00010001), RingSQ 1 2] d = Inr d' \<and>
     map_option sq_cqID (nc_ppSQueue d' ! 1) = Some 1 \<and> ctrl_wf d'"
proof -
  obtain c where c: "Controller_new 1 1 4 100 = Inr c" by (simp add: Controller_new_def)
  obtain k d where d: "driverInit 256 0x1000 0x2000 c = Inr (k, d)" "maxQueueEntry d = 4096" "length (nc_ppCQueue d) = 2" "length (nc_ppSQueue d) = 2"
    "nc_ppCQueue d ! 1 = None" "nc_ppSQueue d ! 1 = None"
    using driverInit_wf [OF c, of 256 "0x1000" "0x2000"] by auto
  obtain d' where "foldE ctrl_exec [CreateCQ False (demoReq 0x00070001 0x00010003), CreateSQ (demoReq 0x00070001 0x00010001), RingSQ 1 2] d = Inr d'"
    "map_option sq_cqID (nc_ppSQueue d' ! 1) = Some 1"
    using demo_create [OF d(3-6,2)] by blast
  then show ?thesis using c d(1) controller_typing [OF c d(1)] by blast
qed

text \<open>A controller with the admin queue and one I/O completion queue.\<close>

definition demoQueues :: Controller where
  "demoQueues = (projr (Controller_new 1 1 4 100))\<lparr>nc_ppCQueue := [Some (CQueue_new 0 True 0 4), Some (CQueue_new 1 True 1 8)]\<rparr>"

section \<open>Completion and interrupts\<close>

definition posted :: "CQEntryWrapper \<Rightarrow> u16 \<times> u64 \<times> CQEntry \<Rightarrow> bool" where
  "posted e p \<longleftrightarrow> fst p = cqw_cqID e \<and> (\<exists>ph. snd (snd p) = setPhase ph (cqw_entry e))"

lemma collectVector_posts: "collectVector now e q (d, c) = (d', c') \<Longrightarrow> cp_posts d' = cp_posts d \<and> nc_lCQFIFO c' = nc_lCQFIFO c \<and> nc_calls c' = nc_calls c"
  by (auto simp: collectVector_def Let_def split: if_splits option.splits prod.splits)

lemma postEntry_posts:
  assumes "postEntry now e (d, c) = Inr (d', c')"
  shows "\<exists>p. cp_posts d' = cp_posts d @ [p] \<and> posted e p" and "nc_lCQFIFO c' = nc_lCQFIFO c"
proof -
  obtain q off x q' where w: "CQueue_setData (cqw_entry e) q = Inr ((off, x), q')"
    and v: "collectVector now e q' (d\<lparr>cp_posts := cp_posts d @ [(cqw_cqID e, off, x)]\<rparr>, setCQ (unat (cqw_cqID e)) (Some q') c) = (d', c')"
    using assms by (auto simp: postEntry_def ptrAt_ok split: option.splits)
  have "posted e (cqw_cqID e, off, x)" using w by (auto simp: posted_def CQueue_setData_eq Let_def)
  then show "\<exists>p. cp_posts d' = cp_posts d @ [p] \<and> posted e p" using collectVector_posts [OF v] by auto
  show "nc_lCQFIFO c' = nc_lCQFIFO c" using collectVector_posts [OF v] by simp
qed

lemma posts_all:
  "foldE (postEntry now) es (d, c) = Inr (d', c') \<Longrightarrow>
     \<exists>ps. cp_posts d' = cp_posts d @ ps \<and> list_all2 posted es ps \<and> nc_lCQFIFO c' = nc_lCQFIFO c"
proof (induction es arbitrary: d c)
  case (Cons e es)
  then obtain d1 c1 where 1: "postEntry now e (d, c) = Inr (d1, c1)" "foldE (postEntry now) es (d1, c1) = Inr (d', c')" by auto
  obtain p where p: "cp_posts d1 = cp_posts d @ [p]" "posted e p" using postEntry_posts(1) [OF 1(1)] by blast
  obtain ps where "cp_posts d' = cp_posts d1 @ ps" "list_all2 posted es ps" "nc_lCQFIFO c' = nc_lCQFIFO c1" using Cons.IH [OF 1(2)] by blast
  then show ?case using p postEntry_posts(2) [OF 1(1)] by (intro exI [of _ "p # ps"]) simp
qed simp

lemma earliest_le:
  "\<exists>t. foldl (\<lambda>best (iv, a). if ai_valid a \<and> ai_pending a then earliest best (ai_nextTime a) else best) best m = Some t \<and>
       (\<forall>b. best = Some b \<longrightarrow> t \<le> b) \<and> (\<forall>(iv, a)\<in>set m. ai_valid a \<and> ai_pending a \<longrightarrow> t \<le> ai_nextTime a)"
  if "best \<noteq> None \<or> (\<exists>(iv, a)\<in>set m. ai_valid a \<and> ai_pending a)"
  using that
proof (induction m arbitrary: best)
  case (Cons x m)
  obtain iv a where x: "x = (iv, a)" by (cases x)
  let ?b = "if ai_valid a \<and> ai_pending a then earliest best (ai_nextTime a) else best"
  have "?b \<noteq> None \<or> (\<exists>(iv, a)\<in>set m. ai_valid a \<and> ai_pending a)"
    using Cons.prems x by (auto simp: earliest_def split: option.split)
  then show ?case using Cons.IH [of ?b] x by (fastforce simp: earliest_def split: option.splits if_splits)
qed auto

text \<open>
  C38. \<open>Controller::completion\<close> posts every entry that is due exactly once and in order, each to its
  queue with only the phase bit changed, and keeps the others. But an interrupt that is held back by
  coalescing is lost when its time has come and no entry is due: \<open>reserveCompletion\<close> schedules the
  completion event for it (no later than its time), the event clears the pending mark of every expired
  vector, gives nothing to post (so no interrupt is raised) and schedules nothing.
\<close>

theorem completion_outcome:
  "(completion now c = Inr (r, c') \<longrightarrow>
      nc_lCQFIFO c' = filter (\<lambda>e. \<not> cqw_submitAt e \<le> now) (nc_lCQFIFO c) \<and>
      list_all2 posted (filter (\<lambda>e. cqw_submitAt e \<le> now) (nc_lCQFIFO c)) (case r of None \<Rightarrow> [] | Some d \<Rightarrow> cp_posts d)) \<and>
   (nc_lCQFIFO c = [] \<longrightarrow>
      ((iv, a) \<in> set (nc_aggregationMap c) \<longrightarrow> ai_valid a \<and> ai_pending a \<longrightarrow>
         (\<exists>t\<le>ai_nextTime a. nc_calls (reserveCompletion c) = nc_calls c @ [(CompletionEvent, Some t)])) \<and>
      completion now c = Inr (None, c\<lparr>nc_aggregationMap := map (\<lambda>(iv, a).
         (iv, if expired now a then a\<lparr>ai_nextTime := now + nc_aggregationTime c, ai_requestCount := 0, ai_pending := False\<rparr> else a))
         (nc_aggregationMap c)\<rparr>))"
proof (intro conjI impI)
  assume "completion now c = Inr (r, c')"
  then obtain d1 c1 where f: "foldE (postEntry now) (filter (\<lambda>e. cqw_submitAt e \<le> now) (nc_lCQFIFO c))
      (\<lparr>cp_posts = [], cp_ivToPost = []\<rparr>, c\<lparr>nc_lCQFIFO := filter (\<lambda>e. \<not> cqw_submitAt e \<le> now) (nc_lCQFIFO c)\<rparr>) = Inr (d1, c1)"
    and r: "nc_lCQFIFO c' = nc_lCQFIFO c1" "(case r of None \<Rightarrow> [] | Some d \<Rightarrow> cp_posts d) = cp_posts d1"
    by (auto simp: completion_def expire_def split: prod.splits if_splits)
  show "nc_lCQFIFO c' = filter (\<lambda>e. \<not> cqw_submitAt e \<le> now) (nc_lCQFIFO c)"
    and "list_all2 posted (filter (\<lambda>e. cqw_submitAt e \<le> now) (nc_lCQFIFO c)) (case r of None \<Rightarrow> [] | Some d \<Rightarrow> cp_posts d)"
    using posts_all [OF f] r by auto
next
  assume "nc_lCQFIFO c = []" and "(iv, a) \<in> set (nc_aggregationMap c)" and "ai_valid a \<and> ai_pending a"
  then show "\<exists>t\<le>ai_nextTime a. nc_calls (reserveCompletion c) = nc_calls c @ [(CompletionEvent, Some t)]"
    using earliest_le [of None "nc_aggregationMap c"] by (fastforce simp: reserveCompletion_def completionTick_def schedule_def)
next
  assume "nc_lCQFIFO c = []"
  then show "completion now c = Inr (None, c\<lparr>nc_aggregationMap := map (\<lambda>(iv, a).
         (iv, if expired now a then a\<lparr>ai_nextTime := now + nc_aggregationTime c, ai_requestCount := 0, ai_pending := False\<rparr> else a))
         (nc_aggregationMap c)\<rparr>)"
    by (cases c) (simp add: completion_def expire_def case_prod_beta cong: if_cong)
qed

text \<open>A vector whose interrupt is pending until tick 5; the event runs at tick 5.\<close>

definition demoPending :: Controller where
  "demoPending = demoQueues\<lparr>nc_aggregationTime := 100, nc_aggregationThreshold := 8,
     nc_aggregationMap := [(1, \<lparr>ai_nextTime = 5, ai_requestCount = 1, ai_valid = True, ai_pending = True\<rparr>)]\<rparr>"

theorem completion_outcome_witness:
  "(\<exists>t\<le>5. nc_calls (reserveCompletion demoPending) = [(CompletionEvent, Some t)]) \<and>
   (\<exists>c'. completion 5 demoPending = Inr (None, c') \<and> nc_calls c' = [] \<and>
      nc_aggregationMap c' = [(1, \<lparr>ai_nextTime = 105, ai_requestCount = 0, ai_valid = True, ai_pending = False\<rparr>)])"
proof -
  have e: "nc_lCQFIFO demoPending = []" "nc_calls demoPending = []"
    by (simp_all add: demoPending_def demoQueues_def Controller_new_def)
  note out = conjunct2 [OF completion_outcome [of 5 demoPending None demoPending 1 "snd (nc_aggregationMap demoPending ! 0)"], THEN mp, OF e(1)]
  show ?thesis
    using out e(2) by (simp add: demoPending_def expired_def)
qed

end
