(* ===== verification/NvmeNamespace.thy ===== *)
theory NvmeNamespace
  imports NvmeAdmin FtlState
begin

text \<open>
  Namespaces: the subsystem's allocation of logical pages (\<open>hil/nvme/subsystem.cc\<close>: creation,
  deletion, attachment and format), the commands that read and write a namespace
  (\<open>hil/nvme/namespace.cc\<close>) and the conversion of logical blocks to logical pages
  (\<open>Subsystem::convertUnit\<close>), which is what the HIL below is given. Shown are that namespaces never
  share a page, that the conversion addresses exactly the bytes of the blocks, and that nothing keeps
  a command inside of its namespace.
\<close>

section \<open>State\<close>

record NsInformation =
  ni_size :: u64
  ni_capacity :: u64
  ni_utilization :: u64
  ni_sizeInByteL :: u64
  ni_sizeInByteH :: u64
  ni_lbaFormatIndex :: u8
  ni_dataProtectionSettings :: u8
  ni_namespaceSharingCapabilities :: u8
  ni_lbaSize :: u32
  ni_range :: LPNRange

record Namespace =
  ns_info :: NsInformation
  ns_nsid :: u32
  ns_attached :: bool
  ns_allocated :: bool
  ns_formatFinishedAt :: tick

record Subsystem =
  ss_lNamespaces :: "Namespace list"
  ss_logicalPageSize :: u32
  ss_totalLogicalPages :: u64
  ss_allocatedLogicalPages :: u64
  ss_commandCount :: u64

definition lbaSizes :: "u32 list" where
  "lbaSizes = [512, 1024, 2048, 4096]"

definition nLBAFormat :: nat where
  "nLBAFormat = 4"

text \<open>
  The pages a namespace is given: \<open>info\<close> is not \<open>const\<close>, so what a caller left in its range is kept
  when no free area is large enough. The loop that would merge adjacent ranges leaves at its first test
  (\<open>iter != allocated.end()\<close>), so the sorted ranges are inverted as they are.
\<close>

fun invertRanges :: "LPNRange \<Rightarrow> LPNRange list \<Rightarrow> LPNRange list res" where
  "invertRanges cur [] = Inr [cur]"
| "invertRanges cur (r # rs) =
     (if slpn cur \<le> slpn r \<and> slpn cur + nlp cur \<ge> slpn r + nlp r
      then bindE (invertRanges \<lparr>slpn = slpn r + nlp r, nlp = slpn cur + nlp cur - slpn r - nlp r\<rparr> rs)
             (\<lambda>rest. Inr (\<lparr>slpn = slpn cur, nlp = slpn r - slpn cur\<rparr> # rest))
      else Inl (Panic ''BUG''))"

definition requestedPages :: "Subsystem \<Rightarrow> NsInformation \<Rightarrow> u64 res" where
  "requestedPages s info =
     guardE (unat (ni_lbaFormatIndex info) < nLBAFormat) (UB ''array index'')
     (guardE (ss_logicalPageSize s \<noteq> 0) (UB ''division by zero'')
       (Inr (ni_size info div ucast (ss_logicalPageSize s) * ucast (lbaSizes ! unat (ni_lbaFormatIndex info)))))"

definition pickRange :: "u64 \<Rightarrow> LPNRange list \<Rightarrow> LPNRange \<Rightarrow> LPNRange" where
  "pickRange n free old = (case List.find (\<lambda>r. nlp r \<ge> n) free of None \<Rightarrow> old | Some r \<Rightarrow> r\<lparr>nlp := n\<rparr>)"

text \<open>
  \<open>createNamespace\<close> gives whether it succeeded, \<open>info\<close> as it leaves it, and the subsystem. A disk image
  (\<open>Namespace::setData\<close>) is modelled in the theory of disk images.
\<close>

definition createNamespace :: "u32 \<Rightarrow> NsInformation \<Rightarrow> Subsystem \<Rightarrow> (bool \<times> NsInformation \<times> Subsystem) res" where
  "createNamespace nsid info s =
     bindE (requestedPages s info) (\<lambda>n.
       if n > ss_totalLogicalPages s - ss_allocatedLogicalPages s then Inr (False, info, s)
       else bindE (invertRanges \<lparr>slpn = 0, nlp = ss_totalLogicalPages s\<rparr>
                     (sort_key slpn (map (ni_range \<circ> ns_info) (ss_lNamespaces s)))) (\<lambda>free.
              let info1 = info\<lparr>ni_range := pickRange n free (ni_range info)\<rparr>
              in if nlp (ni_range info1) = 0 then Inr (False, info1, s)
                 else (let info2 = info1\<lparr>ni_sizeInByteL := n * ucast (ss_logicalPageSize s), ni_sizeInByteH := 0\<rparr>;
                           ns = \<lparr>ns_info = info2, ns_nsid = nsid, ns_attached = False, ns_allocated = True, ns_formatFinishedAt = 0\<rparr>
                       in Inr (True, info2, s\<lparr>ss_allocatedLogicalPages := ss_allocatedLogicalPages s + n,
                            ss_lNamespaces := sort_key ns_nsid (ss_lNamespaces s @ [ns])\<rparr>))))"

fun takeNamespace :: "u32 \<Rightarrow> Namespace list \<Rightarrow> (Namespace \<times> Namespace list) option" where
  "takeNamespace nsid [] = None"
| "takeNamespace nsid (x # xs) =
     (if ns_nsid x = nsid then Some (x, xs) else map_option (\<lambda>(y, r). (y, x # r)) (takeNamespace nsid xs))"

definition destroyNamespace :: "u32 \<Rightarrow> Subsystem \<Rightarrow> (bool \<times> Subsystem) res" where
  "destroyNamespace nsid s =
     (case takeNamespace nsid (ss_lNamespaces s) of
        None \<Rightarrow> Inr (False, s)
      | Some (x, rest) \<Rightarrow>
          guardE (ss_logicalPageSize s \<noteq> 0) (UB ''division by zero'')
            (Inr (True, s\<lparr>ss_allocatedLogicalPages := ss_allocatedLogicalPages s -
                     ni_size (ns_info x) * ucast (ni_lbaSize (ns_info x)) div ucast (ss_logicalPageSize s),
                   ss_lNamespaces := rest\<rparr>)))"

text \<open>\<open>Subsystem::init\<close>: the configured number of equal namespaces, attached, sharing one \<open>info\<close>.\<close>

definition attachLast :: "Namespace list \<Rightarrow> Namespace list" where
  "attachLast xs = (if xs = [] then [] else butlast xs @ [(last xs)\<lparr>ns_attached := True\<rparr>])"

fun initNamespaces :: "u64 \<Rightarrow> nat list \<Rightarrow> NsInformation \<Rightarrow> Subsystem \<Rightarrow> Subsystem res" where
  "initNamespaces sz [] info s = Inr s"
| "initNamespaces sz (i # js) info s =
     bindE (createNamespace (of_nat i + 1) (info\<lparr>ni_size := sz, ni_capacity := sz\<rparr>) s) (\<lambda>(done, info1, s1).
       if done then initNamespaces sz js info1 (s1\<lparr>ss_lNamespaces := attachLast (ss_lNamespaces s1)\<rparr>)
       else Inl (Panic ''Failed to create namespace''))"

fun indexOf :: "'a \<Rightarrow> 'a list \<Rightarrow> nat" where
  "indexOf x [] = 0"
| "indexOf x (y # ys) = (if x = y then 0 else Suc (indexOf x ys))"

definition Subsystem_init :: "nat \<Rightarrow> u32 \<Rightarrow> u64 \<Rightarrow> u32 \<Rightarrow> Subsystem res" where
  "Subsystem_init nNamespaces lba totalPages lps =
     (let s = \<lparr>ss_lNamespaces = [], ss_logicalPageSize = lps, ss_totalLogicalPages = totalPages,
               ss_allocatedLogicalPages = 0, ss_commandCount = 0\<rparr>;
          idx = indexOf lba lbaSizes
      in if nNamespaces > 0
         then (if idx = nLBAFormat then Inl (Panic ''Failed to setting LBA size (512B ~ 4KB)'')
               else initNamespaces (totalPages * ucast lps div ucast lba div of_nat nNamespaces) [0..<nNamespaces]
                 \<lparr>ni_size = 0, ni_capacity = 0, ni_utilization = 0, ni_sizeInByteL = 0, ni_sizeInByteH = 0,
                  ni_lbaFormatIndex = of_nat idx, ni_dataProtectionSettings = 0, ni_namespaceSharingCapabilities = 0,
                  ni_lbaSize = lba, ni_range = \<lparr>slpn = 0, nlp = 0\<rparr>\<rparr> s)
         else Inr s)"

section \<open>Namespace management\<close>

text \<open>
  The data structure the host sends to create a namespace, decoded. The checks set the status of the
  response but do not stop the creation.
\<close>

definition createStatus :: "NsInformation \<Rightarrow> CQEntryWrapper \<Rightarrow> CQEntryWrapper" where
  "createStatus info resp =
     (if unat (ni_lbaFormatIndex info) \<ge> nLBAFormat then setStatus False 0 11 resp
      else if ni_namespaceSharingCapabilities info \<noteq> 0 then setStatus False 0 2 resp
      else if ni_dataProtectionSettings info \<noteq> 0 then setStatus False 0 2 resp
      else resp)"

definition finishCreate :: "u32 \<Rightarrow> NsInformation \<Rightarrow> CQEntryWrapper \<Rightarrow> Subsystem \<Rightarrow> (CQEntryWrapper \<times> Subsystem) res" where
  "finishCreate nsid info resp s =
     (let resp1 = createStatus info resp
      in guardE (unat (ni_lbaFormatIndex info) < nLBAFormat) (UB ''array index'')
         (bindE (createNamespace nsid (info\<lparr>ni_lbaSize := lbaSizes ! unat (ni_lbaFormatIndex info), ni_range := \<lparr>slpn = 0, nlp = 0\<rparr>\<rparr>) s) (\<lambda>(done, _, s1).
            Inr (if done then setResult nsid resp1 else setStatus False 1 21 resp1, s1))))"

text \<open>The lowest identifier that is free; the list of namespaces is sorted.\<close>

fun freeNSID :: "u32 \<Rightarrow> Namespace list \<Rightarrow> u32" where
  "freeNSID n [] = n"
| "freeNSID n (x # xs) = (if ns_nsid x = n then freeNSID (n + 1) xs else n)"

text \<open>
  \<open>namespaceManagement\<close>; the structure of a creation, which the code reads by DMA before it goes on, is
  given as \<open>info\<close>.
\<close>

definition namespaceManagement :: "SQEntryWrapper \<Rightarrow> NsInformation \<Rightarrow> Subsystem \<Rightarrow> (CQEntryWrapper \<times> Subsystem) res" where
  "namespaceManagement req info s =
     (let resp = CQEntryWrapper_new req; sel = sqe_dword10 (sqw_entry req) AND 0x0F; id = sqe_namespaceID (sqw_entry req)
      in if (sel = 0 \<and> id \<noteq> 0) \<or> sel > 1 then Inr (setStatus False 0 2 resp, s)
         else if sel = 0
         then (let nsid = freeNSID 1 (ss_lNamespaces s)
               in if nsid = 0xFFFFFFFF then Inr (setStatus False 1 22 resp, s)
                  else finishCreate nsid info resp s)
         else bindE (destroyNamespace id s) (\<lambda>(found, s1).
                Inr (if found then resp else setStatus False 0 11 resp, s1)))"

text \<open>\<open>namespaceAttachment\<close>, with the controller list of the host; the loop goes over all namespaces.\<close>

definition attachAll :: "bool \<Rightarrow> u32 \<Rightarrow> Namespace list \<Rightarrow> Namespace list" where
  "attachAll a nsid = map (\<lambda>x. if ns_nsid x = nsid then x\<lparr>ns_attached := a\<rparr> else x)"

definition namespaceAttachment :: "SQEntryWrapper \<Rightarrow> u16 list \<Rightarrow> Subsystem \<Rightarrow> CQEntryWrapper \<times> Subsystem" where
  "namespaceAttachment req ctrls s =
     (let resp = CQEntryWrapper_new req; sel = sqe_dword10 (sqw_entry req) AND 0x0F; id = sqe_namespaceID (sqw_entry req);
          hits = filter (\<lambda>x. ns_nsid x = id) (ss_lNamespaces s)
      in if length ctrls > 1 \<and> sel = 0 then (setStatus False 1 0x19 resp, s)
         else if ctrls = [] then (setStatus False 1 0x1C resp, s)
         else if ctrls ! 0 \<noteq> 0 then (setStatus False 1 0x1C resp, s)
         else if sel = 0
         then (if hits = [] then setStatus True 0 11 resp
               else if \<exists>x\<in>set hits. ns_attached x then setStatus True 1 0x18 resp else resp,
               s\<lparr>ss_lNamespaces := attachAll True id (ss_lNamespaces s)\<rparr>)
         else if sel = 1
         then (if \<exists>x\<in>set hits. \<not> ns_attached x then setStatus True 1 0x1A resp else resp,
               s\<lparr>ss_lNamespaces := attachAll False id (ss_lNamespaces s)\<rparr>)
         else (setStatus False 0 2 resp, s))"

text \<open>
  \<open>formatNVM\<close>: on success the new size is that of the whole device; the number of used pages is what
  \<open>HIL::getUsedPageCount\<close> gives. Returned are the answer (at once, unless the HIL is asked to format)
  and the range that is to be formatted.
\<close>

definition formatInfo :: "Subsystem \<Rightarrow> nat \<Rightarrow> u64 \<Rightarrow> NsInformation \<Rightarrow> NsInformation" where
  "formatInfo s lbaf used info =
     (let lba = lbaSizes ! lbaf; sz = ss_totalLogicalPages s * ucast (ss_logicalPageSize s) div ucast lba
      in info\<lparr>ni_lbaFormatIndex := of_nat lbaf, ni_lbaSize := lba, ni_size := sz, ni_capacity := sz,
              ni_utilization := used * ucast (ss_logicalPageSize s) div ucast lba\<rparr>)"

fun formatFirst :: "u32 \<Rightarrow> (Namespace \<Rightarrow> Namespace) \<Rightarrow> Namespace list \<Rightarrow> Namespace list" where
  "formatFirst nsid f [] = []"
| "formatFirst nsid f (x # xs) = (if ns_nsid x = nsid then f x # xs else x # formatFirst nsid f xs)"

definition formatNVM :: "tick \<Rightarrow> u64 \<Rightarrow> SQEntryWrapper \<Rightarrow> Subsystem \<Rightarrow> CQEntryWrapper option \<times> LPNRange option \<times> Subsystem" where
  "formatNVM now used req s =
     (let resp = CQEntryWrapper_new req; d = sqe_dword10 (sqw_entry req); id = sqe_namespaceID (sqw_entry req);
          ses = drop_bit 9 (d AND 0x0E00); lbaf = unat (d AND 0x0F)
      in if (ses \<noteq> 0 \<and> ses \<noteq> 1) \<or> d AND 0x0100 \<noteq> 0 \<or> d AND 0x10 \<noteq> 0 \<or> drop_bit 5 (d AND 0xE0) \<noteq> 0 \<or> lbaf \<ge> nLBAFormat
         then (Some (setStatus False 0 10 resp), None, s)
         else (case List.find (\<lambda>x. ns_nsid x = id) (ss_lNamespaces s) of
                 None \<Rightarrow> (Some (setStatus False 0 11 resp), None, s)
               | Some x \<Rightarrow>
                   (None, Some (ni_range (ns_info x)),
                    s\<lparr>ss_lNamespaces := formatFirst id (\<lambda>x. x\<lparr>ns_info := formatInfo s lbaf used (ns_info x), ns_formatFinishedAt := now\<rparr>)
                         (ss_lNamespaces s)\<rparr>)))"

section \<open>Input and output\<close>

record HilRequest =
  hr_offset :: u64
  hr_length :: u64
  hr_range :: LPNRange

definition convertUnit :: "Subsystem \<Rightarrow> Namespace \<Rightarrow> u64 \<Rightarrow> u64 \<Rightarrow> HilRequest res" where
  "convertUnit s ns slba nlblk =
     (let info = ns_info ns; lps = ss_logicalPageSize s; lba = ni_lbaSize info; base = slpn (ni_range info)
      in guardE (lba \<noteq> 0) (UB ''division by zero'')
         (let lbaratio = lps div lba
          in if lbaratio = 0
             then guardE (lps \<noteq> 0) (UB ''division by zero'')
               (let lbaratio = ucast (lba div lps)
                in Inr \<lparr>hr_offset = 0, hr_length = nlblk * ucast lba,
                        hr_range = \<lparr>slpn = slba * lbaratio + base, nlp = nlblk * lbaratio\<rparr>\<rparr>)
             else (let lbaratio = ucast lbaratio; off = slba mod lbaratio
                   in Inr \<lparr>hr_offset = off * ucast lba, hr_length = nlblk * ucast lba,
                           hr_range = \<lparr>slpn = slba div lbaratio + base, nlp = (nlblk + off + lbaratio - 1) div lbaratio\<rparr>\<rparr>)))"

text \<open>
  A command that reaches a namespace is answered at once or becomes a transfer; the number of
  blocks, a field of 16 bits counted from 0, is kept in 16 bits.
\<close>

datatype NsOp = NsRead | NsWrite | NsCompare

datatype NsOutcome =
    Respond CQEntryWrapper
  | Transfer NsOp u64 u16
  | FlushNs
  | Trim nat
  | LogPage

definition slbaOf :: "SQEntry \<Rightarrow> u64" where
  "slbaOf e = push_bit 32 (ucast (sqe_dword11 e)) OR ucast (sqe_dword10 e)"

definition nlbOf :: "SQEntry \<Rightarrow> u16" where
  "nlbOf e = ucast (sqe_dword12 e AND 0xFFFF) + 1"

definition nsTransfer :: "NsOp \<Rightarrow> SQEntryWrapper \<Rightarrow> Namespace \<Rightarrow> NsOutcome" where
  "nsTransfer k req ns =
     (let resp = (if ns_attached ns then CQEntryWrapper_new req else setStatus True 1 0x1A (CQEntryWrapper_new req));
          nlb = nlbOf (sqw_entry req)
      in if \<not> ns_attached ns \<or> nlb = 0 then Respond resp else Transfer k (slbaOf (sqw_entry req)) nlb)"

definition nsFlush :: "SQEntryWrapper \<Rightarrow> Namespace \<Rightarrow> NsOutcome" where
  "nsFlush req ns = (if ns_attached ns then FlushNs else Respond (setStatus True 1 0x1A (CQEntryWrapper_new req)))"

definition nsDatasetManagement :: "SQEntryWrapper \<Rightarrow> Namespace \<Rightarrow> NsOutcome" where
  "nsDatasetManagement req ns =
     (let resp = (if ns_attached ns then CQEntryWrapper_new req else setStatus True 1 0x1A (CQEntryWrapper_new req));
          e = sqw_entry req
      in if \<not> ns_attached ns \<or> sqe_dword11 e AND 0x04 = 0 then Respond resp
         else Trim (unat (sqe_dword10 e AND 0xFF) + 1))"

definition nsGetLogPage :: "SQEntryWrapper \<Rightarrow> Namespace \<Rightarrow> NsOutcome" where
  "nsGetLogPage req ns =
     (let resp = CQEntryWrapper_new req; e = sqw_entry req
      in if sqe_dword10 e AND 0xFFFF = 2
         then (if sqe_namespaceID e = ns_nsid ns then LogPage else Respond (setStatus True 1 0x1A resp))
         else Respond (setStatus True 1 9 resp))"

definition Namespace_submitCommand :: "tick \<Rightarrow> SQEntryWrapper \<Rightarrow> Namespace \<Rightarrow> NsOutcome" where
  "Namespace_submitCommand now req ns =
     (let resp = CQEntryWrapper_new req; opcode = sqe_opcode (sqw_entry req)
      in if now < ns_formatFinishedAt ns then Respond (setStatus False 0 0x84 resp)
         else if sqw_sqID req = 0
         then (if opcode = 0x02 then nsGetLogPage req ns else Respond (setStatus True 0 1 resp))
         else if opcode = 0x00 then nsFlush req ns
         else if opcode = 0x01 then nsTransfer NsWrite req ns
         else if opcode = 0x02 then nsTransfer NsRead req ns
         else if opcode = 0x05 then nsTransfer NsCompare req ns
         else if opcode = 0x09 then nsDatasetManagement req ns
         else Respond (setStatus True 0 1 resp))"

text \<open>
  The second half of \<open>Subsystem::submitCommand\<close>: a command that was not processed as an admin
  command goes to the namespace it names, to the first one for \<open>NSID_ALL\<close>, and is refused if there
  is none.
\<close>

definition routeCommand :: "tick \<Rightarrow> SQEntryWrapper \<Rightarrow> Subsystem \<Rightarrow> NsOutcome" where
  "routeCommand now req s =
     (let id = sqe_namespaceID (sqw_entry req);
          target = (if id < 0xFFFFFFFF then List.find (\<lambda>x. ns_nsid x = id) (ss_lNamespaces s)
                    else case ss_lNamespaces s of [] \<Rightarrow> None | x # _ \<Rightarrow> Some x)
      in case target of
           None \<Rightarrow> Respond (setStatus False 0 11 (CQEntryWrapper_new req))
         | Some ns \<Rightarrow> Namespace_submitCommand now req ns)"

definition flushRequest :: "Subsystem \<Rightarrow> Namespace \<Rightarrow> HilRequest" where
  "flushRequest s ns =
     (let r = ni_range (ns_info ns)
      in \<lparr>hr_offset = 0, hr_length = nlp r * ucast (ss_logicalPageSize s), hr_range = r\<rparr>)"

section \<open>Namespaces share no page\<close>

definition pages :: "LPNRange \<Rightarrow> nat set" where
  "pages r = {unat (slpn r)..<unat (slpn r) + unat (nlp r)}"

abbreviation apart :: "LPNRange \<Rightarrow> LPNRange \<Rightarrow> bool" where
  "apart r r' \<equiv> pages r \<inter> pages r' = {}"

abbreviation rangeOf :: "Namespace \<Rightarrow> LPNRange" where
  "rangeOf x \<equiv> ni_range (ns_info x)"

text \<open>The namespaces have distinct identifiers, in order, and each has pages of the device no other has.\<close>

definition subsystem_ok :: "Subsystem \<Rightarrow> bool" where
  "subsystem_ok s \<longleftrightarrow> sorted_wrt apart (map rangeOf (ss_lNamespaces s)) \<and>
     (\<forall>x\<in>set (ss_lNamespaces s). 0 < unat (nlp (rangeOf x)) \<and> pages (rangeOf x) \<subseteq> {..<unat (ss_totalLogicalPages s)} \<and>
        0 < ns_nsid x \<and> ns_nsid x \<noteq> 0xFFFFFFFF) \<and>
     sorted_wrt (<) (map ns_nsid (ss_lNamespaces s))"

lemma u64_bound: "unat (x::u64) < 2 ^ 64"
  using unsigned_less [of x] by simp

lemma u32_bound: "unat (x::u32) < 2 ^ 32"
  using unsigned_less [of x] by simp

lemma unat_add_u64: "unat a + unat b < 2 ^ 64 \<Longrightarrow> unat (a + b :: u64) = unat a + unat b"
  by (simp add: unat_word_ariths)

lemma unat_mult_u64: "unat a * unat b < 2 ^ 64 \<Longrightarrow> unat (a * b :: u64) = unat a * unat b"
  by (simp add: unat_word_ariths)

lemma sorted_wrt_perm:
  assumes "\<And>x y. P x y \<Longrightarrow> P y x" and "sorted_wrt P xs" and "mset ys = mset xs"
  shows "sorted_wrt P ys"
  using assms(2,3)
proof (induction xs arbitrary: ys)
  case (Cons x xs)
  obtain as bs where ys: "ys = as @ x # bs" using Cons.prems(2) by (metis list.set_intros(1) mset_eq_setD split_list)
  then have m: "mset (as @ bs) = mset xs" using Cons.prems(2) by simp
  have "sorted_wrt P (as @ bs)" using Cons.IH [OF _ m] Cons.prems(1) by simp
  moreover have "set (as @ bs) = set xs" by (rule mset_eq_setD [OF m])
  ultimately show ?case using Cons.prems(1) assms(1) by (auto simp: ys sorted_wrt_append)
qed simp

text \<open>Ranges in the order of their start, from page \<open>a\<close> to page \<open>b\<close>, none overlapping the next.\<close>

fun packed :: "nat \<Rightarrow> LPNRange list \<Rightarrow> nat \<Rightarrow> bool" where
  "packed a [] b \<longleftrightarrow> a \<le> b"
| "packed a (r # rs) b \<longleftrightarrow> a \<le> unat (slpn r) \<and> packed (unat (slpn r) + unat (nlp r)) rs b"

lemma packed_le: "packed a rs b \<Longrightarrow> a \<le> b"
proof (induction rs arbitrary: a)
  case (Cons r rs)
  then have "a \<le> unat (slpn r)" "unat (slpn r) + unat (nlp r) \<le> b" by simp_all
  then show ?case by simp
qed simp

lemma packed_starts: "packed a rs b \<Longrightarrow> r \<in> set rs \<Longrightarrow> a \<le> unat (slpn r)"
  by (induction rs arbitrary: a) force+

lemma packed_from_apart:
  assumes "sorted (map slpn rs)" and "sorted_wrt apart rs"
    and "\<forall>r\<in>set rs. 0 < unat (nlp r) \<and> a \<le> unat (slpn r) \<and> unat (slpn r) + unat (nlp r) \<le> b" and "a \<le> b"
  shows "packed a rs b"
  using assms
proof (induction rs arbitrary: a)
  case (Cons r rs)
  have "unat (slpn r) + unat (nlp r) \<le> unat (slpn r')" if "r' \<in> set rs" for r'
  proof (rule ccontr)
    assume "\<not> unat (slpn r) + unat (nlp r) \<le> unat (slpn r')"
    moreover have "unat (slpn r) \<le> unat (slpn r')" using Cons.prems(1) that by (auto simp: word_le_nat_alt)
    moreover have "0 < unat (nlp r')" using Cons.prems(3) that by simp
    ultimately have "unat (slpn r') \<in> pages r \<inter> pages r'" by (simp add: pages_def)
    then show False using Cons.prems(2) that by auto
  qed
  then show ?case using Cons by auto
qed simp

lemma invertRanges_free:
  assumes "packed (unat (slpn l)) rs b" and "b = unat (slpn l) + unat (nlp l)" and "b < 2 ^ 64"
  shows "\<exists>free. invertRanges l rs = Inr free \<and>
    (\<forall>f\<in>set free. unat (slpn l) \<le> unat (slpn f) \<and> unat (slpn f) + unat (nlp f) \<le> b \<and> (\<forall>r\<in>set rs. apart f r))"
  using assms
proof (induction rs arbitrary: l)
  case (Cons r rs)
  have le: "unat (slpn l) \<le> unat (slpn r)" and p: "packed (unat (slpn r) + unat (nlp r)) rs b" using Cons.prems(1) by simp_all
  have e: "unat (slpn r) + unat (nlp r) \<le> b" using packed_le [OF p] .
  have ul: "unat (slpn l + nlp l) = b" and ur: "unat (slpn r + nlp r) = unat (slpn r) + unat (nlp r)"
    using Cons.prems(2,3) e by (simp_all add: unat_add_u64)
  let ?l = "\<lparr>slpn = slpn r + nlp r, nlp = slpn l + nlp l - slpn r - nlp r\<rparr>"
  let ?f = "\<lparr>slpn = slpn l, nlp = slpn r - slpn l\<rparr>"
  have "unat (nlp ?l) = unat ((slpn l + nlp l) - (slpn r + nlp r))" by (simp only: LPNRange.select_convs diff_diff_eq)
  moreover have "slpn r + nlp r \<le> slpn l + nlp l" using ul ur e by (simp add: word_le_nat_alt)
  ultimately have n: "unat (nlp ?l) = b - (unat (slpn r) + unat (nlp r))"
    using ul ur unat_sub [of "slpn r + nlp r" "slpn l + nlp l"] by (simp only: )
  obtain free where fr: "invertRanges ?l rs = Inr free"
    "\<forall>f\<in>set free. unat (slpn ?l) \<le> unat (slpn f) \<and> unat (slpn f) + unat (nlp f) \<le> b \<and> (\<forall>r\<in>set rs. apart f r)"
  proof -
    have "packed (unat (slpn ?l)) rs b" using p ur by simp
    moreover have "b = unat (slpn ?l) + unat (nlp ?l)" unfolding n using ur e by simp
    ultimately show thesis using Cons.IH [of ?l] Cons.prems(3) that by blast
  qed
  have ok: "slpn l \<le> slpn r" "slpn r + nlp r \<le> slpn l + nlp l" using le ul ur e by (simp_all add: word_le_nat_alt)
  have f: "unat (nlp ?f) = unat (slpn r) - unat (slpn l)" using ok(1) by (simp add: unat_sub)
  have "\<forall>q\<in>set (r # rs). apart ?f q"
  proof
    fix q assume "q \<in> set (r # rs)"
    then have "unat (slpn r) \<le> unat (slpn q)" using packed_starts [OF p, of q] by auto
    then show "apart ?f q" using f le by (auto simp: pages_def)
  qed
  then show ?case using fr ok f le ur e by (auto simp: pages_def)
qed simp

lemma pickRange_fits:
  assumes "\<forall>f\<in>set free. Q (pages f)" and "\<And>A B. Q B \<Longrightarrow> A \<subseteq> B \<Longrightarrow> Q A" and "nlp old = 0" and "nlp (pickRange n free old) \<noteq> 0"
  shows "Q (pages (pickRange n free old))"
proof -
  obtain f where f: "List.find (\<lambda>r. nlp r \<ge> n) free = Some f" using assms(3,4) by (auto simp: pickRange_def split: option.splits)
  then have "f \<in> set free" "n \<le> nlp f" by (auto simp: find_Some_iff)
  moreover have "pages (f\<lparr>nlp := n\<rparr>) \<subseteq> pages f" using calculation(2) by (auto simp: pages_def word_le_nat_alt)
  ultimately show ?thesis using assms(1,2) f by (auto simp: pickRange_def)
qed

lemma free_areas:
  assumes "subsystem_ok s"
  shows "\<exists>free. invertRanges \<lparr>slpn = 0, nlp = ss_totalLogicalPages s\<rparr> (sort_key slpn (map (ni_range \<circ> ns_info) (ss_lNamespaces s))) = Inr free \<and>
    (\<forall>f\<in>set free. pages f \<subseteq> {..<unat (ss_totalLogicalPages s)} \<and> (\<forall>x\<in>set (ss_lNamespaces s). apart f (rangeOf x)))"
proof -
  let ?rs = "sort_key slpn (map (ni_range \<circ> ns_info) (ss_lNamespaces s))" and ?T = "unat (ss_totalLogicalPages s)"
  have "sorted_wrt apart ?rs"
    by (rule sorted_wrt_perm [where xs = "map rangeOf (ss_lNamespaces s)"]) (use assms in \<open>auto simp: subsystem_ok_def comp_def\<close>)
  moreover have "unat (slpn r) + unat (nlp r) \<le> ?T" if "0 < unat (nlp r)" "pages r \<subseteq> {..<?T}" for r
  proof -
    have "unat (slpn r) + unat (nlp r) - 1 \<in> pages r" using that(1) by (auto simp: pages_def)
    then show ?thesis using that by auto
  qed
  ultimately have "packed 0 ?rs ?T"
    using assms by (intro packed_from_apart) (auto simp: subsystem_ok_def)
  then obtain free where f: "invertRanges \<lparr>slpn = 0, nlp = ss_totalLogicalPages s\<rparr> ?rs = Inr free"
    "\<forall>f\<in>set free. unat (slpn f) + unat (nlp f) \<le> ?T \<and> (\<forall>r\<in>set ?rs. apart f r)"
  proof -
    have p: "packed (unat (slpn \<lparr>slpn = 0, nlp = ss_totalLogicalPages s\<rparr>)) ?rs ?T" using \<open>packed 0 ?rs ?T\<close> by simp
    have "?T = unat (slpn \<lparr>slpn = 0, nlp = ss_totalLogicalPages s\<rparr>) + unat (nlp \<lparr>slpn = 0, nlp = ss_totalLogicalPages s\<rparr>)" by simp
    from invertRanges_free [OF p this u64_bound] show thesis using that by blast
  qed
  have "pages f \<subseteq> {..<?T}" if "f \<in> set free" for f using f(2) that by (fastforce simp: pages_def)
  then show ?thesis using f by auto
qed

lemma insert_namespace_ok:
  assumes "subsystem_ok s" and "ns_nsid x \<notin> ns_nsid ` set (ss_lNamespaces s)" and "0 < ns_nsid x" and "ns_nsid x \<noteq> 0xFFFFFFFF"
    and "pages (rangeOf x) \<subseteq> {..<unat (ss_totalLogicalPages s)}" and "0 < unat (nlp (rangeOf x))"
    and "\<forall>y\<in>set (ss_lNamespaces s). apart (rangeOf x) (rangeOf y)"
  shows "subsystem_ok (s\<lparr>ss_allocatedLogicalPages := n, ss_lNamespaces := sort_key ns_nsid (ss_lNamespaces s @ [x])\<rparr>)"
proof -
  let ?xs = "ss_lNamespaces s @ [x]" and ?ys = "sort_key ns_nsid (ss_lNamespaces s @ [x])"
  have "sorted_wrt apart (map rangeOf ?xs)" using assms(1,7) by (auto simp: subsystem_ok_def sorted_wrt_append)
  then have a: "sorted_wrt apart (map rangeOf ?ys)" by (rule sorted_wrt_perm [rotated]) auto
  have "distinct (map ns_nsid ?xs)" using assms(1,2) by (auto simp: subsystem_ok_def strict_sorted_iff)
  then have "distinct (map ns_nsid ?ys)" by (metis mset_eq_imp_distinct_iff mset_map mset_sort)
  then have "sorted_wrt (<) (map ns_nsid ?ys)" by (simp add: strict_sorted_iff)
  then show ?thesis using a assms(1,3-6) by (auto simp: subsystem_ok_def)
qed

lemma createNamespace_ok:
  assumes "subsystem_ok s" and "nsid \<notin> ns_nsid ` set (ss_lNamespaces s)" and "0 < nsid \<and> nsid \<noteq> 0xFFFFFFFF" and "nlp (ni_range info) = 0"
    and "createNamespace nsid info s = Inr (done, info', s')"
  shows "subsystem_ok s'"
proof -
  obtain free where f: "invertRanges \<lparr>slpn = 0, nlp = ss_totalLogicalPages s\<rparr> (sort_key slpn (map (ni_range \<circ> ns_info) (ss_lNamespaces s))) = Inr free"
    "\<forall>f\<in>set free. pages f \<subseteq> {..<unat (ss_totalLogicalPages s)} \<and> (\<forall>x\<in>set (ss_lNamespaces s). apart f (rangeOf x))"
    using free_areas [OF assms(1)] by blast
  show ?thesis
  proof (cases "done")
    case True
    then obtain n x where s': "s' = s\<lparr>ss_allocatedLogicalPages := ss_allocatedLogicalPages s + n, ss_lNamespaces := sort_key ns_nsid (ss_lNamespaces s @ [x])\<rparr>"
      and x: "ns_nsid x = nsid" "rangeOf x = pickRange n free (ni_range info)" "nlp (rangeOf x) \<noteq> 0"
      using assms(5) f(1) by (auto simp: createNamespace_def Let_def split: if_splits)
    have "pages (rangeOf x) \<subseteq> {..<unat (ss_totalLogicalPages s)} \<and> (\<forall>y\<in>set (ss_lNamespaces s). pages (rangeOf x) \<inter> pages (rangeOf y) = {})"
      unfolding x(2)
    proof (rule pickRange_fits [where Q = "\<lambda>A. A \<subseteq> {..<unat (ss_totalLogicalPages s)} \<and> (\<forall>y\<in>set (ss_lNamespaces s). A \<inter> pages (rangeOf y) = {})"])
      show "nlp (pickRange n free (ni_range info)) \<noteq> 0" using x by simp
    qed (use f(2) assms(4) in blast)+
    then show ?thesis unfolding s' using insert_namespace_ok [OF assms(1), of x] assms(2,3) x(1,3) by (simp add: unat_gt_0)
  next
    case False
    then have "s' = s" using assms(5) f(1) by (auto simp: createNamespace_def Let_def split: if_splits)
    then show ?thesis using assms(1) by simp
  qed
qed

subsection \<open>The namespaces of the start\<close>

text \<open>The first \<open>k\<close> namespaces lie one after the other, \<open>n\<close> pages each.\<close>

definition block :: "u64 \<Rightarrow> nat \<Rightarrow> LPNRange" where
  "block n i = \<lparr>slpn = of_nat i * n, nlp = n\<rparr>"

definition init_inv :: "u64 \<Rightarrow> nat \<Rightarrow> Subsystem \<Rightarrow> bool" where
  "init_inv n k s \<longleftrightarrow> map rangeOf (ss_lNamespaces s) = map (block n) [0..<k] \<and>
     map ns_nsid (ss_lNamespaces s) = map (\<lambda>i. of_nat i + 1) [0..<k] \<and>
     ss_allocatedLogicalPages s = of_nat k * n \<and> k * unat n \<le> unat (ss_totalLogicalPages s)"

lemma unat_block: "i * unat n < 2 ^ 64 \<Longrightarrow> unat (of_nat i * n :: u64) = i * unat n"
  by (simp add: unat_word_ariths unat_of_nat mod_mult_left_eq)

lemma unat_block_le:
  assumes "i \<le> k" and "k * unat n \<le> unat (T::u64)"
  shows "unat (of_nat i * n :: u64) = i * unat n" and "i * unat n \<le> unat T"
proof -
  have "i * unat n \<le> k * unat n" using assms(1) by simp
  then show le: "i * unat n \<le> unat T" using assms(2) by linarith
  then show "unat (of_nat i * n :: u64) = i * unat n" using unat_block u64_bound [of T] by (metis order_le_less_trans)
qed

lemma block_pages:
  assumes "i < k" and "k * unat n \<le> unat (T::u64)"
  shows "pages (block n i) = {i * unat n..<Suc i * unat n}"
  using unat_block_le [of i k n T] assms by (simp add: block_def pages_def add.commute)

lemma nsid_of_nat: "i < 2 ^ 16 \<Longrightarrow> unat (of_nat i + 1 :: u32) = Suc i"
  by (simp add: unat_word_ariths unat_of_nat)

lemma init_inv_ok:
  assumes "init_inv n k s" and "0 < n" and "k \<le> 2 ^ 16"
  shows "subsystem_ok s"
proof -
  let ?T = "ss_totalLogicalPages s" and ?xs = "ss_lNamespaces s"
  have r: "map rangeOf ?xs = map (block n) [0..<k]" and ids: "map ns_nsid ?xs = map (\<lambda>i. of_nat i + 1) [0..<k]"
    and b: "k * unat n \<le> unat ?T" using assms(1) by (simp_all add: init_inv_def)
  have pg: "pages (block n i) = {i * unat n..<Suc i * unat n}" if "i < k" for i using block_pages [OF that b] .
  have "apart (block n i) (block n j)" if "i < j" "j < k" for i j
  proof -
    have "Suc i * unat n \<le> j * unat n" using that(1) by (intro mult_le_mono1) simp
    then show ?thesis using pg [of i] pg [of j] that by auto
  qed
  then have ap: "sorted_wrt apart (map rangeOf ?xs)" unfolding r by (auto simp: sorted_wrt_iff_nth_less)
  have "(of_nat i + 1 :: u32) < of_nat j + 1" if "i < j" "j < k" for i j
    using nsid_of_nat [of i] nsid_of_nat [of j] that assms(3) by (simp add: word_less_nat_alt)
  then have st: "sorted_wrt (<) (map ns_nsid ?xs)" unfolding ids by (auto simp: sorted_wrt_iff_nth_less)
  have "0 < unat (nlp (rangeOf x)) \<and> pages (rangeOf x) \<subseteq> {..<unat ?T} \<and> 0 < ns_nsid x \<and> ns_nsid x \<noteq> 0xFFFFFFFF" if x: "x \<in> set ?xs" for x
  proof -
    obtain i where i: "i < length ?xs" "x = ?xs ! i" using x unfolding in_set_conv_nth by blast
    have k: "length ?xs = k" using arg_cong [OF r, of length] by simp
    have "rangeOf x = block n i" "ns_nsid x = of_nat i + 1"
      using i k arg_cong [OF r, of "\<lambda>l. l ! i"] arg_cong [OF ids, of "\<lambda>l. l ! i"] by simp_all
    moreover have "Suc i * unat n \<le> unat ?T" using unat_block_le(2) [OF _ b, of "Suc i"] i k by simp
    moreover have "unat (of_nat i + 1 :: u32) \<noteq> unat (0xFFFFFFFF :: u32)" using nsid_of_nat [of i] i k assms(3) by simp
    ultimately show ?thesis
      using pg [of i] i k assms(2,3) nsid_of_nat [of i] by (auto simp: block_def word_less_nat_alt unat_gt_0)
  qed
  then show ?thesis using ap st by (simp add: subsystem_ok_def)
qed

lemma invert_blocks:
  assumes "(j + m) * unat n \<le> unat T"
  shows "invertRanges \<lparr>slpn = of_nat j * n, nlp = T - of_nat j * n\<rparr> (map (\<lambda>i. block n (j + i)) [0..<m]) =
     Inr (map (\<lambda>i. \<lparr>slpn = of_nat (j + i) * n, nlp = 0\<rparr>) [0..<m] @ [\<lparr>slpn = of_nat (j + m) * n, nlp = T - of_nat (j + m) * n\<rparr>])"
  using assms
proof (induction m arbitrary: j)
  case (Suc m)
  have "unat (of_nat (Suc j) * n) \<le> unat T" using unat_block_le [of "Suc j" "j + Suc m" n T] Suc.prems by simp
  then have le: "of_nat j * n + n \<le> T" by (simp add: word_le_nat_alt algebra_simps)
  have d: "T - of_nat j * n - n = T - of_nat (Suc j) * n" by (simp add: algebra_simps)
  have u: "[0..<Suc m] = 0 # map Suc [0..<m]" by (simp add: map_Suc_upt upt_conv_Cons del: upt_Suc)
  have s: "of_nat j * n + n = of_nat (Suc j) * n" by (simp add: algebra_simps)
  have "invertRanges \<lparr>slpn = of_nat (Suc j) * n, nlp = T - of_nat (Suc j) * n\<rparr> (map (\<lambda>i. block n (Suc j + i)) [0..<m]) =
     Inr (map (\<lambda>i. \<lparr>slpn = of_nat (Suc j + i) * n, nlp = 0\<rparr>) [0..<m] @ [\<lparr>slpn = of_nat (Suc j + m) * n, nlp = T - of_nat (Suc j + m) * n\<rparr>])"
    using Suc.IH [of "Suc j"] Suc.prems by simp
  then show ?case using le s unfolding u by (simp add: block_def comp_def d del: of_nat_Suc of_nat_add)
qed simp

lemma pick_block:
  assumes "0 < n" and "Suc k * unat n \<le> unat T"
  shows "pickRange n (map (\<lambda>i. \<lparr>slpn = of_nat i * n, nlp = 0\<rparr>) [0..<k] @ [\<lparr>slpn = of_nat k * n, nlp = T - of_nat k * n\<rparr>]) old = block n k"
proof -
  have "unat (T - of_nat k * n) = unat T - k * unat n"
    using unat_block_le [OF _ assms(2), of k] by (simp add: unat_sub word_le_nat_alt)
  then have "n \<le> T - of_nat k * n" using assms(2) by (simp add: word_le_nat_alt)
  moreover have "List.find (\<lambda>r. nlp r \<ge> n) (map (\<lambda>i. \<lparr>slpn = of_nat i * n, nlp = 0\<rparr>) js @ [x]) = List.find (\<lambda>r. nlp r \<ge> n) [x]" for js x
    using assms(1) by (induction js) auto
  ultimately show ?thesis by (simp add: pickRange_def block_def)
qed

lemma attachLast_maps: "(\<And>x. f (x\<lparr>ns_attached := True\<rparr>) = f x) \<Longrightarrow> map f (attachLast xs) = map f xs"
  by (cases xs rule: rev_cases) (auto simp: attachLast_def)

lemma init_step:
  assumes "init_inv n k s" and "k < 2 ^ 16" and "requestedPages s info = Inr n"
    and "createNamespace (of_nat k + 1) info s = Inr (True, info', s')"
  shows "init_inv n (Suc k) (s'\<lparr>ss_lNamespaces := attachLast (ss_lNamespaces s')\<rparr>)" and "0 < n"
    and "ss_logicalPageSize s' = ss_logicalPageSize s"
    and "ni_lbaFormatIndex info' = ni_lbaFormatIndex info"
proof -
  let ?T = "ss_totalLogicalPages s" and ?xs = "ss_lNamespaces s"
  have r: "map rangeOf ?xs = map (block n) [0..<k]" and ids: "map ns_nsid ?xs = map (\<lambda>i. of_nat i + 1) [0..<k]"
    and al: "ss_allocatedLogicalPages s = of_nat k * n" and b: "k * unat n \<le> unat ?T" using assms(1) by (simp_all add: init_inv_def)
  have "\<not> n > ?T - of_nat k * n" using assms(3,4) al by (auto simp: createNamespace_def)
  moreover have ub: "unat (of_nat k * n) = k * unat n" using unat_block_le(1) [OF order_refl b] .
  ultimately have room: "Suc k * unat n \<le> unat ?T" using b by (simp add: word_less_nat_alt unat_sub word_le_nat_alt)
  have "of_nat i * n \<le> of_nat j * n" if "i \<le> j" "j < k" for i j
    using unat_block_le(1) [OF _ b, of i] unat_block_le(1) [OF _ b, of j] that by (simp add: word_le_nat_alt)
  then have "sorted (map slpn (map (ni_range \<circ> ns_info) ?xs))"
    using r by (auto simp: comp_def block_def sorted_iff_nth_mono)
  then have "sort_key slpn (map (ni_range \<circ> ns_info) ?xs) = map (block n) [0..<k]"
    using r by (simp add: sorted_sort_id sort_key_id_if_sorted comp_def)
  then have inv: "invertRanges \<lparr>slpn = 0, nlp = ?T\<rparr> (sort_key slpn (map (ni_range \<circ> ns_info) ?xs)) =
      Inr (map (\<lambda>i. \<lparr>slpn = of_nat i * n, nlp = 0\<rparr>) [0..<k] @ [\<lparr>slpn = of_nat k * n, nlp = ?T - of_nat k * n\<rparr>])" (is "_ = Inr ?free")
    using invert_blocks [of 0 k n ?T] b by simp
  show n0: "0 < n"
  proof (rule ccontr)
    assume "\<not> 0 < n"
    then have n: "n = 0" by (simp add: word_neq_0_conv [symmetric])
    then have "nlp (pickRange n ?free (ni_range info)) = 0" by (auto simp: pickRange_def find_None_iff split: option.split dest: spec)
    then show False using assms(3,4) inv by (auto simp: createNamespace_def Let_def split: if_splits)
  qed
  have pick: "pickRange n ?free (ni_range info) = block n k" using pick_block [OF n0 room] .
  obtain x where s': "s' = s\<lparr>ss_allocatedLogicalPages := of_nat k * n + n, ss_lNamespaces := sort_key ns_nsid (?xs @ [x])\<rparr>"
    and x: "ns_nsid x = of_nat k + 1" "rangeOf x = block n k" and i': "ni_lbaFormatIndex info' = ni_lbaFormatIndex info"
    using assms(3,4) inv pick al by (auto simp: createNamespace_def Let_def split: if_splits)
  have "(of_nat i + 1 :: u32) \<le> of_nat j + 1" if "i \<le> j" "j \<le> k" for i j
    using nsid_of_nat [of i] nsid_of_nat [of j] that assms(2) by (simp add: word_le_nat_alt)
  then have "sorted (map (\<lambda>i. of_nat i + 1 :: u32) [0..<Suc k])" by (simp add: sorted_iff_nth_mono del: upt_Suc)
  then have "sorted (map ns_nsid (?xs @ [x]))" using ids x by simp
  then have "sort_key ns_nsid (?xs @ [x]) = ?xs @ [x]" by (rule sort_key_id_if_sorted)
  then show "init_inv n (Suc k) (s'\<lparr>ss_lNamespaces := attachLast (ss_lNamespaces s')\<rparr>)"
    unfolding init_inv_def using s' r ids x room by (simp add: attachLast_maps algebra_simps)
  show "ss_logicalPageSize s' = ss_logicalPageSize s" using s' by simp
  show "ni_lbaFormatIndex info' = ni_lbaFormatIndex info" by (rule i')
qed

lemma initNamespaces_inv:
  "init_inv n k s \<Longrightarrow> requestedPages s (info\<lparr>ni_size := sz, ni_capacity := sz\<rparr>) = Inr n \<Longrightarrow>
   initNamespaces sz [k..<m] info s = Inr s' \<Longrightarrow> k \<le> m \<Longrightarrow> m \<le> 2 ^ 16 \<Longrightarrow> init_inv n m s' \<and> (k < m \<longrightarrow> 0 < n)"
proof (induction "m - k" arbitrary: k s info)
  case (Suc d)
  let ?info = "info\<lparr>ni_size := sz, ni_capacity := sz\<rparr>"
  have k: "k < m" "[k..<m] = k # [Suc k..<m]" using Suc.hyps(2) by (auto simp: upt_conv_Cons)
  obtain info1 s1 where c: "createNamespace (of_nat k + 1) ?info s = Inr (True, info1, s1)"
    and r: "initNamespaces sz [Suc k..<m] info1 (s1\<lparr>ss_lNamespaces := attachLast (ss_lNamespaces s1)\<rparr>) = Inr s'"
    using Suc.prems(3) k(2) by (auto split: if_splits)
  note st = init_step [OF Suc.prems(1) _ Suc.prems(2) c]
  have "requestedPages (s1\<lparr>ss_lNamespaces := attachLast (ss_lNamespaces s1)\<rparr>) (info1\<lparr>ni_size := sz, ni_capacity := sz\<rparr>) = Inr n"
    using Suc.prems(2,5) st(3,4) k(1) by (simp add: requestedPages_def)
  then have "init_inv n m s'" using Suc.hyps(1) [OF _ st(1) _ r] Suc.hyps(2) Suc.prems(5) k(1) by simp
  then show ?case using st(2) k(1) Suc.prems(5) by simp
next
  case 0
  then show ?case by simp
qed

lemma Subsystem_init_ok:
  assumes "Subsystem_init k lba T ps = Inr s" and "k \<le> 2 ^ 16"
  shows "subsystem_ok s" and "ss_totalLogicalPages s = T"
proof -
  show "subsystem_ok s"
  proof (cases "k = 0")
    case True
    then show ?thesis using assms(1) by (auto simp: Subsystem_init_def subsystem_ok_def Let_def)
  next
    case False
    then obtain sz info s0 where r: "initNamespaces sz [0..<k] info s0 = Inr s" and e: "ss_lNamespaces s0 = []" "ss_allocatedLogicalPages s0 = 0"
      using assms(1) by (auto simp: Subsystem_init_def Let_def split: if_splits)
    have "[0..<k] = 0 # [1..<k]" using False by (simp add: upt_conv_Cons)
    then obtain n where n: "requestedPages s0 (info\<lparr>ni_size := sz, ni_capacity := sz\<rparr>) = Inr n"
      using r by (auto simp: createNamespace_def)
    have "init_inv n 0 s0" using e by (simp add: init_inv_def)
    then have "init_inv n k s \<and> 0 < n" using initNamespaces_inv [OF _ n r] assms(2) False by simp
    then show ?thesis using init_inv_ok assms(2) by blast
  qed
  have "initNamespaces sz js info s1 = Inr s2 \<Longrightarrow> ss_totalLogicalPages s2 = ss_totalLogicalPages s1" for sz js info s1 s2
  proof (induction sz js info s1 rule: initNamespaces.induct)
    case (2 sz i js info s1)
    have "createNamespace nsid inf s1 = Inr (b, inf', s3) \<Longrightarrow> ss_totalLogicalPages s3 = ss_totalLogicalPages s1" for nsid inf b inf' s3
      by (auto simp: createNamespace_def Let_def split: if_splits)
    then show ?case using 2 by (fastforce split: if_splits)
  qed simp
  then show "ss_totalLogicalPages s = T" using assms(1) by (fastforce simp: Subsystem_init_def Let_def split: if_splits)
qed

subsection \<open>Commands on namespaces\<close>

lemma u32_succ: "n \<noteq> 0xFFFFFFFF \<Longrightarrow> unat (n + 1 :: u32) = Suc (unat n)"
proof -
  assume "n \<noteq> 0xFFFFFFFF"
  then have "unat n \<noteq> 4294967295" using word_unat_eq_iff [of n "0xFFFFFFFF"] by simp
  moreover have "unat n < 2 ^ 32" using unsigned_less [of n] by simp
  ultimately show ?thesis by (simp add: unat_word_ariths)
qed

lemma freeNSID_fresh:
  "sorted_wrt (<) (map ns_nsid xs) \<Longrightarrow> \<forall>x\<in>set xs. n \<le> ns_nsid x \<and> ns_nsid x \<noteq> 0xFFFFFFFF \<Longrightarrow>
     freeNSID n xs \<notin> ns_nsid ` set xs \<and> n \<le> freeNSID n xs"
proof (induction xs arbitrary: n)
  case (Cons x xs)
  show ?case
  proof (cases "ns_nsid x = n")
    case True
    then have lt: "unat (n + 1) = Suc (unat n)" using Cons.prems(2) by (intro u32_succ) auto
    have "\<forall>y\<in>set xs. n + 1 \<le> ns_nsid y" using Cons.prems True lt by (auto simp: word_le_nat_alt word_less_nat_alt)
    then have "freeNSID (n + 1) xs \<notin> ns_nsid ` set xs \<and> n + 1 \<le> freeNSID (n + 1) xs" using Cons by simp
    moreover have "n < n + 1" using lt by (simp add: word_less_nat_alt)
    ultimately show ?thesis using True by auto
  next
    case False
    then have "n \<noteq> ns_nsid y" if "y \<in> set (x # xs)" for y using Cons.prems that by fastforce
    then show ?thesis using False by auto
  qed
qed simp

lemma takeNamespace_split: "takeNamespace nsid xs = Some (x, rest) \<Longrightarrow> \<exists>as bs. xs = as @ x # bs \<and> rest = as @ bs"
proof (induction xs arbitrary: rest)
  case (Cons y ys)
  then show ?case by (cases "ns_nsid y = nsid") (auto, metis append_Cons)
qed simp

lemma drop_namespace_ok:
  assumes "subsystem_ok s" and "ss_lNamespaces s = as @ x # bs"
  shows "subsystem_ok (s\<lparr>ss_allocatedLogicalPages := n, ss_lNamespaces := as @ bs\<rparr>)"
  using assms by (simp add: subsystem_ok_def sorted_wrt_append)

lemma destroyNamespace_ok: "subsystem_ok s \<Longrightarrow> destroyNamespace nsid s = Inr (b, s') \<Longrightarrow> subsystem_ok s'"
  by (auto simp: destroyNamespace_def split: option.splits dest!: takeNamespace_split intro: drop_namespace_ok)

lemma same_namespaces_ok:
  assumes "subsystem_ok s" and "map rangeOf xs = map rangeOf (ss_lNamespaces s)" and "map ns_nsid xs = map ns_nsid (ss_lNamespaces s)"
  shows "subsystem_ok (s\<lparr>ss_lNamespaces := xs\<rparr>)"
proof -
  have "\<exists>y\<in>set (ss_lNamespaces s). rangeOf x = rangeOf y \<and> ns_nsid x = ns_nsid y" if x: "x \<in> set xs" for x
  proof -
    obtain i where i: "i < length xs" "x = xs ! i" using x unfolding in_set_conv_nth by blast
    moreover have "length xs = length (ss_lNamespaces s)" using arg_cong [OF assms(2), of length] by simp
    ultimately show ?thesis
      using arg_cong [OF assms(2), of "\<lambda>l. l ! i"] arg_cong [OF assms(3), of "\<lambda>l. l ! i"] by (intro bexI [of _ "ss_lNamespaces s ! i"]) auto
  qed
  then show ?thesis using assms by (fastforce simp: subsystem_ok_def)
qed

lemma formatFirst_maps: "(\<And>x. g (f x) = g x) \<Longrightarrow> map g (formatFirst nsid f xs) = map g xs"
  by (induction xs) auto

datatype ns_cmd =
    Manage SQEntryWrapper NsInformation
  | Attach SQEntryWrapper "u16 list"
  | Format tick u64 SQEntryWrapper

fun ns_exec :: "ns_cmd \<Rightarrow> Subsystem \<Rightarrow> Subsystem res" where
  "ns_exec (Manage req info) s = bindE (namespaceManagement req info s) (\<lambda>(resp, s1). Inr s1)"
| "ns_exec (Attach req ctrls) s = Inr (snd (namespaceAttachment req ctrls s))"
| "ns_exec (Format now used req) s = Inr (snd (snd (formatNVM now used req s)))"

lemma manage_ok:
  assumes "subsystem_ok s" and "namespaceManagement req info s = Inr (resp, s')"
  shows "subsystem_ok s'"
proof -
  let ?id = "freeNSID 1 (ss_lNamespaces s)"
  have "\<forall>x\<in>set (ss_lNamespaces s). 1 \<le> ns_nsid x \<and> ns_nsid x \<noteq> 0xFFFFFFFF"
    using assms(1) by (auto simp: subsystem_ok_def word_le_nat_alt word_less_nat_alt)
  then have f: "?id \<notin> ns_nsid ` set (ss_lNamespaces s) \<and> 1 \<le> ?id"
    using freeNSID_fresh assms(1) by (simp add: subsystem_ok_def)
  then have "0 < ?id" by (simp add: word_le_nat_alt word_less_nat_alt)
  then have "finishCreate ?id info r s = Inr (q, s'') \<Longrightarrow> ?id \<noteq> 0xFFFFFFFF \<Longrightarrow> subsystem_ok s''" for r q s''
    using f by (auto simp: finishCreate_def Let_def dest!: createNamespace_ok [OF assms(1), rotated 3])
  then show ?thesis using assms destroyNamespace_ok [OF assms(1)]
    by (auto simp: namespaceManagement_def Let_def split: if_splits)
qed

lemma ns_exec_ok: "subsystem_ok s \<Longrightarrow> okE subsystem_ok (ns_exec cmd s)"
proof (cases cmd)
  case (Manage req info)
  assume "subsystem_ok s"
  then show ?thesis using manage_ok Manage by (auto simp: okE_iff)
next
  case (Attach req ctrls)
  assume "subsystem_ok s"
  then show ?thesis unfolding Attach
    by (auto simp: namespaceAttachment_def Let_def attachAll_def intro!: same_namespaces_ok)
next
  case (Format now used req)
  assume "subsystem_ok s"
  then show ?thesis unfolding Format
    by (auto simp: formatNVM_def Let_def formatInfo_def formatFirst_maps split: option.split intro!: same_namespaces_ok)
qed

lemma ns_exec_total: "ns_exec cmd s = Inr s' \<Longrightarrow> ss_totalLogicalPages s' = ss_totalLogicalPages s"
  by (cases cmd)
     (auto simp: namespaceManagement_def finishCreate_def createNamespace_def destroyNamespace_def namespaceAttachment_def formatNVM_def Let_def
       split: if_splits option.splits)

text \<open>
  C39. Namespaces never share a page: after \<open>Subsystem::init\<close> with any number of default namespaces,
  whatever sequence of creations, deletions, attachments and formats follows (with any parameters),
  if it runs through then the page ranges of any two namespaces are disjoint, every namespace has
  at least one page and lies within the device, and no two have the same identifier.
\<close>

theorem namespaces_disjoint:
  assumes "Subsystem_init k lba totalPages pageBytes = Inr s0" and "k < 2 ^ 16" and "foldE ns_exec cmds s0 = Inr s"
  shows "(\<forall>i j. i < j \<and> j < length (ss_lNamespaces s) \<longrightarrow>
            pages (rangeOf (ss_lNamespaces s ! i)) \<inter> pages (rangeOf (ss_lNamespaces s ! j)) = {} \<and>
            ns_nsid (ss_lNamespaces s ! i) \<noteq> ns_nsid (ss_lNamespaces s ! j)) \<and>
         (\<forall>x\<in>set (ss_lNamespaces s). pages (rangeOf x) \<noteq> {} \<and> pages (rangeOf x) \<subseteq> {..<unat totalPages})"
proof -
  let ?P = "\<lambda>s. subsystem_ok s \<and> ss_totalLogicalPages s = totalPages"
  have "?P s0" using Subsystem_init_ok [OF assms(1)] assms(2) by simp
  then have "okE ?P (foldE ns_exec cmds s0)"
  proof (rule foldE_okE)
    fix cmd s1 assume "?P s1"
    then show "okE ?P (ns_exec cmd s1)" using ns_exec_ok [of s1 cmd] ns_exec_total [of cmd s1] by (simp add: okE_iff)
  qed
  then have ok: "subsystem_ok s" "ss_totalLogicalPages s = totalPages" using assms(3) by simp_all
  have "pages r \<noteq> {}" if "0 < unat (nlp r)" for r using that by (auto simp: pages_def)
  then show ?thesis using ok unfolding subsystem_ok_def by (force simp: sorted_wrt_iff_nth_less)
qed

text \<open>
  A device of 8192 pages with two namespaces: the first is deleted, the second formatted, and a new one
  of half the device created, which takes the place of the first.
\<close>

definition demoNsReq :: "u32 \<Rightarrow> u32 \<Rightarrow> SQEntryWrapper" where
  "demoNsReq d10 nsid = SQEntryWrapper_new (SQEntry_new\<lparr>sqe_dword10 := d10, sqe_namespaceID := nsid\<rparr>) 0 0 1 0"

definition demoInfo :: NsInformation where
  "demoInfo = \<lparr>ni_size = 4096, ni_capacity = 4096, ni_utilization = 0, ni_sizeInByteL = 0, ni_sizeInByteH = 0, ni_lbaFormatIndex = 3,
     ni_dataProtectionSettings = 0, ni_namespaceSharingCapabilities = 0, ni_lbaSize = 0, ni_range = \<lparr>slpn = 0, nlp = 0\<rparr>\<rparr>"

definition demoCmds :: "ns_cmd list" where
  "demoCmds = [Manage (demoNsReq 1 1) demoInfo, Format 5 0 (demoNsReq 3 2), Manage (demoNsReq 0 0) demoInfo]"

definition demoNs :: "Subsystem res" where
  "demoNs = bindE (Subsystem_init 2 4096 8192 4096) (foldE ns_exec demoCmds)"

lemma demoNs_ranges:
  "\<exists>s0 s. Subsystem_init 2 4096 8192 4096 = Inr s0 \<and> foldE ns_exec demoCmds s0 = Inr s \<and>
     map (\<lambda>x. (ns_nsid x, slpn (rangeOf x), nlp (rangeOf x))) (ss_lNamespaces s) = [(1, 0, 4096), (2, 4096, 4096)]"
proof -
  have "(case demoNs of Inl _ \<Rightarrow> [] | Inr s \<Rightarrow> map (\<lambda>x. (ns_nsid x, slpn (rangeOf x), nlp (rangeOf x))) (ss_lNamespaces s)) = [(1, 0, 4096), (2, 4096, 4096)]"
    by code_simp
  then show ?thesis by (auto simp: demoNs_def bindE_def split: sum.splits)
qed

theorem namespaces_disjoint_witness:
  "\<exists>s :: Subsystem. map (\<lambda>x. (ns_nsid x, slpn (rangeOf x), nlp (rangeOf x))) (ss_lNamespaces s) = [(1, 0, 4096), (2, 4096, 4096)] \<and>
     pages (rangeOf (ss_lNamespaces s ! 0)) \<inter> pages (rangeOf (ss_lNamespaces s ! 1)) = {}"
proof -
  obtain s0 s where s: "Subsystem_init 2 4096 8192 4096 = Inr s0" "foldE ns_exec demoCmds s0 = Inr s"
    "map (\<lambda>x. (ns_nsid x, slpn (rangeOf x), nlp (rangeOf x))) (ss_lNamespaces s) = [(1, 0, 4096), (2, 4096, 4096)]"
    using demoNs_ranges by (elim exE conjE)
  have "length (ss_lNamespaces s) = 2" using arg_cong [OF s(3), of length] by simp
  then show ?thesis using namespaces_disjoint [OF s(1) _ s(2)] s(3) by (intro exI [of _ s]) simp
qed

section \<open>From blocks to pages\<close>

lemma ceil_le_iff: "0 < r \<Longrightarrow> (x + r - 1) div r \<le> N \<longleftrightarrow> x \<le> N * (r::nat)"
proof -
  assume r: "0 < r"
  have "(x + r - 1) div r \<le> N \<longleftrightarrow> (x + r - 1) div r < Suc N" by (rule less_Suc_eq_le [symmetric])
  also have "\<dots> \<longleftrightarrow> x + r - 1 < Suc N * r" using r by (simp only: div_less_iff_less_mult)
  also have "\<dots> \<longleftrightarrow> x \<le> N * r" using r by auto
  finally show ?thesis .
qed

lemma ceil_bounds: "0 < r \<Longrightarrow> 0 < x \<Longrightarrow> x \<le> (x + r - 1) div r * r \<and> (x + r - 1) div r * r < x + (r::nat)"
proof
  assume r: "0 < r" "0 < x"
  show "x \<le> (x + r - 1) div r * r" using ceil_le_iff [OF r(1), of x "(x + r - 1) div r"] by blast
  have "(x + r - 1) div r * r \<le> x + r - 1" by simp
  then show "(x + r - 1) div r * r < x + r" using r by linarith
qed

lemma ceil_split: "0 < r \<Longrightarrow> a div r + (m + a mod r + r - 1) div r = (a + m + r - 1) div (r::nat)"
proof -
  assume r: "0 < r"
  have "a + m + r - 1 = a div r * r + (m + a mod r + r - 1)" using r div_mult_mod_eq [of a r] by linarith
  then have "(a + m + r - 1) div r = (a div r * r + (m + a mod r + r - 1)) div r" by (rule arg_cong)
  also have "\<dots> = a div r + (m + a mod r + r - 1) div r" using r by (subst div_mult_self3) simp_all
  finally show ?thesis by simp
qed

lemma convertUnit_words:
  fixes s :: Subsystem and ns :: Namespace
  defines "l \<equiv> unat (ni_lbaSize (ns_info ns))" and "base \<equiv> unat (slpn (rangeOf ns))"
  assumes ps: "unat (ss_logicalPageSize s) = r * l" and pos: "0 < r" "0 < l"
    and fit: "(unat slba + unat nlblk + r) * l + base * (r * l) < 2 ^ 64"
  obtains req where "convertUnit s ns slba nlblk = Inr req" and "unat (hr_offset req) = unat slba mod r * l"
    and "unat (hr_length req) = unat nlblk * l" and "unat (slpn (hr_range req)) = base + unat slba div r"
    and "unat (nlp (hr_range req)) = (unat nlblk + unat slba mod r + r - 1) div r"
proof -
  let ?w = "ucast (ss_logicalPageSize s div ni_lbaSize (ns_info ns)) :: u64"
  have q: "unat (ss_logicalPageSize s div ni_lbaSize (ns_info ns)) = r" using ps pos by (simp add: unat_div l_def)
  have "r < 2 ^ 32" using q u32_bound [of "ss_logicalPageSize s div ni_lbaSize (ns_info ns)"] by simp
  then have w: "unat ?w = r" using q by (simp add: unsigned_ucast_eq take_bit_nat_eq_self)
  have nz: "ss_logicalPageSize s div ni_lbaSize (ns_info ns) \<noteq> 0" "ni_lbaSize (ns_info ns) \<noteq> 0"
    using q pos by (auto simp: l_def)
  have le: "x * 1 \<le> x * l" for x using pos(2) by (intro mult_le_mono2) simp
  have small: "(unat slba + unat nlblk + r) + base * r < 2 ^ 64"
  proof -
    have "unat slba + unat nlblk + r \<le> (unat slba + unat nlblk + r) * l" using le [of "unat slba + unat nlblk + r"] by simp
    moreover have "base * r \<le> base * (r * l)" using pos(2) by simp
    ultimately show ?thesis by (rule order_le_less_trans [OF add_mono fit])
  qed
  have b1: "base \<le> base * r" using pos(1) by simp
  have dv: "unat slba div r \<le> unat slba" "unat slba mod r < r" "unat slba mod r \<le> unat slba" using pos(1) by simp_all
  have lc: "unat (ucast (ni_lbaSize (ns_info ns)) :: u64) = l"
    using u32_bound [of "ni_lbaSize (ns_info ns)"] by (simp add: l_def unsigned_ucast_eq take_bit_nat_eq_self)
  have m: "unat slba mod r * l < r * l" using dv(2) pos(2) by simp
  have "r * l < 2 ^ 64" using ps u32_bound [of "ss_logicalPageSize s"] by simp
  then have o: "unat slba mod r * l < 2 ^ 64" by (rule less_trans [OF m])
  have n: "unat nlblk * l < 2 ^ 64" using fit by (simp add: algebra_simps)
  let ?req = "\<lparr>hr_offset = slba mod ?w * ucast (ni_lbaSize (ns_info ns)), hr_length = nlblk * ucast (ni_lbaSize (ns_info ns)),
     hr_range = \<lparr>slpn = slba div ?w + slpn (rangeOf ns), nlp = (nlblk + slba mod ?w + ?w - 1) div ?w\<rparr>\<rparr>"
  have tot: "unat nlblk + unat slba mod r + r < 2 ^ 64" using small dv(3) by linarith
  have sum: "unat (nlblk + slba mod ?w + ?w - 1) = unat nlblk + unat slba mod r + r - 1"
  proof -
    have "unat (nlblk + slba mod ?w) = unat nlblk + unat slba mod r"
      using tot by (subst unat_add_u64) (simp_all add: unat_mod w)
    then have "unat (nlblk + slba mod ?w + ?w) = unat nlblk + unat slba mod r + r"
      using tot by (subst unat_add_u64) (simp_all add: w)
    moreover have "1 \<le> nlblk + slba mod ?w + ?w" using calculation pos(1) by (simp add: word_le_nat_alt)
    ultimately show ?thesis by (simp add: unat_sub)
  qed
  show thesis
  proof (rule that [of ?req])
    show "convertUnit s ns slba nlblk = Inr ?req" using nz by (simp add: convertUnit_def Let_def)
    show "unat (hr_offset ?req) = unat slba mod r * l" using o by (simp add: unat_mult_u64 unat_mod w lc)
    show "unat (hr_length ?req) = unat nlblk * l" using n by (simp add: unat_mult_u64 lc)
    show "unat (slpn (hr_range ?req)) = base + unat slba div r"
    proof -
      have "base + unat slba div r < 2 ^ 64" using small dv(1) b1 by linarith
      then show ?thesis using unat_add_u64 [of "slba div ?w" "slpn (rangeOf ns)"] by (simp add: unat_div w base_def)
    qed
    show "unat (nlp (hr_range ?req)) = (unat nlblk + unat slba mod r + r - 1) div r"
      by (simp only: HilRequest.select_convs LPNRange.select_convs unat_div sum w)
  qed
qed

text \<open>
  C40. \<open>Subsystem::convertUnit\<close>, for a page of \<open>r\<close> blocks and no overflow of 64 bits: the request given to
  the HIL addresses exactly the bytes of the blocks, counted from the start of the namespace; it starts
  inside of its first page and covers no page too many or too few. It stays within the pages of the
  namespace exactly when the blocks end within the namespace. But nothing checks that: \<open>read\<close>, \<open>write\<close> and
  \<open>compare\<close> of an attached namespace become a transfer for every start and every number of blocks other
  than the largest (65536, which becomes 0 and is answered with success without a transfer), so a
  command reaches the pages of another namespace.
\<close>

theorem convert_unit:
  assumes "unat (ss_logicalPageSize s) = r * unat (ni_lbaSize (ns_info ns))" and "0 < r" and "0 < unat (ni_lbaSize (ns_info ns))"
    and "(unat slba + unat nlblk + r) * unat (ni_lbaSize (ns_info ns)) +
         unat (slpn (rangeOf ns)) * (r * unat (ni_lbaSize (ns_info ns))) < 2 ^ 64"
    and "0 < unat nlblk" and "ns_attached ns"
  shows "(\<exists>req. convertUnit s ns slba nlblk = Inr req \<and>
            unat (slpn (hr_range req)) * unat (ss_logicalPageSize s) + unat (hr_offset req) =
              unat (slpn (rangeOf ns)) * unat (ss_logicalPageSize s) + unat slba * unat (ni_lbaSize (ns_info ns)) \<and>
            unat (hr_length req) = unat nlblk * unat (ni_lbaSize (ns_info ns)) \<and>
            unat (hr_offset req) < unat (ss_logicalPageSize s) \<and>
            unat (hr_offset req) + unat (hr_length req) \<le> unat (nlp (hr_range req)) * unat (ss_logicalPageSize s) \<and>
            unat (nlp (hr_range req)) * unat (ss_logicalPageSize s) <
              unat (hr_offset req) + unat (hr_length req) + unat (ss_logicalPageSize s) \<and>
            (pages (hr_range req) \<subseteq> pages (rangeOf ns) \<longleftrightarrow> unat slba + unat nlblk \<le> unat (nlp (rangeOf ns)) * r)) \<and>
         nsTransfer k cmd ns = (if nlbOf (sqw_entry cmd) = 0 then Respond (CQEntryWrapper_new cmd)
                                else Transfer k (slbaOf (sqw_entry cmd)) (nlbOf (sqw_entry cmd)))"
proof (rule conjI)
  let ?l = "unat (ni_lbaSize (ns_info ns))" and ?a = "unat slba" and ?m = "unat nlblk" and ?b = "unat (slpn (rangeOf ns))"
  let ?c = "(?m + ?a mod r + r - 1) div r"
  obtain req where q: "convertUnit s ns slba nlblk = Inr req" "unat (hr_offset req) = ?a mod r * ?l" "unat (hr_length req) = ?m * ?l"
    "unat (slpn (hr_range req)) = ?b + ?a div r" "unat (nlp (hr_range req)) = ?c"
    using convertUnit_words [OF assms(1-4)] by blast
  have "(?b + ?a div r) * (r * ?l) + ?a mod r * ?l = ?b * (r * ?l) + (?a div r * r + ?a mod r) * ?l" by (simp only: algebra_simps)
  then have addr: "(?b + ?a div r) * (r * ?l) + ?a mod r * ?l = ?b * (r * ?l) + ?a * ?l" by simp
  have "?a mod r * ?l < r * ?l" using assms(2,3) by simp
  have cb: "?m + ?a mod r \<le> ?c * r" "?c * r < ?m + ?a mod r + r" using ceil_bounds [OF assms(2), of "?m + ?a mod r"] assms(5) by simp_all
  have up: "?a mod r * ?l + ?m * ?l \<le> ?c * (r * ?l)"
    using mult_le_mono1 [OF cb(1), of ?l] by (simp only: algebra_simps)
  have "?c * r * ?l < (?m + ?a mod r + r) * ?l" using cb(2) assms(3) by simp
  then have dn: "?c * (r * ?l) < ?a mod r * ?l + ?m * ?l + r * ?l" by (simp only: algebra_simps)
  have c0: "0 < ?c" using cb(1) assms(5) by (cases ?c) simp_all
  have "pages (hr_range req) \<subseteq> pages (rangeOf ns) \<longleftrightarrow> ?a div r + ?c \<le> unat (nlp (rangeOf ns))"
    using q(4,5) c0 by (auto simp: pages_def)
  also have "\<dots> \<longleftrightarrow> ?a + ?m \<le> unat (nlp (rangeOf ns)) * r"
    using ceil_split [OF assms(2), of ?a ?m] ceil_le_iff [OF assms(2), of "?a + ?m"] by simp
  finally show "\<exists>req. convertUnit s ns slba nlblk = Inr req \<and>
            unat (slpn (hr_range req)) * unat (ss_logicalPageSize s) + unat (hr_offset req) =
              ?b * unat (ss_logicalPageSize s) + ?a * ?l \<and>
            unat (hr_length req) = ?m * ?l \<and> unat (hr_offset req) < unat (ss_logicalPageSize s) \<and>
            unat (hr_offset req) + unat (hr_length req) \<le> unat (nlp (hr_range req)) * unat (ss_logicalPageSize s) \<and>
            unat (nlp (hr_range req)) * unat (ss_logicalPageSize s) <
              unat (hr_offset req) + unat (hr_length req) + unat (ss_logicalPageSize s) \<and>
            (pages (hr_range req) \<subseteq> pages (rangeOf ns) \<longleftrightarrow> ?a + ?m \<le> unat (nlp (rangeOf ns)) * r)"
    unfolding assms(1) using q addr up dn \<open>?a mod r * ?l < r * ?l\<close> by (intro exI [of _ req]) (simp only: simp_thms)
  show "nsTransfer k cmd ns = (if nlbOf (sqw_entry cmd) = 0 then Respond (CQEntryWrapper_new cmd)
                                else Transfer k (slbaOf (sqw_entry cmd)) (nlbOf (sqw_entry cmd)))"
    using assms(6) by (simp add: nsTransfer_def Let_def)
qed

text \<open>Blocks of 512 bytes on pages of 4096: block 32768 of a namespace of 4096 pages is past its end.\<close>

definition demoSpace :: Namespace where
  "demoSpace = \<lparr>ns_info = demoInfo\<lparr>ni_lbaSize := 512, ni_range := \<lparr>slpn = 0, nlp = 4096\<rparr>\<rparr>, ns_nsid = 1, ns_attached = True,
     ns_allocated = True, ns_formatFinishedAt = 0\<rparr>"

definition demoDevice :: Subsystem where
  "demoDevice = \<lparr>ss_lNamespaces = [demoSpace], ss_logicalPageSize = 4096, ss_totalLogicalPages = 8192, ss_allocatedLogicalPages = 4096, ss_commandCount = 0\<rparr>"

theorem convert_unit_witness:
  "\<exists>req. convertUnit demoDevice demoSpace 32768 1 = Inr req \<and> unat (hr_length req) = 512 \<and> \<not> pages (hr_range req) \<subseteq> pages (rangeOf demoSpace)"
  using convert_unit [of demoDevice 8 demoSpace 32768 1 NsWrite "demoNsReq 0 1"]
  by (auto simp: demoDevice_def demoSpace_def)

end
