(* ===== verification/Hil.thy ===== *)
theory Hil
  imports IclProps NvmeNamespace
begin

text \<open>
  The host interface layer (\<open>hil/hil.cc\<close>) between the drivers and the cache layer: it numbers the
  requests, passes them to the cache layer, keeps them in a queue until the tick at which they are
  done, and calls their callbacks from one event. Shown is that every request is answered exactly
  once, at the tick at which it is done, and what a request that takes no time would do.
\<close>

section \<open>Model\<close>

text \<open>
  A request in the queue. The queue is a priority queue on \<open>finishedAt\<close>; for requests that are done at the same
  tick the library does not fix an order, here the one submitted first comes first.
\<close>

record 'c HilJob = HilRequest +
  hj_reqID :: u64
  hj_finishedAt :: tick
  hj_callback :: 'c

record HilStat =
  st_request :: "nat \<Rightarrow> u64"
  st_busy :: "nat \<Rightarrow> u64"
  st_iosize :: "nat \<Rightarrow> u64"
  st_lastBusyAt :: "nat \<Rightarrow> tick"

text \<open>\<open>hil_event\<close> is the tick for which the completion event is scheduled.\<close>

record 'c HIL =
  hil_reqCount :: u64
  hil_lastScheduled :: tick
  hil_event :: "tick option"
  hil_queue :: "'c HilJob list"
  hil_icl :: ICL
  hil_stat :: HilStat

definition HilStat_zero :: HilStat where
  "HilStat_zero = \<lparr>st_request = (\<lambda>_. 0), st_busy = (\<lambda>_. 0), st_iosize = (\<lambda>_. 0), st_lastBusyAt = (\<lambda>_. 0)\<rparr>"

definition HIL_new :: "ICL \<Rightarrow> 'c HIL" where
  "HIL_new icl = \<lparr>hil_reqCount = 0, hil_lastScheduled = 0, hil_event = None, hil_queue = [], hil_icl = icl, hil_stat = HilStat_zero\<rparr>"

definition updateBusyTime :: "nat \<Rightarrow> tick \<Rightarrow> tick \<Rightarrow> HilStat \<Rightarrow> HilStat" where
  "updateBusyTime i begin fin st =
     (if fin \<le> st_lastBusyAt st i then st
      else st\<lparr>st_busy := (st_busy st)(i := st_busy st i +
                (if begin < st_lastBusyAt st i then fin - st_lastBusyAt st i else fin - begin)),
              st_lastBusyAt := (st_lastBusyAt st)(i := fin)\<rparr>)"

definition updateCompletion :: "'c HIL \<Rightarrow> 'c HIL" where
  "updateCompletion h =
     (case hil_queue h of
        [] \<Rightarrow> h
      | j # _ \<Rightarrow> if hil_lastScheduled h \<noteq> hj_finishedAt j
                 then h\<lparr>hil_lastScheduled := hj_finishedAt j, hil_event := Some (hj_finishedAt j)\<rparr> else h)"

fun pushJob :: "'c HilJob \<Rightarrow> 'c HilJob list \<Rightarrow> 'c HilJob list" where
  "pushJob j [] = [j]"
| "pushJob j (k # ks) = (if hj_finishedAt k \<le> hj_finishedAt j then k # pushJob j ks else j # k # ks)"

definition mkJob :: "HilRequest \<Rightarrow> u64 \<Rightarrow> tick \<Rightarrow> 'c \<Rightarrow> 'c HilJob" where
  "mkJob r n fin cb = HilRequest.extend r (\<lparr>hj_reqID = n, hj_finishedAt = fin, hj_callback = cb\<rparr>)"

text \<open>The end of every operation: the request is queued and the event is scheduled.\<close>

definition enqueue :: "HilRequest \<Rightarrow> u64 \<Rightarrow> 'c \<Rightarrow> tick \<Rightarrow> 'c HIL \<Rightarrow> 'c HilJob \<times> 'c HIL" where
  "enqueue r n cb fin h =
     (let j = mkJob r n fin cb in (j, updateCompletion (h\<lparr>hil_queue := pushJob j (hil_queue h)\<rparr>)))"

definition toIcl :: "u64 \<Rightarrow> HilRequest \<Rightarrow> IclRequest" where
  "toIcl n r = \<lparr>ireq_reqID = n, ireq_reqSubID = 0, ireq_offset = hr_offset r, ireq_length = hr_length r, ireq_range = hr_range r\<rparr>"

definition account :: "nat \<Rightarrow> HilRequest \<Rightarrow> tick \<Rightarrow> tick \<Rightarrow> HilStat \<Rightarrow> HilStat" where
  "account i r begin fin st =
     updateBusyTime 2 begin fin (updateBusyTime i begin fin
       (st\<lparr>st_request := (st_request st)(i := st_request st i + 1), st_iosize := (st_iosize st)(i := st_iosize st i + hr_length r)\<rparr>))"

definition hilRead :: "env \<Rightarrow> IclConfig \<Rightarrow> HilRequest \<Rightarrow> 'c \<Rightarrow> tick \<Rightarrow> 'c HIL \<Rightarrow> ('c HilJob \<times> 'c HIL) res" where
  "hilRead e ic r cb t h =
     (let n = hil_reqCount h + 1
      in bindE (iclRead e ic (toIcl n r) t (hil_icl h)) (\<lambda>(fin, icl).
           Inr (enqueue r n cb fin (h\<lparr>hil_reqCount := n, hil_icl := icl, hil_stat := account 0 r t fin (hil_stat h)\<rparr>))))"

definition hilWrite :: "env \<Rightarrow> IclConfig \<Rightarrow> HilRequest \<Rightarrow> 'c \<Rightarrow> tick \<Rightarrow> 'c HIL \<Rightarrow> ('c HilJob \<times> 'c HIL) res" where
  "hilWrite e ic r cb t h =
     (let n = hil_reqCount h + 1
      in bindE (iclWrite e ic (toIcl n r) t (hil_icl h)) (\<lambda>(fin, icl).
           Inr (enqueue r n cb fin (h\<lparr>hil_reqCount := n, hil_icl := icl, hil_stat := account 1 r t fin (hil_stat h)\<rparr>))))"

definition hilFlush :: "env \<Rightarrow> IclConfig \<Rightarrow> HilRequest \<Rightarrow> 'c \<Rightarrow> tick \<Rightarrow> 'c HIL \<Rightarrow> ('c HilJob \<times> 'c HIL) res" where
  "hilFlush e ic r cb t h =
     (let n = hil_reqCount h + 1
      in bindE (iclFlush e ic (hr_range r) t (hil_icl h)) (\<lambda>(fin, icl).
           Inr (enqueue r n cb fin (h\<lparr>hil_reqCount := n, hil_icl := icl\<rparr>))))"

definition hilTrim :: "env \<Rightarrow> IclConfig \<Rightarrow> HilRequest \<Rightarrow> 'c \<Rightarrow> tick \<Rightarrow> 'c HIL \<Rightarrow> ('c HilJob \<times> 'c HIL) res" where
  "hilTrim e ic r cb t h =
     (let n = hil_reqCount h + 1
      in bindE (iclTrim e ic (hr_range r) t (hil_icl h)) (\<lambda>(fin, icl).
           Inr (enqueue r n cb fin (h\<lparr>hil_reqCount := n, hil_icl := icl\<rparr>))))"

text \<open>\<open>format\<close> keeps the number of the request, which is 0.\<close>

definition hilFormat :: "env \<Rightarrow> IclConfig \<Rightarrow> bool \<Rightarrow> HilRequest \<Rightarrow> 'c \<Rightarrow> tick \<Rightarrow> 'c HIL \<Rightarrow> ('c HilJob \<times> 'c HIL) res" where
  "hilFormat e ic er r cb t h =
     bindE (if er then iclFormat e ic (hr_range r) t (hil_icl h) else iclTrim e ic (hr_range r) t (hil_icl h)) (\<lambda>(fin, icl).
       Inr (enqueue r 0 cb fin (h\<lparr>hil_icl := icl\<rparr>)))"

text \<open>
  The completion event: it is not scheduled any more while it runs. A callback only starts new work
  through the CPU model, so it does not enter the HIL again here.
\<close>

definition hilCompletion :: "tick \<Rightarrow> 'c HIL \<Rightarrow> 'c HilJob list \<times> 'c HIL" where
  "hilCompletion now h =
     (takeWhile (\<lambda>j. hj_finishedAt j \<le> now) (hil_queue h),
      updateCompletion (h\<lparr>hil_event := None, hil_queue := dropWhile (\<lambda>j. hj_finishedAt j \<le> now) (hil_queue h)\<rparr>))"

definition hilResetStatValues :: "'c HIL \<Rightarrow> 'c HIL" where
  "hilResetStatValues h = h\<lparr>hil_stat := HilStat_zero, hil_icl := iclResetStatValues (hil_icl h)\<rparr>"

section \<open>Runs\<close>

datatype HilOp = OpRead | OpWrite | OpFlush | OpTrim | OpFormat bool

fun hilRequest :: "env \<Rightarrow> IclConfig \<Rightarrow> HilOp \<Rightarrow> HilRequest \<Rightarrow> 'c \<Rightarrow> tick \<Rightarrow> 'c HIL \<Rightarrow> ('c HilJob \<times> 'c HIL) res" where
  "hilRequest e ic OpRead = hilRead e ic"
| "hilRequest e ic OpWrite = hilWrite e ic"
| "hilRequest e ic OpFlush = hilFlush e ic"
| "hilRequest e ic OpTrim = hilTrim e ic"
| "hilRequest e ic (OpFormat er) = hilFormat e ic er"

text \<open>
  A run: the clock, the requests submitted so far and the callbacks called so far, with their ticks.
  The engine does not pass the tick of a scheduled event; a request takes some time.
\<close>

record 'c HilRun =
  hr_hil :: "'c HIL"
  hr_now :: tick
  hr_submitted :: "'c HilJob list"
  hr_log :: "(tick \<times> 'c HilJob) list"

definition run_new :: "ICL \<Rightarrow> 'c HilRun" where
  "run_new icl = \<lparr>hr_hil = HIL_new icl, hr_now = 0, hr_submitted = [], hr_log = []\<rparr>"

inductive hil_fire :: "'c HilRun \<Rightarrow> 'c HilRun \<Rightarrow> bool" where
  fire: "\<lbrakk>hil_event (hr_hil R) = Some t; hilCompletion t (hr_hil R) = (js, h)\<rbrakk>
    \<Longrightarrow> hil_fire R (R\<lparr>hr_hil := h, hr_now := t, hr_log := hr_log R @ map (Pair t) js\<rparr>)"

inductive hil_step :: "env \<Rightarrow> IclConfig \<Rightarrow> 'c HilRun \<Rightarrow> 'c HilRun \<Rightarrow> bool" for e ic where
  request: "\<lbrakk>hr_now R \<le> t; \<And>u. hil_event (hr_hil R) = Some u \<Longrightarrow> t \<le> u; hilRequest e ic op r cb t (hr_hil R) = Inr (j, h); t < hj_finishedAt j\<rbrakk>
    \<Longrightarrow> hil_step e ic R (R\<lparr>hr_hil := h, hr_now := t, hr_submitted := hr_submitted R @ [j]\<rparr>)"
| event: "hil_fire R R' \<Longrightarrow> hil_step e ic R R'"

inductive_cases hil_fireE: "hil_fire R R'"

text \<open>The event is scheduled for the first request that will be done; what was called was called in time.\<close>

definition hil_inv :: "'c HilRun \<Rightarrow> bool" where
  "hil_inv R \<longleftrightarrow>
     (let h = hr_hil R
      in sorted (map hj_finishedAt (hil_queue h)) \<and>
         (case hil_queue h of
            [] \<Rightarrow> hil_event h = None \<and> hil_lastScheduled h \<le> hr_now R
          | j # _ \<Rightarrow> hil_event h = Some (hj_finishedAt j) \<and> hil_lastScheduled h = hj_finishedAt j \<and> hr_now R \<le> hj_finishedAt j) \<and>
         (\<forall>(t, j)\<in>set (hr_log R). t = hj_finishedAt j) \<and>
         mset (hr_submitted R) = mset (map snd (hr_log R)) + mset (hil_queue h))"

lemma pushJob_set: "mset (pushJob j js) = add_mset j (mset js)"
  by (induction js) auto

lemma pushJob_sorted: "sorted (map hj_finishedAt js) \<Longrightarrow> sorted (map hj_finishedAt (pushJob j js))"
proof (induction js)
  case (Cons k ks)
  have "set (pushJob j ks) = insert j (set ks)" using arg_cong [OF pushJob_set, of set_mset j ks] by simp
  then show ?case using Cons by auto
qed simp

lemma hilRequest_enqueues:
  assumes "hilRequest e ic op r cb t h = Inr (j, h')"
  obtains h0 where "h' = updateCompletion (h0\<lparr>hil_queue := pushJob j (hil_queue h)\<rparr>)" and "hil_event h0 = hil_event h"
    and "hil_lastScheduled h0 = hil_lastScheduled h"
  using assms
  by (cases op) (auto simp: hilRead_def hilWrite_def hilFlush_def hilTrim_def hilFormat_def enqueue_def Let_def)

lemma updateCompletion_fields [simp]:
  "hil_queue (updateCompletion h) = hil_queue h"
  "hil_event (updateCompletion h) =
     (case hil_queue h of [] \<Rightarrow> hil_event h | j # _ \<Rightarrow> if hil_lastScheduled h \<noteq> hj_finishedAt j then Some (hj_finishedAt j) else hil_event h)"
  "hil_lastScheduled (updateCompletion h) = (case hil_queue h of [] \<Rightarrow> hil_lastScheduled h | j # _ \<Rightarrow> hj_finishedAt j)"
  by (auto simp: updateCompletion_def split: list.split)

lemma hil_inv_new: "hil_inv (run_new icl)"
  by (simp add: hil_inv_def run_new_def HIL_new_def)

lemma hil_inv_request:
  assumes "hil_inv R" and "hr_now R \<le> t" and le: "\<And>u. hil_event (hr_hil R) = Some u \<Longrightarrow> t \<le> u"
    and "hilRequest e ic op r cb t (hr_hil R) = Inr (j, h)" and "t < hj_finishedAt j"
  shows "hil_inv (R\<lparr>hr_hil := h, hr_now := t, hr_submitted := hr_submitted R @ [j]\<rparr>)"
proof -
  obtain h0 where h0: "h = updateCompletion (h0\<lparr>hil_queue := pushJob j (hil_queue (hr_hil R))\<rparr>)" "hil_event h0 = hil_event (hr_hil R)"
    "hil_lastScheduled h0 = hil_lastScheduled (hr_hil R)"
    using hilRequest_enqueues [OF assms(4)] by blast
  show ?thesis
  proof (cases "hil_queue (hr_hil R)")
    case Nil
    then show ?thesis using assms(1,2,5) h0 by (auto simp: hil_inv_def Let_def pushJob_set)
  next
    case (Cons k ks)
    then have "t \<le> hj_finishedAt k" using assms(1) le by (simp add: hil_inv_def Let_def)
    moreover have "sorted (map hj_finishedAt (pushJob j (k # ks)))" using assms(1) Cons by (intro pushJob_sorted) (simp add: hil_inv_def Let_def)
    ultimately show ?thesis using assms(1,5) h0 Cons by (auto simp: hil_inv_def Let_def pushJob_set)
  qed
qed

text \<open>A run of the event calls all requests that are done at its tick, and at least one.\<close>

lemma sorted_same_head:
  assumes "sorted (map f (j # js))"
  shows "\<forall>x\<in>set (takeWhile (\<lambda>x. f x \<le> f j) (j # js)). f x = (f j :: 'a::linorder)"
  using assms by (auto dest!: set_takeWhileD)

lemma updateCompletion_next:
  assumes "hil_event g = None" and "hil_lastScheduled g = t" and "\<And>x xs. hil_queue g = x # xs \<Longrightarrow> \<not> hj_finishedAt x \<le> t"
  shows "hil_event (updateCompletion g) = (case hil_queue g of [] \<Rightarrow> None | x # _ \<Rightarrow> Some (hj_finishedAt x))"
    and "hil_lastScheduled (updateCompletion g) = (case hil_queue g of [] \<Rightarrow> t | x # _ \<Rightarrow> hj_finishedAt x)"
  using assms by (cases "hil_queue g"; force)+

lemma hil_inv_fire:
  assumes "hil_inv R" and "hil_event (hr_hil R) = Some t" and "hilCompletion t (hr_hil R) = (js, h)"
  shows "hil_inv (R\<lparr>hr_hil := h, hr_now := t, hr_log := hr_log R @ map (Pair t) js\<rparr>)" and "js \<noteq> []"
    and "hil_queue (hr_hil R) = js @ hil_queue h" and "\<forall>j\<in>set js. hj_finishedAt j = t"
proof -
  obtain k ks where q: "hil_queue (hr_hil R) = k # ks" "t = hj_finishedAt k" "hil_lastScheduled (hr_hil R) = t"
    using assms(1,2) by (cases "hil_queue (hr_hil R)") (auto simp: hil_inv_def Let_def)
  have srt: "sorted (map hj_finishedAt (k # ks))" using assms(1) q(1) by (simp add: hil_inv_def Let_def)
  let ?P = "\<lambda>j. hj_finishedAt j \<le> t"
  let ?g = "(hr_hil R)\<lparr>hil_event := None, hil_queue := dropWhile ?P (k # ks)\<rparr>"
  have js: "js = takeWhile ?P (k # ks)" and h: "h = updateCompletion ?g"
    using assms(3) q(1) by (simp_all add: hilCompletion_def)
  have hq: "hil_queue h = dropWhile ?P (k # ks)" by (simp add: h)
  show "js \<noteq> []" using q(2) by (simp add: js)
  show split: "hil_queue (hr_hil R) = js @ hil_queue h" by (simp add: q(1) js hq)
  show same: "\<forall>j\<in>set js. hj_finishedAt j = t" using sorted_same_head [OF srt] unfolding js q(2) .
  have rest: "sorted (map hj_finishedAt (hil_queue h))" using srt split [unfolded q(1)] by (metis map_append sorted_append)
  have gq: "hil_queue ?g = hil_queue h" by (simp add: hq)
  have "\<not> hj_finishedAt x \<le> t" if "hil_queue ?g = x # xs" for x xs
    using that hd_dropWhile [of ?P "k # ks"] unfolding gq hq by (metis list.sel(1) list.distinct(1))
  note late = this
  have "hil_event ?g = None" "hil_lastScheduled ?g = t" using q(3) by simp_all
  note ev = updateCompletion_next [OF this late, folded h, unfolded gq]
  have "mset (hr_submitted R) = mset (map snd (hr_log R)) + mset (js @ hil_queue h)" "\<forall>(t, j)\<in>set (hr_log R). t = hj_finishedAt j"
    using assms(1) by (simp_all add: hil_inv_def Let_def split)
  note base = this
  show "hil_inv (R\<lparr>hr_hil := h, hr_now := t, hr_log := hr_log R @ map (Pair t) js\<rparr>)"
  proof (cases "hil_queue h")
    case Nil
    then show ?thesis using base same ev by (auto simp: hil_inv_def Let_def comp_def)
  next
    case (Cons x xs)
    then have "t \<le> hj_finishedAt x" using late [unfolded gq, OF Cons] by simp
    then show ?thesis using base rest same ev Cons by (auto simp: hil_inv_def Let_def comp_def)
  qed
qed

lemma hil_inv_step: "hil_step e ic R R' \<Longrightarrow> hil_inv R \<Longrightarrow> hil_inv R'"
  by (induction rule: hil_step.induct) (auto intro: hil_inv_request hil_inv_fire(1) elim!: hil_fireE)

lemma hil_inv_run: "(hil_step e ic)\<^sup>*\<^sup>* (run_new icl) R \<Longrightarrow> hil_inv R"
  by (induction rule: rtranclp_induct) (auto intro: hil_inv_new hil_inv_step)

lemma hil_drain:
  assumes "hil_inv R"
  shows "\<exists>R'. hil_fire\<^sup>*\<^sup>* R R' \<and> hil_queue (hr_hil R') = [] \<and> hr_log R' = hr_log R @ map (\<lambda>j. (hj_finishedAt j, j)) (hil_queue (hr_hil R))"
  using assms
proof (induction "length (hil_queue (hr_hil R))" arbitrary: R rule: less_induct)
  case less
  show ?case
  proof (cases "hil_queue (hr_hil R)")
    case Nil
    then show ?thesis by auto
  next
    case (Cons k ks)
    then have ev: "hil_event (hr_hil R) = Some (hj_finishedAt k)" using less.prems by (simp add: hil_inv_def Let_def)
    obtain js h where c: "hilCompletion (hj_finishedAt k) (hr_hil R) = (js, h)" by fastforce
    let ?R = "R\<lparr>hr_hil := h, hr_now := hj_finishedAt k, hr_log := hr_log R @ map (Pair (hj_finishedAt k)) js\<rparr>"
    note f = hil_inv_fire [OF less.prems ev c]
    obtain R' where R': "hil_fire\<^sup>*\<^sup>* ?R R'" "hil_queue (hr_hil R') = []" "hr_log R' = hr_log ?R @ map (\<lambda>j. (hj_finishedAt j, j)) (hil_queue h)"
      using less.hyps [of ?R] f(1-3) by auto
    have "map (Pair (hj_finishedAt k)) js = map (\<lambda>j. (hj_finishedAt j, j)) js" using f(4) by simp
    moreover have "hil_fire R ?R" by (rule hil_fire.fire [OF ev c])
    ultimately show ?thesis using R' f(3) by (intro exI [of _ R']) (auto intro: converse_rtranclp_into_rtranclp)
  qed
qed

text \<open>
  C25. Every request given to the HIL is answered, exactly once and at the tick at which it is done. In every state
  that requests and events can lead to (in any order, of any kind, where every request takes some
  time): the callbacks called so far were called at the tick their request was done; the requests
  submitted so far are those called and those in the queue, each once; the event is scheduled for the
  first request in the queue; and if nothing else is submitted, the event alone runs until all requests have been
  called, in the order in which they are done. A request that takes no time would be lost: if it is
  done at the tick the event was last scheduled for and the queue is empty, nothing is scheduled.
\<close>

theorem hil_completes:
  assumes "(hil_step e ic)\<^sup>*\<^sup>* (run_new icl) R"
  shows "(\<forall>(t, j)\<in>set (hr_log R). t = hj_finishedAt j) \<and>
    mset (hr_submitted R) = mset (map snd (hr_log R)) + mset (hil_queue (hr_hil R)) \<and>
    hil_event (hr_hil R) = map_option hj_finishedAt (case hil_queue (hr_hil R) of [] \<Rightarrow> None | j # _ \<Rightarrow> Some j) \<and>
    (\<exists>R'. hil_fire\<^sup>*\<^sup>* R R' \<and> hil_queue (hr_hil R') = [] \<and> hr_log R' = hr_log R @ map (\<lambda>j. (hj_finishedAt j, j)) (hil_queue (hr_hil R))) \<and>
    (\<forall>h r n (cb :: 'c). hil_queue h = [] \<and> hil_event h = None \<longrightarrow> hil_event (snd (enqueue r n cb (hil_lastScheduled h) h)) = None)"
proof -
  have inv: "hil_inv R" by (rule hil_inv_run [OF assms])
  then show ?thesis using hil_drain [OF inv]
    by (auto simp: hil_inv_def Let_def enqueue_def mkJob_def HilRequest.defs split: list.splits)
qed

text \<open>A flush on a device without caches whose CPU takes 5 ticks.\<close>

definition demo_slow :: env where
  "demo_slow = demo_env\<lparr>extTick := (\<lambda>_ _. 5)\<rparr>"

definition demo_range :: HilRequest where
  "demo_range = \<lparr>hr_offset = 0, hr_length = 4096, hr_range = \<lparr>slpn = 0, nlp = 1\<rparr>\<rparr>"

lemma demo_flush:
  assumes "\<not> useReadCaching (pCache icl)" and "\<not> useWriteCaching (pCache icl)"
  shows "\<exists>j h. hilRequest demo_slow demo_ic OpFlush demo_range () 0 (HIL_new icl) = Inr (j, h) \<and> hj_finishedAt j = 5 \<and> hil_queue h = [j]"
  using assms
  by (simp add: hilFlush_def iclFlush_def cacheFlush_def onCache_def below_def addLatency_def demo_slow_def enqueue_def mkJob_def HIL_new_def
      HilRequest.defs Let_def)

theorem hil_completes_witness:
  "\<exists>icl R R' j. (hil_step demo_slow demo_ic)\<^sup>*\<^sup>* (run_new icl) R \<and> hr_submitted R = [j :: unit HilJob] \<and> hil_fire\<^sup>*\<^sup>* R R' \<and>
     hil_queue (hr_hil R') = [] \<and> hr_log R' = [(5, j)]"
proof -
  obtain icl0 where "demo_written pm_start = Inr icl0" using demo_read_runs by (auto simp: totE_iff)
  let ?icl = "icl0\<lparr>pCache := (pCache icl0)\<lparr>useReadCaching := False, useWriteCaching := False\<rparr>\<rparr>"
  obtain j h where j: "hilRequest demo_slow demo_ic OpFlush demo_range () 0 (HIL_new ?icl) = Inr (j, h)" "hj_finishedAt j = 5" "hil_queue h = [j]"
    using demo_flush [of ?icl] by auto
  let ?R = "(run_new ?icl)\<lparr>hr_hil := h, hr_now := 0, hr_submitted := [j]\<rparr>"
  have "hil_step demo_slow demo_ic (run_new ?icl) ((run_new ?icl)\<lparr>hr_hil := h, hr_now := 0, hr_submitted := hr_submitted (run_new ?icl) @ [j]\<rparr>)"
    using j by (intro hil_step.request [where op = OpFlush and r = demo_range and cb = "()"]) (auto simp: run_new_def HIL_new_def)
  then have run: "(hil_step demo_slow demo_ic)\<^sup>*\<^sup>* (run_new ?icl) ?R" by (simp add: run_new_def)
  have f: "hil_queue (hr_hil ?R) = [j]" "hr_log ?R = []" "hr_submitted ?R = [j]" using j(3) by (simp_all add: run_new_def)
  obtain R' where "hil_fire\<^sup>*\<^sup>* ?R R'" "hil_queue (hr_hil R') = []" "hr_log R' = [(5, j)]"
    using hil_completes [OF run] f(1,2) j(2) by auto
  then show ?thesis using run f(3) by blast
qed

end
