(* ===== verification/NvmePrp.thy ===== *)
theory NvmePrp
  imports Prelude
begin

text \<open>
  Scatter lists of the NVMe interface: the driver lays out a buffer and its PRP lists
  (\<open>sil/nvme/prp.cc\<close>), the controller reads the lists back and cuts transfers into pieces
  (\<open>hil/nvme/dma.cc\<close>, class \<open>PRPList\<close>). Addresses and sizes are naturals: they are those of
  allocated memory, below \<open>2 ^ 64\<close>. Host memory is a function from the address of a 64 bit entry to
  its value; the DMA read of a list and its completion callback are one step.
\<close>

section \<open>The controller: PRP lists\<close>

record PRP =
  prp_addr :: nat
  prp_size :: nat

definition PRP_new :: "nat \<Rightarrow> nat \<Rightarrow> PRP" where
  "PRP_new address s = \<lparr>prp_addr = address, prp_size = s\<rparr>"

definition getPRPSize :: "nat \<Rightarrow> nat \<Rightarrow> nat" where
  "getPRPSize pagesize addr = pagesize - (addr AND (pagesize - 1))"

text \<open>
  The callback of \<open>getPRPListFromPRP\<close>: the loop over the entries of one list (at the byte offsets
  \<open>ks\<close> of a buffer of \<open>len\<close> bytes).
\<close>

fun scanList :: "nat \<Rightarrow> (nat \<Rightarrow> nat) \<Rightarrow> nat \<Rightarrow> nat \<Rightarrow> nat \<Rightarrow> nat list \<Rightarrow> nat \<times> PRP list \<Rightarrow> (nat \<times> PRP list) res" where
  "scanList pagesize mem base len tot [] st = Inr st"
| "scanList pagesize mem base len tot (i # ks) st =
     guardE (i + 8 \<le> len) (UB ''read behind the buffer of the PRP list'')
       (let listPRP = mem (base + i); listPRPSize = getPRPSize pagesize listPRP; currentSize = fst st + listPRPSize;
            st1 = (currentSize, snd st @ [PRP_new listPRP listPRPSize])
        in guardE (listPRP \<noteq> 0) (Panic ''prp_list: Invalid PRP in PRP List'')
             (if tot \<le> currentSize then Inr st1 else scanList pagesize mem base len tot ks st1))"

lemma scanList_mono: "scanList pagesize mem base len tot ks st = Inr st' \<Longrightarrow> fst st \<le> fst st'"
proof (induction ks arbitrary: st)
  case (Cons i ks)
  then show ?case by (auto simp: Let_def split: if_splits) (fastforce dest: Cons.IH)+
qed simp

definition listOffsets :: "nat \<Rightarrow> nat list" where
  "listOffsets len = map (\<lambda>k. 8 * k) [0..<(len + 7) div 8]"

text \<open>
  \<open>getPRPListFromPRP\<close>: when a list ends before the size is reached, its last entry points to another
  list. A list that contributes nothing (a page size of 0) is followed for ever.
\<close>

function getPRPListFromPRP :: "nat \<Rightarrow> (nat \<Rightarrow> nat) \<Rightarrow> nat \<Rightarrow> nat \<Rightarrow> PRP list \<Rightarrow> PRP list res" where
  "getPRPListFromPRP pagesize mem base tot prpList =
     (let len = getPRPSize pagesize base
      in case scanList pagesize mem base len tot (listOffsets len) (0, prpList) of
           Inl er \<Rightarrow> Inl er
         | Inr (currentSize, prps) \<Rightarrow>
             if currentSize < tot
             then (if currentSize = 0 then Inl Diverge
                   else getPRPListFromPRP pagesize mem (prp_addr (last prps)) (tot - currentSize) (butlast prps))
             else Inr prps)"
  by pat_completeness auto

termination
  by (relation "measure (\<lambda>(_, _, _, tot, _). tot)") auto

declare getPRPListFromPRP.simps [simp del]

definition PRPList_new :: "nat \<Rightarrow> (nat \<Rightarrow> nat) \<Rightarrow> nat \<Rightarrow> nat \<Rightarrow> nat \<Rightarrow> PRP list res" where
  "PRPList_new pagesize mem prp1 prp2 totalSize =
     (let prp1Size = getPRPSize pagesize prp1; prp2Size = getPRPSize pagesize prp2;
          both = guardE (totalSize \<le> prp1Size + prp2Size) (Panic ''prp_list: Invalid DPTR size'')
                   (Inr [PRP_new prp1 prp1Size, PRP_new prp2 prp2Size]);
          list = getPRPListFromPRP pagesize mem prp2 (totalSize - prp1Size) [PRP_new prp1 prp1Size]
      in if totalSize \<le> pagesize
         then (if totalSize \<le> prp1Size then Inr [PRP_new prp1 totalSize] else both)
         else if totalSize \<le> pagesize * 2 then (if prp1Size = pagesize then both else list)
         else list)"

definition PRPList_queue :: "nat \<Rightarrow> (nat \<Rightarrow> nat) \<Rightarrow> nat \<Rightarrow> nat \<Rightarrow> bool \<Rightarrow> PRP list res" where
  "PRPList_queue pagesize mem base sz cont =
     (if cont then Inr [PRP_new base sz] else getPRPListFromPRP pagesize mem base sz [])"

text \<open>
  \<open>PRPList::read\<close> and \<open>write\<close>: the transfers (address, size, offset in the buffer) they issue. The state of
  the loop is \<open>begin\<close>, \<open>totalRead\<close> and \<open>currentOffset\<close>.
\<close>

fun prpIo :: "nat \<Rightarrow> nat \<Rightarrow> bool \<times> nat \<times> nat \<Rightarrow> PRP list \<Rightarrow> (nat \<times> nat \<times> nat) list" where
  "prpIo offset len st [] = []"
| "prpIo offset len (begin, tot, cur) (p # ps) =
     (if begin
      then (let n = min (prp_size p) (len - tot)
            in (prp_addr p, n, tot) #
               (if tot + n = len then [] else prpIo offset len (True, tot + n, cur + prp_size p) ps))
      else if offset < cur + prp_size p
      then (let t = offset - cur; n = min (prp_size p - t) len
            in (prp_addr p + t, n, 0) # prpIo offset len (True, n, cur + prp_size p) ps)
      else prpIo offset len (False, tot, cur + prp_size p) ps)"

definition PRPList_io :: "nat \<Rightarrow> nat \<Rightarrow> PRP list \<Rightarrow> (nat \<times> nat \<times> nat) list" where
  "PRPList_io offset len prpList = prpIo offset len (False, 0, 0) prpList"

section \<open>The driver: laying out a buffer\<close>

record HostPRP =
  hp_memory :: "nat \<Rightarrow> nat"
  hp_capacity :: nat
  hp_ptr1 :: nat
  hp_ptr2 :: nat
  hp_ptrList :: "nat list"

text \<open>The first loop of \<open>PRP::PRP\<close>: number of lists, entries of the last one, bytes to allocate.\<close>

function prpPlan :: "nat \<Rightarrow> nat \<Rightarrow> nat \<Rightarrow> nat \<times> nat \<times> nat" where
  "prpPlan sz listCount capacity =
     (if 4096 * 512 < sz then prpPlan (sz - 4096 * 511) (listCount + 1) (capacity + 4096 * 512)
      else (listCount, DIVCEIL sz 4096, capacity + 4096 * DIVCEIL sz 4096))"
  by pat_completeness auto

termination
  by (relation "measure (\<lambda>(sz, _, _). sz)") auto

declare prpPlan.simps [simp del]

text \<open>The second loop, with the number of iterations it may take (one for every page allocated).\<close>

fun prpFill :: "nat \<Rightarrow> nat \<Rightarrow> nat \<Rightarrow> nat \<Rightarrow> nat \<Rightarrow> nat \<Rightarrow> (nat \<Rightarrow> nat) \<Rightarrow> nat list \<Rightarrow> ((nat \<Rightarrow> nat) \<times> nat list) res" where
  "prpFill 0 listCount lastCount listPtr page i mem ptrs = Inl Diverge"
| "prpFill (Suc fuel) listCount lastCount listPtr page i mem ptrs =
     (let mem1 = mem(listPtr + 8 * i := page); ptrs1 = ptrs @ [page]; page1 = page + 4096; i1 = i + 1
      in if listCount = 1 \<and> i1 = lastCount then Inr (mem1(listPtr + 8 * i1 := 0), ptrs1)
         else if 1 < listCount \<and> i1 = 511
         then prpFill fuel (listCount - 1) lastCount page1 (page1 + 4096) 0 (mem1(listPtr + 8 * i1 := page1)) ptrs1
         else prpFill fuel listCount lastCount listPtr page1 i1 mem1 ptrs1)"

text \<open>\<open>PRP::PRP\<close> with the address \<open>base\<close> that \<open>aligned_alloc\<close> returned.\<close>

definition HostPRP_new :: "nat \<Rightarrow> nat \<Rightarrow> HostPRP res" where
  "HostPRP_new base sz =
     (if sz \<le> 4096
      then Inr \<lparr>hp_memory = (\<lambda>_. 0), hp_capacity = 4096, hp_ptr1 = base, hp_ptr2 = 0, hp_ptrList = [base]\<rparr>
      else if sz \<le> 4096 * 2
      then Inr \<lparr>hp_memory = (\<lambda>_. 0), hp_capacity = 4096 * 2, hp_ptr1 = base, hp_ptr2 = base + 4096,
                hp_ptrList = [base, base + 4096]\<rparr>
      else (let (listCount, lastCount, capacity) = prpPlan (sz - 4096) 1 (4096 * 2)
            in bindE (prpFill (capacity div 4096) listCount lastCount (base + 4096) (base + 4096 * 2) 0 (\<lambda>_. 0) [base, base + 4096])
                 (\<lambda>(mem, ptrs). Inr \<lparr>hp_memory = mem, hp_capacity = capacity, hp_ptr1 = base, hp_ptr2 = base + 4096,
                    hp_ptrList = ptrs\<rparr>)))"

section \<open>Transfers\<close>

lemma getPRPSize_pow2: "getPRPSize (2 ^ k) a = 2 ^ k - a mod 2 ^ k"
proof -
  have "(2 ^ k - 1 :: nat) = mask k" by (simp add: mask_eq_exp_minus_1)
  then show ?thesis unfolding getPRPSize_def by (simp only: take_bit_eq_mask [symmetric] take_bit_eq_mod)
qed

lemma getPRPSize_4096 [simp]: "getPRPSize 4096 a = 4096 - a mod 4096"
  using getPRPSize_pow2 [of 12 a] by simp

text \<open>The bytes of a list, and the pairs of buffer position and address that transfers move.\<close>

definition prpBytes :: "PRP list \<Rightarrow> nat list" where
  "prpBytes ps = concat (map (\<lambda>p. [prp_addr p..<prp_addr p + prp_size p]) ps)"

definition moved :: "(nat \<times> nat \<times> nat) list \<Rightarrow> (nat \<times> nat) list" where
  "moved segs = concat (map (\<lambda>(a, n, b). zip [b..<b + n] [a..<a + n]) segs)"

lemma moved_simps [simp]:
  "moved [] = []"
  "moved ((a, n, b) # segs) = zip [b..<b + n] [a..<a + n] @ moved segs"
  by (simp_all add: moved_def)

lemma prpBytes_simps [simp]:
  "prpBytes [] = []"
  "prpBytes (p # ps) = [prp_addr p..<prp_addr p + prp_size p] @ prpBytes ps"
  by (simp_all add: prpBytes_def)

lemma zip_upt_append:
  "t + length xs \<le> len \<Longrightarrow> zip [t..<len] (xs @ ys) = zip [t..<t + length xs] xs @ zip [t + length xs..<len] ys"
proof -
  assume "t + length xs \<le> len"
  then have "[t..<len] = [t..<t + length xs] @ [t + length xs..<len]"
    using upt_add_eq_append [of t "t + length xs" "len - (t + length xs)"] by simp
  then show ?thesis by (simp add: zip_append)
qed

lemma moved_begun:
  "t \<le> len \<Longrightarrow> moved (prpIo offset len (True, t, cur) ps) = zip [t..<len] (take (len - t) (prpBytes ps))"
proof (induction ps arbitrary: t cur)
  case (Cons p ps)
  let ?a = "[prp_addr p..<prp_addr p + prp_size p]"
  show ?case
  proof (cases "len - t \<le> prp_size p")
    case True
    then have "min (prp_size p) (len - t) = len - t" by simp
    then show ?thesis using Cons.prems True by (simp add: take_upt)
  next
    case False
    then have m: "min (prp_size p) (len - t) = prp_size p" by simp
    have "moved (prpIo offset len (True, t, cur) (p # ps)) =
        zip [t..<t + prp_size p] ?a @ zip [t + prp_size p..<len] (take (len - (t + prp_size p)) (prpBytes ps))"
      using Cons.IH [of "t + prp_size p" "cur + prp_size p"] False by (simp add: m Let_def)
    also have "\<dots> = zip [t..<len] (?a @ take (len - (t + prp_size p)) (prpBytes ps))"
      using zip_upt_append [of t ?a len "take (len - (t + prp_size p)) (prpBytes ps)"] False by simp
    finally show ?thesis using False by (simp add: take_append)
  qed
qed simp

lemma moved_io:
  "cur \<le> offset \<Longrightarrow> moved (prpIo offset len (False, t, cur) ps) = zip [0..<len] (take len (drop (offset - cur) (prpBytes ps)))"
proof (induction ps arbitrary: cur t)
  case (Cons p ps)
  let ?a = "[prp_addr p..<prp_addr p + prp_size p]" and ?o = "offset - cur"
  show ?case
  proof (cases "offset < cur + prp_size p")
    case False
    then have "moved (prpIo offset len (False, t, cur) (p # ps)) =
        zip [0..<len] (take len (drop (offset - (cur + prp_size p)) (prpBytes ps)))"
      using Cons.IH [of "cur + prp_size p" t] by simp
    moreover have "offset - cur = length ?a + (offset - (cur + prp_size p))" using False by simp
    ultimately show ?thesis by simp
  next
    case True
    then have o: "?o < prp_size p" using Cons.prems by simp
    let ?b = "[prp_addr p + ?o..<prp_addr p + prp_size p]"
    define n where "n = min (prp_size p - ?o) len"
    have d: "drop ?o (?a @ prpBytes ps) = ?b @ prpBytes ps" using True Cons.prems by (simp add: drop_upt)
    have n: "n \<le> len" "n \<le> prp_size p - ?o" by (simp_all add: n_def)
    have l: "moved (prpIo offset len (False, t, cur) (p # ps)) =
        zip [0..<n] [prp_addr p + ?o..<prp_addr p + ?o + n] @ zip [n..<len] (take (len - n) (prpBytes ps))"
      using True moved_begun [OF n(1), of offset "cur + prp_size p" ps] by (simp add: n_def Let_def)
    show ?thesis
    proof (cases "len \<le> prp_size p - ?o")
      case True
      then have "n = len" by (simp add: n_def)
      moreover have "take len (?b @ prpBytes ps) = [prp_addr p + ?o..<prp_addr p + ?o + len]"
        using True o by (simp add: take_upt)
      ultimately show ?thesis unfolding l using d by simp
    next
      case False
      then have e: "n = length ?b" by (simp add: n_def)
      moreover have "take len (?b @ prpBytes ps) = ?b @ take (len - n) (prpBytes ps)" using False e by simp
      moreover have "[prp_addr p + ?o..<prp_addr p + ?o + n] = ?b" using e True Cons.prems by simp
      ultimately show ?thesis unfolding l using d zip_upt_append [of 0 ?b len "take (len - n) (prpBytes ps)"] n(1) by simp
    qed
  qed
qed simp

section \<open>Lists that continue in another list\<close>

abbreviation sizes :: "PRP list \<Rightarrow> nat" where
  "sizes ps \<equiv> sum_list (map prp_size ps)"

lemma scanList_aligned:
  assumes "scanList P mem base len tot ks (cur, acc) = Inr (cur', acc')" and "\<And>a. getPRPSize P (mem a) = P" and "cur < tot"
  shows "\<exists>new. acc' = acc @ new \<and> cur' = cur + length new * P \<and> sizes new = length new * P \<and> (\<forall>p\<in>set new. prp_size p = P) \<and>
     cur' < tot + P \<and> (if cur' < tot then length new = length ks else new \<noteq> [])"
  using assms
proof (induction ks arbitrary: cur acc)
  case Nil
  then show ?case by auto
next
  case (Cons i ks)
  let ?p = "PRP_new (mem (base + i)) P"
  have P: "getPRPSize P (mem a) = P" for a using Cons.prems(2) .
  show ?case
  proof (cases "tot \<le> cur + P")
    case True
    then have "cur' = cur + P" "acc' = acc @ [?p]" using Cons.prems(1) by (simp_all add: P Let_def)
    then show ?thesis using True Cons.prems(3) by (intro exI [of _ "[?p]"]) (simp add: PRP_new_def)
  next
    case False
    then have r: "scanList P mem base len tot ks (cur + P, acc @ [?p]) = Inr (cur', acc')"
      using Cons.prems(1) by (simp add: P Let_def)
    obtain new where new: "acc' = (acc @ [?p]) @ new" "cur' = cur + P + length new * P" "sizes new = length new * P"
        "\<forall>p\<in>set new. prp_size p = P" "cur' < tot + P" "if cur' < tot then length new = length ks else new \<noteq> []"
      using Cons.IH [OF r Cons.prems(2)] False by auto
    then show ?thesis by (intro exI [of _ "?p # new"]) (simp add: PRP_new_def split: if_splits)
  qed
qed

lemma scanList_length: "scanList P mem base len tot ks (cur, acc) = Inr (cur', acc') \<Longrightarrow> length acc' \<le> length acc + length ks"
proof (induction ks arbitrary: cur acc)
  case (Cons i ks)
  then show ?case by (auto simp: Let_def split: if_splits dest!: Cons.IH)
qed simp

lemma scanList_entries:
  "scanList P mem base len tot ks (cur, acc) = Inr (cur', acc') \<Longrightarrow> acc' = acc \<or> (\<exists>a. prp_addr (last acc') = mem a)"
proof (induction ks arbitrary: cur acc)
  case (Cons i ks)
  let ?p = "PRP_new (mem (base + i)) (getPRPSize P (mem (base + i)))"
  have "acc' = acc @ [?p] \<or> scanList P mem base len tot ks (cur + getPRPSize P (mem (base + i)), acc @ [?p]) = Inr (cur', acc')"
    using Cons.prems by (auto simp: Let_def split: if_splits)
  then show ?case using Cons.IH [of "cur + getPRPSize P (mem (base + i))" "acc @ [?p]"] by (auto simp: PRP_new_def)
qed simp

lemma scanList_total:
  assumes "\<And>a. mem a \<noteq> 0" and "\<And>i. i \<in> set ks \<Longrightarrow> i + 8 \<le> len"
  shows "\<exists>r. scanList P mem base len tot ks st = Inr r"
  using assms(2)
proof (induction ks arbitrary: st)
  case (Cons i ks)
  have "\<exists>r. scanList P mem base len tot ks st1 = Inr r" for st1 using Cons by simp
  then show ?case using Cons.prems [of i] assms(1) by (simp add: Let_def)
qed simp

text \<open>
  Whatever the lists are: if the first list does not hold enough entries, the sizes found sum up to
  less than what was asked for, because the entry that points to the next list is counted as data.
\<close>

lemma chain_sizes:
  assumes "getPRPListFromPRP P mem base tot acc = Inr r" and "\<And>a. getPRPSize P (mem a) = P" and "0 < tot" and "0 < P"
  shows "sizes r < sizes acc + tot + P"
    and "length (listOffsets (getPRPSize P base)) * P < tot \<Longrightarrow> sizes r < sizes acc + tot"
proof -
  have "sizes r < sizes acc + tot + P \<and> (length (listOffsets (getPRPSize P base)) * P < tot \<longrightarrow> sizes r < sizes acc + tot)"
    using assms(1,3)
  proof (induction tot arbitrary: base acc rule: less_induct)
    case (less tot)
    let ?len = "getPRPSize P base"
    obtain cur prps where sc: "scanList P mem base ?len tot (listOffsets ?len) (0, acc) = Inr (cur, prps)"
      using less.prems(1) by (auto simp: getPRPListFromPRP.simps [of P mem base] Let_def split: sum.splits)
    obtain new where new: "prps = acc @ new" "cur = length new * P" "sizes new = length new * P"
        "\<forall>p\<in>set new. prp_size p = P" "cur < tot + P" "if cur < tot then length new = length (listOffsets ?len) else new \<noteq> []"
      using scanList_aligned [OF sc assms(2) less.prems(2)] by auto
    show ?case
    proof (cases "cur < tot")
      case False
      then have "r = prps" using less.prems(1) sc by (simp add: getPRPListFromPRP.simps [of P mem base] Let_def)
      moreover have "length new \<le> length (listOffsets ?len)" using scanList_length [OF sc] new(1) by simp
      then have "length new * P \<le> length (listOffsets ?len) * P" by (rule mult_le_mono1)
      then have "\<not> length (listOffsets ?len) * P < tot" using False unfolding new(2) by linarith
      ultimately show ?thesis using new(1-3,5) by simp
    next
      case True
      then have cur: "cur \<noteq> 0" and rec: "getPRPListFromPRP P mem (prp_addr (last prps)) (tot - cur) (butlast prps) = Inr r"
        using less.prems(1) sc by (auto simp: getPRPListFromPRP.simps [of P mem base] Let_def split: if_splits)
      have "new \<noteq> []" using cur new(2) by auto
      then have e: "prps = butlast prps @ [last new]" and l: "prp_size (last new) = P" using new(1,4) by (simp_all add: butlast_append)
      have "sizes prps = sizes (butlast prps @ [last new])" by (rule arg_cong [OF e])
      then have "sizes (butlast prps) + P = sizes prps" using l by simp
      then have "sizes (butlast prps) + P = sizes acc + cur" using new(1-3) by simp
      moreover have "sizes r < sizes (butlast prps) + (tot - cur) + P" using less.IH [OF _ rec] cur True by simp
      ultimately have "sizes r < sizes acc + tot" using True by linarith
      then show ?thesis by simp
    qed
  qed
  then show "sizes r < sizes acc + tot + P" and "length (listOffsets (getPRPSize P base)) * P < tot \<Longrightarrow> sizes r < sizes acc + tot"
    by simp_all
qed

lemma getPRPList_total:
  assumes "\<And>a. mem a \<noteq> 0" and "\<And>a. getPRPSize P (mem a) = P" and "0 < tot" and "0 < P" and "8 dvd P" and "getPRPSize P base = P"
  shows "\<exists>r. getPRPListFromPRP P mem base tot acc = Inr r"
  using assms(3,6)
proof (induction tot arbitrary: base acc rule: less_induct)
  case (less tot)
  have "i + 8 \<le> P" if "i \<in> set (listOffsets P)" for i
    using that assms(5) by (auto simp: listOffsets_def elim!: dvdE)
  then obtain cur prps where sc: "scanList P mem base P tot (listOffsets P) (0, acc) = Inr (cur, prps)"
    using scanList_total [where mem = mem and P = P and len = P and base = base and tot = tot and st = "(0, acc)" and ks = "listOffsets P"] assms(1) by fastforce
  obtain new where new: "prps = acc @ new" "cur = length new * P" "if cur < tot then length new = length (listOffsets P) else new \<noteq> []"
    using scanList_aligned [OF sc assms(2) less.prems(1)] by auto
  have prps: "prps \<noteq> acc \<Longrightarrow> \<exists>a. prp_addr (last prps) = mem a"
    using scanList_entries [OF sc] by auto
  show ?case
  proof (cases "cur < tot")
    case True
    have "listOffsets P \<noteq> []" using assms(4,5) by (auto simp: listOffsets_def elim!: dvdE)
    then have ne: "new \<noteq> []" using new(3) True by auto
    then have cur: "0 < cur" using new(2) assms(4) by simp
    have "getPRPSize P (prp_addr (last prps)) = P" using prps ne new(1) assms(2) by fastforce
    then have "\<exists>r. getPRPListFromPRP P mem (prp_addr (last prps)) (tot - cur) (butlast prps) = Inr r"
      using cur True by (intro less.IH) simp_all
    then show ?thesis using sc True cur less.prems(2) by (simp add: getPRPListFromPRP.simps [of P mem base] Let_def)
  qed (use sc less.prems(2) in \<open>simp add: getPRPListFromPRP.simps [of P mem base] Let_def\<close>)
qed

section \<open>The lists of the driver read by the controller\<close>

text \<open>One list: its entries are the pages in order, whatever the memory was before.\<close>

lemma prpFill_single:
  assumes "i < m" and "m - i \<le> fuel"
  shows "\<exists>mem'. prpFill fuel 1 m listPtr page i mem ptrs = Inr (mem', ptrs @ map (\<lambda>k. page + 4096 * k) [0..<m - i]) \<and>
     (\<forall>j. i \<le> j \<and> j < m \<longrightarrow> mem' (listPtr + 8 * j) = page + 4096 * (j - i)) \<and>
     (\<forall>j<i. mem' (listPtr + 8 * j) = mem (listPtr + 8 * j))"
  using assms
proof (induction fuel arbitrary: i page mem ptrs)
  case (Suc fuel)
  let ?mem = "mem(listPtr + 8 * i := page)"
  show ?case
  proof (cases "Suc i = m")
    case True
    then have "m - i = 1" by simp
    then show ?thesis using True by (auto simp: Let_def)
  next
    case False
    then have lt: "Suc i < m" using Suc.prems(1) by simp
    have fuel: "m - Suc i \<le> fuel" using Suc.prems(2) by simp
    obtain mem' where r: "prpFill fuel 1 m listPtr (page + 4096) (Suc i) ?mem (ptrs @ [page]) =
          Inr (mem', (ptrs @ [page]) @ map (\<lambda>k. page + 4096 + 4096 * k) [0..<m - Suc i])"
      and new: "\<forall>j. Suc i \<le> j \<and> j < m \<longrightarrow> mem' (listPtr + 8 * j) = page + 4096 + 4096 * (j - Suc i)"
      and old: "\<forall>j<Suc i. mem' (listPtr + 8 * j) = ?mem (listPtr + 8 * j)"
      using Suc.IH [OF lt fuel, of "page + 4096" ?mem "ptrs @ [page]"] by blast
    have "m - i = Suc (m - Suc i)" using lt by simp
    then have pages: "map (\<lambda>k. page + 4096 * k) [0..<m - i] = page # map (\<lambda>k. page + 4096 + 4096 * k) [0..<m - Suc i]"
      by (simp add: map_upt_Suc del: upt_Suc)
    have "mem' (listPtr + 8 * j) = page + 4096 * (j - i)" if "i \<le> j" "j < m" for j
    proof (cases "j = i")
      case False
      then have "j - i = Suc (j - Suc i)" using that by simp
      then show ?thesis using new that False by simp
    qed (use old in simp)
    moreover have "prpFill (Suc fuel) 1 m listPtr page i mem ptrs = Inr (mem', ptrs @ map (\<lambda>k. page + 4096 * k) [0..<m - i])"
      using r False by (simp add: Let_def pages)
    ultimately show ?thesis using old by auto
  qed
qed simp

lemma scanList_pages:
  assumes "\<And>j. j < m \<Longrightarrow> mem (base + 8 * j) = v j \<and> v j \<noteq> 0 \<and> v j mod 4096 = 0"
    and "k < m" and "m \<le> n" and "(m - 1) * 4096 < tot" and "tot \<le> m * 4096" and "8 * n \<le> len"
  shows "scanList 4096 mem base len tot (map (\<lambda>k. 8 * k) [k..<n]) (k * 4096, acc) =
     Inr (m * 4096, acc @ map (\<lambda>j. PRP_new (v j) 4096) [k..<m])"
  using assms(2)
proof (induction "m - k" arbitrary: k acc)
  case (Suc d)
  have n: "[k..<n] = k # [Suc k..<n]" and m: "[k..<m] = k # [Suc k..<m]"
    using Suc.prems assms(3) by (simp_all add: upt_conv_Cons)
  have e: "mem (base + 8 * k) = v k" "v k \<noteq> 0" "v k mod 4096 = 0" using assms(1) [OF Suc.prems] by simp_all
  have l: "8 * k + 8 \<le> len" using Suc.prems assms(3,6) by simp
  show ?case
  proof (cases "Suc k = m")
    case True
    then show ?thesis using e l assms(5) by (simp add: n m Let_def)
  next
    case False
    then have lt: "Suc k < m" using Suc.prems by simp
    then have "Suc k * 4096 \<le> (m - 1) * 4096" by (intro mult_le_mono) simp_all
    then have "\<not> tot \<le> k * 4096 + 4096" using assms(4) by simp
    then show ?thesis
      using e l Suc.hyps(1) [OF _ lt, of "acc @ [PRP_new (v k) 4096]"] Suc.hyps(2) by (simp add: n m Let_def add.commute)
  qed
qed simp

lemma HostPRP_single:
  assumes "4096 * 2 < sz" and "sz \<le> 4096 * 513" and "m = DIVCEIL (sz - 4096) 4096"
  shows "\<exists>mem. HostPRP_new base sz = Inr \<lparr>hp_memory = mem, hp_capacity = 4096 * (2 + m), hp_ptr1 = base, hp_ptr2 = base + 4096,
       hp_ptrList = [base, base + 4096] @ map (\<lambda>k. base + 4096 * 2 + 4096 * k) [0..<m]\<rparr> \<and>
     (\<forall>j<m. mem (base + 4096 + 8 * j) = base + 4096 * 2 + 4096 * j)"
proof -
  have "\<not> 4096 * 512 < sz - 4096" using assms(2) by simp
  then have plan: "prpPlan (sz - 4096) 1 (4096 * 2) = (1, m, 4096 * 2 + 4096 * m)"
    unfolding assms(3) by (subst prpPlan.simps) (simp only: if_False)
  have m0: "0 < m" by (simp add: assms(3) DIVCEIL_def)
  obtain mem where "prpFill (2 + m) 1 m (base + 4096) (base + 4096 * 2) 0 (\<lambda>_. 0) [base, base + 4096] =
      Inr (mem, [base, base + 4096] @ map (\<lambda>k. base + 4096 * 2 + 4096 * k) [0..<m])"
    and "\<forall>j<m. mem (base + 4096 + 8 * j) = base + 4096 * 2 + 4096 * j"
    using prpFill_single [of 0 m "2 + m" "base + 4096" "base + 4096 * 2" "\<lambda>_. 0" "[base, base + 4096]"] m0 by auto
  moreover have "(4096 * 2 + 4096 * m) div 4096 = 2 + m" by simp
  ultimately show ?thesis using assms(1) plan by (auto simp: HostPRP_new_def)
qed

text \<open>The pages that hold the data of a buffer: all but the page of the list.\<close>

definition dataPages :: "nat \<Rightarrow> nat \<Rightarrow> PRP list" where
  "dataPages base sz =
     (if sz \<le> 4096 then [PRP_new base sz]
      else if sz \<le> 4096 * 2 then [PRP_new base 4096, PRP_new (base + 4096) 4096]
      else PRP_new base 4096 # map (\<lambda>k. PRP_new (base + 4096 * (2 + k)) 4096) [0..<DIVCEIL (sz - 4096) 4096])"

lemma page_count:
  assumes "m = DIVCEIL (sz - 4096) 4096" and "4096 * 2 < sz"
  shows "(m - 1) * 4096 < sz - 4096" and "sz - 4096 \<le> m * 4096" and "0 < m" and "sz \<le> 4096 * 513 \<Longrightarrow> m \<le> 512"
proof -
  show b: "(m - 1) * 4096 < sz - 4096" and "sz - 4096 \<le> m * 4096" and "0 < m"
    using assms DIVCEIL_bounds [of "sz - 4096" 4096] by (auto simp: DIVCEIL_def)
  show "m \<le> 512" if "sz \<le> 4096 * 513" using b that by linarith
qed

lemma PRPList_single:
  assumes "4096 * 2 < sz" and "sz \<le> 4096 * 513" and "0 < base" and "base mod 4096 = 0"
    and "\<And>j. j < DIVCEIL (sz - 4096) 4096 \<Longrightarrow> mem (base + 4096 + 8 * j) = base + 4096 * 2 + 4096 * j"
  shows "PRPList_new 4096 mem base (base + 4096) sz = Inr (dataPages base sz)"
proof -
  let ?m = "DIVCEIL (sz - 4096) 4096"
  note C = page_count [OF refl assms(1)]
  have "scanList 4096 mem (base + 4096) 4096 (sz - 4096) (map (\<lambda>k. 8 * k) [0..<512]) (0 * 4096, [PRP_new base 4096]) =
      Inr (?m * 4096, [PRP_new base 4096] @ map (\<lambda>j. PRP_new (base + 4096 * 2 + 4096 * j) 4096) [0..<?m])"
    using assms C by (intro scanList_pages) (auto simp: mod_add_eq [symmetric])
  then have sc: "scanList 4096 mem (base + 4096) 4096 (sz - 4096) (listOffsets 4096) (0, [PRP_new base 4096]) =
      Inr (?m * 4096, dataPages base sz)"
    using assms(1) by (simp add: listOffsets_def dataPages_def algebra_simps)
  have p: "getPRPSize 4096 base = 4096" "getPRPSize 4096 (base + 4096) = 4096" using assms(4) by simp_all
  have "getPRPListFromPRP 4096 mem (base + 4096) (sz - 4096) [PRP_new base 4096] = Inr (dataPages base sz)"
    unfolding getPRPListFromPRP.simps [of 4096 mem "base + 4096"] p(2) Let_def sc using C(2) by simp
  then show ?thesis using assms(1) p(1) unfolding PRPList_new_def by (simp add: Let_def)
qed

section \<open>Properties\<close>

text \<open>
  C31. Round trip. For every buffer of up to 513 pages (one page, two pages, or one list), the pointers
  and the list the driver lays out are read back by the controller as exactly the data pages of
  the buffer, in order, and they cover the size.
\<close>

theorem prp_roundtrip:
  assumes "0 < sz" and "sz \<le> 4096 * 513" and "0 < base" and "base mod 4096 = 0"
  shows "\<exists>h. HostPRP_new base sz = Inr h \<and>
     PRPList_new 4096 (hp_memory h) (hp_ptr1 h) (hp_ptr2 h) sz = Inr (dataPages base sz) \<and>
     sz \<le> sizes (dataPages base sz) \<and> sizes (dataPages base sz) < sz + 4096"
proof -
  consider "sz \<le> 4096" | "4096 < sz" "sz \<le> 4096 * 2" | "4096 * 2 < sz" by linarith
  then show ?thesis
  proof cases
    case 3
    obtain mem where h: "HostPRP_new base sz = Inr \<lparr>hp_memory = mem, hp_capacity = 4096 * (2 + DIVCEIL (sz - 4096) 4096),
        hp_ptr1 = base, hp_ptr2 = base + 4096,
        hp_ptrList = [base, base + 4096] @ map (\<lambda>k. base + 4096 * 2 + 4096 * k) [0..<DIVCEIL (sz - 4096) 4096]\<rparr>"
      and mem: "\<forall>j<DIVCEIL (sz - 4096) 4096. mem (base + 4096 + 8 * j) = base + 4096 * 2 + 4096 * j"
      using HostPRP_single [OF 3 assms(2) refl, of base] by blast
    have l: "PRPList_new 4096 mem base (base + 4096) sz = Inr (dataPages base sz)"
      using mem by (intro PRPList_single [OF 3 assms(2-4)]) simp
    have "sizes (dataPages base sz) = 4096 + 4096 * DIVCEIL (sz - 4096) 4096"
      using 3 by (simp add: dataPages_def PRP_new_def comp_def sum_list_triv)
    moreover have "sz \<le> 4096 + 4096 * DIVCEIL (sz - 4096) 4096" "4096 + 4096 * DIVCEIL (sz - 4096) 4096 < sz + 4096"
      using page_count(1-3) [OF refl 3] 3 by linarith+
    ultimately show ?thesis using h l by simp
  qed (use assms in \<open>auto simp: HostPRP_new_def PRPList_new_def dataPages_def PRP_new_def Let_def\<close>)
qed

theorem prp_roundtrip_witness:
  "\<exists>h. HostPRP_new 4096 12289 = Inr h \<and> PRPList_new 4096 (hp_memory h) (hp_ptr1 h) (hp_ptr2 h) 12289 =
     Inr [PRP_new 4096 4096, PRP_new 12288 4096, PRP_new 16384 4096, PRP_new 20480 4096]"
proof -
  have "dataPages 4096 12289 = [PRP_new 4096 4096, PRP_new 12288 4096, PRP_new 16384 4096, PRP_new 20480 4096]"
    by (simp add: dataPages_def DIVCEIL_def upt_rec)
  then show ?thesis using prp_roundtrip [of 12289 4096] by auto
qed

text \<open>
  C32. A flaw of the controller: lists of more than 512 entries. Whatever page-aligned addresses host memory
  holds, a request of more than 513 pages whose lists are accepted is given transfers whose sizes sum
  up to less than the request: the entry that points to the next list is counted as a page of data.
\<close>

theorem prp_chain_short:
  assumes "PRPList_new 4096 mem prp1 prp2 sz = Inr r" and "4096 * 513 < sz" and "prp1 mod 4096 = 0" and "prp2 mod 4096 = 0"
    and "\<And>a. mem a mod 4096 = 0"
  shows "sizes r < sz"
proof -
  have p: "getPRPSize 4096 prp1 = 4096" "getPRPSize 4096 prp2 = 4096" using assms(3,4) by simp_all
  have r: "getPRPListFromPRP 4096 mem prp2 (sz - 4096) [PRP_new prp1 4096] = Inr r"
    using assms(1,2) unfolding PRPList_new_def p Let_def by simp
  have "length (listOffsets (getPRPSize 4096 prp2)) * 4096 < sz - 4096" unfolding p using assms(2) by (simp add: listOffsets_def)
  then have "sizes r < sizes [PRP_new prp1 4096] + (sz - 4096)"
    using assms(5) by (intro chain_sizes(2) [OF r]) simp_all
  then show ?thesis using assms(2) by (simp add: PRP_new_def)
qed

theorem prp_chain_short_witness: "\<exists>r. PRPList_new 4096 (\<lambda>_. 8192) 4096 8192 (4096 * 514) = Inr r \<and> sizes r < 4096 * 514"
proof -
  obtain r where "getPRPListFromPRP 4096 (\<lambda>_. 8192) 8192 (4096 * 513) [PRP_new 4096 4096] = Inr r"
    using getPRPList_total [of "\<lambda>_. 8192" 4096 "4096 * 513" 8192] by auto
  then have "PRPList_new 4096 (\<lambda>_. 8192) 4096 8192 (4096 * 514) = Inr r" by (simp add: PRPList_new_def Let_def)
  then show ?thesis using prp_chain_short [of "\<lambda>_. 8192" 4096 8192 "4096 * 514" r] by simp
qed

text \<open>
  C33. Transfers. The pieces into which a read or write is cut move exactly the bytes of the range,
  each to its place in the buffer, in order. But when the range ends in the first page that it
  touches and another page follows, a transfer of size 0 is issued as well, which the interfaces
  below ignore without calling the completion handler that is counted for it.
\<close>

theorem prp_transfers:
  "moved (PRPList_io offset len ps) = zip [0..<len] (take len (drop offset (prpBytes ps))) \<and>
   (offset + len \<le> prp_size p \<and> 0 < len \<longrightarrow>
      PRPList_io offset len (p # q # qs) = [(prp_addr p + offset, len, 0), (prp_addr q, 0, len)])"
  using moved_io [of 0 offset len 0 ps] by (auto simp: PRPList_io_def Let_def)

theorem prp_transfers_witness:
  "PRPList_io 64 64 [PRP_new 4096 4096, PRP_new 12288 4096] = [(4160, 64, 0), (12288, 0, 64)]"
  using prp_transfers [of 64 64 "[]" "PRP_new 4096 4096" "PRP_new 12288 4096" "[]"] by (simp add: PRP_new_def)

end
