(* ===== verification/NvmeArbiter.thy ===== *)
theory NvmeArbiter
  imports NvmeController
begin

text \<open>
  Arbitration over the submission queues: what one pass does to a queue, the schedule of the round
  robin as a closed form, and the outcome of the weighted round robin, which serves every queue to
  the end except those of low priority, which it never serves.
\<close>

section \<open>One queue\<close>

definition queue_ok :: "SQueue \<Rightarrow> bool" where
  "queue_ok q \<longleftrightarrow> nq_head q < nq_size q \<and> nq_tail q < nq_size q"

definition advance :: "SQueue \<Rightarrow> SQueue" where
  "advance q = q\<lparr>nq_head := ringNext (nq_size q) (nq_head q)\<rparr>"

definition fetchOf :: "nat \<Rightarrow> SQueue \<Rightarrow> fetch" where
  "fetchOf i q = \<lparr>fe_queue = i, fe_oldhead = nq_head q, fe_offset = Some (ucast (nq_head q) * nq_stride q)\<rparr>"

abbreviation items :: "SQueue \<Rightarrow> nat" where
  "items q \<equiv> unat (getItemCount q)"

abbreviation drained :: "SQueue \<Rightarrow> SQueue" where
  "drained q \<equiv> q\<lparr>nq_head := nq_tail q\<rparr>"

lemma ring_distance:
  fixes h t s :: u16
  assumes "h < s" and "t < s"
  shows "unat (s - h + t) = unat s - unat h + unat t \<or> h \<le> t"
    and "h \<le> t \<Longrightarrow> unat (t - h) = unat t - unat h"
proof -
  show "unat (t - h) = unat t - unat h" if "h \<le> t"
    using that by (simp add: unat_sub)
  show "unat (s - h + t) = unat s - unat h + unat t \<or> h \<le> t"
  proof (cases "h \<le> t")
    case False
    have "unat (s - h) = unat s - unat h" using assms(1) by (simp add: unat_sub)
    moreover have "unat t < unat h" using False by (simp add: word_less_nat_alt not_le)
    moreover have "unat h < unat s" "unat s < 2 ^ 16" using assms(1) u16_bound [of s] by (simp_all add: word_less_nat_alt)
    ultimately show ?thesis by (simp add: unat_word_ariths)
  qed simp
qed

lemma items_eq:
  assumes "queue_ok q"
  shows "items q = (if nq_head q \<le> nq_tail q then unat (nq_tail q) - unat (nq_head q)
                    else unat (nq_size q) - unat (nq_head q) + unat (nq_tail q))"
  using assms ring_distance [of "nq_head q" "nq_size q" "nq_tail q"]
  by (auto simp: queue_ok_def getItemCount_def)

lemma items_zero: "queue_ok q \<Longrightarrow> items q = 0 \<longleftrightarrow> nq_head q = nq_tail q"
  by (auto simp: items_eq queue_ok_def word_le_nat_alt word_less_nat_alt word_unat_eq_iff [of "nq_head q"])

lemma advance_items:
  assumes ok: "queue_ok q" and ne: "items q \<noteq> 0"
  shows "queue_ok (advance q)" and "items q = Suc (items (advance q))"
proof -
  let ?h = "nq_head q" and ?t = "nq_tail q" and ?s = "nq_size q"
  have b: "unat ?h < unat ?s" "unat ?t < unat ?s" "unat ?s < 2 ^ 16" "unat ?h \<noteq> unat ?t"
    using ok ne u16_bound [of ?s] word_unat_eq_iff [of ?h ?t] by (auto simp: queue_ok_def word_less_nat_alt items_zero)
  have u: "unat (?h + 1) = Suc (unat ?h)" using b by (simp add: unat_word_ariths)
  have n: "unat (ringNext ?s ?h) = (if Suc (unat ?h) = unat ?s then 0 else Suc (unat ?h))"
    using u by (simp add: ringNext_def word_unat_eq_iff [of "?h + 1"])
  show ok': "queue_ok (advance q)"
    using b n by (auto simp: queue_ok_def advance_def word_less_nat_alt)
  have "items (advance q) = (if unat (ringNext ?s ?h) \<le> unat ?t then unat ?t - unat (ringNext ?s ?h)
                             else unat ?s - unat (ringNext ?s ?h) + unat ?t)"
    using items_eq [OF ok'] by (simp add: advance_def word_le_nat_alt)
  then show "items q = Suc (items (advance q))"
    using b by (auto simp: items_eq [OF ok] n word_le_nat_alt)
qed

lemma advance_fields [simp]:
  "nq_size (advance q) = nq_size q" "nq_tail (advance q) = nq_tail q" "nq_stride (advance q) = nq_stride q"
  "sq_priority (advance q) = sq_priority q" "(advance q)\<lparr>nq_head := t\<rparr> = q\<lparr>nq_head := t\<rparr>"
  by (simp_all add: advance_def)

lemma advance_power_fields [simp]:
  "nq_tail ((advance ^^ k) q) = nq_tail q" "sq_priority ((advance ^^ k) q) = sq_priority q"
  "((advance ^^ k) q)\<lparr>nq_head := t\<rparr> = q\<lparr>nq_head := t\<rparr>"
  by (induction k) simp_all

lemma advance_power_items:
  "queue_ok q \<Longrightarrow> k \<le> items q \<Longrightarrow> queue_ok ((advance ^^ k) q) \<and> items ((advance ^^ k) q) = items q - k"
proof (induction k)
  case (Suc k)
  then show ?case using advance_items [of "(advance ^^ k) q"] by auto
qed simp

lemma advance_power_drained:
  assumes "queue_ok q"
  shows "(advance ^^ items q) q = drained q"
proof -
  have "nq_head ((advance ^^ items q) q) = nq_tail q"
    using advance_power_items [OF assms order_refl] items_zero [of "(advance ^^ items q) q"] by simp
  moreover have "x = drained x" if "nq_head x = nq_tail x" for x :: SQueue
    using that by (cases x) simp
  ultimately show ?thesis by (metis advance_power_fields(1,3))
qed

lemma checkQueue_ok:
  "queue_ok q \<Longrightarrow> checkQueue i q = (if items q = 0 then None else Some (fetchOf i q, advance q))"
  using items_zero [of q]
  by (auto simp: checkQueue_def SQueue_getData_eq fetchOf_def advance_def word_neq_0_conv [symmetric] unat_eq_zero)

section \<open>Passes\<close>

definition queues_ok :: "SQueue option list \<Rightarrow> bool" where
  "queues_ok qs \<longleftrightarrow> (\<forall>q. Some q \<in> set qs \<longrightarrow> queue_ok q)"

lemma queues_ok_nth: "queues_ok qs \<Longrightarrow> i < length qs \<Longrightarrow> qs ! i = Some q \<Longrightarrow> queue_ok q"
  unfolding queues_ok_def by (metis nth_mem)

lemma queues_ok_update: "queues_ok qs \<Longrightarrow> queue_ok q \<Longrightarrow> queues_ok (qs[i := Some q])"
  unfolding queues_ok_def using set_update_subset_insert [of qs i "Some q"] by auto

abbreviation itemsSum :: "SQueue option list \<Rightarrow> nat" where
  "itemsSum qs \<equiv> \<Sum>q\<leftarrow>qs. queueItems q"

lemma queueItems_simps [simp]: "queueItems None = 0" "queueItems (Some q) = items q"
  by (simp_all add: queueItems_def)

lemma itemsSum_advance:
  assumes "i < length qs" and "qs ! i = Some q" and "queue_ok q" and "items q \<noteq> 0"
  shows "itemsSum qs = Suc (itemsSum (qs[i := Some (advance q)]))"
proof -
  have "queueItems (qs ! i) \<le> itemsSum qs"
    using elem_le_sum_list [of i "map queueItems qs"] assms(1) by simp
  then show ?thesis
    using assms(1,2) advance_items(2) [OF assms(3,4)] sum_list_update [of i "map queueItems qs" "queueItems (Some (advance q))"]
    by (simp add: map_update)
qed

text \<open>
  How far the collection has come since it found the queues \<open>qs\<close>: of queue \<open>i\<close>, the first \<open>n i\<close>
  commands have been fetched, in their order.
\<close>

definition collected :: "SQueue option list \<Rightarrow> (nat \<Rightarrow> nat) \<Rightarrow> collect \<Rightarrow> bool" where
  "collected qs n c \<longleftrightarrow>
     length (co_queues c) = length qs \<and> (\<forall>f\<in>set (co_fetches c). fe_queue f < length qs) \<and>
     (\<forall>i<length qs. case qs ! i of
        None \<Rightarrow> co_queues c ! i = None \<and> n i = 0 \<and> (\<forall>f\<in>set (co_fetches c). fe_queue f \<noteq> i)
      | Some q \<Rightarrow> n i \<le> items q \<and> co_queues c ! i = Some ((advance ^^ n i) q) \<and>
          filter (\<lambda>f. fe_queue f = i) (co_fetches c) = map (\<lambda>k. fetchOf i ((advance ^^ k) q)) [0..<n i])"

lemma collected_start: "collected qs (\<lambda>_. 0) \<lparr>co_queues = qs, co_fetches = [], co_updated = u, co_total_updated = t\<rparr>"
  by (auto simp: collected_def split: option.split)

lemma collected_counters [simp]:
  "collected qs n (c\<lparr>co_updated := u\<rparr>) = collected qs n c"
  "collected qs n (c\<lparr>co_total_updated := t\<rparr>) = collected qs n c"
  by (simp_all add: collected_def cong: option.case_cong)

lemma collected_cong:
  "co_queues d = co_queues c \<Longrightarrow> co_fetches d = co_fetches c \<Longrightarrow> collected qs n d = collected qs n c"
  by (simp add: collected_def cong: option.case_cong)

lemma collected_queue:
  assumes "collected qs n c" and "queues_ok qs" and "i < length qs" and "co_queues c ! i = Some p"
  obtains q where "qs ! i = Some q" and "p = (advance ^^ n i) q" and "queue_ok p" and "items p = items q - n i"
    and "n i \<le> items q" and "queue_ok q"
proof (cases "qs ! i")
  case None
  then have "co_queues c ! i = None" using assms(1,3) unfolding collected_def by auto
  then show thesis using assms(4) by simp
next
  case (Some q)
  have "n i \<le> items q \<and> co_queues c ! i = Some ((advance ^^ n i) q)"
    using assms(1,3) Some unfolding collected_def by (auto dest!: spec [of _ i])
  moreover have "queue_ok q" using queues_ok_nth assms(2,3) Some by blast
  ultimately show thesis using that [OF Some] advance_power_items [of q "n i"] assms(4) by auto
qed

lemma collected_step:
  assumes "collected qs n c" and "queues_ok qs" and "i < length qs" and "co_queues c ! i = Some p" and "items p \<noteq> 0"
  shows "collected qs (n(i := Suc (n i)))
           (c\<lparr>co_queues := (co_queues c)[i := Some (advance p)], co_fetches := co_fetches c @ [fetchOf i p]\<rparr>)"
proof -
  obtain q where q: "qs ! i = Some q" "p = (advance ^^ n i) q" "items p = items q - n i"
    using collected_queue [OF assms(1-4)] by metis
  have i: "filter (\<lambda>f. fe_queue f = i) (co_fetches c) = map (\<lambda>k. fetchOf i ((advance ^^ k) q)) [0..<n i]"
    using assms(1,3) q(1) unfolding collected_def by (auto dest!: spec [of _ i])
  have le: "Suc (n i) \<le> items q" using q(3) assms(5) by simp
  show ?thesis
    unfolding collected_def
  proof (intro conjI allI impI)
    fix j assume j: "j < length qs"
    show "case qs ! j of
        None \<Rightarrow> co_queues (c\<lparr>co_queues := (co_queues c)[i := Some (advance p)], co_fetches := co_fetches c @ [fetchOf i p]\<rparr>) ! j = None \<and>
          (n(i := Suc (n i))) j = 0 \<and>
          (\<forall>f\<in>set (co_fetches (c\<lparr>co_queues := (co_queues c)[i := Some (advance p)], co_fetches := co_fetches c @ [fetchOf i p]\<rparr>)). fe_queue f \<noteq> j)
      | Some q \<Rightarrow> (n(i := Suc (n i))) j \<le> items q \<and>
          co_queues (c\<lparr>co_queues := (co_queues c)[i := Some (advance p)], co_fetches := co_fetches c @ [fetchOf i p]\<rparr>) ! j = Some ((advance ^^ (n(i := Suc (n i))) j) q) \<and>
          filter (\<lambda>f. fe_queue f = j) (co_fetches (c\<lparr>co_queues := (co_queues c)[i := Some (advance p)], co_fetches := co_fetches c @ [fetchOf i p]\<rparr>)) =
            map (\<lambda>k. fetchOf j ((advance ^^ k) q)) [0..<(n(i := Suc (n i))) j]"
    proof (cases "j = i")
      case True
      then show ?thesis using q i le assms(1,3) by (auto simp: collected_def fetchOf_def)
    next
      case False
      then show ?thesis using assms(1) j by (auto simp: collected_def fetchOf_def split: option.splits)
    qed
  qed (use assms(1,3) in \<open>auto simp: collected_def fetchOf_def\<close>)
qed

text \<open>
  A pass is described once for every way of counting: \<open>cnt\<close> is the counter that grows with every hit.
\<close>

locale counting =
  fixes hit :: "collect \<Rightarrow> collect \<times> bool" and cnt :: "collect \<Rightarrow> 'w::len word"
  assumes hit_queues: "co_queues (fst (hit c)) = co_queues c"
    and hit_fetches: "co_fetches (fst (hit c)) = co_fetches c"
    and hit_cnt: "cnt (fst (hit c)) = cnt c + 1"
    and cnt_queues: "cnt (c\<lparr>co_queues := qs, co_fetches := fs\<rparr>) = cnt c"
begin

definition pass_ok where
  "pass_ok sel js n n' c c' h \<longleftrightarrow>
     h \<le> length js \<and> cnt c' = cnt c + of_nat h \<and> itemsSum (co_queues c) = itemsSum (co_queues c') + h \<and>
     (h = 0 \<longrightarrow> c' = c \<and> (\<forall>i\<in>set js. \<forall>q. co_queues c ! i = Some q \<longrightarrow> sel q \<longrightarrow> items q = 0)) \<and>
     (\<forall>i. n' i \<noteq> n i \<longrightarrow> i \<in> set js \<and> (\<exists>q. co_queues c ! i = Some q \<and> sel q))"

lemma pass_skip:
  assumes "pass_ok sel js n n' c c' h" and "\<And>q. co_queues c ! i = Some q \<Longrightarrow> sel q \<Longrightarrow> items q = 0"
  shows "pass_ok sel (i # js) n n' c c' h"
  using assms unfolding pass_ok_def by auto

lemma sweep_collects:
  assumes "collected qs n c" and "queues_ok qs" and "set js \<subseteq> {..<length qs}" and "\<And>q. sel (advance q) = sel q"
  shows "\<exists>n' h. collected qs n' (sweep sel hit js c) \<and> pass_ok sel js n n' c (sweep sel hit js c) h"
  using assms(1,3)
proof (induction js arbitrary: c n)
  case Nil
  then show ?case by (auto simp: pass_ok_def)
next
  case (Cons i js)
  have i: "i < length qs" and js: "set js \<subseteq> {..<length qs}" using Cons.prems(2) by auto
  have skip: ?case if "sweep sel hit (i # js) c = sweep sel hit js c"
    and "\<And>q. co_queues c ! i = Some q \<Longrightarrow> sel q \<Longrightarrow> items q = 0"
    using Cons.IH [OF Cons.prems(1) js] pass_skip [where i = i and c = c] that by metis
  show ?case
  proof (cases "co_queues c ! i")
    case None
    then show ?thesis using skip by simp
  next
    case (Some p)
    obtain q where ok: "queue_ok p" and q: "qs ! i = Some q"
      using collected_queue [OF Cons.prems(1) assms(2) i Some] by metis
    show ?thesis
    proof (cases "sel p \<and> items p \<noteq> 0")
      case False
      then show ?thesis using skip Some ok by (auto simp: checkQueue_ok)
    next
      case True
      let ?c = "c\<lparr>co_queues := (co_queues c)[i := Some (advance p)], co_fetches := co_fetches c @ [fetchOf i p]\<rparr>"
      obtain d leave where d: "hit ?c = (d, leave)" by fastforce
      have dq: "co_queues d = co_queues ?c" "co_fetches d = co_fetches ?c" "cnt d = cnt c + 1"
        using hit_queues [of ?c] hit_fetches [of ?c] hit_cnt [of ?c] cnt_queues [where c = c] d by auto
      have li: "i < length (co_queues c)" using i Cons.prems(1) by (simp add: collected_def)
      have s: "itemsSum (co_queues c) = Suc (itemsSum (co_queues d))"
        using itemsSum_advance [OF li Some ok] True dq(1) by simp
      have col: "collected qs (n(i := Suc (n i))) d"
        using collected_step [OF Cons.prems(1) assms(2) i Some] True collected_cong [OF dq(1,2)] by simp
      have sw: "sweep sel hit (i # js) c = (if leave then d else sweep sel hit js d)"
        using Some True ok d by (simp add: checkQueue_ok)
      show ?thesis
      proof (cases leave)
        case True
        have "pass_ok sel (i # js) n (n(i := Suc (n i))) c d 1"
          using s dq(3) Some \<open>sel p \<and> items p \<noteq> 0\<close> by (auto simp: pass_ok_def)
        then show ?thesis using col sw True by auto
      next
        case False
        obtain n' h where r: "collected qs n' (sweep sel hit js d)" "pass_ok sel js (n(i := Suc (n i))) n' d (sweep sel hit js d) h"
          using Cons.IH [OF col js] by blast
        have sel: "\<exists>q. co_queues c ! j = Some q \<and> sel q" if "co_queues d ! j = Some q'" "sel q'" for j q'
          using that dq(1) Some \<open>sel p \<and> items p \<noteq> 0\<close> by (cases "j = i") auto
        have "pass_ok sel (i # js) n n' c (sweep sel hit js d) (Suc h)"
        proof -
          have "j \<in> set (i # js) \<and> (\<exists>q. co_queues c ! j = Some q \<and> sel q)" if "n' j \<noteq> n j" for j
          proof (cases "j = i")
            case True
            then show ?thesis using Some \<open>sel p \<and> items p \<noteq> 0\<close> by simp
          next
            case False
            then show ?thesis using r(2) that sel unfolding pass_ok_def by (metis fun_upd_apply list.set_intros(2))
          qed
          moreover have "cnt (sweep sel hit js d) = cnt c + of_nat (Suc h)" "h \<le> length js"
            "itemsSum (co_queues c) = itemsSum (co_queues (sweep sel hit js d)) + Suc h"
            using r(2) s dq(3) by (simp_all add: pass_ok_def)
          ultimately show ?thesis unfolding pass_ok_def by simp
        qed
        then show ?thesis using r(1) sw False by auto
      qed
    qed
  qed
qed

lemma sweep_keeps:
  assumes "\<And>c. P (fst (hit c)) = P c" and "\<And>c qs fs. P (c\<lparr>co_queues := qs, co_fetches := fs\<rparr>) = P c"
  shows "P (sweep sel hit js c) = P c"
proof (induction js arbitrary: c)
  case (Cons i js)
  have "P d = P c" if "hit (c\<lparr>co_queues := qs, co_fetches := fs\<rparr>) = (d, l)" for qs fs d l
    using assms(1) [of "c\<lparr>co_queues := qs, co_fetches := fs\<rparr>"] assms(2) that by simp
  then show ?case using Cons.IH by (auto split: option.split prod.split)
qed simp

end

interpretation update_pass: counting countUpdate co_updated
  by unfold_locales (simp_all add: countUpdate_def)

interpretation weighted_pass: counting "countWeighted w" co_total_updated
  for w by unfold_locales (simp_all add: countWeighted_def Let_def)

interpretation one_pass: counting countOne co_total_updated
  by unfold_locales (simp_all add: countOne_def)

section \<open>Loops\<close>

text \<open>What a loop leaves: the selected queues are empty, and it took nothing from the others.\<close>

definition finished :: "(SQueue \<Rightarrow> bool) \<Rightarrow> nat list \<Rightarrow> SQueue option list \<Rightarrow> (nat \<Rightarrow> nat) \<Rightarrow> bool" where
  "finished sel js qs n \<longleftrightarrow> (\<forall>i\<in>set js. \<forall>q. qs ! i = Some q \<longrightarrow> sel q \<longrightarrow> n i = items q)"

definition only :: "(SQueue \<Rightarrow> bool) \<Rightarrow> nat list \<Rightarrow> SQueue option list \<Rightarrow> (nat \<Rightarrow> nat) \<Rightarrow> (nat \<Rightarrow> nat) \<Rightarrow> bool" where
  "only sel js qs n n' \<longleftrightarrow> (\<forall>i. n' i \<noteq> n i \<longrightarrow> i \<in> set js \<and> (\<exists>q. qs ! i = Some q \<and> sel q))"

lemma only_refl [simp]: "only sel js qs n n"
  by (simp add: only_def)

lemma only_trans: "only sel js qs n n' \<Longrightarrow> only sel js qs n' n'' \<Longrightarrow> only sel js qs n n''"
  unfolding only_def by metis

lemma only_mono: "only sel js qs n n' \<Longrightarrow> (\<And>q. sel q \<Longrightarrow> sel' q) \<Longrightarrow> only sel' js qs n n'"
  unfolding only_def by blast

lemma only_kept: "only sel js qs n n' \<Longrightarrow> i \<notin> set js \<or> (\<forall>q. qs ! i = Some q \<longrightarrow> \<not> sel q) \<Longrightarrow> n' i = n i"
  unfolding only_def by blast

lemma sel_power: "(\<And>q. sel (advance q) = sel q) \<Longrightarrow> sel ((advance ^^ k) q) = sel (q::SQueue)"
  by (induction k) simp_all

lemma finished_from_pass:
  assumes "collected qs n c" and "queues_ok qs" and "set js \<subseteq> {..<length qs}" and "\<And>q. sel (advance q) = sel q"
    and "\<forall>i\<in>set js. \<forall>q. co_queues c ! i = Some q \<longrightarrow> sel q \<longrightarrow> items q = 0"
  shows "finished sel js qs n"
  unfolding finished_def
proof (intro ballI allI impI)
  fix i q assume i: "i \<in> set js" and q: "qs ! i = Some q" and s: "sel q"
  have li: "i < length qs" using i assms(3) by blast
  have c: "co_queues c ! i = Some ((advance ^^ n i) q)" and le: "n i \<le> items q"
    using assms(1) li q unfolding collected_def by (auto dest!: spec [of _ i])
  have "items ((advance ^^ n i) q) = 0" using assms(5) i c s sel_power [of sel, OF assms(4)] by metis
  then show "n i = items q" using advance_power_items [OF queues_ok_nth [OF assms(2) li q] le] le by simp
qed

lemma only_from_pass:
  assumes "collected qs n c" and "queues_ok qs" and "set js \<subseteq> {..<length qs}" and "\<And>q. sel (advance q) = sel q"
    and "\<forall>i. n' i \<noteq> n i \<longrightarrow> i \<in> set js \<and> (\<exists>q. co_queues c ! i = Some q \<and> sel q)"
  shows "only sel js qs n n'"
  unfolding only_def
proof (intro allI impI conjI)
  fix i assume "n' i \<noteq> n i"
  then obtain p where i: "i \<in> set js" and p: "co_queues c ! i = Some p" "sel p" using assms(5) by blast
  then have li: "i < length qs" using assms(3) by blast
  obtain q where "qs ! i = Some q" "p = (advance ^^ n i) q" using collected_queue [OF assms(1,2) li p(1)] by metis
  then show "i \<in> set js" "\<exists>q. qs ! i = Some q \<and> sel q" using i p(2) sel_power [of sel, OF assms(4)] by auto
qed

lemma of_nat_zero_bound: "h < 2 ^ LENGTH('w::len) \<Longrightarrow> (of_nat h :: 'w word) = 0 \<longleftrightarrow> h = 0"
  using dvd_imp_le [of "2 ^ LENGTH('w)" h] by (auto simp: word_of_nat_eq_0_iff)

lemma roundRobin_collects:
  assumes "collected qs n c" and "queues_ok qs" and "set js \<subseteq> {..<length qs}" and "\<And>q. sel (advance q) = sel q"
    and "length js < 2 ^ 16" and "co_updated c = 0" and "itemsSum (co_queues c) < m"
  shows "\<exists>n' c'. roundRobin m sel js c = Inr c' \<and> collected qs n' c' \<and> itemsSum (co_queues c') \<le> itemsSum (co_queues c) \<and>
           co_total_updated c' = co_total_updated c \<and> finished sel js qs n' \<and> only sel js qs n n'"
  using assms(1,6,7)
proof (induction m arbitrary: c n)
  case (Suc m)
  let ?c = "sweep sel countUpdate js c"
  obtain n' h where col: "collected qs n' ?c" and ok: "update_pass.pass_ok sel js n n' c ?c h"
    using update_pass.sweep_collects [where sel = sel, OF Suc.prems(1) assms(2,3,4)] by blast
  have tot: "co_total_updated ?c = co_total_updated c"
    by (rule update_pass.sweep_keeps) (simp_all add: countUpdate_def)
  have on: "only sel js qs n n'"
    using only_from_pass [where sel = sel, OF Suc.prems(1) assms(2-4)] ok by (simp add: update_pass.pass_ok_def)
  have h: "h \<le> length js" "co_updated ?c = of_nat h" "itemsSum (co_queues c) = itemsSum (co_queues ?c) + h"
    using ok Suc.prems(2) by (simp_all add: update_pass.pass_ok_def)
  have z: "co_updated ?c = 0 \<longleftrightarrow> h = 0"
    using of_nat_zero_bound [where 'w = 16, of h] h(1,2) assms(5) by simp
  show ?case
  proof (cases "h = 0")
    case True
    then have "?c = c" "\<forall>i\<in>set js. \<forall>q. co_queues ?c ! i = Some q \<longrightarrow> sel q \<longrightarrow> items q = 0"
      using ok by (simp_all add: update_pass.pass_ok_def)
    then have "finished sel js qs n'" using finished_from_pass [where sel = sel, OF col assms(2-4)] by blast
    then show ?thesis using True z col on tot h(3) by (intro exI [of _ n'] exI [of _ ?c]) simp
  next
    case False
    let ?d = "?c\<lparr>co_updated := 0\<rparr>"
    have lt: "itemsSum (co_queues ?d) < m" using False h(3) Suc.prems(3) by simp
    obtain n2 c2 where r: "roundRobin m sel js ?d = Inr c2" "collected qs n2 c2" "itemsSum (co_queues c2) \<le> itemsSum (co_queues ?d)"
      "co_total_updated c2 = co_total_updated ?d" "finished sel js qs n2" "only sel js qs n' n2"
      using Suc.IH [of n' ?d] col lt by auto
    have "roundRobin (Suc m) sel js c = Inr c2" using r(1) z False by (simp add: Let_def)
    then show ?thesis using r tot h(3) only_trans [OF on r(6)] by (intro exI [of _ n2] exI [of _ c2]) simp
  qed
qed simp

lemma adminLoop_collects:
  assumes "collected qs n c" and "queues_ok qs" and "qs \<noteq> []" and "qs ! 0 = Some a" and "itemsSum (co_queues c) < m"
  shows "\<exists>n' c'. adminLoop m c = Inr c' \<and> collected qs n' c' \<and> itemsSum (co_queues c') \<le> itemsSum (co_queues c) \<and>
           co_updated c' = co_updated c \<and> co_total_updated c' = co_total_updated c \<and> n' 0 = items a \<and> only (\<lambda>_. True) [0] qs n n'"
  using assms(1,5)
proof (induction m arbitrary: c n)
  case (Suc m)
  have l: "0 < length qs" using assms(3) by simp
  have c0: "co_queues c ! 0 = Some ((advance ^^ n 0) a)" and len: "length (co_queues c) = length qs"
    using Suc.prems(1) l assms(4) unfolding collected_def by (auto dest!: spec [of _ 0])
  have ok: "queue_ok ((advance ^^ n 0) a)" and it: "items ((advance ^^ n 0) a) = items a - n 0" and le: "n 0 \<le> items a"
    using collected_queue [OF Suc.prems(1) assms(2) l c0] assms(4) by auto
  show ?case
  proof (cases "items ((advance ^^ n 0) a) = 0")
    case True
    then show ?thesis using c0 ok it le Suc.prems(1) by (intro exI [of _ n] exI [of _ c]) (simp add: checkQueue_ok)
  next
    case False
    let ?p = "(advance ^^ n 0) a"
    let ?d = "c\<lparr>co_queues := (co_queues c)[0 := Some (advance ?p)], co_fetches := co_fetches c @ [fetchOf 0 ?p]\<rparr>"
    have s: "itemsSum (co_queues c) = Suc (itemsSum (co_queues ?d))"
      using itemsSum_advance [of 0 "co_queues c" ?p] c0 ok False l len by simp
    have col: "collected qs (n(0 := Suc (n 0))) ?d"
      using collected_step [OF Suc.prems(1) assms(2) l c0 False] .
    have lt: "itemsSum (co_queues ?d) < m" using s Suc.prems(2) by simp
    obtain n2 c2 where r: "adminLoop m ?d = Inr c2" "collected qs n2 c2" "itemsSum (co_queues c2) \<le> itemsSum (co_queues ?d)"
      "co_updated c2 = co_updated ?d" "co_total_updated c2 = co_total_updated ?d" "n2 0 = items a"
      "only (\<lambda>_. True) [0] qs (n(0 := Suc (n 0))) n2"
      using Suc.IH [OF col lt] by blast
    have "adminLoop (Suc m) c = Inr c2" using c0 ok False r(1) by (simp add: checkQueue_ok)
    moreover have "only (\<lambda>_. True) [0] qs n n2"
      by (rule only_trans [OF _ r(7)]) (simp add: only_def assms(4))
    ultimately show ?thesis using r s by (intro exI [of _ n2] exI [of _ c2]) simp
  qed
qed simp

lemma weightedLoop_collects:
  assumes "collected qs n c" and "queues_ok qs" and "set js \<subseteq> {..<length qs}" and "length js < 2 ^ 16"
    and "co_total_updated c = 0" and "itemsSum (co_queues c) < m"
  shows "\<exists>n' c'. weightedLoop m wh wm js c = Inr c' \<and> collected qs n' c' \<and>
           finished (\<lambda>q. sq_priority q = PRIORITY_HIGH \<or> sq_priority q = PRIORITY_MEDIUM) js qs n' \<and>
           only (\<lambda>q. sq_priority q = PRIORITY_HIGH \<or> sq_priority q = PRIORITY_MEDIUM) js qs n n'"
  using assms(1,5,6)
proof (induction m arbitrary: c n)
  case (Suc m)
  let ?H = "\<lambda>q. sq_priority q = PRIORITY_HIGH" and ?M = "\<lambda>q. sq_priority q = PRIORITY_MEDIUM"
  let ?S = "\<lambda>q. ?H q \<or> ?M q"
  let ?c1 = "sweep ?H (countWeighted wh) js c"
  let ?c2 = "sweep ?M (countWeighted wm) js ?c1"
  let ?c3 = "sweep ?M countOne js ?c2"
  obtain n1 h1 where 1: "collected qs n1 ?c1" "weighted_pass.pass_ok ?H js n n1 c ?c1 h1"
    using weighted_pass.sweep_collects [where w = wh and sel = ?H, OF Suc.prems(1) assms(2,3)] by auto
  obtain n2 h2 where 2: "collected qs n2 ?c2" "weighted_pass.pass_ok ?M js n1 n2 ?c1 ?c2 h2"
    using weighted_pass.sweep_collects [where w = wm and sel = ?M, OF 1(1) assms(2,3)] by auto
  obtain n3 h3 where 3: "collected qs n3 ?c3" "one_pass.pass_ok ?M js n2 n3 ?c2 ?c3 h3"
    using one_pass.sweep_collects [where sel = ?M, OF 2(1) assms(2,3)] by auto
  note oks = 1(2) [unfolded weighted_pass.pass_ok_def] 2(2) [unfolded weighted_pass.pass_ok_def] 3(2) [unfolded one_pass.pass_ok_def]
  have "only ?H js qs n n1" by (rule only_from_pass [OF Suc.prems(1) assms(2,3)]) (use oks(1) in auto)
  moreover have "only ?M js qs n1 n2" by (rule only_from_pass [OF 1(1) assms(2,3)]) (use oks(2) in auto)
  moreover have "only ?M js qs n2 n3" by (rule only_from_pass [OF 2(1) assms(2,3)]) (use oks(3) in auto)
  ultimately have on: "only ?S js qs n n3"
    using only_trans [of ?S js qs n n1 n2] only_trans [of ?S js qs n n2 n3] only_mono [of ?H js qs n n1 ?S]
      only_mono [of ?M js qs n1 n2 ?S] only_mono [of ?M js qs n2 n3 ?S] by blast
  have cnt: "co_total_updated ?c3 = of_nat (h1 + h2 + h3)" using oks Suc.prems(2) by simp
  have s: "itemsSum (co_queues c) = itemsSum (co_queues ?c3) + (h1 + h2 + h3)" using oks by simp
  have "h1 + h2 + h3 \<le> 3 * length js" using oks by simp
  then have z: "co_total_updated ?c3 = 0 \<longleftrightarrow> h1 + h2 + h3 = 0"
    using of_nat_zero_bound [where 'w = 32, of "h1 + h2 + h3"] cnt assms(4) by simp
  show ?case
  proof (cases "h1 + h2 + h3 = 0")
    case True
    then have h0: "h1 = 0" "h2 = 0" "h3 = 0" by simp_all
    have e1: "?c1 = c" using oks(1) h0(1) by simp
    have e2: "?c2 = c" using oks(2) h0(2) e1 by simp
    have e3: "?c3 = c" using oks(3) h0(3) e2 by simp
    have "\<forall>i\<in>set js. \<forall>q. co_queues c ! i = Some q \<longrightarrow> ?S q \<longrightarrow> items q = 0"
      using oks(1,2) h0 unfolding e1 by blast
    then have "finished ?S js qs n3"
      using finished_from_pass [where sel = ?S, OF _ assms(2,3)] 3(1) unfolding e3 by simp
    then show ?thesis using True z on 3(1) by (intro exI [of _ n3] exI [of _ ?c3]) (simp add: Let_def)
  next
    case False
    let ?d = "?c3\<lparr>co_total_updated := 0\<rparr>"
    have "0 < h1 + h2 + h3" using False by simp
    then have lt: "itemsSum (co_queues ?d) < m" using s Suc.prems(3) by (simp del: add_gr_0)
    obtain n4 c4 where r: "weightedLoop m wh wm js ?d = Inr c4" "collected qs n4 c4" "finished ?S js qs n4" "only ?S js qs n3 n4"
      using Suc.IH [of n3 ?d] 3(1) lt by auto
    have "co_total_updated ?c3 \<noteq> 0" using z False by blast
    then have "weightedLoop (Suc m) wh wm js c = Inr c4" using r(1) by (simp add: Let_def)
    then show ?thesis using r only_trans [OF on r(4)] by blast
  qed
qed simp

section \<open>The outcome\<close>

text \<open>Every command of every queue, in rounds: round \<open>k\<close> takes command \<open>k\<close> of each queue that has that many.\<close>

definition rrRow :: "nat \<Rightarrow> nat \<Rightarrow> SQueue option list \<Rightarrow> fetch list" where
  "rrRow i k qs = concat (map (\<lambda>(j, p). case p of None \<Rightarrow> []
     | Some q \<Rightarrow> if k < items q then [fetchOf j ((advance ^^ k) q)] else []) (enumerate i qs))"

definition rrSchedule :: "SQueue option list \<Rightarrow> fetch list" where
  "rrSchedule qs = concat (map (\<lambda>k. rrRow 0 k qs) [0..<itemsSum qs])"

definition stepQ :: "SQueue \<Rightarrow> SQueue" where
  "stepQ q = (if items q = 0 then q else advance q)"

lemma sweep_row:
  assumes "queues_ok (xs @ ys)" and "co_queues c = xs @ ys"
  shows "sweep (\<lambda>_. True) countUpdate [length xs..<length xs + length ys] c =
     c\<lparr>co_queues := xs @ map (map_option stepQ) ys, co_fetches := co_fetches c @ rrRow (length xs) 0 ys,
       co_updated := co_updated c + of_nat (length (rrRow (length xs) 0 ys))\<rparr>"
  using assms
proof (induction ys arbitrary: xs c)
  case Nil
  then show ?case by (simp add: rrRow_def)
next
  case (Cons y ys)
  have u: "[length xs..<length xs + length (y # ys)] = length xs # [length (xs @ [y])..<length (xs @ [y]) + length ys]" for y
    using upt_conv_Cons [of "length xs" "length xs + Suc (length ys)"] by (simp del: upt_Suc)
  show ?case
  proof (cases "y = None \<or> (\<exists>q. y = Some q \<and> items q = 0)")
    case True
    then have s: "sweep (\<lambda>_. True) countUpdate [length xs..<length xs + length (y # ys)] c =
        sweep (\<lambda>_. True) countUpdate [length (xs @ [y])..<length (xs @ [y]) + length ys] c"
      using Cons.prems unfolding u by (auto simp: nth_append checkQueue_def word_neq_0_conv [symmetric] unat_eq_zero split: option.split)
    show ?thesis unfolding s using Cons.IH [of "xs @ [y]" c] Cons.prems True by (auto simp: rrRow_def stepQ_def)
  next
    case False
    then obtain q where y: "y = Some q" and q: "items q \<noteq> 0" by auto
    have ok: "queue_ok q" using Cons.prems(1) y by (simp add: queues_ok_def)
    let ?d = "c\<lparr>co_queues := (xs @ [Some (advance q)]) @ ys, co_fetches := co_fetches c @ [fetchOf (length xs) q], co_updated := co_updated c + 1\<rparr>"
    have s: "sweep (\<lambda>_. True) countUpdate [length xs..<length xs + length (y # ys)] c =
        sweep (\<lambda>_. True) countUpdate [length (xs @ [Some (advance q)])..<length (xs @ [Some (advance q)]) + length ys] ?d"
      using Cons.prems q y checkQueue_ok [OF ok, of "length xs"] unfolding u
      by (simp add: nth_append list_update_append countUpdate_def)
    have "queues_ok ((xs @ [Some (advance q)]) @ ys)"
      using Cons.prems(1) advance_items(1) [OF ok q] by (auto simp: queues_ok_def)
    then show ?thesis unfolding s using Cons.IH [of "xs @ [Some (advance q)]" ?d] y q by (simp add: rrRow_def stepQ_def)
  qed
qed

lemma row_empty: "rrRow i 0 qs = [] \<longleftrightarrow> (\<forall>p\<in>set qs. queueItems p = 0)"
proof (induction qs arbitrary: i)
  case (Cons p qs)
  then show ?case by (cases p) (auto simp: rrRow_def)
qed (simp add: rrRow_def)

lemma row_length: "length (rrRow i k qs) \<le> length qs"
proof (induction qs arbitrary: i)
  case (Cons p qs)
  show ?case using Cons [of "Suc i"] by (cases p) (auto simp: rrRow_def)
qed (simp add: rrRow_def)

lemma row_Suc: "queues_ok qs \<Longrightarrow> rrRow i (Suc k) qs = rrRow i k (map (map_option stepQ) qs)"
proof (induction qs arbitrary: i)
  case (Cons p qs)
  have "queues_ok qs" using Cons.prems by (simp add: queues_ok_def)
  moreover have "(Suc k < items q \<longleftrightarrow> k < items (stepQ q)) \<and> (Suc k < items q \<longrightarrow> (advance ^^ Suc k) q = (advance ^^ k) (stepQ q))"
    if "p = Some q" for q
    using Cons.prems that advance_items(2) [of q] by (auto simp: queues_ok_def stepQ_def funpow_swap1)
  ultimately show ?case using Cons.IH [of "Suc i"] by (cases p) (auto simp: rrRow_def)
qed (simp add: rrRow_def)

lemma row_beyond: "itemsSum qs \<le> k \<Longrightarrow> rrRow i k qs = []"
proof (induction qs arbitrary: i)
  case (Cons p qs)
  then show ?case by (cases p) (auto simp: rrRow_def)
qed (simp add: rrRow_def)

lemma rows_bound:
  assumes "itemsSum qs \<le> N"
  shows "concat (map (\<lambda>k. rrRow 0 k qs) [0..<N]) = rrSchedule qs"
proof -
  have "[0..<N] = [0..<itemsSum qs] @ [itemsSum qs..<N]"
    using assms upt_add_eq_append [of 0 "itemsSum qs" "N - itemsSum qs"] by simp
  then show ?thesis by (simp add: rrSchedule_def row_beyond)
qed

lemma stepQ_ok: "queues_ok qs \<Longrightarrow> queues_ok (map (map_option stepQ) qs)"
  unfolding queues_ok_def
proof (intro allI impI)
  fix q assume ok: "\<forall>q. Some q \<in> set qs \<longrightarrow> queue_ok q" and "Some q \<in> set (map (map_option stepQ) qs)"
  then obtain p where "Some p \<in> set qs" "q = stepQ p" by (auto dest!: sym [of "Some q"])
  then show "queue_ok q" using ok by (simp add: stepQ_def advance_items(1))
qed

lemma stepQ_sum:
  "queues_ok qs \<Longrightarrow> itemsSum qs = itemsSum (map (map_option stepQ) qs) + length (rrRow i 0 qs)"
proof (induction qs arbitrary: i)
  case (Cons p qs)
  have "queues_ok qs" using Cons.prems by (simp add: queues_ok_def)
  moreover have "items q = items (stepQ q) + (if 0 < items q then 1 else 0)" if "p = Some q" for q
    using Cons.prems that advance_items(2) [of q] by (auto simp: queues_ok_def stepQ_def)
  ultimately show ?case using Cons.IH [of "Suc i"] by (cases p) (auto simp: rrRow_def)
qed (simp add: rrRow_def)

lemma roundRobin_schedule:
  assumes "queues_ok (co_queues c)" and "length (co_queues c) < 2 ^ 16" and "co_updated c = 0" and "itemsSum (co_queues c) < m"
  shows "roundRobin m (\<lambda>_. True) [0..<length (co_queues c)] c =
     Inr (c\<lparr>co_queues := map (map_option drained) (co_queues c), co_fetches := co_fetches c @ rrSchedule (co_queues c)\<rparr>)"
  using assms
proof (induction m arbitrary: c)
  case (Suc m)
  let ?qs = "co_queues c" and ?row = "rrRow 0 0 (co_queues c)"
  let ?qs' = "map (map_option stepQ) ?qs"
  have sw: "sweep (\<lambda>_. True) countUpdate [0..<length ?qs] c =
      c\<lparr>co_queues := ?qs', co_fetches := co_fetches c @ ?row, co_updated := of_nat (length ?row)\<rparr>" (is "_ = ?d")
    using sweep_row [of "[]" ?qs c] Suc.prems(1,3) by simp
  have z: "co_updated ?d = 0 \<longleftrightarrow> ?row = []"
    using of_nat_zero_bound [where 'w = 16, of "length ?row"] row_length [of 0 0 ?qs] Suc.prems(2) by simp
  have sum: "itemsSum ?qs = itemsSum ?qs' + length ?row" using stepQ_sum [OF Suc.prems(1), of 0] .
  show ?case
  proof (cases "?row = []")
    case True
    then have e: "\<forall>p\<in>set ?qs. queueItems p = 0" by (simp add: row_empty)
    then have "map_option f p = p" if "p \<in> set ?qs" "\<And>q. p = Some q \<Longrightarrow> f q = q" for p and f :: "SQueue \<Rightarrow> SQueue"
      using that by (cases p) auto
    moreover have "drained q = q \<and> stepQ q = q" if "Some q \<in> set ?qs" for q
      using that e Suc.prems(1) advance_power_drained [of q] by (force simp: queues_ok_def stepQ_def)
    ultimately have "map (map_option drained) ?qs = ?qs" "?qs' = ?qs"
      by (auto intro!: map_idI)
    moreover have "rrSchedule ?qs = []" using e by (simp add: rrSchedule_def)
    ultimately show ?thesis using sw z True Suc.prems(3) by (simp add: Let_def)
  next
    case False
    let ?e = "?d\<lparr>co_updated := 0\<rparr>"
    have "0 < length ?row" using False by simp
    then have lt: "itemsSum ?qs' < m" using sum Suc.prems(4) by linarith
    have "roundRobin m (\<lambda>_. True) [0..<length (co_queues ?e)] ?e =
       Inr (?e\<lparr>co_queues := map (map_option drained) ?qs', co_fetches := co_fetches ?e @ rrSchedule ?qs'\<rparr>)"
      using Suc.IH [of ?e] stepQ_ok [OF Suc.prems(1)] Suc.prems(2) lt by simp
    moreover have "map (map_option drained) ?qs' = map (map_option drained) ?qs"
      by (simp add: option.map_comp stepQ_def comp_def if_distrib cong: if_cong)
    moreover have "?row @ rrSchedule ?qs' = rrSchedule ?qs"
    proof -
      have "0 < length ?row" using False by simp
      then obtain N where N: "itemsSum ?qs = Suc N" "itemsSum ?qs' \<le> N"
        using sum that [of "itemsSum ?qs - 1"] by linarith
      have "rrSchedule ?qs = ?row @ concat (map (\<lambda>k. rrRow 0 (Suc k) ?qs) [0..<N])"
        unfolding rrSchedule_def N(1) by (simp add: upt_conv_Cons map_Suc_upt [symmetric] comp_def del: upt_Suc)
      then show ?thesis using rows_bound [OF N(2)] row_Suc [OF Suc.prems(1)] by simp
    qed
    ultimately show ?thesis using sw z False Suc.prems(3) by (simp add: Let_def)
  qed
qed simp

text \<open>
  A controller in operation: ready, with arbitration \<open>arb\<close>, the admin queue and two I/O submission
  queues of the given priorities, two commands waiting in each.
\<close>

definition demoCtrl :: "u16 \<Rightarrow> u8 \<Rightarrow> u8 \<Rightarrow> Controller" where
  "demoCtrl arb p1 p2 =
     (projr (Controller_new 2 2 4 100))
       \<lparr>nc_registers := Registers_new\<lparr>rg_status := 1\<rparr>, nc_arbitration := arb,
        nc_ppSQueue := map (Some \<circ> SQueue_setTail 2 \<circ> setBase 64) [SQueue_new 0 0 0 4, SQueue_new 1 p1 1 8, SQueue_new 1 p2 2 8]\<rparr>"

lemma queues_ok_code: "queues_ok qs \<longleftrightarrow> list_all (\<lambda>p. case p of None \<Rightarrow> True | Some q \<Rightarrow> queue_ok q) qs"
  by (force simp: queues_ok_def list_all_iff split: option.split)

text \<open>
  C34. Round robin arbitration (\<open>Controller::collectSQueue\<close>), for any number of submission queues
  with positions inside of their rings: the call returns, and the reads it issues are exactly
  \<open>rrSchedule\<close>: in round \<open>k\<close>, in the order of the queues, command \<open>k\<close> of every queue that has more
  than \<open>k\<close> commands. So every command is fetched once, those of a queue in their order, and no queue
  waits for more than one command of each other queue. All queues are empty afterwards.
\<close>

theorem rr_schedule:
  assumes "queues_ok (nc_ppSQueue c)" and "length (nc_ppSQueue c) < 2 ^ 16"
    and "nc_arbitration c = 0" and "rg_status (nc_registers c) AND 1 \<noteq> 0"
  shows "collectSQueue wrrHigh wrrMedium c =
           Inr (rrSchedule (nc_ppSQueue c), c\<lparr>nc_ppSQueue := map (map_option (\<lambda>q. q\<lparr>nq_head := nq_tail q\<rparr>)) (nc_ppSQueue c)\<rparr>)"
  using assms roundRobin_schedule [of "\<lparr>co_queues = nc_ppSQueue c, co_fetches = [], co_updated = 0, co_total_updated = 0\<rparr>"
      "collectFuel (nc_ppSQueue c)"]
  by (simp add: collectSQueue_def arbitrate_def collectFuel_def)

theorem rr_schedule_witness:
  "collectSQueue 1 1 (demoCtrl 0 1 3) =
     Inr (rrSchedule (nc_ppSQueue (demoCtrl 0 1 3)), (demoCtrl 0 1 3)\<lparr>nc_ppSQueue := map (map_option (\<lambda>q. q\<lparr>nq_head := nq_tail q\<rparr>)) (nc_ppSQueue (demoCtrl 0 1 3))\<rparr>) \<and>
   map (\<lambda>f. (fe_queue f, fe_oldhead f)) (rrSchedule (nc_ppSQueue (demoCtrl 0 1 3))) = [(0, 0), (1, 0), (2, 0), (0, 1), (1, 1), (2, 1)]"
proof
  have "queues_ok (nc_ppSQueue (demoCtrl 0 1 3))" unfolding queues_ok_code by code_simp
  moreover have "length (nc_ppSQueue (demoCtrl 0 1 3)) = 3 \<and> nc_arbitration (demoCtrl 0 1 3) = 0 \<and> rg_status (nc_registers (demoCtrl 0 1 3)) AND 1 \<noteq> 0"
    by code_simp
  ultimately show "collectSQueue 1 1 (demoCtrl 0 1 3) =
     Inr (rrSchedule (nc_ppSQueue (demoCtrl 0 1 3)), (demoCtrl 0 1 3)\<lparr>nc_ppSQueue := map (map_option (\<lambda>q. q\<lparr>nq_head := nq_tail q\<rparr>)) (nc_ppSQueue (demoCtrl 0 1 3))\<rparr>)"
    using rr_schedule [of "demoCtrl 0 1 3"] by simp
qed code_simp

text \<open>
  C35. Weighted round robin arbitration (\<open>Controller::collectSQueue\<close>), for all weights: the call
  returns, every queue of urgent, high or medium priority and the admin queue are emptied with their
  commands fetched once and in order, but of an I/O queue of low priority nothing is ever fetched:
  its head stays where it is, however long it has been waiting (the loop meant for these queues
  tests for medium priority).
\<close>

theorem wrr_starves_low:
  assumes "queues_ok (nc_ppSQueue c)" and "length (nc_ppSQueue c) < 2 ^ 16" and "nc_ppSQueue c \<noteq> []"
    and "nc_ppSQueue c ! 0 = Some admin" and "nc_arbitration c = 1" and "rg_status (nc_registers c) AND 1 \<noteq> 0"
  shows "\<exists>fs qs. collectSQueue wrrHigh wrrMedium c = Inr (fs, c\<lparr>nc_ppSQueue := qs\<rparr>) \<and> length qs = length (nc_ppSQueue c) \<and>
           (\<forall>i<length qs. \<forall>q. nc_ppSQueue c ! i = Some q \<longrightarrow>
             (if i = 0 \<or> sq_priority q \<in> {PRIORITY_URGENT, PRIORITY_HIGH, PRIORITY_MEDIUM}
              then qs ! i = Some (q\<lparr>nq_head := nq_tail q\<rparr>) \<and>
                   filter (\<lambda>f. fe_queue f = i) fs = map (\<lambda>k. fetchOf i ((advance ^^ k) q)) [0..<unat (getItemCount q)]
              else qs ! i = Some q \<and> filter (\<lambda>f. fe_queue f = i) fs = []))"
proof -
  let ?Q = "nc_ppSQueue c" and ?n = "length (nc_ppSQueue c)"
  let ?c0 = "\<lparr>co_queues = ?Q, co_fetches = [], co_updated = 0, co_total_updated = 0\<rparr>"
  let ?U = "\<lambda>q. sq_priority q = PRIORITY_URGENT" and ?S = "\<lambda>q. sq_priority q = PRIORITY_HIGH \<or> sq_priority q = PRIORITY_MEDIUM"
  have js: "set [1..<?n] \<subseteq> {..<length ?Q}" "length [1..<?n] < 2 ^ 16" using assms(2) by auto
  have start: "itemsSum (co_queues ?c0) < collectFuel ?Q" by (simp add: collectFuel_def)
  obtain n1 c1 where 1: "adminLoop (collectFuel ?Q) ?c0 = Inr c1" "collected ?Q n1 c1" "itemsSum (co_queues c1) \<le> itemsSum (co_queues ?c0)"
    "co_updated c1 = co_updated ?c0" "co_total_updated c1 = co_total_updated ?c0" "n1 0 = items admin" "only (\<lambda>_. True) [0] ?Q (\<lambda>_. 0) n1"
    using adminLoop_collects [OF collected_start assms(1,3,4) start] by blast
  have b1: "itemsSum (co_queues c1) < collectFuel ?Q" using 1(3) start by simp
  obtain n2 c2 where 2: "roundRobin (collectFuel ?Q) ?U [1..<?n] c1 = Inr c2" "collected ?Q n2 c2"
    "itemsSum (co_queues c2) \<le> itemsSum (co_queues c1)" "co_total_updated c2 = co_total_updated c1"
    "finished ?U [1..<?n] ?Q n2" "only ?U [1..<?n] ?Q n1 n2"
    using roundRobin_collects [where sel = ?U, OF 1(2) assms(1) js(1) _ js(2) _ b1] 1(4) by auto
  have b2: "itemsSum (co_queues c2) < collectFuel ?Q" using 2(3) b1 by simp
  obtain n3 c3 where 3: "weightedLoop (collectFuel ?Q) wrrHigh wrrMedium [1..<?n] c2 = Inr c3" "collected ?Q n3 c3"
    "finished ?S [1..<?n] ?Q n3" "only ?S [1..<?n] ?Q n2 n3"
    using weightedLoop_collects [OF 2(2) assms(1) js _ b2, of wrrHigh wrrMedium] 1(5) 2(4) by auto
  have run: "collectSQueue wrrHigh wrrMedium c = Inr (co_fetches c3, c\<lparr>nc_ppSQueue := co_queues c3\<rparr>)"
    using 1(1) 2(1) 3(1) assms(5,6) by (simp add: collectSQueue_def arbitrate_def)
  have num: "n3 i = (if i = 0 \<or> sq_priority q \<in> {PRIORITY_URGENT, PRIORITY_HIGH, PRIORITY_MEDIUM} then items q else 0)"
    if i: "i < ?n" and q: "?Q ! i = Some q" for i q
  proof -
    have m: "i = 0 \<or> i \<in> set [1..<?n]" using i by auto
    have z: "i = 0 \<Longrightarrow> n3 i = items q" using only_kept [OF 3(4)] only_kept [OF 2(6)] 1(6) q assms(4) by simp
    have l: "i \<noteq> 0 \<Longrightarrow> n1 i = 0" using only_kept [OF 1(7), of i] by simp
    have "?U q \<Longrightarrow> i \<noteq> 0 \<Longrightarrow> n3 i = items q"
      using 2(5) m q only_kept [OF 3(4), of i] unfolding finished_def by (auto simp: PRIORITY_URGENT_def PRIORITY_HIGH_def PRIORITY_MEDIUM_def)
    moreover have "?S q \<Longrightarrow> i \<noteq> 0 \<Longrightarrow> n3 i = items q" using 3(3) m q unfolding finished_def by blast
    moreover have "\<not> ?U q \<Longrightarrow> \<not> ?S q \<Longrightarrow> i \<noteq> 0 \<Longrightarrow> n3 i = 0"
      using only_kept [OF 3(4), of i] only_kept [OF 2(6), of i] l q by simp
    ultimately show ?thesis using z by auto
  qed
  have "n3 i \<le> items q \<and> co_queues c3 ! i = Some ((advance ^^ n3 i) q) \<and>
      filter (\<lambda>f. fe_queue f = i) (co_fetches c3) = map (\<lambda>k. fetchOf i ((advance ^^ k) q)) [0..<n3 i]" and "queue_ok q"
    if "i < ?n" and "?Q ! i = Some q" for i q
    using 3(2) that queues_ok_nth [OF assms(1) that] unfolding collected_def by (auto dest!: spec [of _ i])
  then show ?thesis
    using run num 3(2) advance_power_drained by (intro exI [of _ "co_fetches c3"] exI [of _ "co_queues c3"]) (auto simp: collected_def)
qed

theorem wrr_starves_low_witness:
  "\<exists>fs qs. collectSQueue 2 1 (demoCtrl 1 2 3) = Inr (fs, (demoCtrl 1 2 3)\<lparr>nc_ppSQueue := qs\<rparr>) \<and>
     qs ! 1 \<noteq> nc_ppSQueue (demoCtrl 1 2 3) ! 1 \<and> qs ! 2 = nc_ppSQueue (demoCtrl 1 2 3) ! 2 \<and> map_option getItemCount (qs ! 2) = Some 2"
proof -
  let ?c = "demoCtrl 1 2 3"
  have ok: "queues_ok (nc_ppSQueue ?c)" unfolding queues_ok_code by code_simp
  have pre: "length (nc_ppSQueue ?c) = 3 \<and> nc_ppSQueue ?c \<noteq> [] \<and> nc_arbitration ?c = 1 \<and> rg_status (nc_registers ?c) AND 1 \<noteq> 0"
    by code_simp
  then have lt: "length (nc_ppSQueue ?c) < 2 ^ 16" by simp
  have q0: "nc_ppSQueue ?c ! 0 = Some (the (nc_ppSQueue ?c ! 0))" by code_simp
  have q1: "nc_ppSQueue ?c ! 1 = Some (the (nc_ppSQueue ?c ! 1)) \<and> sq_priority (the (nc_ppSQueue ?c ! 1)) = PRIORITY_MEDIUM \<and>
      (the (nc_ppSQueue ?c ! 1))\<lparr>nq_head := nq_tail (the (nc_ppSQueue ?c ! 1))\<rparr> \<noteq> the (nc_ppSQueue ?c ! 1)" by code_simp
  have q2: "nc_ppSQueue ?c ! 2 = Some (the (nc_ppSQueue ?c ! 2)) \<and> length (nc_ppSQueue ?c) = 3 \<and> getItemCount (the (nc_ppSQueue ?c ! 2)) = 2 \<and>
      sq_priority (the (nc_ppSQueue ?c ! 2)) \<notin> {PRIORITY_URGENT, PRIORITY_HIGH, PRIORITY_MEDIUM}" by code_simp
  obtain fs qs where r: "collectSQueue 2 1 ?c = Inr (fs, ?c\<lparr>nc_ppSQueue := qs\<rparr>)" "length qs = length (nc_ppSQueue ?c)"
    "\<And>i q. i < length qs \<Longrightarrow> nc_ppSQueue ?c ! i = Some q \<Longrightarrow>
       (if i = 0 \<or> sq_priority q \<in> {PRIORITY_URGENT, PRIORITY_HIGH, PRIORITY_MEDIUM}
        then qs ! i = Some (q\<lparr>nq_head := nq_tail q\<rparr>) \<and>
             filter (\<lambda>f. fe_queue f = i) fs = map (\<lambda>k. fetchOf i ((advance ^^ k) q)) [0..<unat (getItemCount q)]
        else qs ! i = Some q \<and> filter (\<lambda>f. fe_queue f = i) fs = [])"
    using wrr_starves_low [OF ok _ _ q0, of 2 1] pre lt by blast
  have "qs ! 1 = Some ((the (nc_ppSQueue ?c ! 1))\<lparr>nq_head := nq_tail (the (nc_ppSQueue ?c ! 1))\<rparr>)"
    using r(3) [of 1 "the (nc_ppSQueue ?c ! 1)"] q1 q2 r(2) by simp
  moreover have "qs ! 2 = Some (the (nc_ppSQueue ?c ! 2))"
    using r(3) [of 2 "the (nc_ppSQueue ?c ! 2)"] q2 r(2) by simp
  ultimately have "qs ! 1 \<noteq> nc_ppSQueue ?c ! 1 \<and> qs ! 2 = nc_ppSQueue ?c ! 2 \<and> map_option getItemCount (qs ! 2) = Some 2"
    using q1 q2 by (metis option.inject option.map(2))
  then show ?thesis using r(1) by blast
qed

end
