(* ===== verification/Disk.thy ===== *)
theory Disk
  imports Prelude
begin

text \<open>
  The disk images behind the namespaces (\<open>util/disk.cc\<close>, \<open>util/disk.hh\<close>): \<open>Disk\<close> keeps the bytes
  in a file, \<open>CoWDisk\<close> keeps written sectors in a table above such a file, \<open>MemDisk\<close> keeps
  everything in a table. The file is the list of its bytes with the state of the stream
  (\<open>is_open\<close>, and \<open>good\<close>: no operation has failed yet); a buffer is the list of the bytes it
  points to, and copying outside it is undefined behaviour.
  All three are shown to implement the interface \<open>sector_disk\<close> (reading gives the contents,
  writing replaces the contents of the sectors written); that what was written is read back, and
  that other sectors are not touched, is proved there once.
\<close>

section \<open>Memory\<close>

definition memcpy :: "nat \<Rightarrow> u8 list \<Rightarrow> u8 list \<Rightarrow> u8 list res" where
  "memcpy off src dst =
     guardE (off + length src \<le> length dst) (UB ''memcpy out of bounds'')
       (Inr (take off dst @ src @ drop (off + length src) dst))"

definition bytesAt :: "nat \<Rightarrow> nat \<Rightarrow> u8 list \<Rightarrow> u8 list res" where
  "bytesAt off n src = guardE (off + n \<le> length src) (UB ''read out of bounds'') (Inr (take n (drop off src)))"

section \<open>Interface: a disk of sectors\<close>

text \<open>
  \<open>content d l\<close> is what sector \<open>l\<close> holds, \<open>room d l n\<close> says that the \<open>n\<close> sectors from \<open>l\<close> are on
  the disk. Sector numbers are 64 bit wide and a request has at most \<open>2 ^ 16 - 1\<close> sectors.
\<close>

definition sectors :: "u64 \<Rightarrow> nat \<Rightarrow> u64 set" where
  "sectors l n = {l + of_nat i | i. i < n}"

definition sectorOf :: "nat \<Rightarrow> u8 list \<Rightarrow> nat \<Rightarrow> u8 list" where
  "sectorOf ss buf i = take ss (drop (i * ss) buf)"

lemma unat_of_nat_16: "i < 2 ^ 16 \<Longrightarrow> unat (of_nat i :: u64) = i"
  by (simp add: unat_of_nat take_bit_nat_eq_self)

lemma of_nat_u64_inj: "i < 2 ^ 16 \<Longrightarrow> j < 2 ^ 16 \<Longrightarrow> of_nat i = (of_nat j :: u64) \<longleftrightarrow> i = j"
  by (metis unat_of_nat_16)

locale sector_disk =
  fixes inv :: "'d \<Rightarrow> bool" and ssize :: "'d \<Rightarrow> nat" and content :: "'d \<Rightarrow> u64 \<Rightarrow> u8 list"
    and room :: "'d \<Rightarrow> u64 \<Rightarrow> nat \<Rightarrow> bool"
    and rd :: "u64 \<Rightarrow> nat \<Rightarrow> u8 list \<Rightarrow> 'd \<Rightarrow> (nat \<times> u8 list \<times> 'd) res"
    and wr :: "u64 \<Rightarrow> nat \<Rightarrow> u8 list \<Rightarrow> 'd \<Rightarrow> (nat \<times> 'd) res"
  assumes content_size: "inv d \<Longrightarrow> length (content d l) = ssize d"
    and read_content: "inv d \<Longrightarrow> room d l n \<Longrightarrow> n < 2 ^ 16 \<Longrightarrow> n * ssize d \<le> length buf \<Longrightarrow>
      rd l n buf d = Inr (n, concat (map (\<lambda>i. content d (l + of_nat i)) [0..<n]) @ drop (n * ssize d) buf, d)"
    and write_content: "inv d \<Longrightarrow> room d l n \<Longrightarrow> n < 2 ^ 16 \<Longrightarrow> n * ssize d \<le> length buf \<Longrightarrow>
      \<exists>d'. wr l n buf d = Inr (n, d') \<and> inv d' \<and> ssize d' = ssize d \<and> room d' = room d \<and>
        (\<forall>i<n. content d' (l + of_nat i) = sectorOf (ssize d) buf i) \<and>
        (\<forall>k. k \<notin> sectors l n \<longrightarrow> content d' k = content d k)"
begin

lemma concat_sectors: "n * ss \<le> length buf \<Longrightarrow> concat (map (sectorOf ss buf) [0..<n]) = take (n * ss) buf"
proof (induction n)
  case (Suc n)
  then show ?case by (simp add: sectorOf_def take_add [symmetric] add.commute)
qed simp

text \<open>What was written is read back.\<close>

lemma read_back:
  assumes "inv d" and "room d l n" and "n < 2 ^ 16" and "n * ssize d \<le> length buf" and "n * ssize d \<le> length old"
    and "wr l n buf d = Inr (r, d')"
  shows "r = n" and "rd l n old d' = Inr (n, take (n * ssize d) buf @ drop (n * ssize d) old, d')"
proof -
  obtain d'' where w: "wr l n buf d = Inr (n, d'')" "inv d''" "ssize d'' = ssize d" "room d'' = room d"
      "\<forall>i<n. content d'' (l + of_nat i) = sectorOf (ssize d) buf i"
    using write_content [OF assms(1-4)] by blast
  show "r = n" using w(1) assms(6) by simp
  have [simp]: "d'' = d'" using w(1) assms(6) by simp
  have "concat (map (\<lambda>i. content d' (l + of_nat i)) [0..<n]) = concat (map (sectorOf (ssize d) buf) [0..<n])"
    using w(5) by (intro arg_cong [of _ _ concat] map_cong) auto
  then show "rd l n old d' = Inr (n, take (n * ssize d) buf @ drop (n * ssize d) old, d')"
    using read_content [of d' l n old] w(2-4) assms(2,3,5) concat_sectors [OF assms(4)] by simp
qed

text \<open>Sectors that are not written are read as before.\<close>

lemma read_other:
  assumes "inv d" and "room d l n" and "n < 2 ^ 16" and "n * ssize d \<le> length buf" and "wr l n buf d = Inr (r, d')"
    and "room d k m" and "m < 2 ^ 16" and "m * ssize d \<le> length old" and "sectors k m \<inter> sectors l n = {}"
  shows "rd k m old d' = Inr (m, concat (map (\<lambda>i. content d (k + of_nat i)) [0..<m]) @ drop (m * ssize d) old, d')"
    and "rd k m old d = Inr (m, concat (map (\<lambda>i. content d (k + of_nat i)) [0..<m]) @ drop (m * ssize d) old, d)"
proof -
  obtain d'' where w: "wr l n buf d = Inr (n, d'')" "inv d''" "ssize d'' = ssize d" "room d'' = room d"
      "\<forall>k. k \<notin> sectors l n \<longrightarrow> content d'' k = content d k"
    using write_content [OF assms(1-4)] by blast
  have [simp]: "d'' = d'" using w(1) assms(5) by simp
  have "k + of_nat i \<notin> sectors l n" if "i < m" for i using assms(9) that by (auto simp: sectors_def)
  then have "concat (map (\<lambda>i. content d' (k + of_nat i)) [0..<m]) = concat (map (\<lambda>i. content d (k + of_nat i)) [0..<m])"
    using w(5) by (intro arg_cong [of _ _ concat] map_cong) auto
  then show "rd k m old d' = Inr (m, concat (map (\<lambda>i. content d (k + of_nat i)) [0..<m]) @ drop (m * ssize d) old, d')"
    using read_content [of d' k m old] w(2-4) assms(6-8) by simp
  show "rd k m old d = Inr (m, concat (map (\<lambda>i. content d (k + of_nat i)) [0..<m]) @ drop (m * ssize d) old, d)"
    by (rule read_content [OF assms(1,6-8)])
qed

text \<open>Both together: writing succeeds, reads what was written and nothing else has changed.\<close>

lemma write_then_read:
  assumes "inv d" and "room d l n" and "n < 2 ^ 16" and "n * ssize d \<le> length buf" and "n * ssize d \<le> length old"
  shows "\<exists>d'. wr l n buf d = Inr (n, d') \<and> rd l n old d' = Inr (n, take (n * ssize d) buf @ drop (n * ssize d) old, d') \<and>
     (\<forall>k m b. room d k m \<and> m < 2 ^ 16 \<and> m * ssize d \<le> length b \<and> sectors k m \<inter> sectors l n = {} \<longrightarrow>
        (\<exists>x. rd k m b d' = Inr (m, x, d') \<and> rd k m b d = Inr (m, x, d)))"
proof -
  obtain d' where w: "wr l n buf d = Inr (n, d')" using write_content [OF assms(1-4)] by blast
  show ?thesis using w read_back(2) [OF assms w] read_other [OF assms(1-4) w] by blast
qed

end

section \<open>The disks\<close>

record Disk =
  diskSize :: nat
  sectorSize :: nat
  diskOpen :: bool
  diskGood :: bool
  diskFile :: "u8 list"

record TableDisk = Disk +
  table :: "(u64 \<times> u8 list) list"

definition Disk_new :: Disk where
  "Disk_new = \<lparr>diskSize = 0, sectorSize = 0, diskOpen = False, diskGood = True, diskFile = []\<rparr>"

text \<open>
  What \<open>stat\<close> finds at the path. A file that does not exist is created with the desired size, filled
  with zeros (\<open>truncate\<close>); \<open>opened\<close> says whether the stream could be opened.
\<close>

datatype path_state = Absent | Regular "u8 list" | Special

definition Disk_open :: "path_state \<Rightarrow> bool \<Rightarrow> nat \<Rightarrow> nat \<Rightarrow> Disk \<Rightarrow> nat \<times> Disk" where
  "Disk_open path opened desiredSize lbaSize d =
     (let d1 = d\<lparr>sectorSize := lbaSize\<rparr>;
          d2 = (case path of
                  Regular bs \<Rightarrow> d1\<lparr>diskSize := length bs, diskFile := bs\<rparr>
                | Special \<Rightarrow> d1
                | Absent \<Rightarrow> d1\<lparr>diskSize := desiredSize, diskFile := replicate desiredSize 0\<rparr>);
          d3 = d2\<lparr>diskOpen := opened, diskGood := opened\<rparr>
      in (diskSize d3, d3))"

definition Disk_close :: "Disk \<Rightarrow> Disk" where
  "Disk_close d = d\<lparr>diskOpen := False\<rparr>"

text \<open>
  \<open>Disk::read\<close>. The stream reads the bytes there are; when there are fewer than asked for it is not
  good any more, and a stream that is not good does nothing. \<open>nlblk * sectorSize\<close> is computed with
  32 bits, the byte address with 64.
\<close>

definition streamRead :: "nat \<Rightarrow> nat \<Rightarrow> u8 list \<Rightarrow> ('a Disk_scheme) \<Rightarrow> (u8 list \<times> 'a Disk_scheme) res" where
  "streamRead off n buf d =
     (if diskGood d
      then (let got = take n (drop off (diskFile d))
            in bindE (memcpy 0 got buf) (\<lambda>buf1. Inr (buf1, d\<lparr>diskGood := length got = n\<rparr>)))
      else Inr (buf, d))"

definition Disk_read :: "u64 \<Rightarrow> nat \<Rightarrow> u8 list \<Rightarrow> ('a Disk_scheme) \<Rightarrow> (nat \<times> u8 list \<times> 'a Disk_scheme) res" where
  "Disk_read slba nlblk buf d =
     (if diskOpen d
      then (let start = unat (slba * of_nat (sectorSize d));
                len = wrap32 (nlblk * sectorSize d);
                avail = (if diskSize d < wrap64 (start + len)
                         then (if diskSize d \<le> start then 0 else diskSize d - start)
                         else len)
            in bindE (if 0 < avail then streamRead start avail buf d else Inr (buf, d)) (\<lambda>(buf1, d1).
               bindE (memcpy avail (replicate (sub64 len avail) 0) buf1) (\<lambda>buf2.
               Inr (nlblk, buf2, d1))))
      else Inr (0, buf, d))"

text \<open>
  \<open>Disk::write\<close>. Writing behind the end of the file extends it, with zeros in between; the number
  of sectors is computed from the positions of the stream before and after.
\<close>

definition fileWrite :: "nat \<Rightarrow> u8 list \<Rightarrow> u8 list \<Rightarrow> u8 list" where
  "fileWrite off src f =
     take off f @ replicate (off - length f) 0 @ src @ drop (off + length src) f"

definition Disk_write :: "u64 \<Rightarrow> nat \<Rightarrow> u8 list \<Rightarrow> ('a Disk_scheme) \<Rightarrow> (nat \<times> 'a Disk_scheme) res" where
  "Disk_write slba nlblk buf d =
     (if diskOpen d
      then (let start = unat (slba * of_nat (sectorSize d));
                len = wrap32 (sectorSize d * nlblk)
            in bindE (bytesAt 0 len buf) (\<lambda>src.
               let (written, d1) = (if diskGood d
                                    then (len, d\<lparr>diskFile := fileWrite start src (diskFile d)\<rparr>)
                                    else (0, d))
               in guardE (sectorSize d \<noteq> 0) (UB ''division by zero'')
                    (Inr (written div sectorSize d mod 2 ^ 16, d1))))
      else Inr (0, d))"

definition Disk_erase :: "u64 \<Rightarrow> nat \<Rightarrow> 'd \<Rightarrow> nat \<times> 'd" where
  "Disk_erase slba nlblk d = (nlblk, d)"

text \<open>\<open>CoWDisk\<close> and \<open>MemDisk\<close>: one sector at a time, through the table.\<close>

definition tableSector :: "nat \<Rightarrow> u8 list \<Rightarrow> nat \<Rightarrow> u8 list \<Rightarrow> u8 list res" where
  "tableSector ss v i buf = bindE (bytesAt 0 ss v) (\<lambda>src. memcpy (i * ss) src buf)"

definition putSector :: "u64 \<Rightarrow> u8 list \<Rightarrow> nat \<Rightarrow> TableDisk \<Rightarrow> TableDisk res" where
  "putSector slba buf i d =
     bindE (bytesAt (i * sectorSize d) (sectorSize d) buf) (\<lambda>src.
       Inr (d\<lparr>table := AList.update (slba + of_nat i) src (table d)\<rparr>))"

definition CoWDisk_new :: TableDisk where
  "CoWDisk_new = \<lparr>diskSize = 0, sectorSize = 0, diskOpen = False, diskGood = True, diskFile = [], table = []\<rparr>"

definition CoWDisk_close :: "TableDisk \<Rightarrow> TableDisk" where
  "CoWDisk_close d = d\<lparr>table := [], diskOpen := False\<rparr>"

definition cowReadSector :: "u64 \<Rightarrow> nat \<Rightarrow> nat \<times> u8 list \<times> TableDisk \<Rightarrow> (nat \<times> u8 list \<times> TableDisk) res" where
  "cowReadSector slba i st =
     (let (r, buf, d) = st
      in case map_of (table d) (slba + of_nat i) of
           Some v \<Rightarrow> bindE (tableSector (sectorSize d) v i buf) (\<lambda>buf1. Inr (r + 1, buf1, d))
         | None \<Rightarrow>
             guardE (i * sectorSize d \<le> length buf) (UB ''pointer out of bounds'')
               (bindE (Disk_read (slba + of_nat i) 1 (drop (i * sectorSize d) buf) d) (\<lambda>(k, tail, d1).
                  Inr (r + k, take (i * sectorSize d) buf @ tail, d1))))"

definition CoWDisk_read :: "u64 \<Rightarrow> nat \<Rightarrow> u8 list \<Rightarrow> TableDisk \<Rightarrow> (nat \<times> u8 list \<times> TableDisk) res" where
  "CoWDisk_read slba nlblk buf d = foldE (cowReadSector slba) [0..<nlblk] (0, buf, d)"

definition CoWDisk_write :: "u64 \<Rightarrow> nat \<Rightarrow> u8 list \<Rightarrow> TableDisk \<Rightarrow> (nat \<times> TableDisk) res" where
  "CoWDisk_write slba nlblk buf d =
     foldE (\<lambda>i (w, d). bindE (putSector slba buf i d) (\<lambda>d1. Inr (w + 1, d1))) [0..<nlblk] (0, d)"

definition MemDisk_open :: "nat \<Rightarrow> nat \<Rightarrow> TableDisk \<Rightarrow> nat \<times> TableDisk" where
  "MemDisk_open sz lbaSize d = (sz, d\<lparr>diskSize := sz, sectorSize := lbaSize\<rparr>)"

definition MemDisk_close :: "TableDisk \<Rightarrow> TableDisk" where
  "MemDisk_close d = d\<lparr>table := []\<rparr>"

definition memReadSector :: "u64 \<Rightarrow> nat \<Rightarrow> nat \<times> u8 list \<times> TableDisk \<Rightarrow> (nat \<times> u8 list \<times> TableDisk) res" where
  "memReadSector slba i st =
     (let (r, buf, d) = st
      in bindE (case map_of (table d) (slba + of_nat i) of
                  Some v \<Rightarrow> tableSector (sectorSize d) v i buf
                | None \<Rightarrow> memcpy (i * sectorSize d) (replicate (sectorSize d) 0) buf)
           (\<lambda>buf1. Inr (r + 1, buf1, d)))"

definition MemDisk_read :: "u64 \<Rightarrow> nat \<Rightarrow> u8 list \<Rightarrow> TableDisk \<Rightarrow> (nat \<times> u8 list \<times> TableDisk) res" where
  "MemDisk_read slba nlblk buf d = foldE (memReadSector slba) [0..<nlblk] (0, buf, d)"

definition MemDisk_write :: "u64 \<Rightarrow> nat \<Rightarrow> u8 list \<Rightarrow> TableDisk \<Rightarrow> (nat \<times> TableDisk) res" where
  "MemDisk_write slba nlblk buf d =
     foldE (\<lambda>i (w, d). bindE (putSector slba buf i d) (\<lambda>d1. Inr (w + 1, d1))) [0..<nlblk] (0, d)"

definition MemDisk_erase :: "u64 \<Rightarrow> nat \<Rightarrow> TableDisk \<Rightarrow> nat \<times> TableDisk" where
  "MemDisk_erase slba nlblk d =
     fold (\<lambda>i (e, d). (e + 1, d\<lparr>table := AList.delete (slba + of_nat i) (table d)\<rparr>)) [0..<nlblk] (0, d)"

section \<open>All three are disks of sectors\<close>

lemma memcpy_eq: "off + length src \<le> length dst \<Longrightarrow>
    memcpy off src dst = Inr (take off dst @ src @ drop (off + length src) dst)"
  by (simp add: memcpy_def)

lemma length_concat_sectors: "(\<And>i. i < n \<Longrightarrow> length (c i) = ss) \<Longrightarrow> length (concat (map c [0..<n])) = n * ss"
  by (induction n) simp_all

lemma table_update_simps [simp]:
  "sectorSize (table_update f d) = sectorSize d"
  "diskSize (table_update f d) = diskSize d"
  "diskOpen (table_update f d) = diskOpen d"
  "diskGood (table_update f d) = diskGood d"
  "diskFile (table_update f d) = diskFile d"
  by (cases d; simp)+

text \<open>The read loops fill the buffer sector by sector.\<close>

lemma fill_loop:
  assumes "n * ss \<le> length buf" and "\<And>i. i < n \<Longrightarrow> length (c i) = ss"
    and "\<And>i b. i < n \<Longrightarrow> length b = length buf \<Longrightarrow>
      f i (i, b, d) = Inr (Suc i, take (i * ss) b @ c i @ drop (Suc i * ss) b, d)"
  shows "foldE f [0..<n] (0, buf, d) = Inr (n, concat (map c [0..<n]) @ drop (n * ss) buf, d)"
  using assms
proof (induction n)
  case (Suc n)
  have l: "length (concat (map c [0..<n])) = n * ss"
    using Suc.prems(2) by (intro length_concat_sectors) simp
  have "foldE f [0..<n] (0, buf, d) = Inr (n, concat (map c [0..<n]) @ drop (n * ss) buf, d)"
    using Suc.prems by (intro Suc.IH) auto
  moreover have "length (concat (map c [0..<n]) @ drop (n * ss) buf) = length buf"
    using l Suc.prems(1) by simp
  ultimately show ?case
    using Suc.prems(3) [of n] l by (simp add: foldE_append)
qed simp

text \<open>The write loop of the two table disks.\<close>

definition putAll :: "u64 \<Rightarrow> nat \<Rightarrow> u8 list \<Rightarrow> nat \<Rightarrow> (u64 \<times> u8 list) list \<Rightarrow> (u64 \<times> u8 list) list" where
  "putAll l ss buf n t = fold (\<lambda>i. AList.update (l + of_nat i) (sectorOf ss buf i)) [0..<n] t"

lemma put_loop:
  assumes "n * sectorSize d \<le> length buf"
  shows "foldE (\<lambda>i (w, d). bindE (putSector l buf i d) (\<lambda>d1. Inr (w + 1, d1))) [0..<n] (0, d) =
     Inr (n, d\<lparr>table := putAll l (sectorSize d) buf n (table d)\<rparr>)"
  using assms
proof (induction n)
  case (Suc n)
  then show ?case
    by (simp add: foldE_append putAll_def putSector_def bytesAt_def sectorOf_def add.commute)
qed (simp add: putAll_def)

lemma map_of_putAll:
  assumes "n < 2 ^ 16"
  shows "i < n \<Longrightarrow> map_of (putAll l ss buf n t) (l + of_nat i) = Some (sectorOf ss buf i)"
    and "k \<notin> sectors l n \<Longrightarrow> map_of (putAll l ss buf n t) k = map_of t k"
  using assms
proof (induction n)
  case (Suc n)
  have e: "putAll l ss buf (Suc n) t = AList.update (l + of_nat n) (sectorOf ss buf n) (putAll l ss buf n t)"
    by (simp add: putAll_def)
  { case 1
    then show ?case using Suc.IH(1) of_nat_u64_inj [of i n] by (cases "i = n") (auto simp: e update_conv) }
  { case 2
    then have "k \<noteq> l + of_nat n" "k \<notin> sectors l n" by (auto simp: sectors_def less_Suc_eq)
    then show ?case using Suc.IH(2) 2 by (auto simp: e update_conv) }
qed (auto simp: putAll_def)

definition table_ok :: "TableDisk \<Rightarrow> bool" where
  "table_ok d \<longleftrightarrow> (\<forall>l v. map_of (table d) l = Some v \<longrightarrow> length v = sectorSize d)"

lemma table_ok_put:
  assumes "table_ok d" and "n < 2 ^ 16" and "n * sectorSize d \<le> length buf"
  shows "table_ok (d\<lparr>table := putAll l (sectorSize d) buf n (table d)\<rparr>)"
proof -
  have "length v = sectorSize d" if "map_of (putAll l (sectorSize d) buf n (table d)) k = Some v" for k v
  proof (cases "k \<in> sectors l n")
    case True
    then obtain i where i: "i < n" "k = l + of_nat i" by (auto simp: sectors_def)
    then have "Suc i * sectorSize d \<le> length buf" using assms(3) by (meson Suc_leI le_trans mult_le_mono1)
    then show ?thesis using that map_of_putAll(1) [OF assms(2) i(1)] i(2) by (auto simp: sectorOf_def)
  next
    case False
    then show ?thesis using that map_of_putAll(2) [OF assms(2) False] assms(1) by (simp add: table_ok_def)
  qed
  then show ?thesis by (simp add: table_ok_def)
qed

subsection \<open>\<open>MemDisk\<close>\<close>

definition memContent :: "TableDisk \<Rightarrow> u64 \<Rightarrow> u8 list" where
  "memContent d l = (case map_of (table d) l of Some v \<Rightarrow> v | None \<Rightarrow> replicate (sectorSize d) 0)"

lemma memContent_size: "table_ok d \<Longrightarrow> length (memContent d l) = sectorSize d"
  by (auto simp: memContent_def table_ok_def split: option.splits)

lemma memReadSector_eq:
  assumes "table_ok d" and "Suc i * sectorSize d \<le> length b"
  shows "memReadSector l i (r, b, d) =
     Inr (Suc r, take (i * sectorSize d) b @ memContent d (l + of_nat i) @ drop (Suc i * sectorSize d) b, d)"
  using assms memContent_size [OF assms(1), of "l + of_nat i"]
  by (auto simp: memReadSector_def memContent_def tableSector_def bytesAt_def memcpy_def add.commute split: option.splits)

interpretation mem_disk: sector_disk table_ok sectorSize memContent "\<lambda>_ _ _. True" MemDisk_read MemDisk_write
proof unfold_locales
  fix d :: TableDisk and l :: u64 and n :: nat and buf :: "u8 list"
  assume ok: "table_ok d"
  show "length (memContent d l) = sectorSize d" by (rule memContent_size [OF ok])
  assume n: "n < 2 ^ 16" and b: "n * sectorSize d \<le> length buf"
  have le: "Suc i * sectorSize d \<le> length buf" if "i < n" for i using b that by (meson Suc_leI le_trans mult_le_mono1)
  show "MemDisk_read l n buf d =
      Inr (n, concat (map (\<lambda>i. memContent d (l + of_nat i)) [0..<n]) @ drop (n * sectorSize d) buf, d)"
    unfolding MemDisk_read_def using le
    by (intro fill_loop [OF b]) (simp_all add: memContent_size [OF ok] memReadSector_eq [OF ok])
  show "\<exists>d'. MemDisk_write l n buf d = Inr (n, d') \<and> table_ok d' \<and> sectorSize d' = sectorSize d \<and> (\<lambda>_ _. True) = (\<lambda>_ _. True) \<and>
        (\<forall>i<n. memContent d' (l + of_nat i) = sectorOf (sectorSize d) buf i) \<and>
        (\<forall>k. k \<notin> sectors l n \<longrightarrow> memContent d' k = memContent d k)"
    unfolding MemDisk_write_def put_loop [OF b]
    using table_ok_put [OF ok n b, of l] map_of_putAll [OF n, where l = l]
    by (simp add: memContent_def split: option.split)
qed

subsection \<open>\<open>Disk\<close>\<close>

definition fileByte :: "'a Disk_scheme \<Rightarrow> nat \<Rightarrow> u8" where
  "fileByte d a = (if a < diskSize d then diskFile d ! a else 0)"

definition diskContent :: "'a Disk_scheme \<Rightarrow> u64 \<Rightarrow> u8 list" where
  "diskContent d l = map (\<lambda>j. fileByte d (unat l * sectorSize d + j)) [0..<sectorSize d]"

definition disk_ok :: "'a Disk_scheme \<Rightarrow> bool" where
  "disk_ok d \<longleftrightarrow> diskOpen d \<and> diskGood d \<and> 0 < sectorSize d \<and> sectorSize d < 2 ^ 16 \<and>
     diskSize d < 2 ^ 64 \<and> diskSize d \<le> length (diskFile d)"

definition diskRoom :: "'a Disk_scheme \<Rightarrow> u64 \<Rightarrow> nat \<Rightarrow> bool" where
  "diskRoom d l n \<longleftrightarrow> (unat l + n) * sectorSize d \<le> diskSize d"

lemma diskGood_id: "diskGood d \<Longrightarrow> d\<lparr>diskGood := True\<rparr> = d"
  by (cases d) simp

lemma start_eq:
  assumes "unat l * ss < 2 ^ 64" and "0 < ss" and "ss < 2 ^ 16"
  shows "unat (l * of_nat ss :: u64) = unat l * ss"
proof -
  have "unat (of_nat ss :: u64) = ss" using assms(3) by (rule unat_of_nat_16)
  then show ?thesis using assms(1) by (simp add: unat_word_ariths)
qed

lemma sector_bytes: "n < 2 ^ 16 \<Longrightarrow> ss < 2 ^ 16 \<Longrightarrow> n * ss < (2::nat) ^ 32"
  using mult_le_mono [of n "2 ^ 16 - 1" ss "2 ^ 16 - 1"] by simp

lemma file_bytes:
  assumes "diskSize d \<le> length (diskFile d)" and "avail = (if diskSize d < start + len then diskSize d - start else len)"
  shows "take avail (drop start (diskFile d)) @ replicate (len - avail) 0 = map (fileByte d) [start..<start + len]"
  using assms by (intro nth_equalityI) (auto simp: nth_append fileByte_def)

lemma Disk_read_eq:
  assumes ok: "disk_ok d" and n: "n < 2 ^ 16" and w: "(unat l + n) * sectorSize d < 2 ^ 64" and b: "n * sectorSize d \<le> length buf"
  shows "Disk_read l n buf d =
     Inr (n, map (fileByte d) [unat l * sectorSize d..<unat l * sectorSize d + n * sectorSize d] @ drop (n * sectorSize d) buf, d)"
proof -
  let ?ss = "sectorSize d" and ?start = "unat l * sectorSize d" and ?len = "n * sectorSize d"
  let ?avail = "if diskSize d < ?start + ?len then diskSize d - ?start else ?len"
  have D: "diskOpen d" "diskGood d" "0 < ?ss" "?ss < 2 ^ 16" "diskSize d < 2 ^ 64" "diskSize d \<le> length (diskFile d)"
    using ok by (simp_all add: disk_ok_def)
  have sl: "?start + ?len < 2 ^ 64" using w by (simp add: algebra_simps)
  have s: "unat (l * of_nat ?ss :: u64) = ?start" using sl D(3,4) by (intro start_eq) simp_all
  have len: "wrap32 ?len = ?len" using sector_bytes [OF n D(4)] by simp
  define avail where "avail = ?avail"
  have av: "avail \<le> ?len" by (auto simp: avail_def)
  have a: "(if diskSize d < wrap64 (?start + ?len) then if diskSize d \<le> ?start then 0 else diskSize d - ?start else ?len) = avail"
    using sl by (simp add: wrap64_def avail_def)
  have z: "sub64 ?len avail = ?len - avail" using av sl by (simp add: sub64_def mod_if)
  let ?got = "take avail (drop ?start (diskFile d))"
  have g: "length ?got = avail" using D(6) by (auto simp: avail_def)
  have r: "(if 0 < avail then streamRead ?start avail buf d else Inr (buf, d)) = Inr (?got @ drop avail buf, d)"
    using g b av D(2) by (simp add: streamRead_def memcpy_def diskGood_id del: take_drop drop_drop)
  have "memcpy avail (replicate (?len - avail) 0) (?got @ drop avail buf) =
      Inr (?got @ replicate (?len - avail) 0 @ drop ?len buf)"
    using g b av by (simp add: memcpy_def)
  then show ?thesis
    using D(1) file_bytes [OF D(6) avail_def]
    unfolding Disk_read_def Let_def s len a z r by (simp flip: append_assoc)
qed

lemma diskContent_size: "length (diskContent d l) = sectorSize d"
  by (simp add: diskContent_def)

lemma upt_shift: "[a..<a + k] = map (\<lambda>j. a + j) [0..<k]"
  by (rule nth_equalityI) simp_all

lemma diskContent_map: "diskContent d l = map (fileByte d) [unat l * sectorSize d..<unat l * sectorSize d + sectorSize d]"
  unfolding upt_shift by (simp add: diskContent_def comp_def)

lemma unat_plus_small:
  assumes "unat l + i < 2 ^ 64"
  shows "unat (l + of_nat i :: u64) = unat l + i"
proof -
  have "unat (of_nat i :: u64) = i" using assms by (simp add: unat_of_nat take_bit_nat_eq_self)
  then show ?thesis using assms by (simp add: unat_word_ariths)
qed

lemma concat_diskContent:
  assumes "(unat l + n) * sectorSize d < 2 ^ 64" and "0 < sectorSize d"
  shows "concat (map (\<lambda>i. diskContent d (l + of_nat i)) [0..<n]) =
     map (fileByte d) [unat l * sectorSize d..<unat l * sectorSize d + n * sectorSize d]"
  using assms
proof (induction n)
  case (Suc n)
  have "(unat l + Suc n) * 1 \<le> (unat l + Suc n) * sectorSize d" using Suc.prems(2) by (intro mult_le_mono) simp_all
  then have u: "unat (l + of_nat n :: u64) = unat l + n" using Suc.prems(1) by (intro unat_plus_small) simp
  let ?a = "unat l * sectorSize d" and ?b = "n * sectorSize d" and ?ss = "sectorSize d"
  have c: "diskContent d (l + of_nat n) = map (fileByte d) [?a + ?b..<?a + ?b + ?ss]"
    unfolding diskContent_map u by (simp add: distrib_right)
  have IH: "concat (map (\<lambda>i. diskContent d (l + of_nat i)) [0..<n]) = map (fileByte d) [?a..<?a + ?b]"
    using Suc.prems by (intro Suc.IH) (simp_all add: distrib_right)
  have "[?a..<?a + Suc n * ?ss] = [?a..<?a + ?b] @ [?a + ?b..<?a + ?b + ?ss]"
    using upt_add_eq_append [of ?a "?a + ?b" ?ss] by (simp add: add.commute add.left_commute)
  then show ?case using IH c by simp
qed simp

lemma fileByte_write:
  assumes "start + length src \<le> diskSize d" and "diskSize d \<le> length (diskFile d)"
  shows "fileByte (d\<lparr>diskFile := fileWrite start src (diskFile d)\<rparr>) a =
     (if start \<le> a \<and> a < start + length src then src ! (a - start) else fileByte d a)"
  using assms by (auto simp: fileByte_def fileWrite_def nth_append)

lemma sector_apart:
  assumes "k \<notin> sectors l n" and "unat l + n < 2 ^ 64" and "j < ss"
  shows "unat k * ss + j < unat l * ss \<or> (unat l + n) * ss \<le> unat k * ss + j"
proof (cases "unat k < unat l")
  case True
  then have "Suc (unat k) * ss \<le> unat l * ss" by (intro mult_le_mono) simp_all
  then show ?thesis using assms(3) by (simp add: add.commute)
next
  case False
  then have "k = l + of_nat (unat k - unat l)"
    by (simp add: of_nat_diff)
  then have "\<not> unat k - unat l < n" using assms(1) by (auto simp: sectors_def)
  then have "(unat l + n) * ss \<le> unat k * ss" using False by (intro mult_le_mono) simp_all
  then show ?thesis by linarith
qed

text \<open>Writing to the file, on the sectors of the disk.\<close>

lemma Disk_write_eq:
  assumes ok: "disk_ok d" and n: "n < 2 ^ 16" and r: "diskRoom d l n" and b: "n * sectorSize d \<le> length buf"
  shows "Disk_write l n buf d =
     Inr (n, d\<lparr>diskFile := fileWrite (unat l * sectorSize d) (take (n * sectorSize d) buf) (diskFile d)\<rparr>)"
proof -
  let ?ss = "sectorSize d"
  have D: "diskOpen d" "diskGood d" "0 < ?ss" "?ss < 2 ^ 16" "diskSize d < 2 ^ 64"
    using ok by (simp_all add: disk_ok_def)
  have "unat l * ?ss < 2 ^ 64" using r D(5) by (simp add: diskRoom_def distrib_right)
  then have s: "unat (l * of_nat ?ss :: u64) = unat l * ?ss"
    using D(3,4) by (intro start_eq)
  have len: "wrap32 (?ss * n) = n * ?ss" using sector_bytes [OF n D(4)] by (simp add: mult.commute)
  have "bytesAt 0 (n * ?ss) buf = Inr (take (n * ?ss) buf)" using b by (simp add: bytesAt_def)
  moreover have "n * ?ss div ?ss mod 2 ^ 16 = n" using D(3) n by simp
  ultimately show ?thesis using D(1-3) by (simp add: Disk_write_def Let_def s len)
qed

lemma diskContent_write:
  assumes ok: "disk_ok d" and n: "n < 2 ^ 16" and r: "diskRoom d l n" and b: "n * sectorSize d \<le> length buf"
    and d': "d' = d\<lparr>diskFile := fileWrite (unat l * sectorSize d) (take (n * sectorSize d) buf) (diskFile d)\<rparr>"
  shows "i < n \<Longrightarrow> diskContent d' (l + of_nat i) = sectorOf (sectorSize d) buf i"
    and "k \<notin> sectors l n \<Longrightarrow> diskContent d' k = diskContent d k"
proof -
  let ?ss = "sectorSize d" and ?src = "take (n * sectorSize d) buf"
  have D: "0 < ?ss" "diskSize d < 2 ^ 64" "diskSize d \<le> length (diskFile d)" using ok by (simp_all add: disk_ok_def)
  have src: "length ?src = n * ?ss" using b by simp
  have room: "unat l * ?ss + length ?src \<le> diskSize d" using r src by (simp add: diskRoom_def distrib_right)
  note fb = fileByte_write [OF room D(3), folded d']
  have ss: "sectorSize d' = ?ss" by (simp add: d')
  have "(unat l + n) * 1 \<le> (unat l + n) * ?ss" using D(1) by (intro mult_le_mono) simp_all
  then have "unat l + n \<le> diskSize d" using r unfolding diskRoom_def mult_1_right by (rule order_trans)
  then have u: "unat l + n < 2 ^ 64" using D(2) by (rule order_le_less_trans)
  show "diskContent d' (l + of_nat i) = sectorOf ?ss buf i" if i: "i < n"
  proof (rule nth_equalityI)
    have le: "Suc i * ?ss \<le> n * ?ss" using i by (intro mult_le_mono) simp_all
    then show "length (diskContent d' (l + of_nat i)) = length (sectorOf ?ss buf i)"
      using b by (simp add: diskContent_size ss sectorOf_def)
    fix j assume "j < length (diskContent d' (l + of_nat i))"
    then have j: "j < ?ss" by (simp add: diskContent_size ss)
    have ui: "unat (l + of_nat i :: u64) = unat l + i" using u i by (intro unat_plus_small) simp
    have "i * ?ss + j < n * ?ss" using le j by simp
    then show "diskContent d' (l + of_nat i) ! j = sectorOf ?ss buf i ! j"
      using j b by (simp add: diskContent_def ss ui fb src sectorOf_def distrib_right)
  qed
  show "diskContent d' k = diskContent d k" if k: "k \<notin> sectors l n"
  proof (rule nth_equalityI)
    show "length (diskContent d' k) = length (diskContent d k)" by (simp add: diskContent_size ss)
    fix j assume "j < length (diskContent d' k)"
    then have j: "j < ?ss" by (simp add: diskContent_size ss)
    show "diskContent d' k ! j = diskContent d k ! j"
      using sector_apart [OF k u j] j by (auto simp: diskContent_def ss fb src distrib_right)
  qed
qed

lemma fileWrite_length: "start + length src \<le> length f \<Longrightarrow> length (fileWrite start src f) = length f"
  by (simp add: fileWrite_def)

interpretation file_disk: sector_disk disk_ok sectorSize diskContent diskRoom
  "Disk_read :: u64 \<Rightarrow> nat \<Rightarrow> u8 list \<Rightarrow> 'a Disk_scheme \<Rightarrow> (nat \<times> u8 list \<times> 'a Disk_scheme) res" Disk_write
proof unfold_locales
  fix d :: "'a Disk_scheme" and l :: u64 and n :: nat and buf :: "u8 list"
  assume ok: "disk_ok d"
  show "length (diskContent d l) = sectorSize d" by (rule diskContent_size)
  assume r: "diskRoom d l n" and n: "n < 2 ^ 16" and b: "n * sectorSize d \<le> length buf"
  have w: "(unat l + n) * sectorSize d < 2 ^ 64" and ss: "0 < sectorSize d"
    using ok r by (simp_all add: disk_ok_def diskRoom_def)
  show "Disk_read l n buf d =
      Inr (n, concat (map (\<lambda>i. diskContent d (l + of_nat i)) [0..<n]) @ drop (n * sectorSize d) buf, d)"
    unfolding concat_diskContent [OF w ss] by (rule Disk_read_eq [OF ok n w b])
  let ?d' = "d\<lparr>diskFile := fileWrite (unat l * sectorSize d) (take (n * sectorSize d) buf) (diskFile d)\<rparr>"
  have "unat l * sectorSize d + length (take (n * sectorSize d) buf) \<le> length (diskFile d)"
    using ok r b by (simp add: disk_ok_def diskRoom_def distrib_right)
  then have "disk_ok ?d'" using ok by (simp add: disk_ok_def fileWrite_length)
  moreover have "diskRoom ?d' = diskRoom d" by (simp add: diskRoom_def fun_eq_iff)
  ultimately show "\<exists>d'. Disk_write l n buf d = Inr (n, d') \<and> disk_ok d' \<and> sectorSize d' = sectorSize d \<and> diskRoom d' = diskRoom d \<and>
        (\<forall>i<n. diskContent d' (l + of_nat i) = sectorOf (sectorSize d) buf i) \<and>
        (\<forall>k. k \<notin> sectors l n \<longrightarrow> diskContent d' k = diskContent d k)"
    using diskContent_write [OF ok n r b refl] unfolding Disk_write_eq [OF ok n r b] by simp
qed

subsection \<open>\<open>CoWDisk\<close>\<close>

definition cowContent :: "TableDisk \<Rightarrow> u64 \<Rightarrow> u8 list" where
  "cowContent d l = (case map_of (table d) l of Some v \<Rightarrow> v | None \<Rightarrow> diskContent d l)"

definition cow_ok :: "TableDisk \<Rightarrow> bool" where
  "cow_ok d \<longleftrightarrow> table_ok d \<and> disk_ok d"

definition cowRoom :: "TableDisk \<Rightarrow> u64 \<Rightarrow> nat \<Rightarrow> bool" where
  "cowRoom d l n \<longleftrightarrow> (unat l + n) * sectorSize d < 2 ^ 64"

lemma cowContent_size: "table_ok d \<Longrightarrow> length (cowContent d l) = sectorSize d"
  by (auto simp: cowContent_def table_ok_def diskContent_size split: option.splits)

lemma cowReadSector_eq:
  assumes ok: "cow_ok d" and b: "Suc i * sectorSize d \<le> length b" and w: "(unat l + Suc i) * sectorSize d < 2 ^ 64"
  shows "cowReadSector l i (r, b, d) =
     Inr (Suc r, take (i * sectorSize d) b @ cowContent d (l + of_nat i) @ drop (Suc i * sectorSize d) b, d)"
proof (cases "map_of (table d) (l + of_nat i)")
  case None
  have ss: "0 < sectorSize d" and ok': "disk_ok d" using ok by (auto simp: cow_ok_def disk_ok_def)
  have "(unat l + Suc i) * 1 \<le> (unat l + Suc i) * sectorSize d" using ss by (intro mult_le_mono) simp_all
  then have u: "unat (l + of_nat i :: u64) = unat l + i" using w by (intro unat_plus_small) simp
  have "Disk_read (l + of_nat i) 1 (drop (i * sectorSize d) b) d =
      Inr (1, diskContent d (l + of_nat i) @ drop (Suc i * sectorSize d) b, d)"
    using Disk_read_eq [OF ok', of 1 "l + of_nat i" "drop (i * sectorSize d) b"] b w
    by (simp add: u diskContent_map add.commute)
  then show ?thesis using None b by (simp add: cowReadSector_def cowContent_def)
next
  case (Some v)
  then have "length v = sectorSize d" using ok by (auto simp: cow_ok_def table_ok_def)
  then show ?thesis using Some b
    by (simp add: cowReadSector_def cowContent_def tableSector_def bytesAt_def memcpy_def add.commute)
qed

lemma cow_ok_put:
  assumes "cow_ok d" and "n < 2 ^ 16" and "n * sectorSize d \<le> length buf"
  shows "cow_ok (d\<lparr>table := putAll l (sectorSize d) buf n (table d)\<rparr>)"
  using assms table_ok_put [of d n buf l] by (simp add: cow_ok_def disk_ok_def)

interpretation cow_disk: sector_disk cow_ok sectorSize cowContent cowRoom CoWDisk_read CoWDisk_write
proof unfold_locales
  fix d :: TableDisk and l :: u64 and n :: nat and buf :: "u8 list"
  assume ok: "cow_ok d"
  then have t: "table_ok d" by (simp add: cow_ok_def)
  show "length (cowContent d l) = sectorSize d" by (rule cowContent_size [OF t])
  assume r: "cowRoom d l n" and n: "n < 2 ^ 16" and b: "n * sectorSize d \<le> length buf"
  have le: "Suc i * sectorSize d \<le> length buf" if "i < n" for i using b that by (meson Suc_leI le_trans mult_le_mono1)
  have w: "(unat l + Suc i) * sectorSize d < 2 ^ 64" if "i < n" for i
    using r mult_le_mono1 [of "unat l + Suc i" "unat l + n" "sectorSize d"] that by (simp add: cowRoom_def)
  show "CoWDisk_read l n buf d =
      Inr (n, concat (map (\<lambda>i. cowContent d (l + of_nat i)) [0..<n]) @ drop (n * sectorSize d) buf, d)"
    unfolding CoWDisk_read_def using le w
    by (intro fill_loop [OF b]) (simp_all add: cowContent_size [OF t] cowReadSector_eq [OF ok])
  have "diskContent (d\<lparr>table := x\<rparr>) k = diskContent d k" for x k
    by (simp add: diskContent_def fileByte_def)
  moreover have "cowRoom (d\<lparr>table := x\<rparr>) = cowRoom d" for x by (simp add: cowRoom_def fun_eq_iff)
  ultimately show "\<exists>d'. CoWDisk_write l n buf d = Inr (n, d') \<and> cow_ok d' \<and> sectorSize d' = sectorSize d \<and> cowRoom d' = cowRoom d \<and>
        (\<forall>i<n. cowContent d' (l + of_nat i) = sectorOf (sectorSize d) buf i) \<and>
        (\<forall>k. k \<notin> sectors l n \<longrightarrow> cowContent d' k = cowContent d k)"
    unfolding CoWDisk_write_def put_loop [OF b]
    using cow_ok_put [OF ok n b, of l] map_of_putAll [OF n, where l = l]
    by (simp add: cowContent_def split: option.split)
qed

section \<open>Properties\<close>

lemma MemDisk_erase_eq:
  "MemDisk_erase l n d = (n, d\<lparr>table := fold (\<lambda>i. AList.delete (l + of_nat i)) [0..<n] (table d)\<rparr>)"
  by (induction n) (simp_all add: MemDisk_erase_def)

lemma map_of_deletes:
  "map_of (fold (\<lambda>i. AList.delete (l + of_nat i)) [0..<n] t) k = (if k \<in> sectors l n then None else map_of t k)"
  by (induction n) (auto simp: sectors_def delete_conv less_Suc_eq)

text \<open>After an erase the sectors of a \<open>MemDisk\<close> read as zeros; the others keep their contents.\<close>

lemma MemDisk_erase_content:
  assumes "table_ok d"
  shows "table_ok (snd (MemDisk_erase l n d))"
    and "memContent (snd (MemDisk_erase l n d)) k =
      (if k \<in> sectors l n then replicate (sectorSize d) 0 else memContent d k)"
  using assms by (auto simp: MemDisk_erase_eq map_of_deletes table_ok_def memContent_def split: if_splits option.split)

text \<open>
  C26. Round trip. On each of the three disks, writing up to \<open>2 ^ 16 - 1\<close> sectors that are on the disk
  succeeds, reading them back gives the bytes written (and leaves the rest of the buffer alone),
  and a read of any other sectors gives the same bytes as before.
\<close>

theorem disk_roundtrip:
  assumes "n < 2 ^ 16"
  shows "(table_ok d \<and> n * sectorSize d \<le> length buf \<and> n * sectorSize d \<le> length old \<longrightarrow>
      (\<exists>d'. MemDisk_write l n buf d = Inr (n, d') \<and>
         MemDisk_read l n old d' = Inr (n, take (n * sectorSize d) buf @ drop (n * sectorSize d) old, d') \<and>
         (\<forall>k m b. m < 2 ^ 16 \<and> m * sectorSize d \<le> length b \<and> sectors k m \<inter> sectors l n = {} \<longrightarrow>
            (\<exists>x. MemDisk_read k m b d' = Inr (m, x, d') \<and> MemDisk_read k m b d = Inr (m, x, d))))) \<and>
    (cow_ok c \<and> cowRoom c l n \<and> n * sectorSize c \<le> length buf \<and> n * sectorSize c \<le> length old \<longrightarrow>
      (\<exists>c'. CoWDisk_write l n buf c = Inr (n, c') \<and>
         CoWDisk_read l n old c' = Inr (n, take (n * sectorSize c) buf @ drop (n * sectorSize c) old, c') \<and>
         (\<forall>k m b. cowRoom c k m \<and> m < 2 ^ 16 \<and> m * sectorSize c \<le> length b \<and> sectors k m \<inter> sectors l n = {} \<longrightarrow>
            (\<exists>x. CoWDisk_read k m b c' = Inr (m, x, c') \<and> CoWDisk_read k m b c = Inr (m, x, c))))) \<and>
    (disk_ok f \<and> diskRoom f l n \<and> n * sectorSize f \<le> length buf \<and> n * sectorSize f \<le> length old \<longrightarrow>
      (\<exists>f'. Disk_write l n buf (f :: Disk) = Inr (n, f') \<and>
         Disk_read l n old f' = Inr (n, take (n * sectorSize f) buf @ drop (n * sectorSize f) old, f') \<and>
         (\<forall>k m b. diskRoom f k m \<and> m < 2 ^ 16 \<and> m * sectorSize f \<le> length b \<and> sectors k m \<inter> sectors l n = {} \<longrightarrow>
            (\<exists>x. Disk_read k m b f' = Inr (m, x, f') \<and> Disk_read k m b f = Inr (m, x, f)))))"
  using mem_disk.write_then_read [of d n buf old l] cow_disk.write_then_read [of c l n buf old]
    file_disk.write_then_read [of f l n buf old] assms by simp

definition demo_disk :: Disk where
  "demo_disk = snd (Disk_open Absent True 8 2 Disk_new)"

definition demo_mem :: TableDisk where
  "demo_mem = snd (MemDisk_open 8 2 CoWDisk_new)"

definition demo_cow :: TableDisk where
  "demo_cow = CoWDisk_new\<lparr>diskSize := 8, sectorSize := 2, diskOpen := True, diskFile := replicate 8 7\<rparr>"

lemma demo_disk_fields:
  "table_ok demo_mem" "sectorSize demo_mem = 2" "cow_ok demo_cow" "sectorSize demo_cow = 2" "disk_ok demo_disk"
  "sectorSize demo_disk = 2" "diskSize demo_disk = 8"
  by (simp_all add: demo_mem_def demo_cow_def demo_disk_def Disk_open_def MemDisk_open_def CoWDisk_new_def Disk_new_def
    table_ok_def cow_ok_def disk_ok_def)

theorem disk_roundtrip_witness:
  "(\<exists>d'. MemDisk_write 3 1 [1, 2] demo_mem = Inr (1, d') \<and> MemDisk_read 3 1 [0, 0, 9] d' = Inr (1, [1, 2, 9], d')) \<and>
   (\<exists>d'. CoWDisk_write 3 1 [1, 2] demo_cow = Inr (1, d') \<and> CoWDisk_read 3 1 [0, 0, 9] d' = Inr (1, [1, 2, 9], d')) \<and>
   (\<exists>d'. Disk_write 3 1 [1, 2] demo_disk = Inr (1, d') \<and> Disk_read 3 1 [0, 0, 9] d' = Inr (1, [1, 2, 9], d'))"
  using disk_roundtrip [of 1 demo_mem "[1, 2]" "[0, 0, 9]" 3 demo_cow demo_disk]
  by (auto simp: demo_disk_fields cowRoom_def diskRoom_def)

end
