(* ===== verification/NvmeSubsystem.thy ===== *)
theory NvmeSubsystem
  imports NvmeNamespace Disk
begin

text \<open>
  The subsystem as a whole (\<open>hil/nvme/subsystem.cc\<close>): the data of Identify (with
  \<open>Controller::identify\<close>), the log pages, and \<open>Subsystem::submitCommand\<close>, which dispatches a command
  to the admin commands of the theories before or to a namespace. Shown is how many answers every
  command gets, and that the device keeps the invariants of its parts.
\<close>

section \<open>Writing into a buffer\<close>

definition pokes :: "(nat \<times> u8 list) list \<Rightarrow> u8 list \<Rightarrow> u8 list res" where
  "pokes ws buf = foldE (\<lambda>(off, bs). memcpy off bs) ws buf"

definition ascii :: "string \<Rightarrow> u8 list" where
  "ascii s = map of_char s"

definition zeros :: "nat \<Rightarrow> u8 list" where
  "zeros n = replicate n 0"

section \<open>Identify Controller\<close>

text \<open>
  The stores of \<open>Controller::identify\<close> in their order, by the sections of the source; stores of zeros
  to adjacent bytes are joined. The unallocated capacity is stored over the total one.
\<close>

definition idCapabilities :: "u16 \<Rightarrow> u16 \<Rightarrow> bool \<Rightarrow> (nat \<times> u8 list) list" where
  "idCapabilities vid ssvid ocssd =
     [(0x0000, bytesLE 2 vid), (0x0002, bytesLE 2 ssvid), (0x0004, ascii ''00000000000000000000''),
      (0x0018, ascii (if ocssd then ''SimpleSSD OCSSD Controller by CAMELab   '' else ''SimpleSSD NVMe Controller by CAMELab    '')),
      (0x0040, ascii ''02.01.03''), (0x0048, zeros 8), (0x0050, [0x01, 0x04, 0x00, 0x00]), (0x0054, zeros 18),
      (0x0066, zeros 9), (0x006F, [0x01]), (0x0070, zeros 16), (0x0080, zeros 6), (0x0086, zeros 106), (0x00F0, zeros 16)]"

definition idAdminSet :: "bool \<Rightarrow> u64 \<Rightarrow> u64 \<Rightarrow> (nat \<times> u8 list) list" where
  "idAdminSet ocssd totalSize unallocated =
     [(0x0100, [if ocssd then 0x00 else 0x0A]), (0x0101, [0x00]), (0x0102, [0x03]), (0x0103, [0x03]), (0x0104, [0x00]),
      (0x0105, [0x01]), (0x0106, [0x63]), (0x0107, [0x00]), (0x0108, zeros 16),
      (0x0118, bytesLE 8 totalSize), (0x0120, zeros 8), (0x0118, bytesLE 8 unallocated), (0x0120, zeros 8),
      (0x0138, zeros 44), (0x0164, zeros 156)]"

definition idNvmSet :: "bool \<Rightarrow> (nat \<times> u8 list) list" where
  "idNvmSet writeCache =
     [(0x0200, [0x66]), (0x0201, [0x44]), (0x0202, zeros 2), (0x0204, bytesLE 4 (1024 :: u32)), (0x0208, [0x05, 0x00]),
      (0x020A, zeros 3), (0x020D, [(if writeCache then 0x01 else 0x00) OR 0x06]), (0x020E, zeros 8), (0x0216, zeros 2),
      (0x0218, [0x01, 0x00, 0x17, 0x00]), (0x021C, bytesLE 4 (0 :: u32)), (0x0220, zeros 224), (0x0300, zeros 0x100),
      (0x0300, ascii ''nqn.2014-08.org.nvmexpress:uuid:270a1c70-962c-4116-6f1e340b9321'' @ zeros 5),
      (0x0400, zeros 768), (0x0700, zeros 256)]"

definition idPower :: "(nat \<times> u8 list) list" where
  "idPower = [(0x0800, [0xC4, 0x09]), (0x0802, zeros 20), (0x0816, zeros 9), (0x0820, zeros 992), (0x0C00, zeros 1024)]"

text \<open>
  What the subsystem is given: vendor numbers, configuration, the count of used pages of a range
  (\<open>HIL::getUsedPageCount\<close>) and the byte an uninitialised flag happens to hold.
\<close>

record NvmeConfig =
  cf_vid :: u16
  cf_ssvid :: u16
  cf_useOCSSD :: bool
  cf_writeCache :: bool
  cf_wrrHigh :: u64
  cf_wrrMedium :: u64
  cf_maxCQ :: u32
  cf_maxSQ :: u32
  cf_used :: "LPNRange \<Rightarrow> u64"
  cf_junk :: bool

definition getNVMCapacity :: "Subsystem \<Rightarrow> u64 \<times> u64" where
  "getNVMCapacity s = (ss_totalLogicalPages s * ucast (ss_logicalPageSize s), ss_allocatedLogicalPages s * ucast (ss_logicalPageSize s))"

definition identifyController :: "NvmeConfig \<Rightarrow> Subsystem \<Rightarrow> u8 list \<Rightarrow> u8 list res" where
  "identifyController cf s buf =
     (let (totalSize, used) = getNVMCapacity s; unallocated = totalSize - used
      in pokes (idCapabilities (cf_vid cf) (cf_ssvid cf) (cf_useOCSSD cf) @ idAdminSet (cf_useOCSSD cf) totalSize unallocated @
                idNvmSet (cf_writeCache cf) @ idPower) buf)"

section \<open>Identify\<close>

definition lbaFormats :: "u32 list" where
  "lbaFormats = [0x02090000, 0x020A0000, 0x010B0000, 0x000C0000]"

definition namespaceData :: "NsInformation \<Rightarrow> (nat \<times> u8 list) list" where
  "namespaceData info =
     [(0, bytesLE 8 (ni_size info)), (8, bytesLE 8 (ni_capacity info)), (16, bytesLE 8 (ni_utilization info)), (24, [0x04]),
      (25, [of_nat nLBAFormat - 1]), (26, [ni_lbaFormatIndex info]), (28, [ni_dataProtectionSettings info]),
      (30, [ni_namespaceSharingCapabilities info]), (48, bytesLE 8 (ni_sizeInByteL info)), (56, bytesLE 8 (ni_sizeInByteH info))] @
     map (\<lambda>i. (128 + i * 4, bytesLE 4 (lbaFormats ! i))) [0..<nLBAFormat]"

definition fillIdentifyNamespace :: "u64 \<Rightarrow> u32 \<Rightarrow> NsInformation \<Rightarrow> u8 list \<Rightarrow> (u8 list \<times> NsInformation) res" where
  "fillIdentifyNamespace used lps info buf =
     guardE (ni_lbaSize info \<noteq> 0) (UB ''division by zero'')
       (let info1 = info\<lparr>ni_utilization := used * ucast lps div ucast (ni_lbaSize info)\<rparr>
        in bindE (pokes (namespaceData info1) buf) (\<lambda>buf1. Inr (buf1, info1)))"

text \<open>The loops over the namespaces: fill in the data of those that match, or list their identifiers.\<close>

fun fillMatching :: "(LPNRange \<Rightarrow> u64) \<Rightarrow> u32 \<Rightarrow> (Namespace \<Rightarrow> bool) \<Rightarrow> Namespace list \<Rightarrow> u8 list \<Rightarrow> (u8 list \<times> Namespace list) res" where
  "fillMatching used lps P [] buf = Inr (buf, [])"
| "fillMatching used lps P (x # xs) buf =
     (if P x
      then bindE (fillIdentifyNamespace (used (ni_range (ns_info x))) lps (ns_info x) buf) (\<lambda>(buf1, info).
           bindE (fillMatching used lps P xs buf1) (\<lambda>(buf2, ys). Inr (buf2, x\<lparr>ns_info := info\<rparr> # ys)))
      else bindE (fillMatching used lps P xs buf) (\<lambda>(buf2, ys). Inr (buf2, x # ys)))"

definition listNSIDs :: "(Namespace \<Rightarrow> bool) \<Rightarrow> Namespace list \<Rightarrow> u8 list \<Rightarrow> u8 list res" where
  "listNSIDs P xs = pokes (map (\<lambda>(i, x). (4 * i, bytesLE 4 (ns_nsid x))) (enumerate 0 (filter P xs)))"

text \<open>
  How a command is answered: at once; when the list of a new queue has been read; after data has been
  written to the host; after the HIL has formatted a range (erasing it or not); or by the namespace.
\<close>

datatype Reply =
    Immediate CQEntryWrapper
  | QueueReady CQEntryWrapper
  | SendData u64 "u8 list" CQEntryWrapper
  | AfterFormat LPNRange bool CQEntryWrapper
  | ByNamespace NsOutcome

definition identifyData :: "NvmeConfig \<Rightarrow> u32 \<Rightarrow> u32 \<Rightarrow> Subsystem \<Rightarrow> (u8 list \<times> Namespace list) option res" where
  "identifyData cf d nsid s =
     (let cns = d AND 0xFF; cntid = hi16 d; buf = zeros 0x1000; xs = ss_lNamespaces s;
          fill = (\<lambda>P. bindE (fillMatching (cf_used cf) (ss_logicalPageSize s) P xs buf) (\<lambda>r. Inr (Some r)));
          same = (\<lambda>m. bindE m (\<lambda>b. Inr (Some (b, xs))))
      in if cns = 0x00 then (if nsid = 0xFFFFFFFF then Inr (Some (buf, xs)) else fill (\<lambda>x. ns_attached x \<and> ns_nsid x = nsid))
         else if cns = 0x01 then same (identifyController cf s buf)
         else if cns = 0x02
         then (if nsid \<ge> 0xFFFFFFFE then Inr None else same (listNSIDs (\<lambda>x. ns_attached x \<and> ns_nsid x > nsid) xs buf))
         else if cns = 0x10
         then (if nsid \<ge> 0xFFFFFFFE then Inr None else same (listNSIDs (\<lambda>x. ns_nsid x > nsid) xs buf))
         else if cns = 0x11 then fill (\<lambda>x. ns_nsid x = nsid)
         else if (cns = 0x12 \<or> cns = 0x13) \<and> cntid = 0 then same (pokes [(0, bytesLE 2 (1 :: u16))] buf)
         else Inr (Some (buf, xs)))"

definition subIdentify :: "NvmeConfig \<Rightarrow> SQEntryWrapper \<Rightarrow> Subsystem \<Rightarrow> (Reply \<times> Subsystem) res" where
  "subIdentify cf req s =
     (let resp = CQEntryWrapper_new req
      in bindE (identifyData cf (sqe_dword10 (sqw_entry req)) (sqe_namespaceID (sqw_entry req)) s) (\<lambda>r.
           case r of
             None \<Rightarrow> Inr (Immediate (setStatus True 0 11 resp), s)
           | Some (buf, xs) \<Rightarrow> Inr (SendData 0 buf resp, s\<lparr>ss_lNamespaces := xs\<rparr>)))"

section \<open>Log pages\<close>

text \<open>
  \<open>getLogPage\<close> also says whether the command is processed: the health log of a namespace is answered
  here and then passed on to the namespace.
\<close>

definition subGetLogPage :: "u8 list \<Rightarrow> SQEntryWrapper \<Rightarrow> bool \<times> Reply" where
  "subGetLogPage health req =
     (let resp = CQEntryWrapper_new req; e = sqw_entry req; lid = lo16 (sqe_dword10 e);
          offset = push_bit 32 (ucast (sqe_dword13 e)) OR ucast (sqe_dword12 e)
      in if lid = 1 then (True, Immediate resp)
         else if lid = 2
         then (if sqe_namespaceID e = 0xFFFFFFFF then (True, SendData offset health resp) else (False, Immediate resp))
         else if lid = 3 then (True, Immediate resp)
         else (True, Immediate (setStatus True 1 9 resp)))"

section \<open>The device\<close>

record Device =
  dv_controller :: Controller
  dv_subsystem :: Subsystem
  dv_queueAllocated :: u32
  dv_globalHealth :: "u8 list"

text \<open>What the host has placed in its memory for a command: a namespace to create, a list of controllers.\<close>

record HostData =
  hd_info :: NsInformation
  hd_controllers :: "u16 list"

definition replies :: "Answer \<Rightarrow> Reply list" where
  "replies a = (case an_now a of None \<Rightarrow> [] | Some r \<Rightarrow> [Immediate r]) @ (case an_later a of None \<Rightarrow> [] | Some r \<Rightarrow> [QueueReady r])"

definition onController :: "Device \<Rightarrow> (Answer \<times> Controller) res \<Rightarrow> (bool \<times> Reply list \<times> Device) res" where
  "onController dv m = bindE m (\<lambda>(a, c). Inr (True, replies a, dv\<lparr>dv_controller := c\<rparr>))"

definition formatReply :: "SQEntryWrapper \<Rightarrow> CQEntryWrapper option \<Rightarrow> LPNRange option \<Rightarrow> Reply list" where
  "formatReply req now rng =
     (case now of Some r \<Rightarrow> [Immediate r] | None \<Rightarrow> []) @
     (case rng of Some g \<Rightarrow> [AfterFormat g (drop_bit 9 (sqe_dword10 (sqw_entry req) AND 0x0E00) = 1) (CQEntryWrapper_new req)] | None \<Rightarrow> [])"

definition usedBy :: "NvmeConfig \<Rightarrow> SQEntryWrapper \<Rightarrow> Subsystem \<Rightarrow> u64" where
  "usedBy cf req s =
     (case List.find (\<lambda>x. ns_nsid x = sqe_namespaceID (sqw_entry req)) (ss_lNamespaces s) of
        None \<Rightarrow> 0 | Some x \<Rightarrow> cf_used cf (ni_range (ns_info x)))"

text \<open>The admin commands: whether the command is processed, its answers, and the device after it.\<close>

definition adminCommand :: "NvmeConfig \<Rightarrow> tick \<Rightarrow> SQEntryWrapper \<Rightarrow> HostData \<Rightarrow> Device \<Rightarrow> (bool \<times> Reply list \<times> Device) res" where
  "adminCommand cf now req hst dv =
     (let opcode = sqe_opcode (sqw_entry req); c = dv_controller dv; s = dv_subsystem dv
      in if opcode = 0x00 then onController dv (subDeleteSQ now req c)
         else if opcode = 0x01 then onController dv (subCreateSQ req c)
         else if opcode = 0x02
         then (case subGetLogPage (dv_globalHealth dv) req of (processed, r) \<Rightarrow> Inr (processed, [r], dv))
         else if opcode = 0x04 then onController dv (subDeleteCQ req c)
         else if opcode = 0x05 then onController dv (subCreateCQ (cf_junk cf) req c)
         else if opcode = 0x06
         then bindE (subIdentify cf req s) (\<lambda>(r, s1). Inr (True, [r], dv\<lparr>dv_subsystem := s1\<rparr>))
         else if opcode = 0x08 then onController dv (subAbort now req c)
         else if opcode = 0x09
         then bindE (subSetFeatures (cf_maxCQ cf) (cf_maxSQ cf) req (dv_queueAllocated dv) c) (\<lambda>(a, n, c1).
                Inr (True, replies a, dv\<lparr>dv_controller := c1, dv_queueAllocated := n\<rparr>))
         else if opcode = 0x0A
         then Inr (True, replies (subGetFeatures (cf_wrrHigh cf) (cf_wrrMedium cf) (cf_writeCache cf) req (dv_queueAllocated dv) c), dv)
         else if opcode = 0x0D
         then bindE (namespaceManagement req (hd_info hst) s) (\<lambda>(r, s1). Inr (True, [Immediate r], dv\<lparr>dv_subsystem := s1\<rparr>))
         else if opcode = 0x15
         then (case namespaceAttachment req (hd_controllers hst) s of (r, s1) \<Rightarrow> Inr (True, [Immediate r], dv\<lparr>dv_subsystem := s1\<rparr>))
         else if opcode = 0x80
         then (case formatNVM now (usedBy cf req s) req s of (r, g, s1) \<Rightarrow> Inr (True, formatReply req r g, dv\<lparr>dv_subsystem := s1\<rparr>))
         else Inr (False, [], dv))"

text \<open>\<open>Subsystem::submitCommand\<close>.\<close>

definition Subsystem_submitCommand :: "NvmeConfig \<Rightarrow> tick \<Rightarrow> SQEntryWrapper \<Rightarrow> HostData \<Rightarrow> Device \<Rightarrow> (Reply list \<times> Device) res" where
  "Subsystem_submitCommand cf now req hst dv =
     (let s = dv_subsystem dv; dv1 = dv\<lparr>dv_subsystem := s\<lparr>ss_commandCount := ss_commandCount s + 1\<rparr>\<rparr>
      in bindE (if sqw_sqID req = 0 then adminCommand cf now req hst dv1 else Inr (False, [], dv1)) (\<lambda>(processed, rs, dv2).
           Inr (if processed then rs else rs @ [ByNamespace (routeCommand now req (dv_subsystem dv2))], dv2)))"

section \<open>Every command and its answers\<close>

text \<open>The entry an answer carries names the completion queue and the command it is for.\<close>

definition entryFor :: "SQEntryWrapper \<Rightarrow> CQEntryWrapper \<Rightarrow> bool" where
  "entryFor req r \<longleftrightarrow> cqw_cqID r = sqw_cqID req \<and> cqe_sqID (cqw_entry r) = sqw_sqID req \<and>
     cqe_commandID (cqw_entry r) = sqe_commandID (sqw_entry req)"

fun answers :: "SQEntryWrapper \<Rightarrow> Reply \<Rightarrow> bool" where
  "answers req (Immediate r) = entryFor req r"
| "answers req (QueueReady r) = entryFor req r"
| "answers req (SendData off bs r) = entryFor req r"
| "answers req (AfterFormat g er r) = entryFor req r"
| "answers req (ByNamespace out) = (case out of Respond r \<Rightarrow> entryFor req r | _ \<Rightarrow> True)"

lemma entryFor_new [simp]: "entryFor req (CQEntryWrapper_new req)"
  by (simp add: entryFor_def CQEntryWrapper_new_def)

lemma entryFor_set [simp]:
  "entryFor req (setStatus dnr sct sc r) = entryFor req r" "entryFor req (setResult v r) = entryFor req r"
  by (simp_all add: entryFor_def setStatus_def setResult_def)

lemma answers_route: "answers req (ByNamespace (routeCommand now req s))"
  by (auto simp: routeCommand_def Namespace_submitCommand_def nsGetLogPage_def nsFlush_def nsTransfer_def nsDatasetManagement_def Let_def
      split: option.split)

text \<open>The creations of queues that the controller refuses.\<close>

definition refused :: "SQEntryWrapper \<Rightarrow> Controller \<Rightarrow> bool" where
  "refused req c \<longleftrightarrow>
     (let e = sqw_entry req; qid = unat (lo16 (sqe_dword10 e)); cqid = unat (hi16 (sqe_dword11 e))
      in sqw_sqID req = 0 \<and> hi16 (sqe_dword10 e) + 1 \<le> maxQueueEntry c \<and>
         (sqe_opcode e = 0x05 \<and> nc_ppCQueue c ! qid \<noteq> None \<or>
          sqe_opcode e = 0x01 \<and> (nc_ppSQueue c ! qid \<noteq> None \<or> nc_ppCQueue c ! cqid = None)))"

definition healthOfNamespace :: "SQEntryWrapper \<Rightarrow> bool" where
  "healthOfNamespace req \<longleftrightarrow> sqw_sqID req = 0 \<and> sqe_opcode (sqw_entry req) = 0x02 \<and> lo16 (sqe_dword10 (sqw_entry req)) = 2 \<and>
     sqe_namespaceID (sqw_entry req) \<noteq> 0xFFFFFFFF"

lemma replies_pair [simp]:
  "replies \<lparr>an_now = Some r, an_later = None\<rparr> = [Immediate r]"
  "replies \<lparr>an_now = None, an_later = Some r\<rparr> = [QueueReady r]"
  "replies \<lparr>an_now = None, an_later = None\<rparr> = []"
  by (simp_all add: replies_def)

text \<open>Exactly one answer, for the command.\<close>

definition one_answer :: "SQEntryWrapper \<Rightarrow> Reply list \<Rightarrow> bool" where
  "one_answer req rs \<longleftrightarrow> (\<exists>r. rs = [r] \<and> answers req r)"

lemma one_answerI: "answers req r \<Longrightarrow> one_answer req [r]"
  by (simp add: one_answer_def)

lemma queue_commands_answer:
  "subDeleteSQ now req c = Inr (a, c') \<Longrightarrow> one_answer req (replies a)"
  "subDeleteCQ req c = Inr (a, c') \<Longrightarrow> one_answer req (replies a)"
  "subAbort now req c = Inr (a, c') \<Longrightarrow> one_answer req (replies a)"
  "subSetFeatures cqs sqs req n c = Inr (a, k, c') \<Longrightarrow> one_answer req (replies a)"
  "one_answer req (replies (subGetFeatures wh wm wc req n c))"
  by (auto simp: subDeleteSQ_def subDeleteCQ_def subAbort_def subSetFeatures_def subGetFeatures_def Let_def one_answerI
      split: if_splits prod.split)

lemma create_answer:
  assumes "sqw_sqID req = 0" and "sqe_opcode (sqw_entry req) = 0x01 \<and> subCreateSQ req c = Inr (a, c') \<or>
    sqe_opcode (sqw_entry req) = 0x05 \<and> subCreateCQ junk req c = Inr (a, c')"
  shows "if refused req c then replies a = [] else one_answer req (replies a)"
  using assms
  by (auto simp: refused_def subCreateSQ_def subCreateCQ_def createSQueue_def createCQueue_def ptrAt_def guardE_def Let_def one_answerI
      split: if_splits option.splits)

lemma namespace_commands_answer:
  "subIdentify cf req s = Inr (r, s') \<Longrightarrow> one_answer req [r]"
  "namespaceManagement req info s = Inr (w, s') \<Longrightarrow> one_answer req [Immediate w]"
  "namespaceAttachment req ctrls s = (w, s') \<Longrightarrow> one_answer req [Immediate w]"
  "formatNVM now used req s = (x, g, s') \<Longrightarrow> one_answer req (formatReply req x g)"
  by (auto simp: subIdentify_def namespaceManagement_def finishCreate_def createStatus_def namespaceAttachment_def formatNVM_def formatReply_def
      Let_def one_answerI split: if_splits option.splits)

lemma log_page_answer:
  "subGetLogPage health req = (processed, r) \<Longrightarrow> answers req r \<and>
     (processed \<longleftrightarrow> \<not> (lo16 (sqe_dword10 (sqw_entry req)) = 2 \<and> sqe_namespaceID (sqw_entry req) \<noteq> 0xFFFFFFFF))"
  by (auto simp: subGetLogPage_def Let_def split: if_splits)

text \<open>The admin commands, with the answer of the namespace still to come for those that are not processed.\<close>

lemma adminCommand_answers:
  assumes "sqw_sqID req = 0" and "adminCommand cf now req hst dv = Inr (processed, rs, dv')"
  shows "if refused req (dv_controller dv) then processed \<and> rs = []
         else if healthOfNamespace req then \<not> processed \<and> one_answer req rs
         else if processed then one_answer req rs else rs = []"
proof -
  let ?op = "sqe_opcode (sqw_entry req)"
  consider "?op \<in> {0x01, 0x05}" | "?op = 0x02" | "?op \<notin> {0x01, 0x02, 0x05}" by blast
  then show ?thesis
  proof cases
    case 1
    then have "processed \<and> (if refused req (dv_controller dv) then rs = [] else one_answer req rs)"
      using assms(2) create_answer [OF assms(1)]
      by (fastforce simp: adminCommand_def onController_def Let_def simp del: One_nat_def)
    then show ?thesis using 1 by (auto simp: healthOfNamespace_def)
  next
    case 2
    then show ?thesis
      using assms log_page_answer [of "dv_globalHealth dv" req]
      by (auto simp: adminCommand_def Let_def refused_def healthOfNamespace_def intro!: one_answerI split: prod.splits)
  next
    case 3
    then have "if processed then one_answer req rs else rs = []"
      using assms(2) unfolding adminCommand_def onController_def Let_def
      by (auto intro: queue_commands_answer namespace_commands_answer split: if_splits prod.splits)
    then show ?thesis using 3 by (auto simp: refused_def healthOfNamespace_def Let_def)
  qed
qed

lemma command_answers:
  assumes "Subsystem_submitCommand cf now req hst dv = Inr (rs, dv')"
  shows "length rs = (if refused req (dv_controller dv) then 0 else if healthOfNamespace req then 2 else 1)"
    and "\<forall>r\<in>set rs. answers req r"
proof -
  let ?dv1 = "dv\<lparr>dv_subsystem := (dv_subsystem dv)\<lparr>ss_commandCount := ss_commandCount (dv_subsystem dv) + 1\<rparr>\<rparr>"
  let ?route = "\<lambda>d. ByNamespace (routeCommand now req (dv_subsystem d))"
  have c: "dv_controller ?dv1 = dv_controller dv" by simp
  have "length rs = (if refused req (dv_controller dv) then 0 else if healthOfNamespace req then 2 else 1) \<and> (\<forall>r\<in>set rs. answers req r)"
  proof (cases "sqw_sqID req = 0")
    case True
    then obtain processed rs0 d where a: "adminCommand cf now req hst ?dv1 = Inr (processed, rs0, d)"
      and rs: "rs = (if processed then rs0 else rs0 @ [?route d])"
      using assms by (auto simp: Subsystem_submitCommand_def Let_def)
    show ?thesis using adminCommand_answers [OF True a] rs answers_route [of req now]
      unfolding c by (auto simp: one_answer_def split: if_splits)
  next
    case False
    then have "rs = [?route ?dv1]" using assms by (auto simp: Subsystem_submitCommand_def Let_def)
    then show ?thesis using False answers_route [of req now] by (simp add: refused_def healthOfNamespace_def Let_def)
  qed
  then show "length rs = (if refused req (dv_controller dv) then 0 else if healthOfNamespace req then 2 else 1)"
    and "\<forall>r\<in>set rs. answers req r" by blast+
qed

section \<open>The invariants of the device\<close>

definition nvme_ok :: "Device \<Rightarrow> bool" where
  "nvme_ok dv \<longleftrightarrow> ctrl_wf (dv_controller dv) \<and> subsystem_ok (dv_subsystem dv)"

lemma fillMatching_maps:
  assumes "fillMatching used lps P xs buf = Inr (b, ys)"
  shows "map rangeOf ys = map rangeOf xs" and "map ns_nsid ys = map ns_nsid xs"
  using assms
  by (induction xs arbitrary: buf b ys) (auto simp: fillIdentifyNamespace_def guardE_def Let_def split: if_splits)

lemma subIdentify_ok:
  assumes "subsystem_ok s" and "subIdentify cf req s = Inr (r, s')"
  shows "subsystem_ok s'"
proof -
  have "subsystem_ok (s\<lparr>ss_lNamespaces := ys\<rparr>)" if "identifyData cf d n s = Inr (Some (b, ys))" for d n b ys
    using that by (auto simp: identifyData_def Let_def fillMatching_maps assms(1) split: if_splits intro!: same_namespaces_ok)
  then show ?thesis using assms by (auto simp: subIdentify_def Let_def split: option.splits)
qed

lemma onController_ok:
  assumes "okE (\<lambda>(a, c). ctrl_wf c) m" and "subsystem_ok (dv_subsystem dv)" and "onController dv m = Inr (p, rs, dv')"
  shows "nvme_ok dv'"
  using assms by (cases m) (auto simp: onController_def nvme_ok_def)

lemma adminCommand_ok:
  assumes "nvme_ok dv" and a: "adminCommand cf now req hst dv = Inr (p, rs, dv')"
  shows "nvme_ok dv'"
proof -
  have c: "ctrl_wf (dv_controller dv)" and s: "subsystem_ok (dv_subsystem dv)" using assms(1) by (simp_all add: nvme_ok_def)
  note ctrl = sub_wf(1-5) [OF c, THEN onController_ok, OF s]
  have f: "ctrl_wf c'" if "subSetFeatures x y req n (dv_controller dv) = Inr (ans, k, c')" for x y n ans k c'
    using sub_wf(6) [OF c] that by (fastforce simp: okE_iff)
  have ns: "subsystem_ok s'" if "ns_exec cmd (dv_subsystem dv) = Inr s'" for cmd s'
    using ns_exec_ok [OF s, of cmd] that by simp
  show ?thesis
    using a ctrl f ns [of "Manage req (hd_info hst)"] ns [of "Attach req (hd_controllers hst)"]
      ns [of "Format now (usedBy cf req (dv_subsystem dv)) req"] subIdentify_ok [OF s] c s
    unfolding adminCommand_def Let_def
    by (auto simp: nvme_ok_def split: if_splits prod.splits)
qed

lemma submitCommand_ok:
  assumes "nvme_ok dv" and "Subsystem_submitCommand cf now req hst dv = Inr (rs, dv')"
  shows "nvme_ok dv'"
proof -
  let ?dv1 = "dv\<lparr>dv_subsystem := (dv_subsystem dv)\<lparr>ss_commandCount := ss_commandCount (dv_subsystem dv) + 1\<rparr>\<rparr>"
  have "nvme_ok ?dv1" using assms(1) by (simp add: nvme_ok_def subsystem_ok_def)
  then show ?thesis using assms(2) adminCommand_ok [of ?dv1]
    by (auto simp: Subsystem_submitCommand_def Let_def split: if_splits)
qed

lemma refused_keeps:
  assumes "refused req (dv_controller dv)" and "Subsystem_submitCommand cf now req hst dv = Inr (rs, dv')"
  shows "dv_controller dv' = dv_controller dv"
  using assms
  by (auto simp: refused_def Subsystem_submitCommand_def adminCommand_def onController_def subCreateSQ_def subCreateCQ_def
      createSQueue_def createCQueue_def ptrAt_def guardE_def Let_def split: if_splits option.splits)


text \<open>The health log of namespace 1 on a device that the driver has started.\<close>

definition demoConfig :: NvmeConfig where
  "demoConfig = \<lparr>cf_vid = 0x144D, cf_ssvid = 0x8086, cf_useOCSSD = False, cf_writeCache = True, cf_wrrHigh = 2, cf_wrrMedium = 2,
     cf_maxCQ = 1, cf_maxSQ = 1, cf_used = (\<lambda>_. 0), cf_junk = False\<rparr>"

definition demoHealth :: SQEntryWrapper where
  "demoHealth = SQEntryWrapper_new (SQEntry_new\<lparr>sqe_opcode := 0x02, sqe_namespaceID := 1, sqe_dword10 := 2\<rparr>) 0 0 0 0"

definition demoHost :: HostData where
  "demoHost = \<lparr>hd_info = demoInfo, hd_controllers = [0]\<rparr>"


end
