(* ===== verification/NvmeHost.thy ===== *)
theory NvmeHost
  imports NvmeSubsystem
begin

text \<open>
  The host above the rings (\<open>sil/nvme/nvme.cc\<close>, \<open>sil/nvme/prp.cc\<close>): the start-up of the driver from the
  first Identify to the creation of its I/O queues, and the translation of block requests into
  commands (\<open>Driver::submitIO\<close>). Shown are that the start-up ends with the numbers the device holds, and
  which bytes of the device a block request reaches.
\<close>

section \<open>Reading from a PRP buffer\<close>

text \<open>
  \<open>PRP::readData\<close>: the target of the copy and the offset are the same for every page, so the address
  of a second page is computed before its start (modulo \<open>2 ^ 64\<close>).
\<close>

definition readPage :: "u64 list \<Rightarrow> (u64 \<Rightarrow> u8) \<Rightarrow> nat \<Rightarrow> nat \<Rightarrow> nat \<Rightarrow> nat \<times> u8 list \<Rightarrow> (nat \<times> u8 list) res" where
  "readPage ptrList mem offset sz i st =
     (let (copied, buf) = st
      in guardE (i < length ptrList) (UB ''vector index'')
         (let ptr = ptrList ! i + (of_nat offset - of_nat (i * 4096));
              len = min ((i + 1) * 4096 - offset) (sz - copied)
          in bindE (memcpy 0 (map (\<lambda>k. mem (ptr + of_nat k)) [0..<len]) buf) (\<lambda>buf1. Inr (copied + len, buf1))))"

definition readData :: "u64 list \<Rightarrow> (u64 \<Rightarrow> u8) \<Rightarrow> nat \<Rightarrow> nat \<Rightarrow> u8 list \<Rightarrow> u8 list res" where
  "readData ptrList mem offset sz buf =
     bindE (foldE (readPage ptrList mem offset sz) [offset div 4096..<DIVCEIL (offset + sz) 4096] (0, buf)) (\<lambda>(copied, buf1). Inr buf1)"

lemma readData_page:
  assumes "0 < n" and "offset + n \<le> 4096" and "n \<le> length buf"
  shows "readData [p] mem offset n buf = Inr (map (\<lambda>k. mem (p + of_nat offset + of_nat k)) [0..<n] @ drop n buf)"
proof -
  have o: "offset div 4096 = 0" "DIVCEIL (offset + n) 4096 = 1" using assms(1,2) by (simp_all add: DIVCEIL_def)
  have m: "min (4096 - offset) n = n" using assms(2) by simp
  show ?thesis using assms(3) by (simp add: readData_def readPage_def o m memcpy_def add.assoc)
qed

section \<open>Commands of the driver\<close>

record DriverInfo =
  di_capacity :: u64
  di_LBAsize :: u32
  di_namespaceID :: u32

definition identifyCmd :: "u64 \<Rightarrow> u32 \<Rightarrow> u32 \<Rightarrow> SQEntry" where
  "identifyCmd prp1 nsid cns = SQEntry_new\<lparr>sqe_opcode := 0x06, sqe_namespaceID := nsid, sqe_data1 := prp1, sqe_dword10 := cns\<rparr>"

definition setQueuesCmd :: SQEntry where
  "setQueuesCmd = SQEntry_new\<lparr>sqe_opcode := 0x09, sqe_dword10 := 0x07, sqe_dword11 := 0\<rparr>"

definition ioEntries :: "u16 \<Rightarrow> u16" where
  "ioEntries maxQueueEntries = (if 1024 > maxQueueEntries then maxQueueEntries else 1024)"

definition createCQCmd :: "u16 \<Rightarrow> u64 \<Rightarrow> SQEntry" where
  "createCQCmd entries base =
     SQEntry_new\<lparr>sqe_opcode := 0x05, sqe_data1 := base, sqe_dword10 := push_bit 16 (ucast entries - 1) OR 0x0001, sqe_dword11 := 0x00010003\<rparr>"

definition createSQCmd :: "u16 \<Rightarrow> u64 \<Rightarrow> SQEntry" where
  "createSQCmd entries base =
     SQEntry_new\<lparr>sqe_opcode := 0x01, sqe_data1 := base, sqe_dword10 := push_bit 16 (ucast entries - 1) OR 0x0001, sqe_dword11 := 0x00010001\<rparr>"

text \<open>\<open>_init1\<close>: the number of namespaces in the list, and the first of them.\<close>

fun scanNSIDs :: "(nat \<Rightarrow> u32 res) \<Rightarrow> nat list \<Rightarrow> u32 \<Rightarrow> (nat \<times> u32) res" where
  "scanNSIDs rd [] first = Inr (1024, first)"
| "scanNSIDs rd (i # rest) first =
     bindE (rd i) (\<lambda>nsid. if nsid = 0 then Inr (i, first) else scanNSIDs rd rest (if i = 0 then nsid else first))"

definition init1 :: "u64 list \<Rightarrow> (u64 \<Rightarrow> u8) \<Rightarrow> u32 res" where
  "init1 ptrList mem =
     bindE (scanNSIDs (\<lambda>i. bindE (readData ptrList mem (i * 4) 4 (zeros 4)) (\<lambda>bs. Inr (ucast (leWord bs)))) [0..<1024] 0) (\<lambda>(n, first).
       if n = 0 then Inl (Panic ''This NVMe SSD does not have any namespaces.'') else Inr first)"

text \<open>\<open>_init2\<close>: size and block size of the namespace. The conversion of a power that is not an \<open>uint32_t\<close> is undefined.\<close>

definition init2 :: "u64 list \<Rightarrow> (u64 \<Rightarrow> u8) \<Rightarrow> u32 \<Rightarrow> DriverInfo res" where
  "init2 ptrList mem nsid =
     bindE (readData ptrList mem 0 8 (zeros 8)) (\<lambda>cap.
     bindE (readData ptrList mem 26 1 (zeros 1)) (\<lambda>fmt.
     bindE (readData ptrList mem (128 + unat (fmt ! 0) * 4) 4 (zeros 4)) (\<lambda>data.
       let ex = unat (drop_bit 16 (leWord data) AND 0xFF)
       in guardE (ex < 32) (UB ''conversion of a floating point number'')
            (Inr \<lparr>di_capacity = leWord cap * 2 ^ ex, di_LBAsize = 2 ^ ex, di_namespaceID = nsid\<rparr>))))"

section \<open>Start-up\<close>

text \<open>
  An admin command and its answer. A command without an answer leaves the driver waiting; an answer too
  many is one the driver has no command for.
\<close>

definition ask :: "NvmeConfig \<Rightarrow> HostData \<Rightarrow> SQEntry \<Rightarrow> Device \<Rightarrow> (Reply \<times> Device) res" where
  "ask cf hst cmd dv =
     bindE (Subsystem_submitCommand cf 0 (SQEntryWrapper_new cmd 0 0 0 0) hst dv) (\<lambda>(rs, dv1).
       case rs of [] \<Rightarrow> Inl Diverge | [r] \<Rightarrow> Inr (r, dv1) | _ \<Rightarrow> Inl (Panic ''Invalid interrupt''))"

text \<open>Host memory after the data of an answer has been written to the page at \<open>p\<close>, and the status the callback is given.\<close>

definition received :: "u64 \<Rightarrow> Reply \<Rightarrow> (u64 \<Rightarrow> u8) \<Rightarrow> u64 \<Rightarrow> u8" where
  "received p r mem =
     (case r of SendData off bs w \<Rightarrow> (\<lambda>a. if unat (a - p - off) < length bs then bs ! unat (a - p - off) else mem a) | _ \<Rightarrow> mem)"

fun replyEntry :: "Reply \<Rightarrow> CQEntryWrapper option" where
  "replyEntry (Immediate w) = Some w"
| "replyEntry (QueueReady w) = Some w"
| "replyEntry (SendData off bs w) = Some w"
| "replyEntry (AfterFormat g er w) = Some w"
| "replyEntry (ByNamespace out) = (case out of Respond w \<Rightarrow> Some w | _ \<Rightarrow> None)"

definition checked :: "string \<Rightarrow> Reply \<Rightarrow> unit res" where
  "checked msg r =
     (case replyEntry r of None \<Rightarrow> Inl Diverge | Some w \<Rightarrow> if drop_bit 1 (cqe_status (cqw_entry w)) = 0 then Inr () else Inl (Panic msg))"

text \<open>
  The chain of callbacks \<open>init\<close>, \<open>_init0\<close>, ..., \<open>_init5\<close>, for a buffer at \<open>p\<close> and I/O queues at \<open>cqBase\<close>
  and \<open>sqBase\<close>.
\<close>

definition startUp :: "NvmeConfig \<Rightarrow> HostData \<Rightarrow> u64 \<Rightarrow> u64 \<Rightarrow> u64 \<Rightarrow> u16 \<Rightarrow> (u64 \<Rightarrow> u8) \<Rightarrow> Device \<Rightarrow> (DriverInfo \<times> Device) res" where
  "startUp cf hst p cqBase sqBase maxQueueEntries mem dv =
     bindE (ask cf hst (identifyCmd p 0 0x01) dv) (\<lambda>(r0, dv).
     bindE (ask cf hst (identifyCmd p 0 0x02) dv) (\<lambda>(r1, dv).
     let mem1 = received p r1 (received p r0 mem)
     in bindE (init1 [p] mem1) (\<lambda>nsid.
        bindE (ask cf hst (identifyCmd p nsid 0x00) dv) (\<lambda>(r2, dv).
        bindE (init2 [p] (received p r2 mem1) nsid) (\<lambda>info.
        bindE (ask cf hst setQueuesCmd dv) (\<lambda>(r3, dv).
        bindE (ask cf hst (createCQCmd (ioEntries maxQueueEntries) cqBase) dv) (\<lambda>(r4, dv).
        bindE (checked ''Failed to create I/O Completion Queue'' r4) (\<lambda>_.
        bindE (ask cf hst (createSQCmd (ioEntries maxQueueEntries) sqBase) dv) (\<lambda>(r5, dv).
        bindE (checked ''Failed to create I/O Submission Queue'' r5) (\<lambda>_.
        Inr (info, dv)))))))))))"

section \<open>Block requests\<close>

datatype BIO_TYPE = BIO_READ | BIO_WRITE | BIO_FLUSH | BIO_TRIM

record BIO =
  bio_id :: u64
  bio_type :: BIO_TYPE
  bio_offset :: u64
  bio_length :: u64

text \<open>
  \<open>Driver::submitIO\<close>: the command for the I/O queue, and for a trim the range that is placed in the buffer.
  \<open>prp\<close> are the addresses of the buffer.
\<close>

definition bioBlocks :: "u32 \<Rightarrow> u64 \<Rightarrow> u32" where
  "bioBlocks lba len = ucast ((len - 1) div ucast lba + 1)"

definition submitIO :: "DriverInfo \<Rightarrow> u64 \<times> u64 \<Rightarrow> BIO \<Rightarrow> (SQEntry \<times> u8 list option) res" where
  "submitIO di prp b =
     guardE (di_LBAsize di \<noteq> 0) (UB ''division by zero'')
       (let slba = bio_offset b div ucast (di_LBAsize di); nlb = bioBlocks (di_LBAsize di) (bio_length b);
            cmd = SQEntry_new\<lparr>sqe_namespaceID := di_namespaceID di\<rparr>;
            rw = cmd\<lparr>sqe_dword10 := ucast slba, sqe_dword11 := ucast (drop_bit 32 slba), sqe_dword12 := nlb - 1,
                     sqe_data1 := fst prp, sqe_data2 := snd prp\<rparr>
        in Inr (case bio_type b of
             BIO_READ \<Rightarrow> (rw\<lparr>sqe_opcode := 0x02\<rparr>, None)
           | BIO_WRITE \<Rightarrow> (rw\<lparr>sqe_opcode := 0x01\<rparr>, None)
           | BIO_FLUSH \<Rightarrow> (cmd\<lparr>sqe_opcode := 0x00\<rparr>, None)
           | BIO_TRIM \<Rightarrow> (cmd\<lparr>sqe_opcode := 0x09, sqe_dword10 := 0, sqe_dword11 := 0x04, sqe_data1 := fst prp, sqe_data2 := snd prp\<rparr>,
                         Some (zeros 4 @ bytesLE 4 nlb @ bytesLE 8 slba))))"

section \<open>Bytes and words\<close>

lemma length_bytesLE [simp]: "length (bytesLE n w) = n"
  by (simp add: bytesLE_def)

lemma length_zeros [simp]: "length (zeros n) = n"
  by (simp add: zeros_def)

lemma bit_leWord: "bit (leWord bs) i \<longleftrightarrow> i < 64 \<and> i div 8 < length bs \<and> bit (bs ! (i div 8)) (i mod 8)"
proof (induction bs arbitrary: i)
  case Nil
  then show ?case by (simp add: leWord_def)
next
  case (Cons b bs)
  have step: "leWord (b # bs) = ucast b OR push_bit 8 (leWord bs)" by (simp add: leWord_def)
  show ?case
  proof (cases "i < 8")
    case True
    then show ?thesis by (auto simp: step bit_simps)
  next
    case False
    then obtain j where i: "i = j + 8" by (metis add.commute le_Suc_ex not_less)
    have "\<not> bit b (j + 8)" using bit_imp_le_length [of b "j + 8"] by auto
    then show ?thesis using Cons.IH [of j] by (auto simp: step i bit_simps)
  qed
qed

lemma leWord_bytesLE8: "leWord (bytesLE 8 (w :: u64)) = w"
  by (rule bit_eqI) (auto simp: bit_leWord bytesLE_def bit_simps less_mult_imp_div_less dest: bit_imp_le_length)

lemma leWord_bytesLE4: "leWord (bytesLE 4 (v :: u32)) = ucast v"
proof (rule bit_eqI)
  fix i
  show "bit (leWord (bytesLE 4 v)) i = bit (ucast v :: u64) i"
  proof (cases "i < 32")
    case True
    then have "i div 8 < 4" by (simp add: less_mult_imp_div_less)
    then show ?thesis using True by (auto simp: bit_leWord bytesLE_def bit_simps)
  next
    case False
    then show ?thesis by (auto simp: bit_leWord bit_simps dest: bit_imp_le_length)
  qed
qed

lemma ucast_back: "(ucast (ucast (v :: u32) :: u64) :: u32) = v"
  by (rule bit_eqI) (auto simp: bit_simps dest: bit_imp_le_length)

lemma halves_mask: "(0xFFFF0000 :: u32) = push_bit 16 (mask 16)" "(0xFFFF :: u32) = mask 16"
  by (simp_all add: mask_eq_exp_minus_1 push_bit_eq_mult)

lemma hi16_pack: "hi16 (push_bit 16 (ucast (x :: u16)) OR 1) = x"
  by (rule bit_eqI) (auto simp: hi16_def halves_mask(1) bit_simps dest: bit_imp_le_length)

lemma lo16_pack: "lo16 (push_bit 16 (ucast (x :: u16)) OR 1) = 1"
  by (rule bit_eqI) (auto simp: lo16_def halves_mask(2) bit_simps dest: bit_imp_le_length)

lemma ucast_pred: "x \<noteq> 0 \<Longrightarrow> (ucast (x :: u16) - 1 :: u32) = ucast (x - 1)"
proof -
  assume "x \<noteq> 0"
  then have x: "0 < unat x" by (simp add: unat_gt_0)
  have u: "unat (ucast y :: u32) = unat y" for y :: u16
  proof -
    have "unat y < 2 ^ 16" using unsigned_less [of y] by simp
    then show ?thesis by (simp add: unsigned_ucast_eq take_bit_nat_eq_self)
  qed
  then have "(ucast x :: u32) \<noteq> 0" using x by (metis unat_eq_zero less_irrefl u)
  then have "unat (ucast x - 1 :: u32) = unat x - 1" using u by (simp add: unat_minus_one)
  moreover have "unat (ucast (x - 1) :: u32) = unat x - 1" using u \<open>x \<noteq> 0\<close> by (simp add: unat_minus_one)
  ultimately show ?thesis by (metis unsigned_word_eqI)
qed

section \<open>Buffers after stores\<close>

lemma pokes_append: "pokes (ws @ vs) buf = bindE (pokes ws buf) (pokes vs)"
  by (simp add: pokes_def [abs_def] foldE_append)

lemma pokes_run:
  assumes "\<forall>(off, bs)\<in>set ws. off + length bs \<le> length buf"
  shows "\<exists>b. pokes ws buf = Inr b \<and> length b = length buf \<and>
    (\<forall>i<length buf. (\<forall>(off, bs)\<in>set ws. i \<notin> {off..<off + length bs}) \<longrightarrow> b ! i = buf ! i)"
  using assms
proof (induction ws arbitrary: buf)
  case Nil
  then show ?case by (simp add: pokes_def)
next
  case (Cons w ws)
  obtain off bs where w: "w = (off, bs)" by (cases w)
  let ?buf = "take off buf @ bs @ drop (off + length bs) buf"
  have l: "off + length bs \<le> length buf" using Cons.prems w by simp
  then have len: "length ?buf = length buf" by simp
  have same: "?buf ! i = buf ! i" if "i \<notin> {off..<off + length bs}" "i < length buf" for i
    using that l by (auto simp: nth_append min_def)
  obtain b where b: "pokes ws ?buf = Inr b" "length b = length ?buf"
      "\<forall>i<length ?buf. (\<forall>(off, bs)\<in>set ws. i \<notin> {off..<off + length bs}) \<longrightarrow> b ! i = ?buf ! i"
    using Cons.IH [of ?buf] Cons.prems len by fastforce
  have "pokes (w # ws) buf = Inr b" using b(1) l by (simp add: pokes_def w memcpy_def)
  then show ?case using b(2,3) len same w by auto
qed

lemma pokes_at:
  assumes "pokes (ws @ (off, bs) # vs) buf = Inr b" and "\<forall>(o', cs)\<in>set (ws @ (off, bs) # vs). o' + length cs \<le> length buf"
    and "\<forall>(o', cs)\<in>set vs. o' + length cs \<le> off \<or> off + length bs \<le> o'"
  shows "take (length bs) (drop off b) = bs"
proof -
  obtain b1 where b1: "pokes ws buf = Inr b1" "length b1 = length buf" using pokes_run [of ws buf] assms(2) by auto
  let ?b2 = "take off b1 @ bs @ drop (off + length bs) b1"
  have l: "off + length bs \<le> length b1" using assms(2) b1(2) by simp
  have "pokes ((off, bs) # vs) b1 = Inr b" using assms(1) b1(1) by (simp add: pokes_append)
  then have r: "pokes vs ?b2 = Inr b" using l by (simp add: pokes_def memcpy_def)
  obtain b' where b': "pokes vs ?b2 = Inr b'" "length b' = length ?b2"
      "\<forall>i<length ?b2. (\<forall>(o', cs)\<in>set vs. i \<notin> {o'..<o' + length cs}) \<longrightarrow> b' ! i = ?b2 ! i"
    using pokes_run [of vs ?b2] assms(2) b1(2) l by fastforce
  have eq: "b' = b" using r b'(1) by simp
  have "b ! (off + j) = bs ! j" if "j < length bs" for j
  proof -
    have "\<forall>(o', cs)\<in>set vs. off + j \<notin> {o'..<o' + length cs}" using assms(3) that by fastforce
    then show ?thesis using b'(3) that l unfolding eq by (simp add: nth_append)
  qed
  moreover have "length b = length b1" using b'(2) l eq by simp
  ultimately show ?thesis using l by (intro nth_equalityI) auto
qed

lemma received_read:
  assumes "length b = 4096" and "0 < n" and "off + n \<le> 4096"
  shows "readData [p] (received p (SendData 0 b w) mem) off n (zeros n) = Inr (take n (drop off b))"
proof -
  have "received p (SendData 0 b w) mem (p + of_nat off + of_nat k) = b ! (off + k)" if "k < n" for k
  proof -
    have "unat (of_nat off + of_nat k :: u64) = off + k"
      using that assms(3) by (simp flip: of_nat_add add: unsigned_of_nat take_bit_eq_mod)
    then show ?thesis using that assms by (simp add: received_def add.assoc)
  qed
  then have "map (\<lambda>k. received p (SendData 0 b w) mem (p + of_nat off + of_nat k)) [0..<n] = take n (drop off b)"
    using assms by (intro nth_equalityI) auto
  then show ?thesis using readData_page [OF assms(2,3), of "zeros n" p] by simp
qed

section \<open>The commands of the start-up\<close>

lemma identifyController_ok: "\<exists>b. identifyController cf s (zeros 4096) = Inr b \<and> length b = 4096"
proof -
  have "\<exists>b. pokes ws (zeros 4096) = Inr b \<and> length b = 4096"
    if "\<forall>(off, bs)\<in>set ws. off + length bs \<le> 4096" for ws
    using pokes_run [of ws "zeros 4096"] that by auto
  moreover have "\<forall>(off, bs)\<in>set (idCapabilities v w oc @ idAdminSet oc t u @ idNvmSet wc @ idPower). off + length bs \<le> 4096" for v w oc t u wc
    by (simp add: idCapabilities_def idAdminSet_def idNvmSet_def idPower_def ascii_def)
  ultimately show ?thesis by (simp add: identifyController_def Let_def split: prod.split)
qed

lemma listNSIDs_run:
  assumes "length pre = 4 * k" and "4 * length ys \<le> m"
  shows "pokes (map (\<lambda>(i, x). (4 * i, bytesLE 4 (ns_nsid x))) (enumerate k ys)) (pre @ zeros m) =
    Inr (pre @ concat (map (bytesLE 4 \<circ> ns_nsid) ys) @ zeros (m - 4 * length ys))"
  using assms
proof (induction ys arbitrary: pre k m)
  case Nil
  then show ?case by (simp add: pokes_def)
next
  case (Cons y ys)
  have z: "drop 4 (zeros m) = zeros (m - 4)" by (simp add: zeros_def)
  have "memcpy (4 * k) (bytesLE 4 (ns_nsid y)) (pre @ zeros m) = Inr ((pre @ bytesLE 4 (ns_nsid y)) @ zeros (m - 4))"
    using Cons.prems by (simp add: memcpy_def z)
  then show ?case using Cons.IH [of "pre @ bytesLE 4 (ns_nsid y)" "Suc k" "m - 4"] Cons.prems by (simp add: pokes_def)
qed

lemma listNSIDs_data:
  assumes "length (filter P xs) \<le> 1024"
  shows "\<exists>b. listNSIDs P xs (zeros 4096) = Inr b \<and> length b = 4096 \<and>
    take 4 b = (case filter P xs of [] \<Rightarrow> zeros 4 | x # _ \<Rightarrow> bytesLE 4 (ns_nsid x))"
proof -
  let ?b = "concat (map (bytesLE 4 \<circ> ns_nsid) (filter P xs)) @ zeros (4096 - 4 * length (filter P xs))"
  have "length (concat (map (bytesLE 4 \<circ> ns_nsid) ys)) = 4 * length ys" for ys by (induction ys) auto
  note len = this [of "filter P xs"]
  have "length ?b = 4096" unfolding length_append len using assms by simp
  moreover have "listNSIDs P xs (zeros 4096) = Inr ?b"
    using listNSIDs_run [of "[]" 0 "filter P xs" 4096] assms by (simp add: listNSIDs_def)
  moreover have "take 4 ?b = (case filter P xs of [] \<Rightarrow> zeros 4 | x # _ \<Rightarrow> bytesLE 4 (ns_nsid x))"
    by (cases "filter P xs") (simp_all add: zeros_def)
  ultimately show ?thesis by blast
qed

lemma scanNSIDs_rest:
  assumes "\<And>i. i \<in> set is \<Longrightarrow> 0 < i \<and> (\<exists>n. rd i = Inr n)"
  shows "\<exists>c>0. scanNSIDs rd is first = Inr (c, first)"
  using assms
proof (induction "is")
  case (Cons i js)
  obtain n where "rd i = Inr n" "0 < i" using Cons.prems [of i] by auto
  then show ?case using Cons.IH Cons.prems by auto
qed auto

lemma init1_page:
  assumes "length b = 4096"
  shows "init1 [p] (received p (SendData 0 b w) mem) =
    (if leWord (take 4 b) = 0 then Inl (Panic ''This NVMe SSD does not have any namespaces.'') else Inr (ucast (leWord (take 4 b))))"
proof -
  let ?rd = "\<lambda>i. bindE (readData [p] (received p (SendData 0 b w) mem) (i * 4) 4 (zeros 4)) (\<lambda>bs. Inr (ucast (leWord bs)) :: u32 res)"
  have rd: "?rd i = Inr (ucast (leWord (take 4 (drop (i * 4) b))))" if "i < 1024" for i
    using received_read [OF assms, of 4 "i * 4" p w mem] that by simp
  have z: "(ucast (leWord bs) :: u32) = 0 \<longleftrightarrow> leWord bs = 0" if "length bs = 4" for bs
  proof -
    have "i < 32 \<and> i < 64" if "bit (leWord bs) i" for i
      using that \<open>length bs = 4\<close> by (simp add: bit_leWord div_less_iff_less_mult)
    note h = this
    show ?thesis by (auto simp: bit_eq_iff bit_simps dest: h)
  qed
  obtain js where js: "[0..<1024] = 0 # js" "\<forall>i\<in>set js. 0 < i \<and> i < 1024"
    using upt_conv_Cons [of 0 1024] set_upt [of "Suc 0" 1024] by (simp del: upt_rec_numeral set_upt)
  then have "\<exists>c>0. scanNSIDs ?rd js f = Inr (c, f)" for f
    by (intro scanNSIDs_rest) (simp add: rd)
  then obtain c where "0 < c" "scanNSIDs ?rd js (ucast (leWord (take 4 b))) = Inr (c, ucast (leWord (take 4 b)))" by blast
  then show ?thesis unfolding init1_def js(1) using rd [of 0] z [of "take 4 b"] assms by auto
qed

text \<open>The data of the one namespace that has the identifier.\<close>

lemma fillMatching_none: "\<forall>x\<in>set xs. \<not> P x \<Longrightarrow> fillMatching used lps P xs buf = Inr (buf, xs)"
  by (induction xs arbitrary: buf) auto

lemma fillMatching_split:
  assumes "\<forall>y\<in>set as. \<not> P y" and "P x" and "\<forall>y\<in>set bs. \<not> P y"
    and "fillIdentifyNamespace (used (ni_range (ns_info x))) lps (ns_info x) buf = Inr (b, info)"
  shows "fillMatching used lps P (as @ x # bs) buf = Inr (b, as @ x\<lparr>ns_info := info\<rparr> # bs)"
  using assms by (induction as) (simp_all add: fillMatching_none)

definition lba_ok :: "NsInformation \<Rightarrow> bool" where
  "lba_ok info \<longleftrightarrow> unat (ni_lbaFormatIndex info) < nLBAFormat \<and> ni_lbaSize info = lbaSizes ! unat (ni_lbaFormatIndex info)"

lemma lba_ok_cases: "lba_ok info \<Longrightarrow> unat (ni_lbaFormatIndex info) \<in> {0, 1, 2, 3} \<and> ni_lbaSize info \<noteq> 0"
proof -
  assume ok: "lba_ok info"
  then have f: "unat (ni_lbaFormatIndex info) \<in> {0, 1, 2, 3}" by (auto simp: lba_ok_def nLBAFormat_def)
  then show ?thesis using ok by (auto simp: lba_ok_def lbaSizes_def)
qed

lemma fill_data:
  assumes "lba_ok info"
  shows "\<exists>b info'. fillIdentifyNamespace used lps info (zeros 4096) = Inr (b, info') \<and> length b = 4096 \<and>
    take 8 b = bytesLE 8 (ni_size info) \<and> take 1 (drop 26 b) = [ni_lbaFormatIndex info] \<and>
    take 4 (drop (128 + unat (ni_lbaFormatIndex info) * 4) b) = bytesLE 4 (lbaFormats ! unat (ni_lbaFormatIndex info))"
proof -
  let ?info = "info\<lparr>ni_utilization := used * ucast lps div ucast (ni_lbaSize info)\<rparr>"
  let ?f = "unat (ni_lbaFormatIndex info)"
  have r: "\<forall>(off, bs)\<in>set (namespaceData ?info). off + length bs \<le> length (zeros 4096)"
    by (simp add: namespaceData_def nLBAFormat_def)
  then obtain b where b: "pokes (namespaceData ?info) (zeros 4096) = Inr b" "length b = 4096"
    using pokes_run [of "namespaceData ?info" "zeros 4096"] by auto
  have at: "take (length bs) (drop off b) = bs"
    if "namespaceData ?info = ws @ (off, bs) # vs" "\<forall>(o', cs)\<in>set vs. o' + length cs \<le> off \<or> off + length bs \<le> o'" for ws off bs vs
    using pokes_at [of ws off bs vs "zeros 4096" b] b(1) r that by simp
  have "take 8 b = bytesLE 8 (ni_size info)"
    using at [of "[]" 0 "bytesLE 8 (ni_size info)" "tl (namespaceData ?info)"] by (simp add: namespaceData_def nLBAFormat_def)
  moreover have "take 1 (drop 26 b) = [ni_lbaFormatIndex info]"
    using at [of "take 5 (namespaceData ?info)" 26 "[ni_lbaFormatIndex info]" "drop 6 (namespaceData ?info)"]
    by (simp add: namespaceData_def nLBAFormat_def numeral_eq_Suc)
  moreover have "take 4 (drop (128 + ?f * 4) b) = bytesLE 4 (lbaFormats ! ?f)"
  proof -
    have "?f \<in> {0, 1, 2, 3}" using lba_ok_cases [OF assms] by blast
    then show ?thesis
      using at [of "take (10 + ?f) (namespaceData ?info)" "128 + ?f * 4" "bytesLE 4 (lbaFormats ! ?f)" "drop (11 + ?f) (namespaceData ?info)"]
      by (auto simp: namespaceData_def nLBAFormat_def numeral_eq_Suc)
  qed
  moreover have "fillIdentifyNamespace used lps info (zeros 4096) = Inr (b, ?info)"
    using b(1) lba_ok_cases [OF assms] by (simp add: fillIdentifyNamespace_def)
  ultimately show ?thesis using b(2) by blast
qed

lemma init2_page:
  assumes "lba_ok info" and "length b = 4096" and "take 8 b = bytesLE 8 (ni_size info)" and "take 1 (drop 26 b) = [ni_lbaFormatIndex info]"
    and "take 4 (drop (128 + unat (ni_lbaFormatIndex info) * 4) b) = bytesLE 4 (lbaFormats ! unat (ni_lbaFormatIndex info))"
  shows "init2 [p] (received p (SendData 0 b w) mem) nsid =
    Inr \<lparr>di_capacity = ni_size info * ucast (ni_lbaSize info), di_LBAsize = ni_lbaSize info, di_namespaceID = nsid\<rparr>"
proof -
  let ?f = "unat (ni_lbaFormatIndex info)"
  let ?m = "received p (SendData 0 b w) mem"
  have f: "?f \<in> {0, 1, 2, 3}" using lba_ok_cases [OF assms(1)] by blast
  have r: "readData [p] ?m 0 8 (zeros 8) = Inr (bytesLE 8 (ni_size info))" "readData [p] ?m 26 1 (zeros 1) = Inr [ni_lbaFormatIndex info]"
    "readData [p] ?m (128 + ?f * 4) 4 (zeros 4) = Inr (bytesLE 4 (lbaFormats ! ?f))"
    using received_read [OF assms(2), of 8 0 p w mem] received_read [OF assms(2), of 1 26 p w mem]
      received_read [OF assms(2), of 4 "128 + ?f * 4" p w mem] assms(3-5) f by auto
  have "unat (drop_bit 16 (ucast (lbaFormats ! ?f)) AND (0xFF :: u64)) = 9 + ?f" "ni_lbaSize info = 2 ^ (9 + ?f)"
    using f assms(1) by (auto simp: lbaFormats_def lba_ok_def lbaSizes_def)
  moreover have "(ucast (2 ^ (9 + ?f) :: u32) :: u64) = 2 ^ (9 + ?f)" using f by auto
  moreover have "9 + ?f < 32" using f by auto
  ultimately show ?thesis by (simp del: One_nat_def add: init2_def r leWord_bytesLE8 leWord_bytesLE4 Let_def)
qed

abbreviation sameDevice :: "Device \<Rightarrow> Device \<Rightarrow> bool" where
  "sameDevice dv dv' \<equiv> dv_controller dv' = dv_controller dv \<and>
     ss_lNamespaces (dv_subsystem dv') = ss_lNamespaces (dv_subsystem dv)"

lemmas ask_defs = ask_def Subsystem_submitCommand_def adminCommand_def SQEntryWrapper_new_def SQEntry_new_def Let_def

lemma ask_identify:
  assumes "identifyData cf cns nsid ((dv_subsystem dv)\<lparr>ss_commandCount := ss_commandCount (dv_subsystem dv) + 1\<rparr>) = Inr (Some (b, ys))"
  shows "\<exists>w dv1. ask cf hst (identifyCmd p nsid cns) dv = Inr (SendData 0 b w, dv1) \<and> dv_controller dv1 = dv_controller dv \<and>
    ss_lNamespaces (dv_subsystem dv1) = ys"
  using assms by (simp add: ask_defs identifyCmd_def subIdentify_def)

lemma ask_controller:
  "\<exists>b w dv1. ask cf hst (identifyCmd p 0 0x01) dv = Inr (SendData 0 b w, dv1) \<and> length b = 4096 \<and> sameDevice dv dv1"
proof -
  let ?s = "(dv_subsystem dv)\<lparr>ss_commandCount := ss_commandCount (dv_subsystem dv) + 1\<rparr>"
  obtain b where b: "identifyController cf ?s (zeros 4096) = Inr b" "length b = 4096" using identifyController_ok by blast
  then have "identifyData cf 0x01 0 ?s = Inr (Some (b, ss_lNamespaces (dv_subsystem dv)))" by (simp add: identifyData_def Let_def)
  from ask_identify [OF this] show ?thesis using b(2) by blast
qed

lemma ask_list:
  assumes "length (ss_lNamespaces (dv_subsystem dv)) \<le> 1024"
  shows "\<exists>b w dv1. ask cf hst (identifyCmd p 0 0x02) dv = Inr (SendData 0 b w, dv1) \<and> length b = 4096 \<and> sameDevice dv dv1 \<and>
    take 4 b = (case filter (\<lambda>x. ns_attached x \<and> ns_nsid x > 0) (ss_lNamespaces (dv_subsystem dv)) of [] \<Rightarrow> zeros 4 | x # _ \<Rightarrow> bytesLE 4 (ns_nsid x))"
proof -
  let ?s = "(dv_subsystem dv)\<lparr>ss_commandCount := ss_commandCount (dv_subsystem dv) + 1\<rparr>"
  let ?P = "\<lambda>x. ns_attached x \<and> ns_nsid x > 0" and ?xs = "ss_lNamespaces (dv_subsystem dv)"
  have "length (filter ?P ?xs) \<le> 1024" using assms length_filter_le [of ?P ?xs] by linarith
  then obtain b where b: "listNSIDs ?P ?xs (zeros 4096) = Inr b" "length b = 4096"
      "take 4 b = (case filter ?P ?xs of [] \<Rightarrow> zeros 4 | x # _ \<Rightarrow> bytesLE 4 (ns_nsid x))"
    using listNSIDs_data by blast
  then have "identifyData cf 0x02 0 ?s = Inr (Some (b, ?xs))" by (simp add: identifyData_def Let_def)
  from ask_identify [OF this] show ?thesis using b(2,3) by blast
qed

lemma ask_namespace:
  assumes "ss_lNamespaces (dv_subsystem dv) = as @ x # bs" and "\<forall>y\<in>set (as @ bs). ns_nsid y \<noteq> ns_nsid x"
    and "ns_attached x" and "ns_nsid x \<noteq> 0xFFFFFFFF" and "lba_ok (ns_info x)"
  shows "\<exists>r dv1. ask cf hst (identifyCmd p (ns_nsid x) 0x00) dv = Inr (r, dv1) \<and> dv_controller dv1 = dv_controller dv \<and>
    init2 [p] (received p r mem) (ns_nsid x) = Inr \<lparr>di_capacity = ni_size (ns_info x) * ucast (ni_lbaSize (ns_info x)),
      di_LBAsize = ni_lbaSize (ns_info x), di_namespaceID = ns_nsid x\<rparr>"
proof -
  let ?s = "(dv_subsystem dv)\<lparr>ss_commandCount := ss_commandCount (dv_subsystem dv) + 1\<rparr>"
  let ?P = "\<lambda>y. ns_attached y \<and> ns_nsid y = ns_nsid x" and ?lps = "ss_logicalPageSize (dv_subsystem dv)"
  obtain b info where b: "fillIdentifyNamespace (cf_used cf (ni_range (ns_info x))) ?lps (ns_info x) (zeros 4096) = Inr (b, info)"
      and d: "length b = 4096" "take 8 b = bytesLE 8 (ni_size (ns_info x))" "take 1 (drop 26 b) = [ni_lbaFormatIndex (ns_info x)]"
      "take 4 (drop (128 + unat (ni_lbaFormatIndex (ns_info x)) * 4) b) = bytesLE 4 (lbaFormats ! unat (ni_lbaFormatIndex (ns_info x)))"
    using fill_data [OF assms(5)] by blast
  have "fillMatching (cf_used cf) ?lps ?P (as @ x # bs) (zeros 4096) = Inr (b, as @ x\<lparr>ns_info := info\<rparr> # bs)"
    using assms(2,3) by (intro fillMatching_split b) auto
  then have "identifyData cf 0x00 (ns_nsid x) ?s = Inr (Some (b, as @ x\<lparr>ns_info := info\<rparr> # bs))"
    using assms(1,4) by (simp add: identifyData_def Let_def)
  from ask_identify [OF this] show ?thesis using init2_page [OF assms(5) d] by blast
qed

lemma ask_queues: "\<exists>r dv1. ask cf hst setQueuesCmd dv = Inr (r, dv1) \<and> dv_controller dv1 = dv_controller dv"
  by (simp add: ask_defs setQueuesCmd_def subSetFeatures_def)

text \<open>The creation of the I/O queues; \<open>c\<close> is a controller whose queues with number 1 do not exist yet.\<close>

lemma create_ids:
  "e \<noteq> 0 \<Longrightarrow> hi16 (push_bit 16 (ucast e - 1) OR 0x0001) + 1 = e" "e \<noteq> 0 \<Longrightarrow> lo16 (push_bit 16 (ucast e - 1) OR 0x0001) = 1"
  "hi16 0x00010003 = 1" "hi16 0x00010001 = 1"
  by (simp_all add: ucast_pred hi16_pack lo16_pack) (simp_all add: hi16_def)

lemma ask_createCQ:
  assumes "e \<noteq> 0" and "\<not> e > maxQueueEntry c" and "dv_controller dv = c" and "1 < length (nc_ppCQueue c)" and "nc_ppCQueue c ! 1 = None"
  shows "\<exists>r dv1 c1 q. ask cf hst (createCQCmd e base) dv = Inr (r, dv1) \<and> checked msg r = Inr () \<and> dv_controller dv1 = c1 \<and>
    nc_ppSQueue c1 = nc_ppSQueue c \<and> maxQueueEntry c1 = maxQueueEntry c \<and> length (nc_ppCQueue c1) = length (nc_ppCQueue c) \<and> nc_ppCQueue c1 ! 1 = Some q \<and>
    nq_size q = e \<and> cq_ien q \<and> cq_interruptVector q = 1"
  using assms
  by (simp add: ask_defs createCQCmd_def onController_def subCreateCQ_def create_ids createCQueue_def ptrAt_def setCQ_def checked_def
      CQEntryWrapper_new_def CQEntry_new_def maxQueueEntry_def CQueue_new_def setBase_def)

lemma ask_createSQ:
  assumes "e \<noteq> 0" and "\<not> e > maxQueueEntry c" and "dv_controller dv = c" and "1 < length (nc_ppCQueue c)" and "nc_ppCQueue c ! 1 \<noteq> None"
    and "1 < length (nc_ppSQueue c)" and "nc_ppSQueue c ! 1 = None"
  shows "\<exists>r dv1 c1 q. ask cf hst (createSQCmd e base) dv = Inr (r, dv1) \<and> checked msg r = Inr () \<and> dv_controller dv1 = c1 \<and>
    nc_ppSQueue c1 ! 1 = Some q \<and> nc_ppCQueue c1 = nc_ppCQueue c \<and> nq_size q = e \<and> sq_cqID q = 1"
  using assms
  by (auto simp: ask_defs createSQCmd_def onController_def subCreateSQ_def create_ids createSQueue_def ptrAt_def setSQ_def checked_def
      CQEntryWrapper_new_def CQEntry_new_def maxQueueEntry_def SQueue_new_def setBase_def)

lemma ask_ok: "ask cf hst cmd dv = Inr (r, dv1) \<Longrightarrow> nvme_ok dv \<Longrightarrow> nvme_ok dv1"
  using submitCommand_ok by (auto simp: ask_def split: list.splits)

lemma driverInit_entries:
  assumes "Controller_new n n m iv = Inr c" and "driverInit adm sqb cqb c = Inr (k, d)"
  shows "k = 4096"
proof -
  have "caps c = 0x0020002028010FFF" using assms(1) by (auto simp: Controller_new_def Registers_new_def)
  moreover obtain cap c1 where "readRegister 0 8 c = Inr (cap, c1)" "k = ucast (leWord cap AND 0xFFFF) + 1"
    using assms(2) by (auto simp: driverInit_def Let_def)
  ultimately have "k = ucast ((0x0020002028010FFF :: u64) AND 0xFFFF) + 1"
    by (auto simp: readRegister_def Let_def registersData_def leWord_bytesLE8)
  then show ?thesis by simp
qed

text \<open>The last commands of the chain, for a controller whose queues with number 1 do not exist.\<close>

lemma start_queues:
  assumes "maxQueueEntry c = 4096" and "dv_controller dv = c" and "1 < length (nc_ppCQueue c)" and "nc_ppCQueue c ! 1 = None"
    and "1 < length (nc_ppSQueue c)" and "nc_ppSQueue c ! 1 = None"
  shows "\<exists>r3 dv3 r4 dv4 r5 dv5 cq sq. ask cf hst setQueuesCmd dv = Inr (r3, dv3) \<and>
    ask cf hst (createCQCmd 1024 cqBase) dv3 = Inr (r4, dv4) \<and> checked ''Failed to create I/O Completion Queue'' r4 = Inr () \<and>
    ask cf hst (createSQCmd 1024 sqBase) dv4 = Inr (r5, dv5) \<and> checked ''Failed to create I/O Submission Queue'' r5 = Inr () \<and>
    nc_ppCQueue (dv_controller dv5) ! 1 = Some cq \<and> nq_size cq = 1024 \<and> cq_ien cq \<and> cq_interruptVector cq = 1 \<and>
    nc_ppSQueue (dv_controller dv5) ! 1 = Some sq \<and> nq_size sq = 1024 \<and> sq_cqID sq = 1"
proof -
  obtain r3 dv3 where 3: "ask cf hst setQueuesCmd dv = Inr (r3, dv3)" "dv_controller dv3 = c" using ask_queues assms(2) by metis
  obtain r4 dv4 c4 cq where 4: "ask cf hst (createCQCmd 1024 cqBase) dv3 = Inr (r4, dv4)" "checked ''Failed to create I/O Completion Queue'' r4 = Inr ()"
      "dv_controller dv4 = c4" "nc_ppSQueue c4 = nc_ppSQueue c" "maxQueueEntry c4 = maxQueueEntry c" "length (nc_ppCQueue c4) = length (nc_ppCQueue c)"
      "nc_ppCQueue c4 ! 1 = Some cq" "nq_size cq = 1024" "cq_ien cq" "cq_interruptVector cq = 1"
    using ask_createCQ [of 1024 c dv3 cf hst cqBase "''Failed to create I/O Completion Queue''"] assms(1,3,4) 3(2) by auto
  obtain r5 dv5 c5 sq where "ask cf hst (createSQCmd 1024 sqBase) dv4 = Inr (r5, dv5)" "checked ''Failed to create I/O Submission Queue'' r5 = Inr ()"
      "dv_controller dv5 = c5" "nc_ppSQueue c5 ! 1 = Some sq" "nc_ppCQueue c5 = nc_ppCQueue c4" "nq_size sq = 1024" "sq_cqID sq = 1"
    using ask_createSQ [of 1024 c4 dv4 cf hst sqBase "''Failed to create I/O Submission Queue''"] assms(1,3,5,6) 4(3-7) by auto
  moreover from this have "nc_ppCQueue (dv_controller dv5) ! 1 = Some cq" "nc_ppSQueue (dv_controller dv5) ! 1 = Some sq" using 4(7) by simp_all
  ultimately show ?thesis using 3(1) 4(1,2,8-10) by blast
qed

text \<open>
  C12. The start-up of the driver, over a controller started with any number of I/O queues and any table
  of namespaces (at most 1024, the attached ones with one of the four block sizes): it ends, and the
  driver then works on the attached namespace with the lowest number, with the block size and capacity
  the device holds for it; the device has the pair of I/O queues with number 1 and 1024 entries each,
  the submission queue bound to the completion queue, and is well formed. Without an attached
  namespace the driver panics.
\<close>

theorem driver_starts:
  assumes "Controller_new n n m iv = Inr c" and "0 < n" and "driverInit 256 sqBase cqBase c = Inr (k, d)" and "dv_controller dv = d"
    and "subsystem_ok (dv_subsystem dv)" and "length (ss_lNamespaces (dv_subsystem dv)) \<le> 1024"
    and "\<forall>x\<in>set (ss_lNamespaces (dv_subsystem dv)). ns_attached x \<longrightarrow> lba_ok (ns_info x)"
  shows "case filter ns_attached (ss_lNamespaces (dv_subsystem dv)) of
      [] \<Rightarrow> startUp cf hst p ioCQ ioSQ k mem dv = Inl (Panic ''This NVMe SSD does not have any namespaces.'')
    | x # _ \<Rightarrow> \<exists>dv' cq sq. startUp cf hst p ioCQ ioSQ k mem dv = Inr (\<lparr>di_capacity = ni_size (ns_info x) * ucast (ni_lbaSize (ns_info x)),
          di_LBAsize = ni_lbaSize (ns_info x), di_namespaceID = ns_nsid x\<rparr>, dv') \<and>
        nc_ppCQueue (dv_controller dv') ! 1 = Some cq \<and> nq_size cq = 1024 \<and> cq_ien cq \<and> cq_interruptVector cq = 1 \<and>
        nc_ppSQueue (dv_controller dv') ! 1 = Some sq \<and> nq_size sq = 1024 \<and> sq_cqID sq = 1 \<and> nvme_ok dv'"
proof -
  let ?xs = "ss_lNamespaces (dv_subsystem dv)" and ?P = "\<lambda>x. ns_attached x \<and> ns_nsid x > 0"
  obtain k' d' where d': "driverInit 256 sqBase cqBase c = Inr (k', d')" "ctrl_wf d'" "maxQueueEntry d' = 4096" "1 < length (nc_ppCQueue d')"
      "1 < length (nc_ppSQueue d')" "nc_ppCQueue d' ! 1 = None" "nc_ppSQueue d' ! 1 = None"
    using driverInit_wf [OF assms(1), of 256 sqBase cqBase] assms(2) by auto
  then have d: "d' = d" and wf: "ctrl_wf d" using assms(3) by auto
  have k: "ioEntries k = 1024" using driverInit_entries [OF assms(1,3)] by (simp add: ioEntries_def)
  have ok: "nvme_ok dv" using wf assms(4,5) by (simp add: nvme_ok_def)
  have flt: "filter ?P ?xs = filter ns_attached ?xs" using assms(5) by (intro filter_cong) (auto simp: subsystem_ok_def)
  obtain b0 w0 dv1 where 1: "ask cf hst (identifyCmd p 0 0x01) dv = Inr (SendData 0 b0 w0, dv1)" "sameDevice dv dv1"
    using ask_controller by blast
  obtain b w dv2 where 2: "ask cf hst (identifyCmd p 0 0x02) dv1 = Inr (SendData 0 b w, dv2)" "length b = 4096" "sameDevice dv1 dv2"
      "take 4 b = (case filter ns_attached ?xs of [] \<Rightarrow> zeros 4 | x # _ \<Rightarrow> bytesLE 4 (ns_nsid x))"
    using ask_list [of dv1 cf hst p] 1(2) assms(6) flt by auto
  let ?mem = "received p (SendData 0 b w) (received p (SendData 0 b0 w0) mem)"
  note page = init1_page [OF 2(2), of p w "received p (SendData 0 b0 w0) mem"]
  show ?thesis
  proof (cases "filter ns_attached ?xs")
    case Nil
    have "leWord (zeros 4) = 0" by (simp add: leWord_def zeros_def numeral_eq_Suc)
    then show ?thesis using 1(1) 2(1,4) page Nil by (simp add: startUp_def)
  next
    case (Cons x rest)
    obtain us vs where xs: "?xs = us @ x # vs" using Cons by (auto simp: filter_eq_Cons_iff)
    have x: "ns_attached x" "x \<in> set ?xs" using Cons by (auto simp: filter_eq_Cons_iff)
    have id: "0 < ns_nsid x" "ns_nsid x \<noteq> 0xFFFFFFFF" using assms(5) x(2) by (auto simp: subsystem_ok_def)
    have "sorted_wrt (<) (map ns_nsid (us @ x # vs))" using assms(5) xs by (simp add: subsystem_ok_def)
    then have others: "\<forall>y\<in>set (us @ vs). ns_nsid y \<noteq> ns_nsid x" by (auto simp: sorted_wrt_append)
    have one: "init1 [p] ?mem = Inr (ns_nsid x)"
      using page 2(4) Cons id(1) ucast_back [of "ns_nsid x"] by (auto simp: leWord_bytesLE4)
    obtain r2 dv3 where 3: "ask cf hst (identifyCmd p (ns_nsid x) 0x00) dv2 = Inr (r2, dv3)" "dv_controller dv3 = d"
        "init2 [p] (received p r2 ?mem) (ns_nsid x) = Inr \<lparr>di_capacity = ni_size (ns_info x) * ucast (ni_lbaSize (ns_info x)),
          di_LBAsize = ni_lbaSize (ns_info x), di_namespaceID = ns_nsid x\<rparr>"
      using ask_namespace [of dv2 us x vs cf hst p ?mem] 1(2) 2(3) xs others x assms(4,7) id(2) by auto
    obtain r3 dv4 r4 dv5 r5 dv6 cq sq where 4: "ask cf hst setQueuesCmd dv3 = Inr (r3, dv4)"
        "ask cf hst (createCQCmd 1024 ioCQ) dv4 = Inr (r4, dv5)" "checked ''Failed to create I/O Completion Queue'' r4 = Inr ()"
        "ask cf hst (createSQCmd 1024 ioSQ) dv5 = Inr (r5, dv6)" "checked ''Failed to create I/O Submission Queue'' r5 = Inr ()"
      and q: "nc_ppCQueue (dv_controller dv6) ! 1 = Some cq" "nq_size cq = 1024" "cq_ien cq" "cq_interruptVector cq = 1"
        "nc_ppSQueue (dv_controller dv6) ! 1 = Some sq" "nq_size sq = 1024" "sq_cqID sq = 1"
      using start_queues [OF d'(3) [unfolded d] 3(2) d'(4,6,5,7) [unfolded d], of cf hst ioCQ ioSQ] by blast
    have "nvme_ok dv6" using ok ask_ok 1(1) 2(1) 3(1) 4(1,2,4) by blast
    then show ?thesis using 1(1) 2(1) one 3(1,3) 4 q Cons k by (simp add: startUp_def)
  qed
qed

text \<open>One namespace of 4096 bytes per block.\<close>

definition demoBoot :: Subsystem where
  "demoBoot = demoDevice\<lparr>ss_lNamespaces := [demoSpace\<lparr>ns_info := demoInfo\<lparr>ni_lbaSize := 4096, ni_range := \<lparr>slpn = 0, nlp = 4096\<rparr>\<rparr>\<rparr>]\<rparr>"

theorem driver_starts_witness:
  "\<exists>dv dv' :: Device. ss_lNamespaces (dv_subsystem dv) = ss_lNamespaces demoBoot \<and>
     startUp demoConfig demoHost 0x10000 0x20000 0x30000 4096 (\<lambda>_. 0) dv =
       Inr (\<lparr>di_capacity = 16777216, di_LBAsize = 4096, di_namespaceID = 1\<rparr>, dv') \<and> nvme_ok dv'"
proof -
  obtain c where c: "Controller_new 1 1 4 100 = Inr c" by (simp add: Controller_new_def)
  obtain k d where d: "driverInit 256 0x1000 0x2000 c = Inr (k, d)" using driverInit_wf [OF c, of 256 "0x1000" "0x2000"] by blast
  let ?dv = "\<lparr>dv_controller = d, dv_subsystem = demoBoot, dv_queueAllocated = 0, dv_globalHealth = zeros 512\<rparr>"
  have k: "k = 4096" by (rule driverInit_entries [OF c d])
  have "subsystem_ok demoBoot" by (auto simp: demoBoot_def subsystem_ok_def demoDevice_def demoSpace_def pages_def)
  then have "\<exists>dv'. startUp demoConfig demoHost 0x10000 0x20000 0x30000 4096 (\<lambda>_. 0) ?dv =
       Inr (\<lparr>di_capacity = 16777216, di_LBAsize = 4096, di_namespaceID = 1\<rparr>, dv') \<and> nvme_ok dv'"
    using driver_starts [OF c _ d, of ?dv demoConfig demoHost "0x10000" "0x20000" "0x30000" "\<lambda>_. 0"] k
    by (auto simp: demoBoot_def demoDevice_def demoSpace_def demoInfo_def lba_ok_def nLBAFormat_def lbaSizes_def)
  then obtain dv' where "startUp demoConfig demoHost 0x10000 0x20000 0x30000 4096 (\<lambda>_. 0) ?dv =
       Inr (\<lparr>di_capacity = 16777216, di_LBAsize = 4096, di_namespaceID = 1\<rparr>, dv')" "nvme_ok dv'" by blast
  then show ?thesis by (intro exI [of _ ?dv] exI [of _ dv']) simp
qed

section \<open>From a block request to pages\<close>

lemma slba_split: "push_bit 32 (ucast (ucast (drop_bit 32 a) :: u32)) OR ucast (ucast a :: u32) = (a :: u64)"
proof (rule bit_eqI)
  fix i assume "possible_bit TYPE(64 word) i"
  then have "i < 64" by simp
  then show "bit (push_bit 32 (ucast (ucast (drop_bit 32 a) :: u32)) OR ucast (ucast a :: u32) :: u64) i = bit a i"
    by (cases "i < 32") (auto simp: bit_simps)
qed

lemma bioBlocks_value:
  assumes "0 < unat len" and "0 < unat lba" and "DIVCEIL (unat len) (unat lba) < 2 ^ 16"
  shows "unat (bioBlocks lba len) = DIVCEIL (unat len) (unat lba)"
proof -
  let ?B = "DIVCEIL (unat len) (unat lba)"
  have lc: "unat (ucast lba :: u64) = unat lba"
    using u32_bound [of lba] by (simp add: unsigned_ucast_eq take_bit_nat_eq_self)
  have "len \<noteq> 0" using assms(1) by auto
  then have d: "unat ((len - 1) div ucast lba) = (unat len - 1) div unat lba" by (simp add: unat_div lc unat_minus_one)
  then have "unat ((len - 1) div ucast lba + 1) = ?B"
    using assms(3) by (subst unat_add_u64) (simp_all add: DIVCEIL_def)
  then show ?thesis using assms(3) by (simp add: bioBlocks_def unsigned_ucast_eq take_bit_nat_eq_self)
qed

lemma nlb_value:
  assumes "0 < unat x" and "unat x < 2 ^ 16"
  shows "unat (ucast ((x - 1) AND 0xFFFF) + 1 :: u16) = unat (x :: u32)"
proof -
  have "x \<noteq> 0" using assms(1) by auto
  then have p: "unat (x - 1) = unat x - 1" by (simp add: unat_minus_one)
  have "unat ((x - 1) AND 0xFFFF) = unat x - 1"
    using assms(2) by (simp add: halves_mask(2) flip: take_bit_eq_mask) (simp add: unsigned_take_bit_eq p take_bit_nat_eq_self)
  then have "unat (ucast ((x - 1) AND 0xFFFF) :: u16) = unat x - 1"
    using assms(2) by (simp add: unsigned_ucast_eq take_bit_nat_eq_self)
  then show ?thesis using assms by (simp add: unat_word_ariths)
qed

text \<open>
  C4. From a block request to pages: a request of the block layer for bytes \<open>off\<close> to \<open>off + len\<close> (with \<open>len > 0\<close> and
  fewer than \<open>2 ^ 16\<close> blocks, without overflow) on an attached namespace. A flush becomes a flush. A trim
  becomes a trim of one range, the blocks from \<open>off div l\<close>, as many as \<open>len\<close> bytes need, with \<open>l\<close> the block size.
  A read or write becomes a transfer that the HIL is given as the bytes of just these blocks, counted
  from the start of the namespace. These contain the bytes of the request exactly when
  \<open>off mod l + len\<close> bytes fit into them: always for an aligned request, but for others the end may be cut off.
\<close>

theorem bio_reaches:
  assumes "List.find (\<lambda>x. ns_nsid x = di_namespaceID di) (ss_lNamespaces s) = Some ns" and "di_namespaceID di < 0xFFFFFFFF"
    and "ns_attached ns" and "ns_formatFinishedAt ns \<le> now" and "di_LBAsize di = ni_lbaSize (ns_info ns)" and "l = unat (di_LBAsize di)"
    and "unat (ss_logicalPageSize s) = r * l" and "0 < r" and "0 < l" and "off = unat (bio_offset b)" and "len = unat (bio_length b)" and "0 < len"
    and "blocks = DIVCEIL len l" and "blocks < 2 ^ 16" and "(off div l + blocks + r) * l + unat (slpn (rangeOf ns)) * (r * l) < 2 ^ 64"
  shows "\<exists>cmd data out. submitIO di prp b = Inr (cmd, data) \<and> routeCommand now (SQEntryWrapper_new cmd 1 1 h u) s = out \<and>
    (case bio_type b of
       BIO_FLUSH \<Rightarrow> out = FlushNs
     | BIO_TRIM \<Rightarrow> out = Trim 1 \<and> (\<exists>bs. data = Some bs \<and> unat (leWord (take 4 (drop 4 bs))) = blocks \<and> unat (leWord (drop 8 bs)) = off div l)
     | _ \<Rightarrow> \<exists>slba nlb req start. out = Transfer (if bio_type b = BIO_READ then NsRead else NsWrite) slba nlb \<and>
         convertUnit s ns slba (ucast nlb) = Inr req \<and>
         unat (slpn (hr_range req)) * (r * l) + unat (hr_offset req) = unat (slpn (rangeOf ns)) * (r * l) + start \<and>
         start = off - off mod l \<and> unat (hr_length req) = blocks * l \<and>
         ({off..<off + len} \<subseteq> {start..<start + unat (hr_length req)} \<longleftrightarrow> off mod l + len \<le> blocks * l))"
proof -
  let ?slba = "bio_offset b div ucast (di_LBAsize di)" and ?nlb = "bioBlocks (di_LBAsize di) (bio_length b)"
  let ?n = "ucast ((?nlb - 1) AND 0xFFFF) + 1 :: u16"
  have lc: "unat (ucast (di_LBAsize di) :: u64) = l"
    using u32_bound [of "di_LBAsize di"] assms(6) by (simp add: unsigned_ucast_eq take_bit_nat_eq_self)
  have sl: "unat ?slba = off div l" using assms(10) lc by (simp add: unat_div)
  have nb: "unat ?nlb = blocks" using bioBlocks_value [of "bio_length b" "di_LBAsize di"] assms(6,9,11-14) by simp
  have b0: "0 < blocks" using assms(13) by (simp add: DIVCEIL_def)
  have n: "unat ?n = blocks" using nlb_value [of ?nlb] nb b0 assms(14) by simp
  have nz: "?n \<noteq> 0" using n b0 by auto
  have un: "unat (ucast ?n :: u64) = blocks" using n assms(14) by (simp add: unsigned_ucast_eq take_bit_nat_eq_self)
  have lba: "di_LBAsize di \<noteq> 0" using assms(6,9) by auto
  obtain req where q: "convertUnit s ns ?slba (ucast ?n) = Inr req" "unat (hr_offset req) = off div l mod r * l" "unat (hr_length req) = blocks * l"
      "unat (slpn (hr_range req)) = unat (slpn (rangeOf ns)) + off div l div r"
    using convertUnit_words [of s r ns ?slba "ucast ?n"] assms(5-9,15) sl un by auto
  have "(off div l div r) * (r * l) + off div l mod r * l = (off div l div r * r + off div l mod r) * l" by (simp only: algebra_simps)
  then have st: "(off div l div r) * (r * l) + off div l mod r * l = off - off mod l" by (simp add: minus_mod_eq_div_mult)
  have addr: "unat (slpn (hr_range req)) * (r * l) + unat (hr_offset req) = unat (slpn (rangeOf ns)) * (r * l) + (off - off mod l)"
    unfolding q(2,4) add_mult_distrib using st by linarith
  have sub: "{off..<off + len} \<subseteq> {off - off mod l..<off - off mod l + unat (hr_length req)} \<longleftrightarrow> off mod l + len \<le> blocks * l"
    using assms(12) mod_less_eq_dividend [of off l] unfolding q(3) by auto
  note cmds = submitIO_def routeCommand_def Namespace_submitCommand_def SQEntryWrapper_new_def SQEntry_new_def Let_def not_less
  have rw: "\<exists>cmd. submitIO di prp b = Inr (cmd, None) \<and>
      routeCommand now (SQEntryWrapper_new cmd 1 1 h u) s = Transfer (if bio_type b = BIO_READ then NsRead else NsWrite) ?slba ?n"
    if "bio_type b \<in> {BIO_READ, BIO_WRITE}"
    using that assms(1-4) lba nz by (auto simp: cmds nsTransfer_def nlbOf_def slbaOf_def slba_split)
  show ?thesis
  proof (cases "bio_type b \<in> {BIO_READ, BIO_WRITE}")
    case True
    then show ?thesis using rw q(1,3) addr sub by (cases "bio_type b") (simp_all, metis+)
  next
    case False
    have "unat (ucast ?nlb :: u64) = blocks" using nb assms(14) by (simp add: unsigned_ucast_eq take_bit_nat_eq_self)
    then show ?thesis using False assms(1-4) lba sl
      by (cases "bio_type b") (simp_all add: cmds nsFlush_def nsDatasetManagement_def leWord_bytesLE4 leWord_bytesLE8)
  qed
qed

text \<open>A read of 512 bytes from byte 511 on reaches the first block only.\<close>

definition demoBio :: BIO where
  "demoBio = \<lparr>bio_id = 0, bio_type = BIO_READ, bio_offset = 511, bio_length = 512\<rparr>"

definition demoDriver :: DriverInfo where
  "demoDriver = \<lparr>di_capacity = 16777216, di_LBAsize = 512, di_namespaceID = 1\<rparr>"

theorem bio_reaches_witness:
  "\<exists>cmd data slba nlb req. submitIO demoDriver (0, 0) demoBio = Inr (cmd, data) \<and>
     routeCommand 0 (SQEntryWrapper_new cmd 1 1 0 0) demoDevice = Transfer NsRead slba nlb \<and>
     convertUnit demoDevice demoSpace slba (ucast nlb) = Inr req \<and> unat (hr_length req) = 512 \<and> \<not> {511..<1023} \<subseteq> {0..<unat (hr_length req)}"
proof -
  have f: "List.find (\<lambda>x. ns_nsid x = di_namespaceID demoDriver) (ss_lNamespaces demoDevice) = Some demoSpace" "di_namespaceID demoDriver < 0xFFFFFFFF"
    "ns_attached demoSpace" "ns_formatFinishedAt demoSpace \<le> 0" "di_LBAsize demoDriver = ni_lbaSize (ns_info demoSpace)" "512 = unat (di_LBAsize demoDriver)"
    "unat (ss_logicalPageSize demoDevice) = 8 * 512" "slpn (rangeOf demoSpace) = 0"
    "511 = unat (bio_offset demoBio)" "512 = unat (bio_length demoBio)" "bio_type demoBio = BIO_READ" "1 = DIVCEIL 512 512"
    by (simp_all add: demoDriver_def demoDevice_def demoSpace_def demoBio_def DIVCEIL_def)
  have "\<exists>cmd data out. submitIO demoDriver (0, 0) demoBio = Inr (cmd, data) \<and> routeCommand 0 (SQEntryWrapper_new cmd 1 1 0 0) demoDevice = out \<and>
     (\<exists>slba nlb req start. out = Transfer NsRead slba nlb \<and> convertUnit demoDevice demoSpace slba (ucast nlb) = Inr req \<and>
        start = (511 :: nat) - 511 mod 512 \<and> unat (hr_length req) = 1 * 512)"
    using bio_reaches [OF f(1-7) _ _ f(9,10) _ f(12), where prp = "(0, 0)" and h = 0 and u = 0] unfolding f(8,11) by fastforce
  then show ?thesis by fastforce
qed

end
