(* ===== verification/Spec2Isabelle.thy ===== *)
theory Spec2Isabelle
  imports FtlDemo Engine Hil NvmePrp NvmeArbiter NvmeHost
begin

text \<open>
  A verification of LGR, a full-system SSD simulator (SimpleSSD-Standalone with a flash translation
  layer that refreshes layers of 3D flash and separates hot from cold data).

  \<^bold>\<open>The program and how its parts interact.\<close> An I/O generator (\<open>src/igl\<close>) makes block requests, the block
  layer (\<open>src/bil\<close>) queues them, a driver (\<open>src/sil\<close>; the NVMe driver is the one modelled) turns them
  into commands in rings in host memory. The device (\<open>src/simplessd\<close>) is a stack: the NVMe controller
  (\<open>hil/nvme/controller.cc\<close>) fetches commands from the rings and posts completions, the subsystem
  (\<open>subsystem.cc\<close>) executes admin commands and passes the others to a namespace (\<open>namespace.cc\<close>), which
  asks the host interface layer HIL (\<open>hil/hil.cc\<close>) for pages; the HIL calls the internal cache layer
  ICL (\<open>icl/icl.cc\<close>), its write-back cache (\<open>icl/generic_cache.cc\<close>) calls the flash translation layer
  FTL (\<open>ftl/ftl.cc\<close>, \<open>ftl/page_mapping.cc\<close>), and this the flash timing model PAL. Layers below the HIL
  return the tick at which a request is done; everything asynchronous is an event of the engine
  (\<open>src/sim/engine.cc\<close>).

  \<^bold>\<open>How code becomes definitions.\<close> A class is a record, a method is a definition that takes the object
  and returns it updated. Every \<open>panic\<close>, exception and undefined behaviour is a value of \<open>error\<close>, results are
  \<open>error + 'a\<close> (\<open>res\<close>), so each is a branch of the model. Fields whose width matters are words
  (\<open>u8\<close>, \<open>u16\<close>, \<open>u32\<close>, \<open>u64\<close>) or naturals with the wrap-around written out. A loop is a fold or a
  recursive function; a loop whose end is not evident has fuel and is \<open>Inl Diverge\<close> without it.

  \<^bold>\<open>Theories.\<close>
  \<^item> \<open>Prelude\<close>: results, loops, the predicates \<open>okE\<close> and \<open>totE\<close> with their rules, association lists, and
    the locale \<open>service\<close> (an implementation refines a specification along every sequence of calls).
  \<^item> \<open>Bitset\<close> (\<open>util/bitset.cc\<close>), \<open>Block\<close> (\<open>ftl/common/block.cc\<close>), \<open>Float32\<close> (the \<open>float\<close>
    arithmetic of the sources).
  \<^item> The translation layer: \<open>FtlState\<close> (state, configuration and surroundings of \<open>PageMapping\<close>),
    \<open>FtlInv\<close> (its invariant: the table and the valid bits of the blocks agree), \<open>FtlAlloc\<close> (free and open
    blocks), \<open>FtlRefreshQueue\<close> (the queues of layers to refresh), \<open>FtlVictim\<close> (the choice of victims),
    \<open>FtlGc\<close> (garbage collection), \<open>FtlIo\<close> (read and write), \<open>FtlTrim\<close> (trim and format),
    \<open>FtlRefresh\<close> (the refresh event), \<open>FtlInit\<close> (construction, initial filling, class \<open>FTL\<close>),
    \<open>FtlProgress\<close> (operations that succeed), \<open>FtlSession\<close> (sessions that complete),
    \<open>FtlDemo\<close> (small devices on which the theorems are applied).
  \<^item> The cache: \<open>GenericCache\<close> (the whole class), \<open>CacheStore\<close> (the units it stores),
    \<open>CacheInv\<close>, \<open>CacheRead\<close>, \<open>CacheFlush\<close> (its operations keep the invariant), \<open>Icl\<close> (\<open>icl/icl.cc\<close>),
    \<open>IclProps\<close> (its properties).
  \<^item> \<open>Hil\<close> (\<open>hil/hil.cc\<close>), \<open>Engine\<close> (\<open>sim/engine.cc\<close>), \<open>Disk\<close> (\<open>util/disk.cc\<close>).
  \<^item> The NVMe interface: \<open>NvmeQueue\<close> (the rings, seen from both sides), \<open>NvmePrp\<close> (the lists of
    physical pages, from both sides), \<open>NvmeController\<close> (the controller), \<open>NvmeArbiter\<close> (what its arbitration
    gives), \<open>NvmeAdmin\<close> (commands on queues and features, and the invariants of the controller),
    \<open>NvmeNamespace\<close> (the allocation of namespaces and the commands on them), \<open>NvmeSubsystem\<close> (Identify, log
    pages, the dispatch of commands), \<open>NvmeHost\<close> (the start-up of the driver, block requests).

  \<^bold>\<open>What the theorems show.\<close>
  \<^item> The translation layer (this theory): along every sequence of commands and refresh events the mapped
    units are those of a specification by sets (C1), each in exactly one valid copy (C2). A device
    in range starts and completes every session that fits above the threshold of garbage collection (C3).
    Reads return (C5); what a trim and a format do (C6, C7); garbage collection and refresh keep what is
    mapped (C8, C9, C10); no block with valid data is erased (C11).
  \<^item> \<open>Engine\<close>: events fire in the order of their ticks (C13), nothing but an event function
    can fail (C14), the queue equals its reference (C15) and the engine refines a map (C16), and the main
    loop ends (C17).
  \<^item> \<open>IclProps\<close>: writes and flushes keep data (C18, C19), evictions make room (C20), reads and trims
    are exact (C21, C22) except that a read miss can drop dirty data (C23); requests are split without
    loss (C24).
  \<^item> \<open>Hil\<close>: each request is answered once and in time (C25).
  \<^item> \<open>Disk\<close>: three disks return what was written (C26).
  \<^item> Rings: completions and commands arrive exactly once and in order (C27, C29), errors of a poll (C28)
    and of the phase flag that two queues share (C30).
  \<^item> Pages: lists of up to one page round-trip (C31), longer ones do not (C32), transfers are exact (C33).
  \<^item> Controller: round robin equals its reference (C34), weighted round robin starves low priority (C35),
    the tables of queues stay well formed (C36), completions are posted once (C38).
  \<^item> Subsystem, namespaces and driver: the number of answers to each command (C37), namespaces never overlap
    (C39), blocks are converted exactly but without a check of the bounds (C40), the start-up of the driver
    ends (C12), and a block request reaches exactly the bytes of its blocks (C4).

  \<^bold>\<open>Interfaces.\<close> \<open>bit_container\<close> (interpreted on \<open>Bitset\<close>), \<open>block_allocator\<close> and
  \<open>open_block_source\<close> (on the free, hot, cold and cool allocators and on that of the refresh),
  \<open>unit_store\<close> (what the cache needs of the layer below; on the operations of \<open>FTL\<close>), \<open>agenda\<close> (on the event
  queue), \<open>sector_disk\<close> (on the three disks), \<open>counting\<close> (on the three counters of an arbitration pass), and
  \<open>service\<close>, on the initial filling in each mode, the FTL, the cache layer, the engine
  and the link between the two ends of a completion ring.

  \<^bold>\<open>Parameters.\<close> What a layer asks of code outside of the model is an argument: the flash timing, DRAM, CPU
  and error models answer as a function of the history of calls (\<open>env\<close>), the order of hash tables and
  \<open>std::sort\<close> are constrained by \<open>env_ok\<close>, random numbers are a list, the event functions of the
  engine, the file system of a disk and the host memory a command points to are functions.

  \<^bold>\<open>Fuel and bounds.\<close> A poll of a completion ring has \<open>2 ^ 17\<close> iterations, more than the \<open>2 ^ 16\<close> entries of any
  ring (C27, C28 show that it ends). Arbitration has one pass more than there are commands, as each pass
  but the last takes one (\<open>collectFuel\<close>; C34, C35). The driver fills as many entries of page lists as it
  has allocated pages (C31 shows that they are enough for one list). The main loop of the engine has the fuel of C17. The draws
  of a random victim end with the list of numbers, as the loop of the source need not end. The refresh
  queues have 64 layers per block, for blocks of 512 pages or more; the sessions of C3 assume a
  device within these tables and with fewer than \<open>2 ^ 32\<close> flash pages.

  \<^bold>\<open>Not modelled.\<close> The timing of flash, DRAM, CPU and DMA and the error model: floating point with \<open>pow\<close>,
  \<open>exp\<close> and interval maps, of which the layers above use only a tick or a rate. The vendored power models
  (\<open>lib/mcpat\<close>, \<open>lib/drampower\<close>). The open channel subsystem (\<open>ocssd.cc\<close>), SATA and UFS, which the
  driver here does not use. Scatter gather lists, and the callbacks that move the data of a
  command between host memory and disk. The I/O generators, the driver without a protocol, the queueing of the
  block layer, configuration parsing, statistics, logging and process start-up.
\<close>

section \<open>The flash translation layer as a whole\<close>

lemma ftl_run_serves:
  assumes "FTL_new e0 pp now = Inr (e, s)" and "env_ok e0" and "param_ok e" and "pools_fit e"
    and "foldE (ftl_exec e) cs s = Inr s'"
  shows "\<exists>warm inval. pagesToWarmup e = Inr warm \<and> pagesToInvalidate e warm = Inr inval \<and>
     serves e (fold (ftl_spec e) cs (fullPages e (warmPages e warm \<union> overwrittenPages e inval))) s'"
proof -
  obtain warm inval where "pagesToWarmup e = Inr warm" "pagesToInvalidate e warm = Inr inval"
    and s: "serves e (fullPages e (warmPages e warm \<union> overwrittenPages e inval)) s"
    using FTL_new_ok(2) [OF assms(1-4)] by blast
  moreover have "env_ok e" by (rule FTL_new_ok(1) [OF assms(1-4)])
  ultimately show ?thesis using ftl_service.run_result [OF _ assms(5)] by blast
qed

lemma serves_unique:
  assumes "serves e L s"
  shows "(l, i) \<in> L \<longleftrightarrow> (\<exists>!x. valid_at s (fst x) (snd x) i l)"
    and "valid_at s b p i l \<Longrightarrow> maps s l i = Some (b, p)"
proof -
  have inv: "ftl_inv e {} s" and L: "live e s = L" using assms by (auto simp: serves_def)
  note D = ftl_invD [OF inv]
  have mp: "maps s l i = Some (b, p)" if "valid_at s b p i l" for b p using D(4) [OF that] by blast
  show "(l, i) \<in> L \<longleftrightarrow> (\<exists>!x. valid_at s (fst x) (snd x) i l)"
  proof
    assume "(l, i) \<in> L"
    then obtain b p where m: "maps s l i = Some (b, p)" "isMapped e (b, p)" unfolding L [symmetric] live_def by auto
    then have "valid_at s b p i l" using D(6) [OF m(1)] by simp
    moreover have "x = (b, p)" if "valid_at s (fst x) (snd x) i l" for x using mp [OF that] m(1) by simp
    ultimately show "\<exists>!x. valid_at s (fst x) (snd x) i l" by (intro ex1I [of _ "(b, p)"]) simp_all
  next
    assume "\<exists>!x. valid_at s (fst x) (snd x) i l"
    then obtain b p where v: "valid_at s b p i l" by auto
    then show "(l, i) \<in> L" using mp [OF v] valid_at_isMapped [OF D(1) v] by (auto simp: L [symmetric] live_def)
  qed
  show "valid_at s b p i l \<Longrightarrow> maps s l i = Some (b, p)" by (rule mp)
qed

lemma demo_run_witness:
  obtains s s' where "FTL_new demo_env demo_pal 0 = Inr (demo_env, s)" and "foldE (ftl_exec demo_env) demo_session s = Inr s'"
proof -
  obtain e s s' where n: "FTL_new demo_env demo_pal 0 = Inr (e, s)" and r: "foldE (ftl_exec e) demo_session s = Inr s'"
    using demo_session_runs by (auto simp: demo_run_def totE_iff)
  then show ?thesis using that unfolding demo_new_serves(1) [OF n] by blast
qed

text \<open>
  C1. Refinement. A device that starts and then executes any sequence of reads, writes, trims,
  formats and refresh events without a panic maps exactly the logical units that the
  set-level specification computes from the commands, starting from the pages of the initial
  filling; garbage collection and refresh are invisible in it. Both the plain and the hot/cold
  separated mode are covered.
\<close>

theorem ftl_refines:
  assumes "FTL_new e0 pp now = Inr (e, s)" and "env_ok e0" and "param_ok e" and "pools_fit e"
    and "foldE (ftl_exec e) cs s = Inr s'"
  shows "\<exists>warm inval. pagesToWarmup e = Inr warm \<and> pagesToInvalidate e warm = Inr inval \<and>
     serves e (fold (ftl_spec e) cs (fullPages e (warmPages e warm \<union> overwrittenPages e inval))) s'"
  by (rule ftl_run_serves [OF assms])

theorem ftl_refines_witness:
  "\<exists>s s' warm inval. FTL_new demo_env demo_pal 0 = Inr (demo_env, s) \<and> foldE (ftl_exec demo_env) demo_session s = Inr s' \<and>
     serves demo_env (fold (ftl_spec demo_env) demo_session
       (fullPages demo_env (warmPages demo_env warm \<union> overwrittenPages demo_env inval))) s'"
proof -
  obtain s s' where n: "FTL_new demo_env demo_pal 0 = Inr (demo_env, s)" "foldE (ftl_exec demo_env) demo_session s = Inr s'"
    by (rule demo_run_witness)
  show ?thesis using ftl_refines [OF n(1) demo_env_ok(1) demo_param_ok(1) small_pools_fit(1) n(2)] n by blast
qed

text \<open>
  C2. Invariant. After start-up and any sequence of commands that does not panic, every logical
  unit has at most one valid copy in the flash blocks in use. It has one exactly when the mapping
  table maps the unit to a page of the device, and that page is where the copy is.
\<close>

theorem unique_copy:
  assumes "FTL_new e0 pp now = Inr (e, s)" and "env_ok e0" and "param_ok e" and "pools_fit e"
    and "foldE (ftl_exec e) cs s = Inr s'"
  shows "((\<exists>m. maps s' l i = Some m \<and> isMapped e m) \<longleftrightarrow> (\<exists>!x. valid_at s' (fst x) (snd x) i l)) \<and>
     (\<forall>b p. valid_at s' b p i l \<longrightarrow> maps s' l i = Some (b, p))"
proof -
  obtain L where L: "serves e L s'" using ftl_run_serves [OF assms] by blast
  have "(l, i) \<in> L \<longleftrightarrow> (\<exists>m. maps s' l i = Some m \<and> isMapped e m)"
    using L by (auto simp: serves_def live_def)
  then show ?thesis using serves_unique [OF L] by blast
qed

theorem unique_copy_witness:
  "\<exists>s s'. FTL_new demo_env demo_pal 0 = Inr (demo_env, s) \<and> foldE (ftl_exec demo_env) demo_session s = Inr s' \<and>
     (\<forall>b p. valid_at s' b p 0 1 \<longrightarrow> maps s' 1 0 = Some (b, p))"
proof -
  obtain s s' where n: "FTL_new demo_env demo_pal 0 = Inr (demo_env, s)" "foldE (ftl_exec demo_env) demo_session s = Inr s'"
    by (rule demo_run_witness)
  show ?thesis using unique_copy [OF n(1) demo_env_ok(1) demo_param_ok(1) small_pools_fit(1) n(2), of 1 0] n by blast
qed

text \<open>
  C3. Liveness. A device without hot/cold separation whose configuration is in range starts,
  performs its initial filling, and then completes every session of reads, writes and trims of
  fully mapped pages whose page writes fit into the room above the garbage collection threshold:
  no panic, no exception, no undefined behaviour, and the final mapping is the specified one.
\<close>

theorem session_completes:
  assumes "FTL_param pp (conf e0) = Inr p" and "e = e0\<lparr>param := p\<rparr>" and "device_ok e"
    and "wrap64 (totalLogicalBlocks p + pageCountToMaxPerf p) < totalPhysicalBlocks p"
    and "pagesToWarmup e = Inr warm" and "pagesToInvalidate e warm = Inr inval"
    and "L = fullPages e (warmPages e warm \<union> overwrittenPages e inval)"
    and "fits e (session_writes cs + inval + warm)" and "session_ok e L cs"
  shows "\<exists>s s'. FTL_new e0 pp now = Inr (e, s) \<and> foldE (ftl_exec e) cs s = Inr s' \<and>
     serves e (fold (ftl_spec e) cs L) s'"
proof -
  obtain s where s: "FTL_new e0 pp now = Inr (e, s)" and w: "at_work e (session_writes cs) L s"
    using FTL_new_total [OF assms(1-6,8), of now] assms(7) by (auto simp: totE_iff)
  obtain s' where "foldE (ftl_exec e) cs s = Inr s'" and "at_work e 0 (fold (ftl_spec e) cs L) s'"
    using session_total [of e 0 cs L s] w assms(9) by (auto simp: totE_iff)
  then show ?thesis using s by (auto simp: at_work_def)
qed

theorem session_completes_witness:
  "\<exists>s s'. FTL_new big_env big_pal 0 = Inr (big_env, s) \<and> foldE (ftl_exec big_env) [demo_write 3] s = Inr s' \<and>
     serves big_env {(3, 0)} s'"
proof -
  let ?p = "demo_param\<lparr>pagesInBlock := 512\<rparr>"
  have L: "{} = fullPages big_env (warmPages big_env 0 \<union> overwrittenPages big_env 0)"
    by (simp add: fullPages_def warmPages_def overwrittenPages_def demo_conf_def wrap32_def)
  have o: "wrap64 (totalLogicalBlocks ?p + pageCountToMaxPerf ?p) < totalPhysicalBlocks ?p"
    by (simp add: demo_param_def wrap64_def)
  have f: "fits big_env (session_writes [demo_write 3] + 0 + 0)"
    using big_fits by (simp add: session_writes_def cmd_writes_def demo_write_def fits_def)
  have ok: "session_ok big_env {} [demo_write 3]"
    by (simp add: cmd_ok_def demo_write_def demo_req_sized demo_param_def del: One_nat_def)
  show ?thesis
    using session_completes [OF big_FTL_param(1) big_FTL_param(2) [symmetric] big_device o big_fill L f ok, of 0]
    by (simp add: ftl_spec_def demo_write_def demo_req_sized big_units)
qed

section \<open>Operations of the mapping layer\<close>

text \<open>
  C5. A read never fails: in every state that serves L, for every request, it returns, and the
  state it leaves still serves L and has the same room for writes.
\<close>

theorem read_total:
  assumes "serves e L s"
  shows "\<exists>t' s'. ftlRead e req t s = Inr (t', s') \<and> serves e L s' \<and> capacity e s' = capacity e s"
  using ftlRead_total [OF assms, of req t] calm_keeps(3) by (auto simp: totE_iff)

theorem read_total_witness:
  "\<exists>s t' s'. ftlRead big_env (demo_req 7) 0 s = Inr (t', s') \<and> serves big_env {(7, 0)} s'"
proof -
  obtain s where "serves big_env {(7, 0)} s" using big_written [of 7] by (auto simp: at_work_def)
  from read_total [OF this] show ?thesis by blast
qed

text \<open>
  C6. Trim, error behaviour. Trimming a page that is in the mapping table succeeds, and removes
  exactly its units, if and only if all units of the page are mapped; if one is not, it panics
  with "Block is not in use".
\<close>

theorem trim_outcome:
  assumes "serves e L s" and "findMapping s (freq_lpn req) \<noteq> None"
  shows "if \<forall>i<bitsetSize e. (freq_lpn req, i) \<in> L
         then \<exists>t' s'. trimInternal e req t s = Inr (t', s') \<and> serves e {(l, i) \<in> L. l \<noteq> freq_lpn req} s'
         else trimInternal e req t s = Inl (Panic ''Block is not in use'')"
proof -
  obtain ml where ml: "findMapping s (freq_lpn req) = Some ml" using assms(2) by blast
  show ?thesis
  proof (cases "\<forall>i<bitsetSize e. (freq_lpn req, i) \<in> L")
    case True
    then show ?thesis using trimInternal_cases(1) [OF assms(1) ml, of t] by (auto simp: totE_iff)
  next
    case False
    then obtain i where "i < bitsetSize e" "(freq_lpn req, i) \<notin> L" by blast
    then show ?thesis using trimInternal_cases(2) [OF assms(1) ml, of i t] False by simp
  qed
qed

theorem trim_outcome_witness:
  "\<exists>s t' s'. serves big_env {(7, 0)} s \<and> trimInternal big_env (demo_req 7) 0 s = Inr (t', s') \<and>
     serves big_env {(l, i) \<in> {(7, 0)}. l \<noteq> 7} s'"
proof -
  obtain s where s: "serves big_env {(7, 0)} s" using big_written [of 7] by (auto simp: at_work_def)
  have "(7, 0) \<in> live big_env s" using s by (simp add: serves_def)
  then have m: "findMapping s (freq_lpn (demo_req 7)) \<noteq> None" by (auto simp: live_def maps_def demo_req_sized split: option.splits)
  have "bitsetSize big_env = 1" by (simp add: bitsetSize_def bRandomTweak_def demo_conf_def demo_param_def)
  then show ?thesis using trim_outcome [OF s m, of 0] s by (auto simp: demo_req_sized)
qed

text \<open>
  C7. Format: a format that returns has removed exactly the units of the pages in the range.
\<close>

theorem format_removes:
  assumes "env_ok e" and "serves e L s" and "ftlFormat e rng t s = Inr (t', s')"
  shows "serves e {(l, i) \<in> L. \<not> (slpn rng \<le> l \<and> l < slpn rng + nlp rng)} s'"
  using ftlFormat_ok [OF assms(1,2), of rng t] assms(3) by (simp add: inRange_def)

theorem format_removes_witness:
  "\<exists>L s t' s'. ftlFormat demo_env \<lparr>slpn = 0, nlp = 10\<rparr> 0 s = Inr (t', s') \<and>
     serves demo_env {(l, i) \<in> L. \<not> l < 10} s'"
proof -
  obtain s t' s' where r: "demo_run [demo_write 0, demo_write 1, demo_write 0] = Inr s"
    and f: "ftlFormat demo_env \<lparr>slpn = 0, nlp = 10\<rparr> 0 s = Inr (t', s')"
    using demo_format_runs by (auto simp: totE_iff)
  obtain L where L: "serves demo_env L s" using demo_run_serves [OF r] by blast
  have "serves demo_env {(l, i) \<in> L. \<not> l < 10} s'" using format_removes [OF demo_env_ok(1) L f] by simp
  then show ?thesis using f by blast
qed

text \<open>
  C8. Garbage collection that returns keeps every mapped unit mapped, maps no other, and takes
  every victim out of the blocks in use.
\<close>

theorem gc_keeps:
  assumes "env_ok e" and "serves e L s" and "doGarbageCollection e bs t r s = Inr (t', s')"
  shows "serves e L s' \<and> (\<forall>b\<in>set bs. findBlock s' b = None)"
  using doGarbageCollection_ok [OF assms(1), of "{}" s bs t r] assms doGarbageCollection_frees [OF assms(3)]
  by (auto simp: serves_def)

theorem gc_keeps_witness:
  "\<exists>L s t' s'. doGarbageCollection demo_env [0] 0 False s = Inr (t', s') \<and> serves demo_env L s' \<and> findBlock s' 0 = None"
proof -
  obtain s t' s' where r: "demo_run [demo_write 0, demo_write 1, demo_write 0] = Inr s"
    and g: "doGarbageCollection demo_env [0] 0 False s = Inr (t', s')"
    using demo_gc_runs by (auto simp: totE_iff)
  obtain L where L: "serves demo_env L s" using demo_run_serves [OF r] by blast
  show ?thesis using gc_keeps [OF demo_env_ok(1) L g] g by auto
qed

text \<open>C9. The same for the mapped units with hot/cold separation.\<close>

theorem sepGc_keeps:
  assumes "env_ok e" and "serves e L s" and "sepDoGarbageCollection e bs t r ty s = Inr (t', s')"
  shows "serves e L s'"
  using sepDoGarbageCollection_ok [OF assms(1), of "{}" s bs t r ty] assms by (auto simp: serves_def)

theorem sepGc_keeps_witness:
  "\<exists>L s t' s'. sepDoGarbageCollection sep_env [4] 0 False COLD s = Inr (t', s') \<and> serves sep_env L s'"
proof -
  obtain s t' s' where r: "sep_run [demo_write 0] = Inr s" and g: "sepDoGarbageCollection sep_env [4] 0 False COLD s = Inr (t', s')"
    using sep_gc_runs by (auto simp: totE_iff)
  obtain L where L: "serves sep_env L s" using sep_run_serves [OF r] by blast
  show ?thesis using sepGc_keeps [OF demo_env_ok(3) L g] g by blast
qed

text \<open>C10. A refresh event that returns moves data between blocks and leaves the mapped units as they are.\<close>

theorem refresh_keeps:
  assumes "env_ok e" and "serves e L s" and "refresh_event e t s = Inr s'"
  shows "serves e L s'"
  using refresh_event_ok [OF assms(1,2), of t] assms(3) by simp

theorem refresh_keeps_witness: "\<exists>L s s'. refresh_event demo_env 0 s = Inr s' \<and> serves demo_env L s'"
proof -
  obtain s s' where r: "demo_run [demo_write 0] = Inr s" and g: "refresh_event demo_env 0 s = Inr s'"
    using demo_refresh_runs by (auto simp: totE_iff)
  obtain L where L: "serves demo_env L s" using demo_run_serves [OF r] by blast
  show ?thesis using refresh_keeps [OF demo_env_ok(1) L g] g by blast
qed

text \<open>
  C11. Safety of erasing: whatever it is asked, \<open>eraseInternal\<close> never erases a block that holds a
  valid page: it panics, and the state is not changed.
\<close>

theorem erase_guard:
  assumes "findBlock s (preq_blockIndex req) = Some B" and "blk_shape B" and "blk_valid B p i"
    and "p < blk_pageCount B" and "i < blk_ioUnitInPage B"
  shows "eraseInternal e req t s = Inl (Panic ''There are valid pages in victim block'')"
proof -
  have "getValidPageCount B \<noteq> 0" using assms getValidPageCount_zero [OF assms(2)] by (auto simp: blk_empty_def)
  then show ?thesis using assms(1) by (simp add: eraseInternal_def guardE_def)
qed

theorem erase_guard_witness:
  "\<exists>s b. eraseInternal big_env (palReq b 0 (fullFlag big_env)) 0 s = Inl (Panic ''There are valid pages in victim block'')"
proof -
  obtain s where s: "serves big_env {(7, 0)} s" using big_written [of 7] by (auto simp: at_work_def)
  have inv: "ftl_inv big_env {} s" and "(7, 0) \<in> live big_env s" using s by (auto simp: serves_def)
  then obtain b p where m: "maps s 7 0 = Some (b, p)" "isMapped big_env (b, p)" by (auto simp: live_def)
  then have "valid_at s b p 0 7" using ftl_invD(6) [OF inv m(1)] by simp
  then obtain B where B: "findBlock s b = Some B" "p < blk_pageCount B" "0 < blk_ioUnitInPage B" "blk_valid B p 0"
    by (auto simp: valid_at_def split: option.splits)
  have "blk_shape B" by (rule blk_okD(2) [OF ftl_invD(7) [OF inv B(1)]])
  moreover have "findBlock s (preq_blockIndex (palReq b 0 (fullFlag big_env))) = Some B" using B(1) by (simp add: palReq_def)
  ultimately show ?thesis using erase_guard [OF _ _ B(4,2,3)] by blast
qed

text \<open>
  A flaw of formatting (and of garbage collection) without hot/cold separation. Blocks are
  erased and returned to the free list without checking that they are open for writing; the
  next write then finds its open block missing. On the small device: three writes, a format of
  everything, and the following write panics with "Corrupted".
\<close>

lemma format_then_write_panics:
  "demo_run [demo_write 0, demo_write 1, demo_write 0, CmdFormat \<lparr>slpn = 0, nlp = 10\<rparr> 0, demo_write 0] = Inl (Panic ''Corrupted'')"
proof -
  have "case demo_run [demo_write 0, demo_write 1, demo_write 0, CmdFormat \<lparr>slpn = 0, nlp = 10\<rparr> 0, demo_write 0]
    of Inl x \<Rightarrow> x = Panic ''Corrupted'' | Inr s \<Rightarrow> False" by code_simp
  then show ?thesis by (simp split: sum.splits)
qed

end
